(* ===== verification/Kernel_Prelude.thy ===== *)
theory Kernel_Prelude
  imports Main "HOL-Library.Word"
begin

unbundle bit_operations_syntax

text \<open>
  Shared vocabulary of the development: names for the machine integer types of
  \<^verbatim>\<open>include/base/types.h\<close>, the result type of fallible kernel calls, and generic facts on
  lists, options and words that several components use.
\<close>

section \<open>Machine integers\<close>

type_synonym u8 = "8 word"
type_synonym u16 = "16 word"
type_synonym u32 = "32 word"
type_synonym u64 = "64 word"

text \<open>
  Conversions between \<^verbatim>\<open>unsigned int\<close> and \<^verbatim>\<open>size_t\<close>, and the compound assignments
  \<^verbatim>\<open>x -= n\<close> and \<^verbatim>\<open>x += n\<close> of a 32-bit variable with a 64-bit operand: the operation is
  done at 64 bits and its result truncated.
\<close>

definition to_u64 :: "u32 \<Rightarrow> u64" where
  "to_u64 x = ucast x"

definition to_u32 :: "u64 \<Rightarrow> u32" where
  "to_u32 x = ucast x"

definition sub_count :: "u32 \<Rightarrow> u64 \<Rightarrow> u32" where
  "sub_count x n = to_u32 (to_u64 x - n)"

definition add_count :: "u32 \<Rightarrow> u64 \<Rightarrow> u32" where
  "add_count x n = to_u32 (to_u64 x + n)"

lemma unat_lt_u32 [simp]: "unat (x :: u32) < 4294967296"
  using unsigned_less [of x, where ?'a = nat] by simp

lemma unat_lt_u64 [simp]: "unat (x :: u64) < 18446744073709551616"
  using unsigned_less [of x, where ?'a = nat] by simp

lemma unat_of_nat_le: "n \<le> unat (x :: u64) \<Longrightarrow> unat (word_of_nat n :: u64) = n"
proof -
  assume "n \<le> unat x"
  then have "n < 18446744073709551616" using unat_lt_u64 [of x] by linarith
  then show ?thesis by (simp add: unsigned_of_nat take_bit_nat_eq_self)
qed

lemma unat_add_le: "unat a + unat b \<le> unat (x :: u64) \<Longrightarrow> unat (a + b :: u64) = unat a + unat b"
proof -
  assume "unat a + unat b \<le> unat x"
  then have "unat a + unat b < 18446744073709551616" using unat_lt_u64 [of x] by linarith
  then show ?thesis by (simp add: unat_word_ariths)
qed

lemma mod_wrap_once: "m \<le> z \<Longrightarrow> z - m < m \<Longrightarrow> z mod m = z - m" for z m :: nat
  by (simp add: le_mod_geq)

lemma unat_add_wrap:
  assumes "2 ^ 64 \<le> unat x + unat (y :: u64)"
  shows "unat (x + y) = unat x + unat y - 2 ^ 64"
proof -
  have "unat x + unat y - 18446744073709551616 < 18446744073709551616"
    using unat_lt_u64 [of x] unat_lt_u64 [of y] by linarith
  with mod_wrap_once [OF assms] have "(unat x + unat y) mod 2 ^ 64 = unat x + unat y - 2 ^ 64"
    by simp
  then show ?thesis by (simp add: unat_word_ariths)
qed

lemma unat_plus_one:
  assumes "unat (a :: 'a::len word) < unat (b :: 'a word)"
  shows "unat (a + 1) = unat a + 1"
proof -
  have "unat a + 1 < 2 ^ LENGTH('a)" using assms unsigned_less [of b, where ?'a = nat] by linarith
  then show ?thesis by (simp add: unat_word_ariths)
qed

lemma unat_to_u64 [simp]: "unat (to_u64 x) = unat x"
  by (simp add: to_u64_def unsigned_ucast_eq take_bit_eq_mod order.strict_trans [OF unat_lt_u32])

lemma unat_to_u32: "unat (to_u32 x) = unat x mod 2 ^ 32"
  by (simp add: to_u32_def unsigned_ucast_eq take_bit_eq_mod)

lemma unat_sub_count: "unat n \<le> unat x \<Longrightarrow> unat (sub_count x n) = unat x - unat n"
proof -
  assume le: "unat n \<le> unat x"
  then have "unat (to_u64 x - n) = unat x - unat n"
    by (simp add: unat_sub word_le_nat_alt)
  then show ?thesis
    by (simp add: sub_count_def unat_to_u32 less_imp_diff_less)
qed

lemma unat_add_count:
  assumes "unat x + unat n < 2 ^ 32"
  shows "unat (add_count x n) = unat x + unat n"
proof -
  have "unat (to_u64 x + n) = unat x + unat n"
    using assms by (subst unat_add_lem [THEN iffD1]) auto
  then show ?thesis using assms by (simp add: add_count_def unat_to_u32)
qed

section \<open>Collections of facts\<close>

named_theorems kernel_inv "facts that reduce a component invariant to its parts"
named_theorems kernel_step "defining equations of kernel operations"

section \<open>Lists\<close>

lemma append_eq_mid_distinct:
  assumes "distinct (xs @ x # ys)" and "xs @ x # ys = as @ x # bs"
  shows "xs = as \<and> ys = bs"
  using assms by (auto simp: append_eq_append_conv2 append_eq_Cons_conv Cons_eq_append_conv)

text \<open>The part after an element, then the part before it, is the same in every rotation.\<close>

lemma rotation_after:
  assumes "distinct (xs @ ys)" and "ys @ xs = us @ t # vs" and "xs @ ys = as @ t # bs"
  shows "vs @ us = bs @ as"
proof -
  have "t \<in> set xs \<or> t \<in> set ys" using assms(3) by (metis in_set_conv_decomp set_append UnE)
  then show ?thesis
  proof
    assume "t \<in> set ys"
    then obtain c d where ys: "ys = c @ t # d" by (meson split_list)
    have "distinct (c @ t # (d @ xs))" using assms(1) ys by auto
    with assms(2) ys have "c = us" "d @ xs = vs" using append_eq_mid_distinct [of c t "d @ xs"] by auto
    moreover have "distinct ((xs @ c) @ t # d)" using assms(1) ys by simp
    with assms(3) ys have "xs @ c = as" "d = bs" using append_eq_mid_distinct [of "xs @ c" t d] by auto
    ultimately show ?thesis by auto
  next
    assume "t \<in> set xs"
    then obtain c d where xs: "xs = c @ t # d" by (meson split_list)
    have "distinct ((ys @ c) @ t # d)" using assms(1) xs by auto
    with assms(2) xs have "ys @ c = us" "d = vs" using append_eq_mid_distinct [of "ys @ c" t d] by auto
    moreover have "distinct (c @ t # (d @ ys))" using assms(1) xs by simp
    with assms(3) xs have "c = as" "d @ ys = bs" using append_eq_mid_distinct [of c t "d @ ys"] by auto
    ultimately show ?thesis by auto
  qed
qed

lemma sum_list_remove_mid:
  "sum_list (map f (xs @ x # ys)) = f x + sum_list (map f (xs @ ys))" for f :: "'a \<Rightarrow> nat"
  by simp

lemma find_split:
  "find P xs = Some x \<longleftrightarrow>
     (\<exists>as bs. xs = as @ x # bs \<and> P x \<and> (\<forall>a \<in> set as. \<not> P a))"
proof (induction xs)
  case (Cons y ys)
  have "(\<exists>as bs. y # ys = as @ x # bs \<and> P x \<and> (\<forall>a \<in> set as. \<not> P a)) \<longleftrightarrow>
      (y = x \<and> P x) \<or>
      (\<not> P y \<and> (\<exists>as bs. ys = as @ x # bs \<and> P x \<and> (\<forall>a \<in> set as. \<not> P a)))"
    (is "?l \<longleftrightarrow> ?r")
  proof
    assume ?l then show ?r by (auto simp: Cons_eq_append_conv)
  next
    assume ?r then show ?l
    proof (elim disjE)
      assume "y = x \<and> P x"
      then show ?l by (intro exI [of _ "[]"] exI [of _ ys]) simp
    next
      assume "\<not> P y \<and> (\<exists>as bs. ys = as @ x # bs \<and> P x \<and> (\<forall>a \<in> set as. \<not> P a))"
      then obtain as bs where "\<not> P y" "ys = as @ x # bs" "P x" "\<forall>a \<in> set as. \<not> P a"
        by blast
      then show ?l by (intro exI [of _ "y # as"] exI [of _ bs]) simp
    qed
  qed
  with Cons.IH show ?case by auto
qed simp

section \<open>Fallible calls\<close>

text \<open>
  \<^verbatim>\<open>assert\<close> and \<^verbatim>\<open>PANIC\<close> of \<^verbatim>\<open>kernel/debug/assert.h\<close> stop the kernel. A call that walks
  pointers returns \<open>None\<close> when its loop does not end, \<open>Some (Inl Panicked)\<close> when it panics and
  \<open>Some (Inr v)\<close> when it returns \<open>v\<close>.
\<close>

datatype fault = Panicked

type_synonym 'a exec = "(fault + 'a) option"

text \<open>
  A call of type \<^verbatim>\<open>Result<T>\<close> returns \<open>Inr v\<close> or \<open>Inl e\<close>; the macro \<^verbatim>\<open>TRY\<close> of
  \<^verbatim>\<open>kernel/lib/result.h\<close> is the bind of this sum, as theory \<open>Kernel_Result\<close> shows for the
  result objects themselves.
\<close>

definition try_bind :: "'e + 'a \<Rightarrow> ('a \<Rightarrow> 'e + 'b) \<Rightarrow> 'e + 'b" where
  "try_bind r k = (case r of Inl e \<Rightarrow> Inl e | Inr v \<Rightarrow> k v)"

lemma try_bind_simps [simp]:
  "try_bind (Inl e) k = Inl e"
  "try_bind (Inr v) k = k v"
  by (simp_all add: try_bind_def)

lemma try_bind_eq_Inr:
  "try_bind r k = Inr w \<longleftrightarrow> (\<exists>v. r = Inr v \<and> k v = Inr w)"
  by (cases r) simp_all

lemma try_bind_eq_Inl:
  "try_bind r k = Inl e \<longleftrightarrow> r = Inl e \<or> (\<exists>v. r = Inr v \<and> k v = Inl e)"
  by (cases r) simp_all

end
