(* ===== verification/Intrusive_List.thy ===== *)
theory Intrusive_List
  imports Kernel_Prelude
begin

text \<open>
  The intrusive doubly linked ring of \<^verbatim>\<open>kernel/lib/list.h\<close>: \<^verbatim>\<open>ListNode\<close> holds a
  \<^verbatim>\<open>prev\<close> and a \<^verbatim>\<open>next\<close> pointer. The model keeps the pointers of all nodes in
  two maps over node addresses and performs the assignments of the source one after the
  other, so that aliasing between the nodes involved is visible. \<open>ring\<close> relates the pointers to
  the list of linked nodes, and the lemmas show what each operation does to that list.
\<close>

section \<open>Pointers and operations\<close>

record 'n links =
  prev :: "'n \<Rightarrow> 'n"
  "next" :: "'n \<Rightarrow> 'n"

definition set_prev :: "'n links \<Rightarrow> 'n \<Rightarrow> 'n \<Rightarrow> 'n links" where
  "set_prev h n v = h\<lparr>prev := (prev h)(n := v)\<rparr>"

definition set_next :: "'n links \<Rightarrow> 'n \<Rightarrow> 'n \<Rightarrow> 'n links" where
  "set_next h n v = h\<lparr>next := (next h)(n := v)\<rparr>"

definition list_node_init :: "'n links \<Rightarrow> 'n \<Rightarrow> 'n links" where
  "list_node_init h this = set_prev (set_next h this this) this this"

definition add_before :: "'n links \<Rightarrow> 'n \<Rightarrow> 'n \<Rightarrow> 'n links" where
  "add_before h this elm =
     (let h = set_prev h elm (prev h this);
          h = set_next h elm this;
          h = set_next h (prev h this) elm
      in set_prev h this elm)"

definition add_after :: "'n links \<Rightarrow> 'n \<Rightarrow> 'n \<Rightarrow> 'n links" where
  "add_after h this elm =
     (let h = set_prev h elm this;
          h = set_next h elm (next h this);
          h = set_prev h (next h this) elm
      in set_next h this elm)"

definition list_add :: "'n links \<Rightarrow> 'n \<Rightarrow> 'n \<Rightarrow> 'n links" where
  "list_add h this elm = add_after h this elm"

definition unlink :: "'n links \<Rightarrow> 'n \<Rightarrow> 'n links" where
  "unlink h this =
     (let h = set_next h (prev h this) (next h this);
          h = set_prev h (next h this) (prev h this);
          h = set_next h this this
      in set_prev h this this)"

definition list_empty :: "'n links \<Rightarrow> 'n \<Rightarrow> bool" where
  "list_empty h this \<longleftrightarrow> next h this = this"

text \<open>
  A range-based loop over a head: \<^verbatim>\<open>begin()\<close> is \<^verbatim>\<open>head.next\<close>, \<^verbatim>\<open>operator++\<close>
  follows \<^verbatim>\<open>next\<close> (\<^verbatim>\<open>prev\<close> in the reversed view) and \<^verbatim>\<open>end()\<close> is the head. The walk
  may not end when the pointers form no ring through the head, hence the option.
\<close>

partial_function (option) iterate_from :: "('n \<Rightarrow> 'n) \<Rightarrow> 'n \<Rightarrow> 'n \<Rightarrow> 'n list option" where
  "iterate_from step head cur =
     (if cur = head then Some []
      else Option.bind (iterate_from step head (step cur)) (\<lambda>ns. Some (cur # ns)))"

definition iterate :: "'n links \<Rightarrow> 'n \<Rightarrow> 'n list option" where
  "iterate h head = iterate_from (next h) head (next h head)"

definition iterate_reversed :: "'n links \<Rightarrow> 'n \<Rightarrow> 'n list option" where
  "iterate_reversed h head = iterate_from (prev h) head (prev h head)"

text \<open>
  \<^verbatim>\<open>CircularView\<close>: visit every node once, beginning at \<^verbatim>\<open>start\<close> (or at the first node
  when \<^verbatim>\<open>start\<close> is null) and skipping the head. \<open>None\<close> stands for the null pointer.
\<close>

definition circular_next :: "'n links \<Rightarrow> 'n \<Rightarrow> 'n \<Rightarrow> 'n \<Rightarrow> 'n option" where
  "circular_next h head start cur =
     (let nx = next h cur;
          nx = (if nx = head then next h nx else nx)
      in if nx = head \<or> nx = start then None else Some nx)"

definition circular_begin :: "'n links \<Rightarrow> 'n \<Rightarrow> 'n option \<Rightarrow> 'n option" where
  "circular_begin h head start =
     (let first = (case start of Some s \<Rightarrow> s | None \<Rightarrow> next h head);
          first = (if first = head then next h first else first)
      in if first = head then None else Some first)"

partial_function (option) circular_walk :: "'n links \<Rightarrow> 'n \<Rightarrow> 'n \<Rightarrow> 'n option \<Rightarrow> 'n list option" where
  "circular_walk h head start cur =
     (case cur of
        None \<Rightarrow> Some []
      | Some c \<Rightarrow> Option.bind (circular_walk h head start (circular_next h head start c))
                    (\<lambda>ns. Some (c # ns)))"

definition circular_from :: "'n links \<Rightarrow> 'n \<Rightarrow> 'n option \<Rightarrow> 'n list option" where
  "circular_from h head start =
     (case circular_begin h head start of
        None \<Rightarrow> Some []
      | Some first \<Rightarrow> circular_walk h head first (Some first))"

section \<open>Chains and rings\<close>

text \<open>
  \<open>chain h a xs\<close>: following \<^verbatim>\<open>next\<close> from \<open>a\<close> visits \<open>xs\<close>, with matching \<^verbatim>\<open>prev\<close>
  pointers. A ring closes the chain from its last node back to the head.
\<close>

fun chain :: "'n links \<Rightarrow> 'n \<Rightarrow> 'n list \<Rightarrow> bool" where
  "chain h a [] \<longleftrightarrow> True"
| "chain h a (x # xs) \<longleftrightarrow> next h a = x \<and> prev h x = a \<and> chain h x xs"

definition ring :: "'n links \<Rightarrow> 'n \<Rightarrow> 'n list \<Rightarrow> bool" where
  "ring h head xs \<longleftrightarrow>
     chain h head xs \<and> next h (last (head # xs)) = head \<and> prev h head = last (head # xs) \<and>
     distinct (head # xs)"

lemmas ptr_defs = set_prev_def set_next_def

lemma chain_append [simp]:
  "chain h a (xs @ ys) \<longleftrightarrow> chain h a xs \<and> chain h (last (a # xs)) ys"
  by (induction xs arbitrary: a) auto

lemma chain_cong:
  assumes "\<And>n. n \<in> set (butlast (a # xs)) \<Longrightarrow> next h' n = next h n"
    and "\<And>n. n \<in> set xs \<Longrightarrow> prev h' n = prev h n"
  shows "chain h' a xs = chain h a xs"
  using assms by (induction xs arbitrary: a) auto

lemma ring_distinct: "ring h head xs \<Longrightarrow> distinct (head # xs)"
  by (simp add: ring_def)

lemma ring_cong:
  assumes "\<And>n. n \<in> set (head # xs) \<Longrightarrow> next h' n = next h n"
    and "\<And>n. n \<in> set (head # xs) \<Longrightarrow> prev h' n = prev h n"
  shows "ring h' head xs = ring h head xs"
proof -
  have "chain h' head xs = chain h head xs"
    using assms by (intro chain_cong) (auto dest: in_set_butlastD split: if_splits)
  moreover have "next h' (last (head # xs)) = next h (last (head # xs))"
    using assms(1) by (metis last_in_set list.distinct(1))
  moreover have "prev h' head = prev h head"
    using assms(2) by simp
  ultimately show ?thesis by (simp add: ring_def)
qed

text \<open>The neighbours of a position of a ring.\<close>

lemma ring_at:
  assumes "ring h head (xs @ x # ys)"
  shows "prev h x = last (head # xs)" and "next h x = hd (ys @ [head])"
  using assms by (cases ys; auto simp: ring_def split: if_splits)+

lemma ring_head_links:
  assumes "ring h head xs"
  shows "prev h head = last (head # xs)" and "next h head = hd (xs @ [head])"
  using assms by (cases xs; auto simp: ring_def)+

subsection \<open>Closed forms of the pointer operations\<close>

lemma add_before_eq:
  "elm \<noteq> this \<Longrightarrow> add_before h this elm =
     h\<lparr>prev := (prev h)(elm := prev h this, this := elm),
       next := (next h)(elm := this, prev h this := elm)\<rparr>"
  by (simp add: add_before_def ptr_defs Let_def)

lemma add_after_eq:
  "elm \<noteq> this \<Longrightarrow> add_after h this elm =
     h\<lparr>prev := (prev h)(elm := this, next h this := elm),
       next := (next h)(elm := next h this, this := elm)\<rparr>"
  by (simp add: add_after_def ptr_defs Let_def)

lemma unlink_eq:
  "prev h this \<noteq> this \<Longrightarrow> next h this \<noteq> this \<Longrightarrow> unlink h this =
     h\<lparr>prev := (prev h)(next h this := prev h this, this := this),
       next := (next h)(prev h this := next h this, this := this)\<rparr>"
  by (simp add: unlink_def ptr_defs Let_def)

subsection \<open>Insertion and removal\<close>

lemma ring_insert:
  assumes r: "ring h head (xs @ ys)" and e: "e \<notin> set (head # xs @ ys)"
    and p: "p = last (head # xs)" and q: "q = hd (ys @ [head])"
  shows "ring (h\<lparr>prev := (prev h)(e := p, q := e), next := (next h)(e := q, p := e)\<rparr>)
           head (xs @ e # ys)" (is "ring ?h head _")
proof -
  have d: "distinct (head # xs @ ys)" using r by (rule ring_distinct)
  have pe: "p \<noteq> e" and qe: "q \<noteq> e"
    using e p q by (cases xs; cases ys; auto dest: last_in_set)+
  have pin: "p \<in> set (head # xs)" using p by simp
  have p_ys: "p \<notin> set ys" using pin d by auto
  have q_xs: "q \<notin> set xs" using q d by (cases ys) auto
  have p_bl: "p \<notin> set (butlast (head # xs))"
    using d p by (metis append_butlast_last_id distinct_append distinct_butlast list.distinct(1)
        not_distinct_conv_prefix distinct.simps(2) append_Cons)
  have xs_part: "chain ?h head xs"
  proof -
    have "chain ?h head xs = chain h head xs"
      using e p_bl q_xs by (intro chain_cong) (auto dest: in_set_butlastD split: if_splits)
    then show ?thesis using r by (simp add: ring_def)
  qed
  show ?thesis
  proof (cases ys)
    case Nil
    with xs_part r e pe q p d show ?thesis by (auto simp: ring_def)
  next
    case (Cons y ys')
    have y: "q = y" using q Cons by simp
    have "chain ?h y ys' = chain h y ys'"
      using d e Cons y p_ys by (intro chain_cong) (auto dest: in_set_butlastD split: if_splits)
    moreover have "chain h y ys'" using r Cons by (auto simp: ring_def)
    moreover have "next ?h (last (y # ys')) = head"
    proof -
      have "last (y # ys') \<in> set ys" using Cons by simp
      then have "last (y # ys') \<noteq> e" "last (y # ys') \<noteq> p" using e p_ys by auto
      then show ?thesis using r Cons by (auto simp: ring_def)
    qed
    moreover have "prev ?h head = last (y # ys')"
      using r Cons y d e by (auto simp: ring_def)
    ultimately show ?thesis
      using xs_part Cons y d e pe qe p by (auto simp: ring_def)
  qed
qed

lemma ring_add_before:
  assumes "ring h head (xs @ x # ys)" and "e \<notin> set (head # xs @ x # ys)"
  shows "ring (add_before h x e) head (xs @ e # x # ys)"
  using ring_insert [OF assms, of "prev h x" x] ring_at(1) [OF assms(1)] assms(2)
  by (auto simp: add_before_eq fun_upd_twist)

lemma ring_add_before_head:
  assumes "ring h head xs" and "e \<notin> set (head # xs)"
  shows "ring (add_before h head e) head (xs @ [e])"
  using ring_insert [of h head xs "[]" e "prev h head" head] ring_head_links(1) [OF assms(1)] assms
  by (auto simp: add_before_eq fun_upd_twist)

lemma ring_add_after:
  assumes "ring h head (xs @ x # ys)" and "e \<notin> set (head # xs @ x # ys)"
  shows "ring (add_after h x e) head (xs @ x # e # ys)"
  using ring_insert [of h head "xs @ [x]" ys e x "next h x"] ring_at(2) [OF assms(1)] assms
  by (auto simp: add_after_eq fun_upd_twist)

lemma ring_add_after_head:
  assumes "ring h head xs" and "e \<notin> set (head # xs)"
  shows "ring (add_after h head e) head (e # xs)"
  using ring_insert [of h head "[]" xs e head "next h head"] ring_head_links(2) [OF assms(1)] assms
  by (auto simp: add_after_eq fun_upd_twist)

lemma ring_add_after_last:
  assumes "ring h head xs" and "e \<notin> set (head # xs)"
  shows "ring (add_after h (last (head # xs)) e) head (xs @ [e])"
  using ring_add_after_head [of h head "[]" e] ring_add_after [of h head "butlast xs" "last xs" "[]" e]
    assms by (cases xs rule: rev_cases) auto

text \<open>Removing a node closes the ring around it and leaves the node linked to itself.\<close>

lemma ring_unlink:
  assumes r: "ring h head (xs @ x # ys)"
  shows "ring (unlink h x) head (xs @ ys)"
    and "ring (unlink h x) x []"
proof -
  let ?p = "last (head # xs)" and ?q = "hd (ys @ [head])"
  note pq = ring_at [OF r]
  have d: "distinct (head # xs @ x # ys)" using r by (rule ring_distinct)
  have px: "?p \<noteq> x" and qx: "?q \<noteq> x"
    using d by (cases xs; cases ys; auto dest: last_in_set)+
  have eq: "unlink h x = h\<lparr>prev := (prev h)(?q := ?p, x := x), next := (next h)(?p := ?q, x := x)\<rparr>"
    (is "_ = ?h")
    using unlink_eq [of h x] pq px qx by simp
  show "ring (unlink h x) x []" using eq by (simp add: ring_def)
  have pin: "?p \<in> set (head # xs)" by simp
  have p_ys: "?p \<notin> set ys" using pin d by auto
  have q_xs: "?q \<notin> set xs" using d by (cases ys) auto
  have p_bl: "?p \<notin> set (butlast (head # xs))"
  proof -
    have "distinct (butlast (head # xs) @ [last (head # xs)])"
      using d append_butlast_last_id [of "head # xs"] by auto
    then show ?thesis by simp
  qed
  have "chain ?h head xs = chain h head xs"
    using p_bl q_xs d by (intro chain_cong) (auto dest: in_set_butlastD split: if_splits)
  with r have xs_part: "chain ?h head xs" by (simp add: ring_def)
  show "ring (unlink h x) head (xs @ ys)"
  proof (cases ys)
    case Nil
    with xs_part px d eq show ?thesis by (auto simp: ring_def)
  next
    case (Cons y ys')
    have "chain ?h y ys' = chain h y ys'"
      using d Cons p_ys by (intro chain_cong) (auto dest: in_set_butlastD split: if_splits)
    moreover have "chain h y ys'" using r Cons by (auto simp: ring_def)
    moreover have "last (y # ys') \<in> set ys" using Cons by simp
    then have "last (y # ys') \<noteq> x" "last (y # ys') \<noteq> ?p" using d p_ys by auto
    moreover have "next h (last (y # ys')) = head \<and> prev h head = last (y # ys')"
      using r Cons by (auto simp: ring_def)
    ultimately show ?thesis
      using xs_part Cons d px eq by (auto simp: ring_def)
  qed
qed

text \<open>Operations on one ring do not touch another one.\<close>

lemma add_before_frame:
  assumes "elm \<noteq> this" and "n \<noteq> elm" "n \<noteq> this" "n \<noteq> prev h this"
  shows "next (add_before h this elm) n = next h n" "prev (add_before h this elm) n = prev h n"
  using assms by (simp_all add: add_before_eq)

lemma unlink_frame:
  assumes "ring h head (xs @ x # ys)" and "n \<notin> set (head # xs @ x # ys)"
  shows "next (unlink h x) n = next h n" "prev (unlink h x) n = prev h n"
proof -
  have "prev h x \<in> set (head # xs @ x # ys)" "next h x \<in> set (head # xs @ x # ys)"
    using ring_at [OF assms(1)] by (cases ys; auto)+
  moreover have "prev h x \<noteq> x" "next h x \<noteq> x"
    using ring_at [OF assms(1)] ring_distinct [OF assms(1)]
    by (cases xs; cases ys; auto dest: last_in_set)+
  ultimately show "next (unlink h x) n = next h n" "prev (unlink h x) n = prev h n"
    using assms(2) by (auto simp: unlink_eq)
qed

text \<open>Several rings share the pointers; an operation on one of them leaves the others alone.\<close>

lemma ring_unlink_other:
  assumes "ring h hd1 (xs @ x # ys)" and "ring h hd2 zs"
    and "set (hd1 # xs @ x # ys) \<inter> set (hd2 # zs) = {}"
  shows "ring (unlink h x) hd2 zs"
proof -
  have out: "n \<notin> set (hd1 # xs @ x # ys)" if "n \<in> set (hd2 # zs)" for n
    using assms(3) that by blast
  have "ring (unlink h x) hd2 zs = ring h hd2 zs"
    by (intro ring_cong unlink_frame [OF assms(1)] out)
  with assms(2) show ?thesis by simp
qed

lemma add_after_frame:
  assumes "e \<noteq> this" and "n \<noteq> e" "n \<noteq> this" "n \<noteq> next h this"
  shows "next (add_after h this e) n = next h n" "prev (add_after h this e) n = prev h n"
  using assms by (simp_all add: add_after_eq)

lemma ring_add_after_other:
  assumes r: "ring h hd1 xs" and "ring h hd2 zs"
    and d: "set (hd1 # xs) \<inter> set (hd2 # zs) = {}" and e: "e \<notin> set (hd2 # zs)" "e \<noteq> hd1"
  shows "ring (add_after h hd1 e) hd2 zs"
proof -
  have nx: "next h hd1 \<in> set (hd1 # xs)" using ring_head_links(2) [OF r] by (cases xs) auto
  have out: "n \<noteq> e" "n \<noteq> hd1" "n \<noteq> next h hd1" if n: "n \<in> set (hd2 # zs)" for n
  proof -
    show "n \<noteq> e" using n e(1) by metis
    have "n \<notin> set (hd1 # xs)" using n d by (metis disjoint_iff)
    then show "n \<noteq> hd1" "n \<noteq> next h hd1" using nx by auto
  qed
  have "ring (add_after h hd1 e) hd2 zs = ring h hd2 zs"
    by (rule ring_cong) (rule add_after_frame [OF e(2) out], assumption+)+
  with assms(2) show ?thesis by simp
qed

lemma ring_add_before_other:
  assumes r: "ring h hd1 xs" and "ring h hd2 zs"
    and d: "set (hd1 # xs) \<inter> set (hd2 # zs) = {}" and e: "e \<notin> set (hd2 # zs)" "e \<noteq> hd1"
  shows "ring (add_before h hd1 e) hd2 zs"
proof -
  have pv: "prev h hd1 \<in> set (hd1 # xs)"
    using ring_head_links(1) [OF r] by (cases xs rule: rev_cases) auto
  have out: "n \<noteq> e" "n \<noteq> hd1" "n \<noteq> prev h hd1" if n: "n \<in> set (hd2 # zs)" for n
  proof -
    show "n \<noteq> e" using n e(1) by metis
    have "n \<notin> set (hd1 # xs)" using n d by (metis disjoint_iff)
    then show "n \<noteq> hd1" "n \<noteq> prev h hd1" using pv by auto
  qed
  have "ring (add_before h hd1 e) hd2 zs = ring h hd2 zs"
    by (rule ring_cong) (rule add_before_frame [OF e(2) out], assumption+)+
  with assms(2) show ?thesis by simp
qed

lemma ring_node_init: "ring (list_node_init h n) n []"
  by (simp add: ring_def list_node_init_def ptr_defs)

lemma ring_node_init_other:
  assumes "ring h head xs" and "n \<notin> set (head # xs)"
  shows "ring (list_node_init h n) head xs"
proof -
  have "ring (list_node_init h n) head xs = ring h head xs"
    using assms(2) by (intro ring_cong) (auto simp: list_node_init_def ptr_defs)
  with assms(1) show ?thesis by simp
qed

section \<open>Iteration\<close>

lemma iterate_from_chain:
  assumes "chain h a xs" and "next h (last (a # xs)) = head" and "head \<notin> set xs"
  shows "iterate_from (next h) head (next h a) = Some xs"
  using assms
proof (induction xs arbitrary: a)
  case Nil
  then show ?case by (subst iterate_from.simps) simp
next
  case (Cons x xs)
  from Cons.prems have "iterate_from (next h) head (next h x) = Some xs"
    by (intro Cons.IH) auto
  with Cons.prems show ?case by (subst iterate_from.simps) auto
qed

lemma iterate_from_chain_rev:
  assumes "chain h head (xs @ [b])" and "distinct (head # xs @ [b])"
  shows "iterate_from (prev h) head b = Some (b # rev xs)"
  using assms
proof (induction xs arbitrary: b rule: rev_induct)
  case Nil
  then show ?case
    by (simp add: iterate_from.simps [of "prev h" head b] iterate_from.simps [of "prev h" head head])
next
  case (snoc x xs)
  have "prev h b = x" "chain h head (xs @ [x])" using snoc.prems(1) by auto
  moreover have "iterate_from (prev h) head x = Some (x # rev xs)"
    using snoc.prems by (intro snoc.IH) auto
  ultimately show ?case
    using snoc.prems(2) by (auto simp: iterate_from.simps [of "prev h" head b])
qed

lemma iterate_ring: "ring h head xs \<Longrightarrow> iterate h head = Some xs"
  unfolding iterate_def ring_def by (intro iterate_from_chain) auto

lemma iterate_reversed_ring: "ring h head xs \<Longrightarrow> iterate_reversed h head = Some (rev xs)"
proof (cases xs rule: rev_cases)
  case Nil
  assume "ring h head xs"
  with Nil show ?thesis
    by (simp add: iterate_reversed_def ring_def iterate_from.simps [of "prev h" head head])
next
  case (snoc ys y)
  assume "ring h head xs"
  with snoc show ?thesis
    using iterate_from_chain_rev [of h head ys y] by (simp add: iterate_reversed_def ring_def)
qed

lemma list_empty_ring: "ring h head xs \<Longrightarrow> list_empty h head \<longleftrightarrow> xs = []"
  by (cases xs) (auto simp: list_empty_def ring_def)

lemma ring_unique: "ring h head xs \<Longrightarrow> ring h head ys \<Longrightarrow> xs = ys"
  using iterate_ring [of h head xs] iterate_ring [of h head ys] by simp

text \<open>
  The circular view: the nodes from the start to the end of the list, then those before it. The
  first lemma covers the part after the wrap, where the walk stops at the start node.
\<close>

lemma circular_walk_wrapped:
  assumes "ring h head (us @ c # vs @ s # bs)"
  shows "circular_walk h head s (Some c) = Some (c # vs)"
  using assms
proof (induction vs arbitrary: us c)
  case Nil
  from Nil ring_at(2) [of h head us c "s # bs"] have "next h c = s" by simp
  moreover have "s \<noteq> head" using ring_distinct [OF Nil] by auto
  ultimately have "circular_next h head s c = None" by (simp add: circular_next_def)
  then show ?case
    by (simp add: circular_walk.simps [of h head s "Some c"] circular_walk.simps [of h head s None])
next
  case (Cons v vs)
  from Cons.prems ring_at(2) [of h head us c "v # vs @ s # bs"] have "next h c = v" by simp
  moreover have "v \<noteq> head" "v \<noteq> s" using ring_distinct [OF Cons.prems] by auto
  ultimately have "circular_next h head s c = Some v" by (simp add: circular_next_def)
  moreover have "circular_walk h head s (Some v) = Some (v # vs)"
    using Cons.IH [of "us @ [c]" v] Cons.prems by simp
  ultimately show ?case by (simp add: circular_walk.simps [of h head s "Some c"])
qed

lemma circular_walk_start:
  assumes "ring h head (as @ ws @ c # vs)" and "hd (ws @ [c]) = s"
  shows "circular_walk h head s (Some c) = Some (c # vs @ as)"
  using assms
proof (induction vs arbitrary: ws c)
  case Nil
  have d: "distinct (head # as @ ws @ [c])" using Nil(1) by (rule ring_distinct)
  have nx: "next h c = head" using ring_at(2) [of h head "as @ ws" c "[]"] Nil(1) by simp
  have hn: "next h head = hd (as @ ws @ [c])"
    using ring_head_links(2) [OF Nil(1)] by (simp add: hd_append)
  show ?case
  proof (cases as)
    case Nil
    with hn nx \<open>hd (ws @ [c]) = s\<close> have "circular_next h head s c = None"
      by (simp add: circular_next_def)
    with Nil show ?thesis
      by (simp add: circular_walk.simps [of h head s "Some c"] circular_walk.simps [of h head s None])
  next
    case (Cons a as')
    have sin: "s \<in> set (ws @ [c])"
      using \<open>hd (ws @ [c]) = s\<close> by (metis append_is_Nil_conv hd_in_set not_Cons_self2)
    then have "a \<noteq> s" "a \<noteq> head" using d Cons by auto
    with hn nx Cons have "circular_next h head s c = Some a" by (auto simp: circular_next_def)
    moreover obtain bs where "ws @ [c] = s # bs"
      using \<open>hd (ws @ [c]) = s\<close> by (metis append_is_Nil_conv list.collapse not_Cons_self2)
    then have "circular_walk h head s (Some a) = Some (a # as')"
      using circular_walk_wrapped [of h head "[]" a as' s bs] Nil(1) Cons by simp
    ultimately show ?thesis using Cons by (simp add: circular_walk.simps [of h head s "Some c"])
  qed
next
  case (Cons v vs)
  have d: "distinct (head # as @ ws @ c # v # vs)" using Cons.prems(1) by (rule ring_distinct)
  have "next h c = v" using ring_at(2) [of h head "as @ ws" c "v # vs"] Cons.prems(1) by simp
  moreover have "s \<in> set (ws @ [c])"
    using Cons.prems(2) by (metis append_is_Nil_conv hd_in_set not_Cons_self2)
  then have "v \<noteq> s" "v \<noteq> head" using d by auto
  ultimately have "circular_next h head s c = Some v" by (simp add: circular_next_def)
  moreover have "circular_walk h head s (Some v) = Some (v # vs @ as)"
    using Cons.IH [of "ws @ [c]" v] Cons.prems by (simp add: hd_append split: if_splits)
  ultimately show ?case by (simp add: circular_walk.simps [of h head s "Some c"])
qed

lemma circular_from_node:
  assumes "ring h head (as @ s # bs)"
  shows "circular_from h head (Some s) = Some (s # bs @ as)"
proof -
  have "s \<noteq> head" using ring_distinct [OF assms] by auto
  then have "circular_begin h head (Some s) = Some s" by (simp add: circular_begin_def)
  then show ?thesis
    using circular_walk_start [of h head as "[]" s bs s] assms by (simp add: circular_from_def)
qed

lemma circular_from_head:
  assumes "ring h head xs" and "start = None \<or> start = Some head"
  shows "circular_from h head start = Some xs"
proof (cases xs)
  case Nil
  with assms have "circular_begin h head start = None"
    by (auto simp: circular_begin_def ring_def)
  with Nil show ?thesis by (simp add: circular_from_def)
next
  case (Cons x xs')
  with assms have "next h head = x" "x \<noteq> head" by (auto simp: ring_def)
  with assms(2) have "circular_begin h head start = Some x" by (auto simp: circular_begin_def)
  moreover have "circular_walk h head x (Some x) = Some (x # xs')"
    using circular_walk_start [of h head "[]" "[]" x xs' x] assms(1) Cons by simp
  ultimately show ?thesis using Cons by (simp add: circular_from_def)
qed

section \<open>The queue contract\<close>

text \<open>
  Wait queues and the per-address-space swap queue use the ring as a first-in first-out queue:
  entries are added before the head and taken after it. \<open>view s xs\<close> says that the state \<open>s\<close> holds
  the entries \<open>xs\<close> in order, \<open>fresh s n\<close> that the entry \<open>n\<close> may be added.
\<close>

locale fifo_queue =
  fixes view :: "'s \<Rightarrow> 'n list \<Rightarrow> bool"
    and fresh :: "'s \<Rightarrow> 'n \<Rightarrow> bool"
    and push :: "'s \<Rightarrow> 'n \<Rightarrow> 's"
    and pop :: "'s \<Rightarrow> ('n \<times> 's) option"
  assumes view_unique: "view s xs \<Longrightarrow> view s ys \<Longrightarrow> xs = ys"
    and push_view: "view s xs \<Longrightarrow> fresh s n \<Longrightarrow> n \<notin> set xs \<Longrightarrow> view (push s n) (xs @ [n])"
    and push_fresh: "fresh s m \<Longrightarrow> fresh (push s n) m"
    and pop_empty: "view s [] \<Longrightarrow> pop s = None"
    and pop_first: "view s (x # xs) \<Longrightarrow> \<exists>s'. pop s = Some (x, s') \<and> view s' xs"
begin

fun push_all :: "'s \<Rightarrow> 'n list \<Rightarrow> 's" where
  "push_all s [] = s"
| "push_all s (n # ns) = push_all (push s n) ns"

fun pop_all :: "nat \<Rightarrow> 's \<Rightarrow> 'n list" where
  "pop_all 0 s = []"
| "pop_all (Suc k) s = (case pop s of None \<Rightarrow> [] | Some (x, s') \<Rightarrow> x # pop_all k s')"

lemma push_all_view:
  "view s xs \<Longrightarrow> \<forall>n \<in> set ns. fresh s n \<Longrightarrow> distinct (xs @ ns) \<Longrightarrow> view (push_all s ns) (xs @ ns)"
proof (induction ns arbitrary: s xs)
  case (Cons n ns)
  have "view (push s n) (xs @ [n])" using Cons.prems by (intro push_view) auto
  then show ?case using Cons.IH [of "push s n" "xs @ [n]"] Cons.prems push_fresh by auto
qed simp

lemma pop_all_view: "view s xs \<Longrightarrow> length xs \<le> k \<Longrightarrow> pop_all k s = xs"
proof (induction k arbitrary: s xs)
  case (Suc k)
  show ?case
  proof (cases xs)
    case Nil
    with Suc.prems show ?thesis by (simp add: pop_empty)
  next
    case (Cons x xs')
    with Suc.prems pop_first obtain s' where "pop s = Some (x, s')" "view s' xs'" by blast
    with Suc Cons show ?thesis by simp
  qed
qed simp

lemma first_in_first_out:
  assumes "view s []" and "\<forall>n \<in> set ns. fresh s n" and "distinct ns"
  shows "pop_all (length ns) (push_all s ns) = ns"
  using push_all_view [of s "[]" ns] pop_all_view assms by simp

end

section \<open>Properties\<close>

text \<open>C34. A circular walk that starts at a linked node ends and visits every node of the ring exactly
  once: first the nodes from the start to the end of the list, then those before the start.\<close>

theorem circular_visits_all:
  assumes "ring h head (as @ s # bs)"
  shows "circular_from h head (Some s) = Some (s # bs @ as)"
  using circular_from_node [OF assms] .

definition demo_links :: "nat links" where
  "demo_links = add_before (add_before (add_before \<lparr>prev = id, next = id\<rparr> 0 7) 0 5) 0 9"

lemma demo_links_ring: "ring demo_links 0 [7, 5, 9]"
proof -
  have "ring \<lparr>prev = id, next = id\<rparr> (0 :: nat) []" by (simp add: ring_def)
  from ring_add_before_head [OF this, of 7]
  have "ring (add_before \<lparr>prev = id, next = id\<rparr> 0 7) (0 :: nat) [7]" by simp
  from ring_add_before_head [OF this, of 5]
  have "ring (add_before (add_before \<lparr>prev = id, next = id\<rparr> 0 7) 0 5) (0 :: nat) [7, 5]" by simp
  from ring_add_before_head [OF this, of 9] show ?thesis by (simp add: demo_links_def)
qed

theorem circular_visits_all_witness: "circular_from demo_links 0 (Some 5) = Some [5, 9, 7]"
  using circular_visits_all [of demo_links 0 "[7]" 5 "[9]"] demo_links_ring by simp

end
