(* ===== verification/Page_Allocator.thy ===== *)
theory Page_Allocator
  imports Intrusive_List
begin

text \<open>
  The first-fit physical page allocator of \<^verbatim>\<open>kernel/mm/pmm_firstfit.cpp\<close> on the page
  descriptors of \<^verbatim>\<open>kernel/mm/pmm.h\<close>. Free memory is a ring of free runs threaded through the
  descriptor of the first page of each run; \<^verbatim>\<open>block_page_count\<close> of that descriptor is the length
  of the run. The model keeps the descriptors, the pointers of their list nodes and the counter,
  and performs the loops of the source on them. An abstract allocator on lists of runs
  \<open>(start, length)\<close> is related to it by \<open>area_runs\<close>, and the set of free pages to both.
\<close>

section \<open>Page descriptors and the free area\<close>

text \<open>
  A page is named by its index in the descriptor array; \<^verbatim>\<open>page + n\<close> is the index plus \<open>n\<close>.
  The nodes of the free list are the head in \<^verbatim>\<open>FreeArea\<close> and the nodes of the descriptors.
\<close>

datatype page_node = FreeHead | PageNode nat

record page =
  ref_count :: int
  flags :: u32
  block_page_count :: u32

definition PAGE_RESERVED :: u32 where
  "PAGE_RESERVED = push_bit 0 1"

definition PAGE_TABLE_FLAG :: u32 where
  "PAGE_TABLE_FLAG = push_bit 2 1"

definition set_reserved :: "page \<Rightarrow> page" where
  "set_reserved p = p\<lparr>flags := flags p OR PAGE_RESERVED\<rparr>"

definition clear_reserved :: "page \<Rightarrow> page" where
  "clear_reserved p = p\<lparr>flags := flags p AND NOT PAGE_RESERVED\<rparr>"

definition is_reserved :: "page \<Rightarrow> bool" where
  "is_reserved p \<longleftrightarrow> flags p AND PAGE_RESERVED \<noteq> 0"

definition set_page_table :: "page \<Rightarrow> page" where
  "set_page_table p = p\<lparr>flags := flags p OR PAGE_TABLE_FLAG\<rparr>"

definition is_page_table :: "page \<Rightarrow> bool" where
  "is_page_table p \<longleftrightarrow> flags p AND PAGE_TABLE_FLAG \<noteq> 0"

definition new_page :: page where
  "new_page = \<lparr>ref_count = 0, flags = 0, block_page_count = 0\<rparr>"

record page_area =
  pages :: "nat \<Rightarrow> page"
  nodes :: "page_node links"
  free_page_count :: u32

definition upd_page :: "page_area \<Rightarrow> nat \<Rightarrow> (page \<Rightarrow> page) \<Rightarrow> page_area" where
  "upd_page a i f = a\<lparr>pages := (pages a)(i := f (pages a i))\<rparr>"

abbreviation run_length :: "page_area \<Rightarrow> nat \<Rightarrow> nat" where
  "run_length a i \<equiv> unat (block_page_count (pages a i))"

text \<open>\<^verbatim>\<open>free_area\<close> as it is before the memory map is read: the list is empty.\<close>

definition empty_area :: page_area where
  "empty_area = \<lparr>pages = (\<lambda>_. new_page), nodes = \<lparr>prev = id, next = id\<rparr>, free_page_count = 0\<rparr>"

section \<open>The operations\<close>

primrec construct_pages :: "page_area \<Rightarrow> nat \<Rightarrow> nat \<Rightarrow> page_area" where
  "construct_pages a p 0 = a"
| "construct_pages a p (Suc k) =
     construct_pages (upd_page a p (\<lambda>_. new_page)\<lparr>nodes := list_node_init (nodes a) (PageNode p)\<rparr>)
       (Suc p) k"

definition init_memmap :: "page_area \<Rightarrow> nat \<Rightarrow> u64 \<Rightarrow> page_area" where
  "init_memmap a base page_count =
     (let a = construct_pages a base (unat page_count);
          a = upd_page a base (\<lambda>p. p\<lparr>block_page_count := to_u32 page_count\<rparr>);
          a = upd_page a base set_reserved;
          a = a\<lparr>free_page_count := add_count (free_page_count a) page_count\<rparr>
      in a\<lparr>nodes := add_before (nodes a) FreeHead (PageNode base)\<rparr>)"

text \<open>The search of \<^verbatim>\<open>alloc\<close>: \<open>Some None\<close> when the walk comes back to the head.\<close>

partial_function (option) alloc_scan :: "page_area \<Rightarrow> u64 \<Rightarrow> page_node \<Rightarrow> nat option option" where
  "alloc_scan a page_count valid_node =
     (case next (nodes a) valid_node of
        FreeHead \<Rightarrow> Some None
      | PageNode p \<Rightarrow>
          if to_u64 (block_page_count (pages a p)) \<ge> page_count then Some (Some p)
          else alloc_scan a page_count (PageNode p))"

definition alloc_take :: "page_area \<Rightarrow> nat \<Rightarrow> u64 \<Rightarrow> page_area" where
  "alloc_take a page page_count =
     (let a = (if to_u64 (block_page_count (pages a page)) > page_count then
                 (let remaining = page + unat page_count;
                      count = sub_count (block_page_count (pages a page)) page_count;
                      a = upd_page a remaining (\<lambda>p. p\<lparr>block_page_count := count\<rparr>);
                      a = upd_page a remaining set_reserved
                  in a\<lparr>nodes := add_after (nodes a) (PageNode page) (PageNode remaining)\<rparr>)
               else a);
          a = a\<lparr>nodes := unlink (nodes a) (PageNode page)\<rparr>;
          a = a\<lparr>free_page_count := sub_count (free_page_count a) page_count\<rparr>
      in upd_page a page clear_reserved)"

definition allocator_alloc :: "page_area \<Rightarrow> u64 \<Rightarrow> (nat option \<times> page_area) option" where
  "allocator_alloc a page_count =
     (if page_count > to_u64 (free_page_count a) then Some (None, a)
      else Option.bind (alloc_scan a page_count FreeHead) (\<lambda>found.
        case found of
          None \<Rightarrow> Some (None, a)
        | Some page \<Rightarrow> Some (Some page, alloc_take a page page_count)))"

primrec reset_pages :: "page_area \<Rightarrow> nat \<Rightarrow> nat \<Rightarrow> fault + page_area" where
  "reset_pages a p 0 = Inr a"
| "reset_pages a p (Suc k) =
     (if ref_count (pages a p) = 0
      then reset_pages (upd_page a p (\<lambda>q. q\<lparr>ref_count := 0, flags := 0\<rparr>)) (Suc p) k
      else Inl Panicked)"

partial_function (option) free_merge ::
    "page_area \<Rightarrow> nat \<Rightarrow> page_node \<Rightarrow> page_node \<Rightarrow> (page_area \<times> nat \<times> page_node) option" where
  "free_merge a base pv le =
     (case le of
        FreeHead \<Rightarrow> Some (a, base, pv)
      | PageNode p \<Rightarrow>
          (let nx = next (nodes a) le in
           if base + run_length a base = p then
             (let a = upd_page a base (\<lambda>b. b\<lparr>block_page_count :=
                         block_page_count b + block_page_count (pages a p)\<rparr>);
                  a = upd_page a p clear_reserved;
                  a = a\<lparr>nodes := unlink (nodes a) le\<rparr>
              in free_merge a base pv nx)
           else if p + run_length a p = base then
             (let a = upd_page a p (\<lambda>q. q\<lparr>block_page_count :=
                         block_page_count q + block_page_count (pages a base)\<rparr>);
                  a = upd_page a base clear_reserved;
                  a = a\<lparr>nodes := unlink (nodes a) le\<rparr>
              in free_merge a p pv nx)
           else free_merge a base le nx))"

definition allocator_free :: "page_area \<Rightarrow> nat \<Rightarrow> u64 \<Rightarrow> page_area exec" where
  "allocator_free a base page_count =
     (case reset_pages a base (unat page_count) of
        Inl e \<Rightarrow> Some (Inl e)
      | Inr a \<Rightarrow>
          (let a = upd_page a base (\<lambda>p. p\<lparr>block_page_count := to_u32 page_count\<rparr>);
               a = upd_page a base set_reserved
           in Option.bind (free_merge a base FreeHead (next (nodes a) FreeHead))
                (\<lambda>(a, base, pv).
                  let a = a\<lparr>free_page_count := add_count (free_page_count a) page_count\<rparr>
                  in Some (Inr (a\<lparr>nodes := add_after (nodes a) pv (PageNode base)\<rparr>)))))"

text \<open>
  Addresses of pages and the page-granular kernel heap of \<^verbatim>\<open>kernel/mm/pmm.cpp\<close>.
  \<^verbatim>\<open>alloc_pages\<close> and \<^verbatim>\<open>free_pages\<close> run the allocator under an interrupt guard, which
  restores the interrupt flag at the end; the model is the guarded call as one step. The
  constant \<^verbatim>\<open>KERNEL_BASE\<close> of the architecture is the argument \<open>kb\<close>, the null pointer is
  address 0.
\<close>

definition PG_SHIFT :: nat where "PG_SHIFT = 12"
definition PG_SIZE :: u64 where "PG_SIZE = 4096"

definition page_to_phys :: "nat \<Rightarrow> u64" where
  "page_to_phys page = push_bit PG_SHIFT (word_of_nat page)"

definition page_to_kva :: "u64 \<Rightarrow> nat \<Rightarrow> u64" where
  "page_to_kva kb page = kb + page_to_phys page"

definition phys_to_page :: "u64 \<Rightarrow> nat" where
  "phys_to_page pa = unat (drop_bit PG_SHIFT pa)"

definition kva_to_page :: "u64 \<Rightarrow> u64 \<Rightarrow> nat" where
  "kva_to_page kb kva = phys_to_page (kva - kb)"

definition alloc_pages :: "page_area \<Rightarrow> u64 \<Rightarrow> (nat option \<times> page_area) option" where
  "alloc_pages a page_count = allocator_alloc a page_count"

definition free_pages :: "page_area \<Rightarrow> nat \<Rightarrow> u64 \<Rightarrow> page_area exec" where
  "free_pages a base page_count = allocator_free a base page_count"

definition kmalloc :: "u64 \<Rightarrow> page_area \<Rightarrow> u64 \<Rightarrow> (u64 \<times> page_area) option" where
  "kmalloc kb a byte_count =
     (if byte_count = 0 then Some (0, a)
      else
        let page_count = (byte_count + PG_SIZE - 1) div PG_SIZE
        in Option.bind (alloc_pages a page_count) (\<lambda>(page, a).
             case page of
               None \<Rightarrow> Some (0, a)
             | Some page \<Rightarrow>
                 Some (page_to_kva kb page,
                       upd_page a page (\<lambda>p. p\<lparr>block_page_count := to_u32 page_count\<rparr>))))"

definition kfree :: "u64 \<Rightarrow> page_area \<Rightarrow> u64 \<Rightarrow> page_area exec" where
  "kfree kb a ptr =
     (if ptr = 0 then Some (Inr a)
      else
        let page = kva_to_page kb ptr;
            count = block_page_count (pages a page)
        in free_pages a page (if count > 0 then to_u64 count else 1))"

section \<open>Runs of free pages\<close>

type_synonym run = "nat \<times> nat"

definition run_pages :: "run \<Rightarrow> nat set" where
  "run_pages r = {fst r ..< fst r + snd r}"

definition cover :: "run list \<Rightarrow> nat set" where
  "cover rs = (\<Union>r \<in> set rs. run_pages r)"

definition apart :: "run \<Rightarrow> run \<Rightarrow> bool" where
  "apart r q \<longleftrightarrow> fst r + snd r \<le> fst q \<or> fst q + snd q \<le> fst r"

definition wf_runs :: "nat \<Rightarrow> run list \<Rightarrow> bool" where
  "wf_runs N rs \<longleftrightarrow> (\<forall>r \<in> set rs. 0 < snd r \<and> fst r + snd r \<le> N) \<and> sorted_wrt apart rs"

definition coalesced :: "run list \<Rightarrow> bool" where
  "coalesced rs \<longleftrightarrow> (\<forall>r \<in> set rs. \<forall>q \<in> set rs. fst r + snd r \<noteq> fst q)"

text \<open>The abstract allocator: first fit on the list of runs, and release with one merging pass.\<close>

definition split_run :: "run \<Rightarrow> nat \<Rightarrow> run list" where
  "split_run r n = (if n < snd r then [(fst r + n, snd r - n)] else [])"

fun alloc_runs :: "run list \<Rightarrow> nat \<Rightarrow> (nat \<times> run list) option" where
  "alloc_runs [] n = None"
| "alloc_runs (r # rs) n =
     (if n \<le> snd r then Some (fst r, split_run r n @ rs)
      else map_option (\<lambda>(p, rs'). (p, r # rs')) (alloc_runs rs n))"

fun merge_runs :: "run \<Rightarrow> run list \<Rightarrow> run \<times> run list" where
  "merge_runs b [] = (b, [])"
| "merge_runs b (r # rs) =
     (if fst b + snd b = fst r then merge_runs (fst b, snd b + snd r) rs
      else if fst r + snd r = fst b then merge_runs (fst r, snd r + snd b) rs
      else map_prod id (Cons r) (merge_runs b rs))"

definition free_runs :: "run list \<Rightarrow> nat \<Rightarrow> nat \<Rightarrow> run list" where
  "free_runs rs b n = (let (c, kept) = merge_runs (b, n) rs in kept @ [c])"

text \<open>What the concrete area means: its ring is the list of runs and the counter their sum.\<close>

definition area_runs :: "page_area \<Rightarrow> run list \<Rightarrow> bool" where
  "area_runs a rs \<longleftrightarrow>
     ring (nodes a) FreeHead (map (\<lambda>r. PageNode (fst r)) rs) \<and>
     (\<forall>r \<in> set rs. run_length a (fst r) = snd r) \<and>
     unat (free_page_count a) = sum_list (map snd rs)"

definition area_free :: "nat \<Rightarrow> page_area \<Rightarrow> nat set \<Rightarrow> bool" where
  "area_free N a F \<longleftrightarrow> (\<exists>rs. wf_runs N rs \<and> area_runs a rs \<and> cover rs = F)"

section \<open>The abstract allocator\<close>

lemma apart_sym: "apart r q \<longleftrightarrow> apart q r"
  by (auto simp: apart_def)

lemma apart_disjoint:
  "0 < snd r \<Longrightarrow> 0 < snd q \<Longrightarrow> apart r q \<longleftrightarrow> run_pages r \<inter> run_pages q = {}"
  by (auto simp: apart_def run_pages_def)

lemma apart_join:
  "apart b q \<Longrightarrow> apart r q \<Longrightarrow> 0 < snd q \<Longrightarrow> fst b + snd b = fst r \<Longrightarrow> apart (fst b, snd b + snd r) q"
  by (auto simp: apart_def)

lemma wf_runs_Nil [simp]: "wf_runs N []"
  by (simp add: wf_runs_def)

lemma wf_runs_Cons [kernel_inv]:
  "wf_runs N (r # rs) \<longleftrightarrow>
     0 < snd r \<and> fst r + snd r \<le> N \<and> (\<forall>q \<in> set rs. apart r q) \<and> wf_runs N rs"
  by (auto simp: wf_runs_def)

lemma wf_runs_append [kernel_inv]:
  "wf_runs N (rs @ qs) \<longleftrightarrow>
     wf_runs N rs \<and> wf_runs N qs \<and> (\<forall>r \<in> set rs. \<forall>q \<in> set qs. apart r q)"
  by (auto simp: wf_runs_def sorted_wrt_append)

lemma wf_runs_mid:
  "wf_runs N (as @ r # bs) \<longleftrightarrow> wf_runs N (r # as @ bs)"
  by (auto simp: kernel_inv apart_sym)

lemma wf_runs_rotate: "wf_runs N (rs @ [c]) \<longleftrightarrow> wf_runs N (c # rs)"
  using wf_runs_mid [of N rs c "[]"] by simp

lemma wf_runs_starts:
  assumes "wf_runs N rs"
  shows "distinct (map (\<lambda>r. PageNode (fst r)) rs)"
  using assms
proof (induction rs)
  case (Cons r rs)
  have "fst q \<noteq> fst r" if "q \<in> set rs" for q
    using Cons.prems that by (fastforce simp: wf_runs_def apart_def)
  then have "PageNode (fst r) \<notin> (\<lambda>r. PageNode (fst r)) ` set rs" by force
  with Cons show ?case by (simp add: kernel_inv)
qed simp

lemma cover_simps [simp]:
  "cover [] = {}"
  "cover (r # rs) = run_pages r \<union> cover rs"
  "cover (rs @ qs) = cover rs \<union> cover qs"
  by (auto simp: cover_def)

lemma cover_apart:
  assumes "0 < n" and "wf_runs N rs"
  shows "{b ..< b + n} \<inter> cover rs = {} \<longleftrightarrow> (\<forall>r \<in> set rs. apart (b, n) r)"
proof -
  have "{b ..< b + n} \<inter> run_pages r = {} \<longleftrightarrow> apart (b, n) r" if "r \<in> set rs" for r
    using apart_disjoint [of "(b, n)" r] that assms by (auto simp: wf_runs_def run_pages_def)
  then show ?thesis by (auto simp: cover_def)
qed

lemma cover_card:
  assumes "wf_runs N rs"
  shows "finite (cover rs) \<and> card (cover rs) = sum_list (map snd rs) \<and> cover rs \<subseteq> {..<N}"
  using assms
proof (induction rs)
  case (Cons r rs)
  then have wf: "wf_runs N rs" "0 < snd r" "fst r + snd r \<le> N" "\<forall>q \<in> set rs. apart r q"
    by (auto simp: kernel_inv)
  then have "run_pages r \<inter> cover rs = {}"
    using cover_apart [of "snd r" N rs "fst r"] by (simp add: run_pages_def)
  with Cons.IH wf show ?case
    by (auto simp: card_Un_disjoint run_pages_def)
qed simp

lemma sum_runs_bound: "wf_runs N rs \<Longrightarrow> sum_list (map snd rs) \<le> N"
  using cover_card [of N rs] card_mono [of "{..<N}" "cover rs"] by simp

text \<open>First fit: the first run that is long enough gives its front pages.\<close>

lemma alloc_runs_None: "alloc_runs rs n = None \<longleftrightarrow> (\<forall>r \<in> set rs. snd r < n)"
  by (induction rs n rule: alloc_runs.induct) auto

lemma alloc_runs_Some:
  "alloc_runs rs n = Some (p, rs') \<Longrightarrow>
     \<exists>as r bs. rs = as @ r # bs \<and> p = fst r \<and> n \<le> snd r \<and> (\<forall>q \<in> set as. snd q < n) \<and>
       rs' = as @ split_run r n @ bs"
proof (induction rs n arbitrary: rs' rule: alloc_runs.induct)
  case (2 r rs n)
  show ?case
  proof (cases "n \<le> snd r")
    case True
    with 2(2) show ?thesis by (intro exI [of _ "[]"]) auto
  next
    case False
    with 2(2) obtain qs where "alloc_runs rs n = Some (p, qs)" "rs' = r # qs" by auto
    with 2(1) False obtain as q bs where "rs = as @ q # bs" "p = fst q" "n \<le> snd q"
      "\<forall>q \<in> set as. snd q < n" "qs = as @ split_run q n @ bs"
      by blast
    with False \<open>rs' = r # qs\<close> show ?thesis
      by (intro exI [of _ "r # as"] exI [of _ q] exI [of _ bs]) auto
  qed
qed simp

lemma split_run_wf:
  assumes "wf_runs N (r # rs)" and "0 < n" and "n \<le> snd r"
  shows "wf_runs N (split_run r n @ rs)"
    and "cover (split_run r n @ rs) = cover (r # rs) - {fst r ..< fst r + n}"
    and "sum_list (map snd (split_run r n @ rs)) + n = sum_list (map snd (r # rs))"
proof -
  show "wf_runs N (split_run r n @ rs)"
    using assms by (auto simp: split_run_def kernel_inv apart_def)
  have "{fst r ..< fst r + n} \<inter> cover rs = {}"
  proof -
    have "\<forall>q \<in> set rs. apart (fst r, n) q"
      using assms by (fastforce simp: kernel_inv apart_def)
    moreover have "wf_runs N rs" using assms by (simp add: kernel_inv)
    ultimately show ?thesis using cover_apart [of n N rs "fst r"] assms(2) by simp
  qed
  then show "cover (split_run r n @ rs) = cover (r # rs) - {fst r ..< fst r + n}"
    using assms by (auto simp: split_run_def run_pages_def)
  show "sum_list (map snd (split_run r n @ rs)) + n = sum_list (map snd (r # rs))"
    using assms by (auto simp: split_run_def)
qed

lemma alloc_runs_wf:
  assumes "wf_runs N rs" and "alloc_runs rs n = Some (p, rs')" and "0 < n"
  shows "wf_runs N rs'" and "cover rs' = cover rs - {p ..< p + n}"
    and "{p ..< p + n} \<subseteq> cover rs"
    and "sum_list (map snd rs') + n = sum_list (map snd rs)"
proof -
  from alloc_runs_Some [OF assms(2)] obtain as r bs where
    eqs: "rs = as @ r # bs" "p = fst r" "n \<le> snd r" "rs' = as @ split_run r n @ bs"
    by blast
  have wf: "wf_runs N (r # as @ bs)" using assms(1) eqs wf_runs_mid by simp
  note split = split_run_wf [OF wf assms(3) eqs(3)]
  show "wf_runs N rs'"
    using split(1) eqs by (auto simp: kernel_inv split_run_def apart_sym split: if_splits)
  show "cover rs' = cover rs - {p ..< p + n}"
    using split(2) eqs by (auto simp: Un_commute Un_left_commute)
  show "{p ..< p + n} \<subseteq> cover rs" using eqs by (auto simp: run_pages_def)
  show "sum_list (map snd rs') + n = sum_list (map snd rs)"
    using split(3) eqs by simp
qed

lemma alloc_runs_coalesced:
  assumes "wf_runs N rs" and "alloc_runs rs n = Some (p, rs')" and "coalesced rs" and "0 < n"
  shows "coalesced rs'"
proof -
  from alloc_runs_Some [OF assms(2)] obtain as r bs where
    eqs: "rs = as @ r # bs" "n \<le> snd r" "rs' = as @ split_run r n @ bs"
    by blast
  have "\<forall>q \<in> set (as @ bs). apart r q"
    using assms(1) eqs wf_runs_mid [of N as r bs] by (simp add: kernel_inv)
  moreover have "\<forall>q \<in> set (as @ bs). 0 < snd q"
    using assms(1) eqs by (auto simp: wf_runs_def)
  moreover have "fst q + snd q \<noteq> fst r + n" if "apart r q" "0 < snd q" "n < snd r" for q
    using that assms(4) by (auto simp: apart_def)
  ultimately have "n < snd r \<longrightarrow> (\<forall>q \<in> set as \<union> set bs. fst q + snd q \<noteq> fst r + n)"
    unfolding set_append by blast
  then show ?thesis
    using assms(3) unfolding coalesced_def eqs(1,3) split_run_def by (simp add: ball_Un)
qed

lemma wf_runs_join:
  assumes "wf_runs N (b # r # rs)" and "fst b + snd b = fst r"
  shows "wf_runs N ((fst b, snd b + snd r) # rs)"
proof -
  have "apart (fst b, snd b + snd r) q" if "q \<in> set rs" for q
    using assms that by (intro apart_join) (auto simp: kernel_inv wf_runs_def)
  then show ?thesis using assms by (auto simp: kernel_inv)
qed

text \<open>Release: the merging pass keeps the covered pages and leaves no two adjacent runs.\<close>

lemma run_pages_join:
  "fst b + snd b = fst r \<Longrightarrow> run_pages (fst b, snd b + snd r) = run_pages b \<union> run_pages r"
  by (auto simp: run_pages_def)

lemma merge_runs_wf:
  assumes "wf_runs N (b # rs)" and "merge_runs b rs = (c, kept)"
  shows "wf_runs N (c # kept) \<and> cover (c # kept) = cover (b # rs) \<and>
    sum_list (map snd (c # kept)) = sum_list (map snd (b # rs)) \<and> set kept \<subseteq> set rs"
  using assms
proof (induction b rs arbitrary: c kept rule: merge_runs.induct)
  case (2 b r rs)
  consider "fst b + snd b = fst r" | "fst b + snd b \<noteq> fst r" "fst r + snd r = fst b"
    | "fst b + snd b \<noteq> fst r" "fst r + snd r \<noteq> fst b" by blast
  then show ?case
  proof cases
    case 1
    have wf: "wf_runs N ((fst b, snd b + snd r) # rs)" using wf_runs_join 2(4) 1 by blast
    have m: "merge_runs (fst b, snd b + snd r) rs = (c, kept)" using 2(5) 1 by simp
    note IH = 2(1) [OF 1 wf m]
    have "cover (c # kept) = cover (b # r # rs)"
      using IH run_pages_join [OF 1] by (simp only: cover_simps Un_assoc)
    with IH show ?thesis by (simp add: subset_insertI2)
  next
    case second: 2
    have "wf_runs N (r # b # rs)" using 2(4) by (auto simp: kernel_inv apart_sym [of r b])
    then have wf: "wf_runs N ((fst r, snd r + snd b) # rs)" using wf_runs_join second(2) by blast
    have m: "merge_runs (fst r, snd r + snd b) rs = (c, kept)" using 2(5) second by simp
    note IH = 2(2) [OF second wf m]
    have "cover (c # kept) = cover (b # r # rs)"
      using IH run_pages_join [OF second(2)] by (simp only: cover_simps Un_ac)
    moreover have "sum_list (map snd (c # kept)) = sum_list (map snd (b # r # rs))"
      using IH by (simp only: list.map sum_list.Cons snd_conv ac_simps)
    moreover have "set kept \<subseteq> set (r # rs)" using IH by (simp add: subset_insertI2)
    ultimately show ?thesis using IH by (simp only:)
  next
    case 3
    with 2(5) obtain ks where ks: "merge_runs b rs = (c, ks)" "kept = r # ks"
      by (auto simp: map_prod_def split: prod.splits)
    have wf: "wf_runs N (b # rs)" "wf_runs N (r # b # rs)"
      using 2(4) by (auto simp: kernel_inv apart_sym [of r b])
    note IH = 2(3) [OF 3 wf(1) ks(1)]
    have pos: "0 < snd r" "0 < snd c" using wf(2) IH by (auto simp: kernel_inv)
    have "run_pages r \<inter> cover (b # rs) = {}"
      using wf pos cover_apart [of "snd r" N "b # rs" "fst r"]
      by (simp add: kernel_inv run_pages_def)
    then have "run_pages r \<inter> run_pages c = {}" using IH by auto
    then have "apart c r" using apart_disjoint pos by (simp add: Int_commute)
    moreover have "\<forall>q \<in> set ks. apart r q" using wf(2) IH by (auto simp: kernel_inv)
    ultimately have "wf_runs N (c # kept)" using IH ks wf(2) by (simp add: kernel_inv)
    moreover have "cover (c # kept) = cover (b # r # rs)" using IH ks by auto
    moreover have "set kept \<subseteq> set (r # rs)" using IH ks by auto
    ultimately show ?thesis using IH ks by simp
  qed
qed simp

lemma merge_runs_ends:
  "merge_runs b rs = (c, kept) \<Longrightarrow>
     fst c \<in> fst ` set (b # rs) \<and> fst c + snd c \<in> (\<lambda>r. fst r + snd r) ` set (b # rs)"
proof (induction b rs arbitrary: c kept rule: merge_runs.induct)
  case (2 b r rs)
  consider "fst b + snd b = fst r" | "fst b + snd b \<noteq> fst r" "fst r + snd r = fst b"
    | "fst b + snd b \<noteq> fst r" "fst r + snd r \<noteq> fst b" by blast
  then show ?case
  proof cases
    case 1
    have m: "merge_runs (fst b, snd b + snd r) rs = (c, kept)" using 2(4) 1 by simp
    have "fst b + (snd b + snd r) = fst r + snd r" using 1 by simp
    with 2(1) [OF 1 m] show ?thesis by auto
  next
    case second: 2
    have m: "merge_runs (fst r, snd r + snd b) rs = (c, kept)" using 2(4) second by simp
    have "fst r + (snd r + snd b) = fst b + snd b" using second by simp
    with 2(2) [OF second m] show ?thesis by auto
  next
    case 3
    with 2(4) obtain ks where "merge_runs b rs = (c, ks)"
      by (auto simp: map_prod_def split: prod.splits)
    with 2(3) [OF 3 this] show ?thesis by auto
  qed
qed simp

lemma merge_runs_gap:
  assumes "merge_runs b rs = (c, kept)" and "coalesced rs" and "r \<in> set kept"
  shows "fst c + snd c \<noteq> fst r \<and> fst r + snd r \<noteq> fst c"
  using assms
proof (induction b rs arbitrary: c kept rule: merge_runs.induct)
  case (2 b q rs)
  have co: "coalesced rs" using 2(5) by (simp add: coalesced_def)
  consider "fst b + snd b = fst q" | "fst b + snd b \<noteq> fst q" "fst q + snd q = fst b"
    | "fst b + snd b \<noteq> fst q" "fst q + snd q \<noteq> fst b" by blast
  then show ?case
  proof cases
    case 1
    with 2(4) have "merge_runs (fst b, snd b + snd q) rs = (c, kept)" by simp
    from 2(1) [OF 1 this co 2(6)] show ?thesis .
  next
    case second: 2
    with 2(4) have "merge_runs (fst q, snd q + snd b) rs = (c, kept)" by simp
    from 2(2) [OF second this co 2(6)] show ?thesis .
  next
    case 3
    with 2(4) obtain ks where ks: "merge_runs b rs = (c, ks)" "kept = q # ks"
      by (auto simp: map_prod_def split: prod.splits)
    show ?thesis
    proof (cases "r = q")
      case True
      from merge_runs_ends [OF ks(1)] obtain x y where
        xy: "x \<in> set (b # rs)" "fst c = fst x" "y \<in> set (b # rs)" "fst c + snd c = fst y + snd y"
        by blast
      have "fst y + snd y \<noteq> fst q" "fst q + snd q \<noteq> fst x"
        using xy(1,3) 3 2(5) by (auto simp: coalesced_def)
      with xy True show ?thesis by simp
    next
      case False
      with 2(6) ks have "r \<in> set ks" by simp
      from 2(3) [OF 3 ks(1) co this] show ?thesis .
    qed
  qed
qed simp

lemma merge_runs_coalesced:
  assumes "wf_runs N (b # rs)" and "merge_runs b rs = (c, kept)" and "coalesced rs"
  shows "coalesced (kept @ [c])"
proof -
  have "0 < snd c" "set kept \<subseteq> set rs"
    using merge_runs_wf [OF assms(1,2)] by (auto simp: kernel_inv)
  moreover have "fst x + snd x \<noteq> fst y" if "x \<in> set kept" "y \<in> set kept" for x y
    using that calculation assms(3) by (auto simp: coalesced_def)
  ultimately show ?thesis
    using merge_runs_gap [OF assms(2,3)] by (simp add: coalesced_def)
qed

section \<open>Refinement of the abstract allocator\<close>

abbreviation run_node :: "run \<Rightarrow> page_node" where
  "run_node r \<equiv> PageNode (fst r)"

lemma upd_page_simps [simp]:
  "pages (upd_page a i f) = (pages a)(i := f (pages a i))"
  "nodes (upd_page a i f) = nodes a"
  "free_page_count (upd_page a i f) = free_page_count a"
  by (simp_all add: upd_page_def)

lemma reserved_fields [simp]:
  "block_page_count (set_reserved p) = block_page_count p"
  "ref_count (set_reserved p) = ref_count p"
  "block_page_count (clear_reserved p) = block_page_count p"
  "ref_count (clear_reserved p) = ref_count p"
  by (simp_all add: set_reserved_def clear_reserved_def)

lemma run_node_notin: "(\<forall>q \<in> set qs. fst q \<noteq> i) \<Longrightarrow> PageNode i \<notin> set (FreeHead # map run_node qs)"
  by auto

lemma alloc_scan_chain:
  assumes "chain (nodes a) v (map run_node rs)"
    and "next (nodes a) (last (v # map run_node rs)) = FreeHead"
    and "\<forall>r \<in> set rs. run_length a (fst r) = snd r"
  shows "alloc_scan a n v = Some (map_option fst (alloc_runs rs (unat n)))"
  using assms
proof (induction rs arbitrary: v)
  case Nil
  then show ?case by (simp add: alloc_scan.simps [of a n v])
next
  case (Cons r rs)
  have IH: "alloc_scan a n (run_node r) = Some (map_option fst (alloc_runs rs (unat n)))"
    using Cons.prems by (intro Cons.IH) auto
  show ?case
    using Cons.prems IH
    by (auto simp: alloc_scan.simps [of a n v] word_le_nat_alt option.map_comp comp_def
        split_beta)
qed

lemma alloc_take_nodes:
  "nodes (alloc_take a p n) =
     unlink (if unat n < run_length a p
             then add_after (nodes a) (PageNode p) (PageNode (p + unat n)) else nodes a) (PageNode p)"
  by (simp add: alloc_take_def Let_def word_less_nat_alt)

lemma alloc_take_count:
  "free_page_count (alloc_take a p n) = sub_count (free_page_count a) n"
  by (simp add: alloc_take_def Let_def)

lemma alloc_take_length:
  "run_length (alloc_take a p n) i =
     (if i = p + unat n \<and> unat n < run_length a p then run_length a p - unat n else run_length a i)"
  by (simp add: alloc_take_def Let_def word_less_nat_alt unat_sub_count)

lemma wf_runs_inner:
  assumes "wf_runs N (r # rs)" and "q \<in> set rs" and "n < snd r"
  shows "fst q \<noteq> fst r + n"
proof -
  have "apart r q" "0 < snd q" using assms by (auto simp: kernel_inv wf_runs_def)
  with assms(3) show ?thesis by (auto simp: apart_def)
qed

lemma alloc_take_runs:
  assumes area: "area_runs a (as @ r # bs)" and wf: "wf_runs N (as @ r # bs)"
    and n: "0 < unat n" "unat n \<le> snd r"
  shows "area_runs (alloc_take a (fst r) n) (as @ split_run r (unat n) @ bs)"
proof -
  have rl: "run_length a (fst r) = snd r" and rls: "\<forall>q \<in> set (as @ bs). run_length a (fst q) = snd q"
    using area by (simp_all add: area_runs_def)
  have rg: "ring (nodes a) FreeHead (map run_node as @ run_node r # map run_node bs)"
    using area by (simp add: area_runs_def)
  have "unat (free_page_count a) = sum_list (map snd (as @ r # bs))"
    using area by (simp only: area_runs_def)
  then have sum: "unat (sub_count (free_page_count a) n) + unat n = sum_list (map snd (as @ r # bs))"
    using n by (simp add: unat_sub_count)
  have wf': "wf_runs N (r # as @ bs)" using wf wf_runs_mid by blast
  show ?thesis
  proof (cases "unat n < snd r")
    case False
    then have "split_run r (unat n) = []" by (simp add: split_run_def)
    with False show ?thesis
      using ring_unlink(1) [OF rg] rls sum n rl
      by (simp add: area_runs_def alloc_take_nodes alloc_take_count alloc_take_length)
  next
    case True
    let ?m = "fst r + unat n"
    have new: "\<forall>q \<in> set (as @ bs). fst q \<noteq> ?m"
      using wf_runs_inner [OF wf' _ True] by blast
    have "PageNode ?m \<notin> set (FreeHead # map run_node as @ run_node r # map run_node bs)"
      using run_node_notin [OF new] n by simp
    from ring_unlink(1) [OF ring_add_after [OF rg this]]
    have "ring (nodes (alloc_take a (fst r) n)) FreeHead
        (map run_node as @ PageNode ?m # map run_node bs)"
      using True rl by (simp add: alloc_take_nodes)
    moreover have "\<forall>q \<in> set (as @ bs). run_length (alloc_take a (fst r) n) (fst q) = snd q"
      using rls new by (simp add: alloc_take_length)
    ultimately show ?thesis
      using True n rl sum
      by (simp add: area_runs_def split_run_def alloc_take_count alloc_take_length)
  qed
qed

lemma alloc_take_refs [simp]: "ref_count (pages (alloc_take a p n) i) = ref_count (pages a i)"
  by (simp add: alloc_take_def Let_def)

lemma allocator_alloc_runs:
  assumes area: "area_runs a rs" and wf: "wf_runs N rs" and n: "0 < unat n"
  shows "case alloc_runs rs (unat n) of
      None \<Rightarrow> allocator_alloc a n = Some (None, a)
    | Some (p, rs') \<Rightarrow> allocator_alloc a n = Some (Some p, alloc_take a p n) \<and>
        area_runs (alloc_take a p n) rs'"
proof -
  have scan: "alloc_scan a n FreeHead = Some (map_option fst (alloc_runs rs (unat n)))"
    using area by (intro alloc_scan_chain) (auto simp: area_runs_def ring_def)
  show ?thesis
  proof (cases "alloc_runs rs (unat n)")
    case None
    with scan show ?thesis by (simp add: allocator_alloc_def)
  next
    case (Some pr)
    then obtain p rs' where pr: "alloc_runs rs (unat n) = Some (p, rs')" by (cases pr) auto
    from alloc_runs_Some [OF pr] obtain as r bs where
      eqs: "rs = as @ r # bs" "p = fst r" "unat n \<le> snd r" "rs' = as @ split_run r (unat n) @ bs"
      by blast
    have "unat n \<le> unat (free_page_count a)" using area eqs by (simp add: area_runs_def)
    then show ?thesis
      using scan pr alloc_take_runs area wf eqs n
      by (auto simp: allocator_alloc_def word_less_nat_alt)
  qed
qed

text \<open>
  The merging loop: \<open>kept\<close> are the runs already passed over, \<open>rest\<close> those still to visit. The
  loop's \<^verbatim>\<open>prev\<close> is the last run kept, so the merged run goes to the end of the list.
\<close>

definition merging :: "nat \<Rightarrow> page_area \<Rightarrow> run \<Rightarrow> run list \<Rightarrow> bool" where
  "merging N a b rs \<longleftrightarrow>
     wf_runs N (b # rs) \<and> ring (nodes a) FreeHead (map run_node rs) \<and>
     (\<forall>r \<in> set (b # rs). run_length a (fst r) = snd r)"

definition same_refs :: "page_area \<Rightarrow> page_area \<Rightarrow> bool" where
  "same_refs a a' \<longleftrightarrow> (\<forall>i. ref_count (pages a' i) = ref_count (pages a i))"

lemma same_refs_trans: "same_refs a b \<Longrightarrow> same_refs b c \<Longrightarrow> same_refs a c"
  by (simp add: same_refs_def)

lemma same_refs_nodes: "same_refs a b \<Longrightarrow> same_refs a (b\<lparr>nodes := h\<rparr>)"
  by (simp add: same_refs_def)

lemma same_refs_upd:
  "same_refs a b \<Longrightarrow> ref_count (f (pages b i)) = ref_count (pages b i) \<Longrightarrow> same_refs a (upd_page b i f)"
  by (simp add: same_refs_def)

lemma same_refs_refl: "same_refs a a"
  by (simp add: same_refs_def)

lemmas same_refs_intros = same_refs_nodes same_refs_upd same_refs_refl

lemma merging_starts:
  assumes "merging N a b rs" and "q \<in> set rs"
  shows "fst q \<noteq> fst b"
  using assms wf_runs_inner [of N b rs q 0] by (auto simp: merging_def kernel_inv)

lemma merging_other:
  assumes "merging N a b (kept @ r # rest)"
  shows "\<forall>q \<in> set (kept @ rest). fst q \<noteq> fst b \<and> fst q \<noteq> fst r"
proof -
  have "wf_runs N (r # kept @ rest)"
    using assms wf_runs_mid [of N kept r rest] by (simp add: merging_def kernel_inv)
  then show ?thesis
    using merging_starts [OF assms] wf_runs_inner [of N r "kept @ rest" _ 0] by (simp add: kernel_inv)
qed

lemma merging_add:
  assumes "merging N a b (kept @ r # rest)" and "N < 2 ^ 32"
    and "fst b + snd b = fst r \<or> fst r + snd r = fst b"
  shows "unat (block_page_count (pages a (fst b)) + block_page_count (pages a (fst r))) =
    snd b + snd r"
proof -
  have "snd b + snd r \<le> N"
    using assms(1,3) by (auto simp: merging_def wf_runs_def)
  moreover have "run_length a (fst b) = snd b" "run_length a (fst r) = snd r"
    using assms(1) by (auto simp: merging_def)
  ultimately show ?thesis
    using assms(2) unat_add_lem [of "block_page_count (pages a (fst b))" "block_page_count (pages a (fst r))"]
    by simp
qed

lemma merging_forward:
  assumes m: "merging N a b (kept @ r # rest)" and N: "N < 2 ^ 32" and adj: "fst b + snd b = fst r"
  defines "a' \<equiv> upd_page (upd_page a (fst b) (\<lambda>p. p\<lparr>block_page_count :=
      block_page_count p + block_page_count (pages a (fst r))\<rparr>)) (fst r) clear_reserved
      \<lparr>nodes := unlink (nodes a) (run_node r)\<rparr>"
  shows "merging N a' (fst b, snd b + snd r) (kept @ rest)"
proof -
  have "wf_runs N (b # r # kept @ rest)"
    using m by (auto simp: merging_def kernel_inv apart_sym)
  then have wf: "wf_runs N ((fst b, snd b + snd r) # kept @ rest)" using adj by (rule wf_runs_join)
  have rg: "ring (nodes a') FreeHead (map run_node (kept @ rest))"
    using m ring_unlink(1) [of "nodes a" FreeHead "map run_node kept" "run_node r"]
    by (simp add: merging_def a'_def)
  have "\<forall>q \<in> set (kept @ rest). run_length a' (fst q) = snd q"
    using m merging_other [OF m] by (simp add: merging_def a'_def)
  moreover have "run_length a' (fst b) = snd b + snd r"
    using merging_add [OF m N] adj merging_starts [OF m, of r] by (simp add: a'_def)
  ultimately show ?thesis using wf rg by (simp add: merging_def)
qed

lemma merging_backward:
  assumes m: "merging N a b (kept @ r # rest)" and N: "N < 2 ^ 32" and adj: "fst r + snd r = fst b"
  defines "a' \<equiv> upd_page (upd_page a (fst r) (\<lambda>p. p\<lparr>block_page_count :=
      block_page_count p + block_page_count (pages a (fst b))\<rparr>)) (fst b) clear_reserved
      \<lparr>nodes := unlink (nodes a) (run_node r)\<rparr>"
  shows "merging N a' (fst r, snd r + snd b) (kept @ rest)"
proof -
  have wf0: "wf_runs N (r # b # kept @ rest)"
    using m by (auto simp: merging_def kernel_inv apart_sym)
  then have wf: "wf_runs N ((fst r, snd r + snd b) # kept @ rest)" using adj by (rule wf_runs_join)
  have rg: "ring (nodes a') FreeHead (map run_node (kept @ rest))"
    using m ring_unlink(1) [of "nodes a" FreeHead "map run_node kept" "run_node r"]
    by (simp add: merging_def a'_def)
  have "\<forall>q \<in> set (kept @ rest). run_length a' (fst q) = snd q"
    using m merging_other [OF m] by (simp add: merging_def a'_def)
  moreover have "run_length a' (fst r) = snd r + snd b"
    using merging_add [OF m N] adj merging_starts [OF m, of r] by (simp add: a'_def add.commute)
  ultimately show ?thesis using wf rg by (simp add: merging_def)
qed

lemma ring_next_split:
  assumes "ring h head (map f (kept @ r # rest))"
  shows "next h (f r) = hd (map f rest @ [head])"
  using ring_at(2) [of h head "map f kept" "f r" "map f rest"] assms by simp

lemma free_merge_runs:
  assumes "merging N a b (kept @ rest)" and "N < 2 ^ 32"
    and "pv = last (FreeHead # map run_node kept)" and "le = hd (map run_node rest @ [FreeHead])"
    and "merge_runs b rest = (c, kept')"
  shows "\<exists>a'. free_merge a (fst b) pv le =
      Some (a', fst c, last (FreeHead # map run_node (kept @ kept'))) \<and>
    merging N a' c (kept @ kept') \<and> free_page_count a' = free_page_count a \<and> same_refs a a'"
  using assms
proof (induction rest arbitrary: a b kept pv le c kept')
  case Nil
  then show ?case by (auto simp: free_merge.simps [of a _ _ FreeHead] same_refs_def)
next
  case (Cons r rest)
  note m = Cons.prems(1) and N = Cons.prems(2)
  have le: "le = run_node r" using Cons.prems(4) by simp
  have rlb: "run_length a (fst b) = snd b" "run_length a (fst r) = snd r"
    using m by (simp_all add: merging_def)
  have nx: "next (nodes a) (run_node r) = hd (map run_node rest @ [FreeHead])"
    using m by (intro ring_next_split [of _ _ _ kept]) (simp add: merging_def)
  consider "fst b + snd b = fst r" | "fst b + snd b \<noteq> fst r" "fst r + snd r = fst b"
    | "fst b + snd b \<noteq> fst r" "fst r + snd r \<noteq> fst b" by blast
  then show ?case
  proof cases
    case 1
    have mr: "merge_runs (fst b, snd b + snd r) rest = (c, kept')" using Cons.prems(5) 1 by simp
    let ?a = "upd_page (upd_page a (fst b) (\<lambda>p. p\<lparr>block_page_count :=
        block_page_count p + block_page_count (pages a (fst r))\<rparr>)) (fst r) clear_reserved
        \<lparr>nodes := unlink (nodes a) (run_node r)\<rparr>"
    have step: "free_merge a (fst b) pv le = free_merge ?a (fst b) pv (next (nodes a) (run_node r))"
      using 1 by (simp add: le free_merge.simps [of a "fst b" pv "run_node r"] rlb Let_def)
    have "same_refs a ?a" by (intro same_refs_intros) simp_all
    then show ?thesis
      using Cons.IH [OF merging_forward [OF m N 1] N Cons.prems(3) nx mr] same_refs_trans
      by (fastforce simp: step)
  next
    case 2
    have mr: "merge_runs (fst r, snd r + snd b) rest = (c, kept')" using Cons.prems(5) 2 by simp
    let ?a = "upd_page (upd_page a (fst r) (\<lambda>p. p\<lparr>block_page_count :=
        block_page_count p + block_page_count (pages a (fst b))\<rparr>)) (fst b) clear_reserved
        \<lparr>nodes := unlink (nodes a) (run_node r)\<rparr>"
    have step: "free_merge a (fst b) pv le = free_merge ?a (fst r) pv (next (nodes a) (run_node r))"
      using 2 by (simp add: le free_merge.simps [of a "fst b" pv "run_node r"] rlb Let_def)
    have "same_refs a ?a" by (intro same_refs_intros) simp_all
    then show ?thesis
      using Cons.IH [OF merging_backward [OF m N 2(2)] N Cons.prems(3) nx mr] same_refs_trans
      by (fastforce simp: step)
  next
    case 3
    with Cons.prems(5) obtain ks where ks: "merge_runs b rest = (c, ks)" "kept' = r # ks"
      by (auto simp: map_prod_def split: prod.splits)
    have "merging N a b ((kept @ [r]) @ rest)" using m by simp
    from Cons.IH [OF this N _ nx ks(1)] 3 ks(2) show ?thesis
      by (simp add: le free_merge.simps [of a "fst b" pv "PageNode (fst r)"] rlb Let_def)
  qed
qed

text \<open>The reset loop of \<^verbatim>\<open>free\<close> and its assertion on the reference counts.\<close>

lemma reset_pages_ok:
  assumes "\<forall>i. p \<le> i \<and> i < p + k \<longrightarrow> ref_count (pages a i) = 0"
  shows "\<exists>a'. reset_pages a p k = Inr a' \<and> nodes a' = nodes a \<and>
    free_page_count a' = free_page_count a \<and> same_refs a a' \<and>
    (\<forall>i. block_page_count (pages a' i) = block_page_count (pages a i))"
  using assms
proof (induction k arbitrary: a p)
  case (Suc k)
  let ?a = "upd_page a p (\<lambda>q. q\<lparr>ref_count := 0, flags := 0\<rparr>)"
  have "\<forall>i. Suc p \<le> i \<and> i < Suc p + k \<longrightarrow> ref_count (pages ?a i) = 0"
    using Suc.prems by auto
  from Suc.IH [OF this] obtain a' where a': "reset_pages ?a (Suc p) k = Inr a'" "nodes a' = nodes ?a"
    "free_page_count a' = free_page_count ?a" "same_refs ?a a'"
    "\<forall>i. block_page_count (pages a' i) = block_page_count (pages ?a i)"
    by blast
  have "ref_count (pages a p) = 0" using Suc.prems by simp
  then show ?case using a' by (simp add: same_refs_def)
qed (simp add: same_refs_def)

lemma reset_pages_panic:
  assumes "p \<le> i" and "i < p + k" and "ref_count (pages a i) \<noteq> 0"
  shows "reset_pages a p k = Inl Panicked"
  using assms
proof (induction k arbitrary: a p)
  case (Suc k)
  then show ?case
    by (cases "i = p") (auto intro!: Suc.IH)
qed simp

text \<open>The descriptor of the block becomes that of a run, and the merged run joins the list.\<close>

lemma free_start:
  assumes area: "area_runs a rs" and wf: "wf_runs N ((b, unat n) # rs)" and N: "N < 2 ^ 32"
    and same: "nodes a1 = nodes a" "\<forall>i. block_page_count (pages a1 i) = block_page_count (pages a i)"
  shows "merging N (upd_page (upd_page a1 b (\<lambda>p. p\<lparr>block_page_count := to_u32 n\<rparr>)) b set_reserved)
    (b, unat n) rs"
proof -
  have "unat n < 2 ^ 32" using wf N by (auto simp: kernel_inv)
  moreover have "\<forall>q \<in> set rs. fst q \<noteq> b"
    using wf wf_runs_inner [OF wf, of _ 0] by (auto simp: kernel_inv)
  ultimately show ?thesis
    using area wf same by (simp add: merging_def area_runs_def unat_to_u32)
qed

lemma free_finish:
  assumes m: "merging N a c kept" and N: "N < 2 ^ 32"
    and count: "unat (free_page_count a) + unat n = sum_list (map snd (c # kept))"
  shows "area_runs (a\<lparr>free_page_count := add_count (free_page_count a) n,
      nodes := add_after (nodes a) (last (FreeHead # map run_node kept)) (run_node c)\<rparr>) (kept @ [c])"
proof -
  have "run_node c \<notin> set (FreeHead # map run_node kept)"
    using merging_starts [OF m] by (intro run_node_notin) blast
  moreover have "ring (nodes a) FreeHead (map run_node kept)" using m by (simp add: merging_def)
  ultimately have "ring (add_after (nodes a) (last (FreeHead # map run_node kept)) (run_node c))
      FreeHead (map run_node (kept @ [c]))"
    using ring_add_after_last [of "nodes a" FreeHead "map run_node kept" "run_node c"] by simp
  moreover have "sum_list (map snd (c # kept)) \<le> N"
    using m by (intro sum_runs_bound) (simp add: merging_def)
  then have "unat (add_count (free_page_count a) n) = sum_list (map snd (kept @ [c]))"
    using count N unat_add_count [of "free_page_count a" n] by simp
  ultimately show ?thesis using m by (simp add: area_runs_def merging_def)
qed

lemma allocator_free_runs:
  assumes area: "area_runs a rs" and wf: "wf_runs N ((b, unat n) # rs)" and N: "N < 2 ^ 32"
    and refs: "\<forall>i \<in> {b ..< b + unat n}. ref_count (pages a i) = 0"
  shows "\<exists>a'. allocator_free a b n = Some (Inr a') \<and> area_runs a' (free_runs rs b (unat n)) \<and>
    same_refs a a'"
proof -
  obtain a1 where a1: "reset_pages a b (unat n) = Inr a1" "nodes a1 = nodes a"
    "free_page_count a1 = free_page_count a" "same_refs a a1"
    "\<forall>i. block_page_count (pages a1 i) = block_page_count (pages a i)"
    using reset_pages_ok [of b "unat n" a] refs by auto
  define a2 where "a2 = upd_page (upd_page a1 b (\<lambda>p. p\<lparr>block_page_count := to_u32 n\<rparr>)) b set_reserved"
  have refs2: "same_refs a a2"
    unfolding a2_def using a1(4) by (intro same_refs_intros) simp_all
  have m: "merging N a2 (b, unat n) ([] @ rs)"
    using free_start [OF area wf N a1(2,5)] by (simp add: a2_def)
  have le: "next (nodes a2) FreeHead = hd (map run_node rs @ [FreeHead])"
    using area ring_head_links(2) a1(2) by (auto simp: area_runs_def a2_def)
  obtain c kept where mr: "merge_runs (b, unat n) rs = (c, kept)" by fastforce
  from free_merge_runs [OF m N _ le mr, of FreeHead] obtain a3 where
    a3: "free_merge a2 b FreeHead (next (nodes a2) FreeHead) =
        Some (a3, fst c, last (FreeHead # map run_node kept))"
      "merging N a3 c kept" "free_page_count a3 = free_page_count a2" "same_refs a2 a3"
    by auto
  let ?a = "a3\<lparr>free_page_count := add_count (free_page_count a3) n,
    nodes := add_after (nodes a3) (last (FreeHead # map run_node kept)) (run_node c)\<rparr>"
  have "nodes a2 = nodes a" by (simp add: a2_def a1)
  then have run: "allocator_free a b n = Some (Inr ?a)"
    using a3(1) by (simp add: allocator_free_def a1 Let_def flip: a2_def)
  have "unat (free_page_count a3) + unat n = sum_list (map snd (c # kept))"
    using merge_runs_wf [OF wf mr] area a3(3) a1(3) by (simp add: area_runs_def a2_def)
  from free_finish [OF a3(2) N this] have "area_runs ?a (free_runs rs b (unat n))"
    using mr by (simp add: free_runs_def)
  moreover have "same_refs a ?a"
    using same_refs_trans [OF refs2 a3(4)] by (simp add: same_refs_def)
  ultimately show ?thesis using run by blast
qed

lemma free_runs_wf:
  assumes "wf_runs N ((b, n) # rs)"
  shows "wf_runs N (free_runs rs b n)"
    and "cover (free_runs rs b n) = cover rs \<union> {b ..< b + n}"
    and "coalesced rs \<Longrightarrow> coalesced (free_runs rs b n)"
proof -
  obtain c kept where mr: "merge_runs (b, n) rs = (c, kept)" by fastforce
  note props = merge_runs_wf [OF assms mr]
  show "wf_runs N (free_runs rs b n)"
    using props mr wf_runs_rotate by (simp add: free_runs_def)
  show "cover (free_runs rs b n) = cover rs \<union> {b ..< b + n}"
    using props mr by (auto simp: free_runs_def run_pages_def)
  show "coalesced rs \<Longrightarrow> coalesced (free_runs rs b n)"
    using merge_runs_coalesced [OF assms mr] mr by (simp add: free_runs_def)
qed

text \<open>\<^verbatim>\<open>init_memmap\<close> constructs the descriptors of a region and adds it as one run at the end.\<close>

lemma construct_pages_frame:
  "free_page_count (construct_pages a p k) = free_page_count a"
  "i < p \<or> p + k \<le> i \<Longrightarrow> pages (construct_pages a p k) i = pages a i"
  by (induction k arbitrary: a p) auto

lemma construct_pages_nodes:
  assumes "n \<notin> PageNode ` {p ..< p + k}"
  shows "next (nodes (construct_pages a p k)) n = next (nodes a) n"
    and "prev (nodes (construct_pages a p k)) n = prev (nodes a) n"
  using assms
proof (induction k arbitrary: a p)
  case (Suc k)
  {
    case 1
    then have "n \<notin> PageNode ` {Suc p ..< Suc p + k}" "n \<noteq> PageNode p" by auto
    with Suc.IH(1) show ?case by (simp add: list_node_init_def ptr_defs)
  next
    case 2
    then have "n \<notin> PageNode ` {Suc p ..< Suc p + k}" "n \<noteq> PageNode p" by auto
    with Suc.IH(2) show ?case by (simp add: list_node_init_def ptr_defs)
  }
qed simp_all

lemma init_memmap_runs:
  assumes area: "area_runs a rs" and wf: "wf_runs N ((b, unat n) # rs)" and N: "N < 2 ^ 32"
  shows "area_runs (init_memmap a b n) (rs @ [(b, unat n)])"
proof -
  let ?a = "construct_pages a b (unat n)"
  have n32: "unat n < 2 ^ 32" "0 < unat n" using wf N by (auto simp: kernel_inv)
  have out: "fst q < b \<or> b + unat n \<le> fst q" if "q \<in> set rs" for q
    using wf_runs_inner [OF wf that, of "fst q - b"] by simp linarith
  then have frame: "m \<notin> PageNode ` {b ..< b + unat n}" if "m \<in> set (FreeHead # map run_node rs)" for m
    using that by fastforce
  have "ring (nodes ?a) FreeHead (map run_node rs)"
    using area construct_pages_nodes [OF frame]
      ring_cong [of FreeHead "map run_node rs" "nodes ?a" "nodes a"]
    by (simp add: area_runs_def)
  moreover have "PageNode b \<notin> set (FreeHead # map run_node rs)"
    using out n32 by (intro run_node_notin) fastforce
  ultimately have "ring (nodes (init_memmap a b n)) FreeHead (map run_node (rs @ [(b, unat n)]))"
    using ring_add_before_head [of "nodes ?a" FreeHead "map run_node rs" "PageNode b"]
    by (simp add: init_memmap_def Let_def)
  moreover have "\<forall>r \<in> set rs. run_length (init_memmap a b n) (fst r) = snd r"
    using out n32 area construct_pages_frame(2)
    by (fastforce simp: init_memmap_def Let_def area_runs_def)
  moreover have "unat (free_page_count (init_memmap a b n)) = sum_list (map snd rs) + unat n"
    using area sum_runs_bound [OF wf] N
    by (simp add: init_memmap_def Let_def area_runs_def construct_pages_frame(1) unat_add_count)
  ultimately show ?thesis
    using n32 by (simp add: area_runs_def init_memmap_def Let_def unat_to_u32)
qed

lemma construct_pages_refs:
  "\<forall>i. ref_count (pages a i) = 0 \<Longrightarrow> \<forall>i. ref_count (pages (construct_pages a p k) i) = 0"
  by (induction k arbitrary: a p) (auto simp: new_page_def)

lemma init_memmap_refs:
  "\<forall>i. ref_count (pages a i) = 0 \<Longrightarrow> ref_count (pages (init_memmap a b n) i) = 0"
  using construct_pages_refs by (simp add: init_memmap_def Let_def)

lemma empty_area_refs: "\<forall>i. ref_count (pages empty_area i) = 0"
  by (simp add: empty_area_def new_page_def)

lemma empty_area_runs: "area_runs empty_area []"
  by (simp add: area_runs_def empty_area_def ring_def)

section \<open>The contract of a page supply\<close>

text \<open>
  What the users of physical memory rely on, over the set of free pages: an allocation takes a
  block of free pages or leaves the state alone, a release of a block that is not free and not
  referenced puts it back and cannot panic, neither touches reference counts.
\<close>

definition block_pages :: "nat \<times> u64 \<Rightarrow> nat set" where
  "block_pages b = {fst b ..< fst b + unat (snd b)}"

definition live_pages :: "(nat \<times> u64) list \<Rightarrow> nat set" where
  "live_pages live = (\<Union>b \<in> set live. block_pages b)"

lemma live_pages_simps [simp]:
  "live_pages [] = {}"
  "live_pages (b # bs) = block_pages b \<union> live_pages bs"
  "live_pages (bs @ cs) = live_pages bs \<union> live_pages cs"
  by (auto simp: live_pages_def)

locale page_supply =
  fixes holds :: "'a \<Rightarrow> nat set \<Rightarrow> bool"
    and refs :: "'a \<Rightarrow> nat \<Rightarrow> int"
    and alloc :: "'a \<Rightarrow> u64 \<Rightarrow> (nat option \<times> 'a) option"
    and release :: "'a \<Rightarrow> nat \<Rightarrow> u64 \<Rightarrow> 'a exec"
    and limit :: nat
  assumes holds_bound: "holds a F \<Longrightarrow> F \<subseteq> {..<limit}"
    and alloc_returns: "holds a F \<Longrightarrow> 0 < n \<Longrightarrow> \<exists>r a'. alloc a n = Some (r, a')"
    and alloc_none: "holds a F \<Longrightarrow> 0 < n \<Longrightarrow> alloc a n = Some (None, a') \<Longrightarrow> a' = a"
    and alloc_some: "holds a F \<Longrightarrow> 0 < n \<Longrightarrow> alloc a n = Some (Some p, a') \<Longrightarrow>
      block_pages (p, n) \<subseteq> F \<and> holds a' (F - block_pages (p, n)) \<and> refs a' = refs a"
    and release_ok: "holds a F \<Longrightarrow> 0 < n \<Longrightarrow> block_pages (p, n) \<inter> F = {} \<Longrightarrow>
      block_pages (p, n) \<subseteq> {..<limit} \<Longrightarrow> \<forall>i \<in> block_pages (p, n). refs a i = 0 \<Longrightarrow>
      \<exists>a'. release a p n = Some (Inr a') \<and> holds a' (F \<union> block_pages (p, n)) \<and> refs a' = refs a"
begin

text \<open>The pages \<open>F0\<close> are split between the free set and the blocks handed out.\<close>

definition ledger :: "nat set \<Rightarrow> 'a \<Rightarrow> (nat \<times> u64) list \<Rightarrow> bool" where
  "ledger F0 a live \<longleftrightarrow>
     (\<exists>F. holds a F \<and> F \<inter> live_pages live = {} \<and> F \<union> live_pages live = F0) \<and>
     F0 \<subseteq> {..<limit} \<and> (\<forall>b \<in> set live. 0 < snd b) \<and>
     sorted_wrt (\<lambda>b c. block_pages b \<inter> block_pages c = {}) live \<and> (\<forall>i \<in> F0. refs a i = 0)"

lemma ledger_start: "holds a F \<Longrightarrow> \<forall>i \<in> F. refs a i = 0 \<Longrightarrow> ledger F a []"
  using holds_bound by (auto simp: ledger_def)

lemma ledger_get:
  assumes "ledger F0 a live" and "0 < n" and "alloc a n = Some (Some p, a')"
  shows "ledger F0 a' ((p, n) # live)"
proof -
  from assms(1) obtain F where F: "holds a F" "F \<inter> live_pages live = {}" "F \<union> live_pages live = F0"
    by (auto simp: ledger_def)
  note got = alloc_some [OF F(1) assms(2,3)]
  have "holds a' (F - block_pages (p, n))"
    "(F - block_pages (p, n)) \<inter> live_pages ((p, n) # live) = {}"
    "(F - block_pages (p, n)) \<union> live_pages ((p, n) # live) = F0"
    using got F by auto
  moreover have "\<forall>b \<in> set live. block_pages (p, n) \<inter> block_pages b = {}"
    using got F(2) by (auto simp: live_pages_def)
  ultimately show ?thesis using assms(1,2) got by (auto simp: ledger_def)
qed

lemma ledger_put:
  assumes "ledger F0 a (bs @ (p, n) # cs)"
  shows "\<exists>a'. release a p n = Some (Inr a') \<and> ledger F0 a' (bs @ cs)"
proof -
  from assms obtain F where F: "holds a F" "F \<inter> live_pages (bs @ (p, n) # cs) = {}"
    "F \<union> live_pages (bs @ (p, n) # cs) = F0" by (auto simp: ledger_def)
  have sub: "block_pages (p, n) \<subseteq> F0" using F(3) by auto
  have "\<exists>a'. release a p n = Some (Inr a') \<and> holds a' (F \<union> block_pages (p, n)) \<and> refs a' = refs a"
    using assms F sub by (intro release_ok) (auto simp: ledger_def)
  then obtain a' where a': "release a p n = Some (Inr a')" "holds a' (F \<union> block_pages (p, n))"
    "refs a' = refs a" by blast
  have "block_pages (p, n) \<inter> block_pages b = {}" if "b \<in> set (bs @ cs)" for b
    using assms that by (auto simp: ledger_def sorted_wrt_append)
  then have "block_pages (p, n) \<inter> live_pages (bs @ cs) = {}" by (auto simp: live_pages_def)
  then have "(F \<union> block_pages (p, n)) \<inter> live_pages (bs @ cs) = {}"
    "(F \<union> block_pages (p, n)) \<union> live_pages (bs @ cs) = F0"
    using F(2,3) by auto
  with a' assms have "ledger F0 a' (bs @ cs)"
    unfolding ledger_def by (auto simp: sorted_wrt_append)
  with a'(1) show ?thesis by blast
qed

end

section \<open>The allocator as a page supply\<close>

text \<open>\<^verbatim>\<open>Factory::page_count_\<close> is a \<^verbatim>\<open>uint32_t\<close>, so there are fewer than $2^{32}$ pages.\<close>

definition MAX_PAGES :: nat where
  "MAX_PAGES = 2 ^ 32 - 1"

lemma area_free_alloc:
  assumes "area_free N a F" and "0 < n"
  shows "allocator_alloc a n = Some (None, a) \<or>
    (\<exists>p. allocator_alloc a n = Some (Some p, alloc_take a p n) \<and> block_pages (p, n) \<subseteq> F \<and>
       area_free N (alloc_take a p n) (F - block_pages (p, n)))"
proof -
  from assms(1) obtain rs where rs: "wf_runs N rs" "area_runs a rs" "cover rs = F"
    by (auto simp: area_free_def)
  have n: "0 < unat n" using assms(2) by (simp add: word_less_nat_alt)
  show ?thesis
  proof (cases "alloc_runs rs (unat n)")
    case None
    then show ?thesis using allocator_alloc_runs [OF rs(2,1) n] by simp
  next
    case (Some pr)
    then obtain p rs' where pr: "alloc_runs rs (unat n) = Some (p, rs')" by (cases pr) auto
    then have "allocator_alloc a n = Some (Some p, alloc_take a p n)" "area_runs (alloc_take a p n) rs'"
      using allocator_alloc_runs [OF rs(2,1) n] by simp_all
    moreover note alloc_runs_wf [OF rs(1) pr n]
    ultimately show ?thesis using rs(3) by (auto simp: area_free_def block_pages_def)
  qed
qed

lemma area_free_release:
  assumes "area_free N a F" and N: "N < 2 ^ 32" and n: "0 < n"
    and fresh: "block_pages (b, n) \<inter> F = {}" and bound: "block_pages (b, n) \<subseteq> {..<N}"
    and refs: "\<forall>i \<in> block_pages (b, n). ref_count (pages a i) = 0"
  shows "\<exists>a'. allocator_free a b n = Some (Inr a') \<and> area_free N a' (F \<union> block_pages (b, n)) \<and>
    same_refs a a'"
proof -
  from assms(1) obtain rs where rs: "wf_runs N rs" "area_runs a rs" "cover rs = F"
    by (auto simp: area_free_def)
  have n: "0 < unat n" using n by (simp add: word_less_nat_alt)
  then have "b + unat n - 1 \<in> block_pages (b, n)" by (simp add: block_pages_def)
  then have "b + unat n \<le> N" using bound by fastforce
  then have wf: "wf_runs N ((b, unat n) # rs)"
    using rs fresh n cover_apart [OF n rs(1)] by (simp add: kernel_inv block_pages_def)
  from allocator_free_runs [OF rs(2) wf N] refs free_runs_wf [OF wf] rs(3) show ?thesis
    by (fastforce simp: area_free_def block_pages_def)
qed

lemma area_free_bound: "area_free N a F \<Longrightarrow> F \<subseteq> {..<N}"
  using cover_card by (auto simp: area_free_def)

lemma area_free_upd:
  assumes "area_free N a F" and "i \<notin> F"
  shows "area_free N (upd_page a i f) F"
proof -
  from assms(1) obtain rs where rs: "wf_runs N rs" "area_runs a rs" "cover rs = F"
    by (auto simp: area_free_def)
  have "fst r \<noteq> i" if "r \<in> set rs" for r
    using that rs assms(2) by (auto simp: cover_def run_pages_def wf_runs_def)
  then have "area_runs (upd_page a i f) rs" using rs(2) by (simp add: area_runs_def)
  with rs show ?thesis by (auto simp: area_free_def)
qed

interpretation ff: page_supply "area_free MAX_PAGES" "\<lambda>a i. ref_count (pages a i)"
  alloc_pages free_pages MAX_PAGES
proof unfold_locales
  fix a a' F n p
  assume h: "area_free MAX_PAGES a F"
  show "F \<subseteq> {..<MAX_PAGES}" using h by (rule area_free_bound)
  assume n: "(0 :: u64) < n"
  note alloc = area_free_alloc [OF h n]
  show "\<exists>r a'. alloc_pages a n = Some (r, a')"
    using alloc by (auto simp: alloc_pages_def)
  show "alloc_pages a n = Some (None, a') \<Longrightarrow> a' = a"
    using alloc by (auto simp: alloc_pages_def)
  show "alloc_pages a n = Some (Some p, a') \<Longrightarrow>
      block_pages (p, n) \<subseteq> F \<and> area_free MAX_PAGES a' (F - block_pages (p, n)) \<and>
      (\<lambda>i. ref_count (pages a' i)) = (\<lambda>i. ref_count (pages a i))"
    using alloc by (auto simp: alloc_pages_def)
  assume "block_pages (p, n) \<inter> F = {}" "block_pages (p, n) \<subseteq> {..<MAX_PAGES}"
    "\<forall>i \<in> block_pages (p, n). ref_count (pages a i) = 0"
  from area_free_release [OF h _ n this]
  show "\<exists>a'. free_pages a p n = Some (Inr a') \<and> area_free MAX_PAGES a' (F \<union> block_pages (p, n)) \<and>
      (\<lambda>i. ref_count (pages a' i)) = (\<lambda>i. ref_count (pages a i))"
    by (fastforce simp: free_pages_def MAX_PAGES_def same_refs_def)
qed

text \<open>The states a client reaches that allocates blocks and frees blocks it holds.\<close>

inductive pages_client :: "page_area \<Rightarrow> page_area \<Rightarrow> (nat \<times> u64) list \<Rightarrow> bool" for a0 where
  start: "pages_client a0 a0 []"
| refused: "pages_client a0 a live \<Longrightarrow> 0 < n \<Longrightarrow> alloc_pages a n = Some (None, a') \<Longrightarrow>
    pages_client a0 a' live"
| get: "pages_client a0 a live \<Longrightarrow> 0 < n \<Longrightarrow> alloc_pages a n = Some (Some p, a') \<Longrightarrow>
    pages_client a0 a' ((p, n) # live)"
| put: "pages_client a0 a (bs @ (p, n) # cs) \<Longrightarrow> free_pages a p n = Some (Inr a') \<Longrightarrow>
    pages_client a0 a' (bs @ cs)"

lemma pages_client_ledger:
  assumes "pages_client a0 a live" and "area_free MAX_PAGES a0 F0"
    and "\<forall>i \<in> F0. ref_count (pages a0 i) = 0"
  shows "ff.ledger F0 a live"
  using assms
proof (induction rule: pages_client.induct)
  case start
  then show ?case by (rule ff.ledger_start)
next
  case (refused a live n a')
  then have "ff.ledger F0 a live" by blast
  then have "a' = a" using ff.alloc_none refused.hyps by (auto simp: ff.ledger_def)
  with \<open>ff.ledger F0 a live\<close> show ?case by simp
next
  case (get a live n p a')
  then show ?case by (intro ff.ledger_get)
next
  case (put a bs p n cs a')
  then have "ff.ledger F0 a (bs @ (p, n) # cs)" by blast
  from ff.ledger_put [OF this] put.hyps show ?case by auto
qed

section \<open>Helper facts for the kernel heap\<close>

lemma page_address_inverse:
  assumes "p < 2 ^ 32"
  shows "phys_to_page (page_to_phys p) = p" and "kva_to_page kb (page_to_kva kb p) = p"
proof -
  have "unat (push_bit 12 (word_of_nat p :: u64)) = p * 4096"
    using assms
    by (simp add: push_bit_eq_mult unat_word_ariths unsigned_of_nat take_bit_eq_mod)
  then show *: "phys_to_page (page_to_phys p) = p"
    by (simp add: phys_to_page_def page_to_phys_def PG_SHIFT_def drop_bit_eq_div unat_div_distrib)
  show "kva_to_page kb (page_to_kva kb p) = p"
    using * by (simp add: kva_to_page_def page_to_kva_def)
qed

lemma iterate_from_stuck:
  assumes "step cur = cur" and "cur \<noteq> head"
  shows "iterate_from step head cur = None"
proof (rule ccontr)
  assume "iterate_from step head cur \<noteq> None"
  then obtain y where "iterate_from step head cur = Some y" by auto
  then have "\<not> (step cur = cur \<and> cur \<noteq> head)"
    by (rule iterate_from.raw_induct [rotated]) (auto split: if_splits Option.bind_splits)
  with assms show False by simp
qed

text \<open>A zero-page request links a free run to itself while the list head still points at it.\<close>

lemma self_link:
  assumes "next h head = x" and "x \<noteq> head"
  shows "next (unlink (add_after h x x) x) head = x" and "next (unlink (add_after h x x) x) x = x"
  using assms by (simp_all add: unlink_def add_after_def ptr_defs Let_def)

lemma alloc_zero_take:
  assumes area: "area_runs a (r # rs)" and wf: "wf_runs N (r # rs)"
  shows "allocator_alloc a 0 = Some (Some (fst r), alloc_take a (fst r) 0)"
    and "next (nodes (alloc_take a (fst r) 0)) FreeHead = run_node r"
    and "next (nodes (alloc_take a (fst r) 0)) (run_node r) = run_node r"
proof -
  have h: "next (nodes a) FreeHead = run_node r" "run_length a (fst r) = snd r" "0 < snd r"
    using area wf by (auto simp: area_runs_def ring_def kernel_inv)
  then show "allocator_alloc a 0 = Some (Some (fst r), alloc_take a (fst r) 0)"
    by (simp add: allocator_alloc_def alloc_scan.simps [of a 0 FreeHead] word_le_nat_alt)
  show "next (nodes (alloc_take a (fst r) 0)) FreeHead = run_node r"
    "next (nodes (alloc_take a (fst r) 0)) (run_node r) = run_node r"
    using h self_link [of "nodes a" FreeHead "run_node r"] by (simp_all add: alloc_take_nodes)
qed

lemma round_sum: "byte_count + PG_SIZE - 1 = 4095 + byte_count"
  by (simp add: PG_SIZE_def)

lemma round_up_wraps:
  assumes "unat byte_count > 2 ^ 64 - 4096"
  shows "(byte_count + PG_SIZE - 1) div PG_SIZE = 0"
proof -
  have "unat (4095 + byte_count) = (4095 + unat byte_count) mod 2 ^ 64"
    by (simp add: unat_word_ariths)
  moreover obtain k where "4095 + unat byte_count = k + 2 ^ 64" "k < 4096"
  proof
    show "4095 + unat byte_count = (unat byte_count - 18446744073709547521) + 2 ^ 64"
      using assms by simp
    show "unat byte_count - 18446744073709547521 < 4096"
      using unat_lt_u64 [of byte_count] by linarith
  qed
  ultimately have "unat (4095 + byte_count) < 4096" by simp
  then have "unat ((byte_count + PG_SIZE - 1) div PG_SIZE) = 0"
    unfolding round_sum by (simp add: unat_div_distrib PG_SIZE_def)
  then show ?thesis by (simp add: unat_eq_0)
qed

lemma page_count_exact:
  assumes "unat byte_count + 4095 < 2 ^ 64"
  shows "unat ((byte_count + PG_SIZE - 1) div PG_SIZE) = (unat byte_count + 4095) div 4096"
proof -
  have "unat (4095 + byte_count) = unat byte_count + 4095"
    using assms by (simp add: unat_word_ariths)
  then show ?thesis unfolding round_sum by (simp add: unat_div_distrib PG_SIZE_def)
qed

lemma kmalloc_takes:
  assumes h: "area_free MAX_PAGES a F" and b: "byte_count \<noteq> 0" "unat byte_count + 4095 < 2 ^ 64"
    and k: "kmalloc kb a byte_count = Some (ptr, a1)" "ptr \<noteq> 0"
  shows "\<exists>p n. ptr = page_to_kva kb p \<and> unat n = (unat byte_count + 4095) div 4096 \<and>
    block_pages (p, n) \<subseteq> F \<and> area_free MAX_PAGES a1 (F - block_pages (p, n)) \<and>
    same_refs a a1 \<and> block_page_count (pages a1 p) = to_u32 n"
proof -
  define n where "n = (byte_count + PG_SIZE - 1) div PG_SIZE"
  have un: "unat n = (unat byte_count + 4095) div 4096"
    using page_count_exact [OF b(2)] by (simp add: n_def)
  moreover have "0 < unat byte_count" using b(1) by (simp add: unat_gt_0)
  ultimately have "0 < unat n" by (simp add: div_greater_zero_iff)
  then have n: "0 < n" by (simp add: word_less_nat_alt)
  from k b(1) area_free_alloc [OF h n] obtain p where
    p: "allocator_alloc a n = Some (Some p, alloc_take a p n)" "block_pages (p, n) \<subseteq> F"
      "area_free MAX_PAGES (alloc_take a p n) (F - block_pages (p, n))" "ptr = page_to_kva kb p"
      "a1 = upd_page (alloc_take a p n) p (\<lambda>q. q\<lparr>block_page_count := to_u32 n\<rparr>)"
    by (auto simp: kmalloc_def alloc_pages_def simp flip: n_def)
  have "p \<in> block_pages (p, n)" using \<open>0 < unat n\<close> by (simp add: block_pages_def)
  then have "area_free MAX_PAGES a1 (F - block_pages (p, n))"
    unfolding p(5) by (intro area_free_upd p(3)) simp
  then show ?thesis using p un by (intro exI [of _ p] exI [of _ n]) (simp add: same_refs_def)
qed

lemma kfree_kmalloc:
  assumes h: "area_free MAX_PAGES a F" and b: "byte_count \<noteq> 0" "unat byte_count + 4095 < 2 ^ 64"
    and k: "kmalloc kb a byte_count = Some (ptr, a1)" "ptr \<noteq> 0"
    and refs: "\<forall>i \<in> F. ref_count (pages a i) = 0"
  shows "\<exists>a2. kfree kb a1 ptr = Some (Inr a2) \<and> area_free MAX_PAGES a2 F"
proof -
  from kmalloc_takes [OF h b k] obtain p n where
    p: "ptr = page_to_kva kb p" "unat n = (unat byte_count + 4095) div 4096"
      "block_pages (p, n) \<subseteq> F" "area_free MAX_PAGES a1 (F - block_pages (p, n))" "same_refs a a1"
      "block_page_count (pages a1 p) = to_u32 n"
    by blast
  have "0 < unat byte_count" using b(1) by (simp add: unat_gt_0)
  then have n0: "0 < unat n" using p(2) by (simp add: div_greater_zero_iff)
  have "p \<in> block_pages (p, n)" "p + unat n - 1 \<in> block_pages (p, n)"
    using n0 by (auto simp: block_pages_def)
  then have "p < MAX_PAGES" "p + unat n - 1 < MAX_PAGES"
    using p(3) area_free_bound [OF h] by blast+
  then have "p < 2 ^ 32" "unat n < 2 ^ 32" by (auto simp: MAX_PAGES_def)
  then have page: "kva_to_page kb ptr = p" using p(1) page_address_inverse(2) by simp
  have cnt: "to_u64 (to_u32 n) = n" "to_u32 n > 0"
    using \<open>unat n < 2 ^ 32\<close> n0
    by (simp_all add: word_unat_eq_iff unat_to_u32 word_less_nat_alt)
  have "\<exists>a2. allocator_free a1 p n = Some (Inr a2) \<and>
      area_free MAX_PAGES a2 (F - block_pages (p, n) \<union> block_pages (p, n)) \<and> same_refs a1 a2"
    using p n0 refs area_free_bound [OF h]
    by (intro area_free_release) (auto simp: MAX_PAGES_def word_less_nat_alt same_refs_def)
  moreover have "F - block_pages (p, n) \<union> block_pages (p, n) = F" using p(3) by blast
  ultimately show ?thesis
    using k(2) page cnt p(6) by (auto simp: kfree_def free_pages_def Let_def)
qed

section \<open>Properties\<close>

text \<open>C21. Allocation refines first fit. On a well-formed free list a request for at least one page
  returns, takes the front of the first run that is long enough (and only fails when no run is),
  removes exactly these pages from the free set, and leaves a well-formed list that is coalesced
  if it was before.\<close>

theorem alloc_first_fit:
  assumes "area_runs a rs" and "wf_runs N rs" and "0 < n"
  shows "\<exists>r a'. allocator_alloc a n = Some (r, a') \<and>
    (case alloc_runs rs (unat n) of
       None \<Rightarrow> r = None \<and> a' = a \<and> (\<forall>q \<in> set rs. snd q < unat n)
     | Some (p, rs') \<Rightarrow> r = Some p \<and> area_runs a' rs' \<and> wf_runs N rs' \<and>
         cover rs' = cover rs - {p ..< p + unat n} \<and> {p ..< p + unat n} \<subseteq> cover rs \<and>
         (coalesced rs \<longrightarrow> coalesced rs'))"
proof -
  have n: "0 < unat n" using assms(3) by (simp add: word_less_nat_alt)
  show ?thesis
  proof (cases "alloc_runs rs (unat n)")
    case None
    then show ?thesis
      using allocator_alloc_runs [OF assms(1,2) n] alloc_runs_None by fastforce
  next
    case (Some pr)
    obtain p rs' where pr: "alloc_runs rs (unat n) = Some (p, rs')" using Some by (cases pr) auto
    have "allocator_alloc a n = Some (Some p, alloc_take a p n)" "area_runs (alloc_take a p n) rs'"
      using pr allocator_alloc_runs [OF assms(1,2) n] by simp_all
    with pr show ?thesis
      using alloc_runs_wf [OF assms(2) pr n] alloc_runs_coalesced [OF assms(2) pr _ n] by simp
  qed
qed

definition demo_area :: page_area where
  "demo_area = init_memmap empty_area 3 10"

lemma demo_area_runs: "area_runs demo_area [(3, 10)]" "wf_runs MAX_PAGES [(3, 10)]"
  using init_memmap_runs [OF empty_area_runs, of MAX_PAGES 3 10]
  by (simp_all add: demo_area_def wf_runs_def MAX_PAGES_def)

lemma demo_area_free:
  "area_free MAX_PAGES demo_area {3 ..< 13}" "\<forall>i \<in> {3 ..< 13}. ref_count (pages demo_area i) = 0"
proof -
  show "area_free MAX_PAGES demo_area {3 ..< 13}"
    using demo_area_runs by (auto simp: area_free_def cover_def run_pages_def)
  show "\<forall>i \<in> {3 ..< 13}. ref_count (pages demo_area i) = 0"
    using init_memmap_refs [OF empty_area_refs] by (simp add: demo_area_def)
qed

theorem alloc_first_fit_witness:
  "\<exists>a'. allocator_alloc demo_area 4 = Some (Some 3, a') \<and> area_runs a' [(7, 6)]"
  using alloc_first_fit [OF demo_area_runs, of 4] by (auto simp: split_run_def)

text \<open>C5. Release. Freeing a block of unreferenced pages that are not free terminates without a
  panic, puts exactly these pages back into the free set, keeps the list well formed, and leaves no
  two adjacent runs if there were none before.\<close>

theorem free_merges_neighbours:
  assumes "area_runs a rs" and "wf_runs N ((b, unat n) # rs)" and "N < 2 ^ 32"
    and "\<forall>i \<in> {b ..< b + unat n}. ref_count (pages a i) = 0"
  shows "\<exists>a' rs'. allocator_free a b n = Some (Inr a') \<and> area_runs a' rs' \<and> wf_runs N rs' \<and>
    cover rs' = cover rs \<union> {b ..< b + unat n} \<and> (coalesced rs \<longrightarrow> coalesced rs')"
  using allocator_free_runs [OF assms] free_runs_wf [OF assms(2)] by blast

theorem free_merges_neighbours_witness:
  "\<exists>a' rs'. allocator_free demo_area 13 2 = Some (Inr a') \<and> area_runs a' rs' \<and>
    cover rs' = {3 ..< 15} \<and> coalesced rs'"
proof -
  have "wf_runs MAX_PAGES ((13, unat (2 :: u64)) # [(3, 10)])"
    by (simp add: wf_runs_def apart_def MAX_PAGES_def)
  moreover have "\<forall>i \<in> {13 ..< 13 + unat (2 :: u64)}. ref_count (pages demo_area i) = 0"
    using init_memmap_refs [OF empty_area_refs] by (simp add: demo_area_def)
  moreover have "coalesced [(3, 10)]" by (simp add: coalesced_def)
  moreover have "cover [(3, 10)] \<union> {13 ..< 13 + unat (2 :: u64)} = {3 ..< 15}"
    by (auto simp: run_pages_def)
  ultimately show ?thesis
    using free_merges_neighbours [OF demo_area_runs(1), of MAX_PAGES 13 2]
    by (fastforce simp: MAX_PAGES_def)
qed

text \<open>C1. No page has two owners and none is lost. For every history of allocations and of frees of
  blocks the client holds, the free pages and the blocks handed out partition the pages the
  allocator started with, the blocks are pairwise disjoint, every further request returns, and every
  block held can be freed without a panic.\<close>

theorem pages_client_safe:
  assumes "pages_client a0 a live" and "area_free MAX_PAGES a0 F0"
    and "\<forall>i \<in> F0. ref_count (pages a0 i) = 0"
  shows "(\<exists>F. area_free MAX_PAGES a F \<and> F \<inter> live_pages live = {} \<and> F \<union> live_pages live = F0) \<and>
    sorted_wrt (\<lambda>b c. block_pages b \<inter> block_pages c = {}) live \<and>
    (\<forall>n > 0. \<exists>r a'. alloc_pages a n = Some (r, a')) \<and>
    (\<forall>(p, n) \<in> set live. \<exists>a'. free_pages a p n = Some (Inr a'))"
proof -
  have l: "ff.ledger F0 a live" using pages_client_ledger [OF assms] .
  have "\<exists>a'. free_pages a p n = Some (Inr a')" if "(p, n) \<in> set live" for p n
    using that l ff.ledger_put by (metis split_list)
  moreover have "\<exists>r a'. alloc_pages a n = Some (r, a')" if "0 < n" for n
    using that l ff.alloc_returns by (auto simp: ff.ledger_def)
  ultimately show ?thesis using l by (auto simp: ff.ledger_def)
qed

theorem pages_client_safe_witness:
  "\<exists>a. pages_client demo_area a [(3, 4)] \<and>
     (\<exists>F. area_free MAX_PAGES a F \<and> F \<inter> live_pages [(3, 4)] = {} \<and>
        F \<union> live_pages [(3, 4)] = {3 ..< 13})"
proof -
  obtain a where "alloc_pages demo_area 4 = Some (Some 3, a)"
    using allocator_alloc_runs [OF demo_area_runs, of 4] by (auto simp: alloc_pages_def split_run_def)
  then have "pages_client demo_area a [(3, 4)]"
    by (intro pages_client.get [OF pages_client.start]) simp_all
  with pages_client_safe [OF _ demo_area_free] show ?thesis by blast
qed

text \<open>C22. The kernel heap round trip: freeing the pointer that \<^verbatim>\<open>kmalloc\<close> returned for a request
  whose rounding does not overflow gives back exactly the pages it took.\<close>

theorem kmalloc_kfree_roundtrip:
  assumes "area_free MAX_PAGES a F" and "byte_count \<noteq> 0" and "unat byte_count + 4095 < 2 ^ 64"
    and "kmalloc kb a byte_count = Some (ptr, a1)" and "ptr \<noteq> 0"
    and "\<forall>i \<in> F. ref_count (pages a i) = 0"
  shows "\<exists>a2. kfree kb a1 ptr = Some (Inr a2) \<and> area_free MAX_PAGES a2 F"
  using kfree_kmalloc [OF assms] .

theorem kmalloc_kfree_roundtrip_witness:
  "\<exists>ptr a1 a2. kmalloc 0xFFFFFFFF80000000 demo_area 5000 = Some (ptr, a1) \<and>
     kfree 0xFFFFFFFF80000000 a1 ptr = Some (Inr a2) \<and> area_free MAX_PAGES a2 {3 ..< 13}"
proof -
  obtain a where "allocator_alloc demo_area 2 = Some (Some 3, a)"
    using allocator_alloc_runs [OF demo_area_runs, of 2] by (auto simp: split_run_def)
  then obtain a1 where "kmalloc 0xFFFFFFFF80000000 demo_area 5000 = Some (0xFFFFFFFF80003000, a1)"
    by (simp add: kmalloc_def alloc_pages_def PG_SIZE_def page_to_kva_def page_to_phys_def PG_SHIFT_def)
  with kmalloc_kfree_roundtrip [OF demo_area_free(1) _ _ this _ demo_area_free(2)]
  show ?thesis by fastforce
qed

text \<open>Freeing a block with a page that is still referenced panics.\<close>

theorem free_referenced_panics:
  assumes "b \<le> i" and "i < b + unat n" and "ref_count (pages a i) \<noteq> 0"
  shows "allocator_free a b n = Some (Inl Panicked)"
  using reset_pages_panic [OF assms] by (simp add: allocator_free_def)

theorem free_referenced_panics_witness:
  "allocator_free (upd_page demo_area 5 (\<lambda>p. p\<lparr>ref_count := 1\<rparr>)) 4 2 = Some (Inl Panicked)"
  by (rule free_referenced_panics [of _ 5]) simp_all

text \<open>C38. A request of nearly $2^{64}$ bytes rounds to zero pages, and \<^verbatim>\<open>kmalloc\<close> then links the
  first free run to itself: walking the free list no longer ends.\<close>

theorem kmalloc_wrap_corrupts:
  assumes "area_runs a (r # rs)" and "wf_runs N (r # rs)" and "unat byte_count > 2 ^ 64 - 4096"
  shows "\<exists>ptr a'. kmalloc kb a byte_count = Some (ptr, a') \<and> iterate (nodes a') FreeHead = None"
proof -
  have "byte_count \<noteq> 0" using assms(3) by (auto simp: unat_eq_0)
  moreover have "iterate (nodes (alloc_take a (fst r) 0)) FreeHead = None"
    unfolding iterate_def using alloc_zero_take(2,3) [OF assms(1,2)]
    by (simp add: iterate_from_stuck)
  ultimately show ?thesis
    using alloc_zero_take(1) [OF assms(1,2)] round_up_wraps [OF assms(3)]
    by (simp add: kmalloc_def alloc_pages_def)
qed

theorem kmalloc_wrap_corrupts_witness:
  "\<exists>ptr a'. kmalloc 0xFFFFFFFF80000000 demo_area 0xFFFFFFFFFFFFFFFF = Some (ptr, a') \<and>
     iterate (nodes a') FreeHead = None"
  by (rule kmalloc_wrap_corrupts [OF demo_area_runs]) simp

end
