(* ===== verification/Memory_Map.thy ===== *)
theory Memory_Map
  imports Page_Allocator
begin

text \<open>
  Start-up of the page allocator: \<^verbatim>\<open>normalize_available_range\<close> and \<^verbatim>\<open>page_init\<close> of
  \<^verbatim>\<open>kernel/mm/pmm.cpp\<close> over the boot memory map of \<^verbatim>\<open>include/kernel/boot_info.h\<close>, with the
  rounding helpers of \<^verbatim>\<open>kernel/lib/math.h\<close>. The addresses are 64-bit words and every sum wraps as
  in the source.
\<close>

section \<open>Rounding and address ranges\<close>

definition round_down :: "u64 \<Rightarrow> u64 \<Rightarrow> u64" where
  "round_down a n = a - a mod n"

definition round_up :: "u64 \<Rightarrow> u64 \<Rightarrow> u64" where
  "round_up a n = (a + n - 1) div n * n"

definition add_overflow :: "u64 \<Rightarrow> u64 \<Rightarrow> bool" where
  "add_overflow a b \<longleftrightarrow> a + b < a"

definition saturating_limit :: "u64 \<Rightarrow> u64 \<Rightarrow> u64" where
  "saturating_limit base_pa size_bytes = (if add_overflow base_pa size_bytes then - 1 else base_pa + size_bytes)"

definition normalize_available_range :: "u64 \<Rightarrow> u64 \<Rightarrow> u64 \<Rightarrow> (u64 \<times> u64) option" where
  "normalize_available_range base_pa size_bytes min_pa =
     (if size_bytes = 0 then None
      else
        let limit = saturating_limit base_pa size_bytes;
            begin = (if base_pa < min_pa then min_pa else base_pa)
        in if begin \<ge> limit then None
           else
             let begin = round_up begin PG_SIZE;
                 limit = round_down limit PG_SIZE
             in if begin \<ge> limit then None else Some (begin, limit))"

section \<open>The boot memory map\<close>

record boot_mem_entry =
  base_pa :: u64
  size_bytes :: u64
  mem_type :: u32

definition BOOT_MEM_AVAILABLE :: u32 where
  "BOOT_MEM_AVAILABLE = 1"

definition max_available :: "boot_mem_entry list \<Rightarrow> u64" where
  "max_available mmap =
     foldl (\<lambda>max_pa e. if mem_type e = BOOT_MEM_AVAILABLE
        then (let limit = saturating_limit (base_pa e) (size_bytes e)
              in if limit > max_pa then limit else max_pa)
        else max_pa) 0 mmap"

primrec reserve_pages :: "page_area \<Rightarrow> nat \<Rightarrow> page_area" where
  "reserve_pages a 0 = a"
| "reserve_pages a (Suc k) = upd_page (reserve_pages a k) k set_reserved"

definition add_region :: "u64 \<Rightarrow> page_area \<Rightarrow> boot_mem_entry \<Rightarrow> page_area" where
  "add_region valid_mem a e =
     (if mem_type e \<noteq> BOOT_MEM_AVAILABLE then a
      else case normalize_available_range (base_pa e) (size_bytes e) valid_mem of
        None \<Rightarrow> a
      | Some (begin, limit) \<Rightarrow> init_memmap a (phys_to_page begin) ((limit - begin) div PG_SIZE))"

text \<open>
  \<open>kernel_end\<close> is the address of the linker symbol \<^verbatim>\<open>KERNEL_END\<close>; a descriptor takes 32 bytes
  (three 4-byte fields, padding and two pointers). The result is \<open>None\<close> where the source returns
  \<^verbatim>\<open>-1\<close>, otherwise the number of descriptors and the free area.
\<close>

definition SIZEOF_PAGE :: u64 where
  "SIZEOF_PAGE = 32"

definition first_free_pa :: "u64 \<Rightarrow> u64 \<Rightarrow> u32 \<Rightarrow> u64" where
  "first_free_pa kb kernel_end page_count =
     round_up kernel_end PG_SIZE + to_u64 page_count * SIZEOF_PAGE - kb"

definition page_init ::
    "u64 \<Rightarrow> u64 \<Rightarrow> page_area \<Rightarrow> boot_mem_entry list \<Rightarrow> (u32 \<times> page_area) option" where
  "page_init kb kernel_end a mmap =
     (if mmap = [] then None
      else
        let max_pa = max_available mmap in
        if max_pa = 0 then None
        else
          let page_count = to_u32 (round_up max_pa PG_SIZE div PG_SIZE) in
          if page_count = 0 then None
          else
            let a = reserve_pages a (unat page_count);
                valid_mem = first_free_pa kb kernel_end page_count
            in Some (page_count, foldl (add_region valid_mem) a mmap))"

definition pmm_init ::
    "u64 \<Rightarrow> u64 \<Rightarrow> page_area \<Rightarrow> boot_mem_entry list \<Rightarrow> (u32 \<times> page_area) option" where
  "pmm_init kb kernel_end a mmap =
     (case page_init kb kernel_end a mmap of
        None \<Rightarrow> None
      | Some (n, a) \<Rightarrow> if free_page_count a = 0 then None else Some (n, a))"

section \<open>Rounding\<close>

lemma unat_round_down: "unat (round_down a PG_SIZE) = unat a div 4096 * 4096"
proof -
  have "unat (a mod 4096) = unat a mod 4096" by (simp add: unat_mod_distrib)
  moreover have "a mod 4096 \<le> a" by (simp add: word_le_nat_alt unat_mod_distrib)
  ultimately have "unat (a - a mod 4096) = unat a - unat a mod 4096" by (simp only: unat_sub)
  then show ?thesis by (simp only: round_down_def PG_SIZE_def minus_mod_eq_div_mult)
qed

lemma unat_round_up:
  assumes "unat a + 4095 < 2 ^ 64"
  shows "unat (round_up a PG_SIZE) = (unat a + 4095) div 4096 * 4096"
proof -
  have "unat ((a + PG_SIZE - 1) div PG_SIZE) = (unat a + 4095) div 4096"
    using page_count_exact [OF assms] .
  moreover have "(unat a + 4095) div 4096 * 4096 < 2 ^ 64"
    using assms by (meson div_times_less_eq_dividend order_le_less_trans)
  ultimately show ?thesis
    by (simp add: round_up_def PG_SIZE_def unat_word_ariths)
qed

lemma round_up_last_page: "unat a > 2 ^ 64 - 4096 \<Longrightarrow> round_up a PG_SIZE = 0"
  using round_up_wraps [of a] by (simp add: round_up_def)

lemma unat_saturating:
  "unat (saturating_limit b s) = min (unat b + unat s) (2 ^ 64 - 1)"
proof (cases "unat b + unat s < 2 ^ 64")
  case True
  then have "unat (b + s) = unat b + unat s" by (simp add: unat_word_ariths)
  with True show ?thesis by (simp add: saturating_limit_def add_overflow_def word_less_nat_alt)
next
  case False
  then have ge: "18446744073709551616 \<le> unat b + unat s" by simp
  then have "unat (b + s) = unat b + unat s - 18446744073709551616"
    using unat_add_wrap [of b s] by simp
  then have "add_overflow b s"
    using ge unat_lt_u64 [of s] unfolding add_overflow_def word_less_nat_alt by linarith
  moreover have "unat (- 1 :: u64) = 2 ^ 64 - 1" by (simp add: unsigned_minus_1_eq_mask mask_eq_exp_minus_1)
  ultimately show ?thesis using False by (simp add: saturating_limit_def)
qed

section \<open>The pages of a region\<close>

text \<open>The whole pages of a byte range that lie at or above \<open>min_pa\<close>.\<close>

definition region_pages :: "u64 \<Rightarrow> u64 \<Rightarrow> u64 \<Rightarrow> nat set" where
  "region_pages b s m =
     {p. unat b \<le> p * 4096 \<and> unat m \<le> p * 4096 \<and> (p + 1) * 4096 \<le> unat (saturating_limit b s)}"

lemma whole_pages:
  "{p. B \<le> p * 4096 \<and> (p + 1) * 4096 \<le> L} = {(B + 4095) div 4096 ..< L div 4096}" for B L :: nat
  by auto

lemma region_pages_interval:
  "region_pages b s m =
     {(max (unat b) (unat m) + 4095) div 4096 ..< unat (saturating_limit b s) div 4096}"
  unfolding region_pages_def whole_pages [symmetric] by auto

lemma normalize_pages:
  assumes "unat b + 4095 < 2 ^ 64" and "unat m + 4095 < 2 ^ 64"
  shows "case normalize_available_range b s m of
      None \<Rightarrow> region_pages b s m = {}
    | Some (x, y) \<Rightarrow> x < y \<and> unat x mod 4096 = 0 \<and> unat y mod 4096 = 0 \<and>
        region_pages b s m = {unat x div 4096 ..< unat y div 4096}"
proof -
  define B where "B = (if b < m then m else b)"
  define L where "L = saturating_limit b s"
  have uB: "unat B = max (unat b) (unat m)" by (simp add: B_def max_def word_less_nat_alt)
  have up: "unat (round_up B PG_SIZE) = (unat B + 4095) div 4096 * 4096"
    using assms uB by (intro unat_round_up) (simp add: max_def)
  have dn: "unat (round_down L PG_SIZE) = unat L div 4096 * 4096" by (rule unat_round_down)
  have pages: "region_pages b s m = {(unat B + 4095) div 4096 ..< unat L div 4096}"
    by (simp only: region_pages_interval uB L_def)
  have norm: "normalize_available_range b s m =
      (if s = 0 \<or> L \<le> B \<or> round_down L PG_SIZE \<le> round_up B PG_SIZE then None
       else Some (round_up B PG_SIZE, round_down L PG_SIZE))"
    by (simp add: normalize_available_range_def Let_def B_def L_def)
  consider "s = 0 \<or> L \<le> B" | "\<not> (s = 0 \<or> L \<le> B)" "round_down L PG_SIZE \<le> round_up B PG_SIZE"
    | "\<not> (s = 0 \<or> L \<le> B)" "\<not> round_down L PG_SIZE \<le> round_up B PG_SIZE" by blast
  then show ?thesis
  proof cases
    case 1
    then have "unat L \<le> unat B"
      using uB by (auto simp: L_def unat_saturating word_le_nat_alt)
    then have "unat L div 4096 \<le> (unat B + 4095) div 4096" by (intro div_le_mono) simp
    with 1 show ?thesis by (auto simp: norm pages)
  next
    case 2
    then show ?thesis by (simp add: norm pages word_le_nat_alt up dn)
  next
    case 3
    then show ?thesis by (simp add: norm pages up dn word_le_nat_alt word_less_nat_alt)
  qed
qed

definition available_pages :: "u64 \<Rightarrow> boot_mem_entry \<Rightarrow> nat set" where
  "available_pages m e =
     (if mem_type e = BOOT_MEM_AVAILABLE then region_pages (base_pa e) (size_bytes e) m else {})"

lemma init_memmap_free:
  assumes "area_free N a F" and N: "N < 2 ^ 32" and "0 < n"
    and "block_pages (b, n) \<inter> F = {}" and "b + unat n \<le> N"
  shows "area_free N (init_memmap a b n) (F \<union> block_pages (b, n))"
proof -
  from assms(1) obtain rs where rs: "wf_runs N rs" "area_runs a rs" "cover rs = F"
    by (auto simp: area_free_def)
  have n: "0 < unat n" using assms(3) by (simp add: word_less_nat_alt)
  have wf: "wf_runs N ((b, unat n) # rs)"
    using assms rs n cover_apart [OF n rs(1)] by (simp add: kernel_inv block_pages_def)
  then have "wf_runs N (rs @ [(b, unat n)])" using wf_runs_rotate by blast
  moreover have "cover (rs @ [(b, unat n)]) = F \<union> block_pages (b, n)"
    using rs(3) by (simp add: run_pages_def block_pages_def)
  ultimately show ?thesis
    using init_memmap_runs [OF rs(2) wf N] by (auto simp: area_free_def)
qed

lemma add_region_free:
  assumes h: "area_free N a F" and N: "N < 2 ^ 32" and m: "unat m + 4095 < 2 ^ 64"
    and b: "unat (base_pa e) + 4095 < 2 ^ 64"
    and "available_pages m e \<inter> F = {}" and "available_pages m e \<subseteq> {..<N}"
  shows "area_free N (add_region m a e) (F \<union> available_pages m e)"
proof (cases "mem_type e = BOOT_MEM_AVAILABLE")
  case False
  then show ?thesis using h by (simp add: add_region_def available_pages_def)
next
  case True
  note norm = normalize_pages [OF b m, of "size_bytes e"]
  show ?thesis
  proof (cases "normalize_available_range (base_pa e) (size_bytes e) m")
    case None
    then show ?thesis using norm h True by (simp add: add_region_def available_pages_def)
  next
    case (Some xy)
    obtain x y where xy: "normalize_available_range (base_pa e) (size_bytes e) m = Some (x, y)"
      using Some by (cases xy) auto
    let ?n = "(y - x) div PG_SIZE"
    from norm xy have r: "x < y" "unat x mod 4096 = 0" "unat y mod 4096 = 0"
      "available_pages m e = {unat x div 4096 ..< unat y div 4096}"
      using True by (simp_all add: available_pages_def)
    have "unat (y - x) = unat y - unat x" using r(1) by (simp add: unat_sub)
    then have n: "unat ?n = unat y div 4096 - unat x div 4096"
      using r(2,3) by (simp add: PG_SIZE_def unat_div_distrib) (auto elim!: dvdE simp: mod_eq_0_iff_dvd)
    have lt: "unat x div 4096 < unat y div 4096"
      using r(1,2,3) by (auto simp: word_less_nat_alt mod_eq_0_iff_dvd elim!: dvdE)
    have pg: "phys_to_page x = unat x div 4096"
      by (simp add: phys_to_page_def PG_SHIFT_def drop_bit_eq_div unat_div_distrib)
    have blk: "block_pages (phys_to_page x, ?n) = available_pages m e"
      using n lt pg r(4) by (simp add: block_pages_def)
    have "unat y div 4096 - 1 \<in> available_pages m e" using r(4) lt by auto
    then have "unat y div 4096 \<le> N" using assms(6) by fastforce
    then have "area_free N (init_memmap a (phys_to_page x) ?n) (F \<union> block_pages (phys_to_page x, ?n))"
      using assms(5) n lt pg blk
      by (intro init_memmap_free [OF h N]) (simp_all add: word_less_nat_alt)
    then show ?thesis using xy True blk by (simp add: add_region_def)
  qed
qed

section \<open>Reading the whole map\<close>

definition well_placed :: "boot_mem_entry list \<Rightarrow> bool" where
  "well_placed mmap \<longleftrightarrow>
     (\<forall>e \<in> set mmap. unat (base_pa e) + unat (size_bytes e) \<le> 2 ^ 44 - 4096) \<and>
     sorted_wrt (\<lambda>e f. unat (base_pa e) + unat (size_bytes e) \<le> unat (base_pa f) \<or>
        unat (base_pa f) + unat (size_bytes f) \<le> unat (base_pa e)) mmap"

lemma reserve_pages_runs: "area_runs a rs \<Longrightarrow> area_runs (reserve_pages a k) rs"
proof -
  have "nodes (reserve_pages a k) = nodes a \<and> free_page_count (reserve_pages a k) = free_page_count a \<and>
      (\<forall>i. run_length (reserve_pages a k) i = run_length a i)"
    by (induction k) auto
  then show "area_runs a rs \<Longrightarrow> area_runs (reserve_pages a k) rs" by (simp add: area_runs_def)
qed

lemma available_pages_bytes:
  assumes "p \<in> available_pages m e"
  shows "unat (base_pa e) \<le> p * 4096" and "(p + 1) * 4096 \<le> unat (base_pa e) + unat (size_bytes e)"
  using assms
  by (auto simp: available_pages_def region_pages_def unat_saturating split: if_splits)

lemma max_available_ge:
  assumes "e \<in> set mmap" and "mem_type e = BOOT_MEM_AVAILABLE"
  shows "unat (saturating_limit (base_pa e) (size_bytes e)) \<le> unat (max_available mmap)"
proof -
  let ?f = "\<lambda>max_pa e. if mem_type e = BOOT_MEM_AVAILABLE
        then (let limit = saturating_limit (base_pa e) (size_bytes e)
              in if limit > max_pa then limit else max_pa)
        else max_pa"
  have mono: "unat x \<le> unat (foldl ?f x es)" for x es
    by (induction es rule: rev_induct) (auto simp: Let_def word_less_nat_alt)
  have "unat (saturating_limit (base_pa e) (size_bytes e)) \<le> unat (foldl ?f x es)"
    if "e \<in> set es" for es x
    using that assms(2)
    by (induction es rule: rev_induct) (auto simp: Let_def word_less_nat_alt)
  with assms(1) show ?thesis by (simp add: max_available_def)
qed

lemma max_available_le:
  assumes "\<forall>e \<in> set mmap. unat (base_pa e) + unat (size_bytes e) \<le> M"
  shows "unat (max_available mmap) \<le> M"
  using assms unfolding max_available_def
  by (induction mmap rule: rev_induct) (auto simp: Let_def unat_saturating)

lemma add_regions_free:
  assumes "area_free N a F" and "N < 2 ^ 32" and "unat m + 4095 < 2 ^ 64"
    and "well_placed mmap" and "\<forall>e \<in> set mmap. available_pages m e \<subseteq> {..<N}"
    and "\<forall>e \<in> set mmap. available_pages m e \<inter> F = {}"
  shows "area_free N (foldl (add_region m) a mmap) (F \<union> (\<Union>e \<in> set mmap. available_pages m e))"
  using assms
proof (induction mmap arbitrary: a F)
  case (Cons e mmap)
  have "area_free N (add_region m a e) (F \<union> available_pages m e)"
    using Cons.prems by (intro add_region_free) (auto simp: well_placed_def)
  moreover have "available_pages m f \<inter> (F \<union> available_pages m e) = {}" if "f \<in> set mmap" for f
  proof -
    have "available_pages m f \<inter> available_pages m e = {}"
    proof (rule ccontr)
      assume "available_pages m f \<inter> available_pages m e \<noteq> {}"
      then obtain p where "p \<in> available_pages m f" "p \<in> available_pages m e" by blast
      from available_pages_bytes [OF this(1)] available_pages_bytes [OF this(2)] that Cons.prems(4)
      show False by (fastforce simp: well_placed_def)
    qed
    with Cons.prems(6) that show ?thesis by auto
  qed
  ultimately have "area_free N (foldl (add_region m) (add_region m a e) mmap)
      ((F \<union> available_pages m e) \<union> (\<Union>e \<in> set mmap. available_pages m e))"
    using Cons.prems by (intro Cons.IH) (auto simp: well_placed_def)
  then show ?case by (simp add: Un_assoc)
qed simp

lemma first_free_pa_bound:
  assumes "unat (round_up kernel_end PG_SIZE - kb) < 2 ^ 63"
  shows "unat (first_free_pa kb kernel_end n) + 4095 < 2 ^ 64"
proof -
  let ?d = "round_up kernel_end PG_SIZE - kb"
  have lt: "unat n * 32 < 137438953472" using unat_lt_u32 [of n] by linarith
  have "unat n * 32 mod 18446744073709551616 = unat n * 32" using lt by (intro mod_less) linarith
  then have n: "unat (to_u64 n * SIZEOF_PAGE) = unat n * 32"
    by (simp add: SIZEOF_PAGE_def unat_word_ariths)
  have "first_free_pa kb kernel_end n = ?d + to_u64 n * SIZEOF_PAGE"
    by (simp add: first_free_pa_def)
  moreover have d: "unat ?d < 9223372036854775808" using assms by simp
  have "(unat ?d + unat n * 32) mod 18446744073709551616 = unat ?d + unat n * 32"
    using d lt by (intro mod_less) linarith
  then have "unat (?d + to_u64 n * SIZEOF_PAGE) = unat ?d + unat n * 32"
    using n by (simp add: unat_word_ariths(1))
  ultimately have "unat (first_free_pa kb kernel_end n) = unat ?d + unat n * 32" by simp
  then have "unat (first_free_pa kb kernel_end n) + 4095 < 18446744073709551616"
    using d lt by linarith
  then show ?thesis by simp
qed

section \<open>Properties\<close>

text \<open>C20. Start-up hands out the right memory. For a boot map with disjoint entries below 16 TiB,
  \<^verbatim>\<open>page_init\<close> succeeds when some available byte exists, the descriptor array covers every
  available page, and the free set is exactly the set of whole pages of available regions at or
  above the end of the descriptor array.\<close>

theorem page_init_free_set:
  assumes "area_runs a []" and wp: "well_placed mmap"
    and some: "\<exists>e \<in> set mmap. mem_type e = BOOT_MEM_AVAILABLE \<and> 0 < size_bytes e"
    and image: "unat (round_up kernel_end PG_SIZE - kb) < 2 ^ 63"
  shows "\<exists>n a'. page_init kb kernel_end a mmap = Some (n, a') \<and>
    area_free (unat n) a' (\<Union>e \<in> set mmap. available_pages (first_free_pa kb kernel_end n) e)"
proof -
  define M where "M = max_available mmap"
  have M44: "unat M \<le> 2 ^ 44 - 4096"
    using wp max_available_le [of mmap] by (simp add: well_placed_def M_def)
  from some obtain e where e: "e \<in> set mmap" "mem_type e = BOOT_MEM_AVAILABLE" "0 < size_bytes e"
    by blast
  then have "0 < unat M"
    using max_available_ge [OF e(1,2)] by (simp add: M_def unat_saturating word_less_nat_alt)
  then have M0: "M \<noteq> 0" by (auto simp: unat_eq_0)
  define n where "n = to_u32 (round_up M PG_SIZE div PG_SIZE)"
  have "unat (round_up M PG_SIZE) = (unat M + 4095) div 4096 * 4096"
    using M44 by (intro unat_round_up) simp
  then have "unat (round_up M PG_SIZE div PG_SIZE) = (unat M + 4095) div 4096"
    by (simp add: unat_div_distrib PG_SIZE_def)
  moreover have "(unat M + 4095) div 4096 < 2 ^ 32" using M44 by simp
  ultimately have un: "unat n = (unat M + 4095) div 4096" by (simp add: n_def unat_to_u32)
  then have "n \<noteq> 0" using \<open>0 < unat M\<close> by (auto simp: div_greater_zero_iff)
  let ?m = "first_free_pa kb kernel_end n"
  have "available_pages ?m f \<subseteq> {..<unat n}" if "f \<in> set mmap" for f
  proof
    fix p assume p: "p \<in> available_pages ?m f"
    then have "(p + 1) * 4096 \<le> unat M"
      using max_available_ge [OF that]
      by (auto simp: available_pages_def region_pages_def M_def split: if_splits)
    then show "p \<in> {..<unat n}" by (simp add: un)
  qed
  moreover have "area_free (unat n) (reserve_pages a (unat n)) {}"
    using reserve_pages_runs [OF assms(1)] by (auto simp: area_free_def intro!: exI [of _ "[]"])
  ultimately have "area_free (unat n) (foldl (add_region ?m) (reserve_pages a (unat n)) mmap)
      ({} \<union> (\<Union>e \<in> set mmap. available_pages ?m e))"
    using wp first_free_pa_bound [OF image] by (intro add_regions_free) auto
  then show ?thesis
    using e M0 \<open>n \<noteq> 0\<close> by (auto simp: page_init_def Let_def simp flip: M_def n_def)
qed

definition demo_map :: "boot_mem_entry list" where
  "demo_map = [\<lparr>base_pa = 0, size_bytes = 0x9F000, mem_type = 1\<rparr>,
     \<lparr>base_pa = 0xF0000, size_bytes = 0x10000, mem_type = 2\<rparr>,
     \<lparr>base_pa = 0x100000, size_bytes = 0x7EE0000, mem_type = 1\<rparr>]"

theorem page_init_free_set_witness:
  "\<exists>n a'. page_init 0xFFFFFFFF80000000 0xFFFFFFFF80200123 empty_area demo_map = Some (n, a') \<and>
     area_free (unat n) a'
       (\<Union>e \<in> set demo_map. available_pages (first_free_pa 0xFFFFFFFF80000000 0xFFFFFFFF80200123 n) e)"
  by (rule page_init_free_set [OF empty_area_runs])
    (simp_all add: demo_map_def well_placed_def BOOT_MEM_AVAILABLE_def round_up_def PG_SIZE_def)

text \<open>C33. Normalising one region: for addresses below the last page, the returned bounds are page
  aligned and enclose exactly the whole pages of the region at or above the minimum; no bounds are
  returned exactly when there is no such page.\<close>

theorem normalize_exact:
  assumes "unat b + 4095 < 2 ^ 64" and "unat m + 4095 < 2 ^ 64"
  shows "case normalize_available_range b s m of
      None \<Rightarrow> region_pages b s m = {}
    | Some (x, y) \<Rightarrow> x < y \<and> unat x mod 4096 = 0 \<and> unat y mod 4096 = 0 \<and>
        region_pages b s m = {unat x div 4096 ..< unat y div 4096}"
  using normalize_pages [OF assms] .

theorem normalize_exact_witness:
  "normalize_available_range 0x1234 0x10000 0x3000 = Some (0x3000, 0x11000) \<and>
   region_pages 0x1234 0x10000 0x3000 = {3 ..< 17}"
proof -
  have "normalize_available_range 0x1234 0x10000 0x3000 = Some (0x3000, 0x11000)"
    by (simp add: normalize_available_range_def saturating_limit_def add_overflow_def round_up_def
        round_down_def PG_SIZE_def)
  with normalize_exact [of "0x1234" "0x3000" "0x10000"] show ?thesis by simp
qed

text \<open>A region that starts inside the last page of the address space is normalised to almost the
  whole address space, because rounding its start up wraps to zero.\<close>

theorem normalize_last_page_wraps:
  assumes "unat b > 2 ^ 64 - 4096" and "m \<le> b" and "0 < s" and "b \<noteq> - 1"
  shows "normalize_available_range b s m = Some (0, 0xFFFFFFFFFFFFF000)"
proof -
  define L where "L = saturating_limit b s"
  have "unat b \<noteq> 18446744073709551615"
    using assms(4) by (simp add: word_unat_eq_iff unsigned_minus_1_eq_mask mask_eq_exp_minus_1)
  then have "unat b < 18446744073709551615" using unat_lt_u64 [of b] by linarith
  moreover have "0 < unat s" using assms(3) by (simp add: word_less_nat_alt)
  ultimately have L: "unat b < unat L"
    by (simp add: L_def unat_saturating)
  then have "unat L div 4096 = 4503599627370495"
    using assms(1) unat_lt_u64 [of L] div_nat_eqI [of 4096 4503599627370495 "unat L"] by simp
  then have dn: "round_down L PG_SIZE = 0xFFFFFFFFFFFFF000"
    using unat_round_down [of L] by (simp add: word_unat_eq_iff)
  have "\<not> b < m" "\<not> L \<le> b" "s \<noteq> 0" using assms(2,3) L by (auto simp: word_le_nat_alt word_less_nat_alt)
  with dn round_up_last_page [OF assms(1)] show ?thesis
    by (simp add: normalize_available_range_def Let_def flip: L_def)
qed

theorem normalize_last_page_wraps_witness:
  "normalize_available_range 0xFFFFFFFFFFFFF800 0x100 0 = Some (0, 0xFFFFFFFFFFFFF000)"
  by (rule normalize_last_page_wraps) simp_all

end
