(* ===== verification/Kernel_Result.thy ===== *)
theory Kernel_Result
  imports Kernel_Prelude
begin

text \<open>
  Error codes and result objects of \<^verbatim>\<open>kernel/lib/result.h\<close>. A \<^verbatim>\<open>Result<T>\<close> is a union of a
  value and nothing, an error code and a state; releasing or moving from it consumes it. The
  theory shows that the macro \<^verbatim>\<open>TRY\<close> on such objects is the bind of the sum type that the other
  theories use for fallible calls, and that a consumed object never yields a value again.
\<close>

section \<open>Error codes\<close>

datatype error =
    Err_None | Io | NoMem | Invalid | NotFound | BadFs | Exists | NotEmpty | Timeout | Busy
  | NoDevice | NotSupported | Full | Fail

fun error_code :: "error \<Rightarrow> int" where
  "error_code Err_None = 0"
| "error_code Io = -1"
| "error_code NoMem = -2"
| "error_code Invalid = -3"
| "error_code NotFound = -4"
| "error_code BadFs = -5"
| "error_code Exists = -6"
| "error_code NotEmpty = -7"
| "error_code Timeout = -8"
| "error_code Busy = -9"
| "error_code NoDevice = -10"
| "error_code NotSupported = -11"
| "error_code Full = -12"
| "error_code Fail = -13"

fun error_str :: "error \<Rightarrow> string" where
  "error_str Err_None = ''success''"
| "error_str Io = ''I/O error''"
| "error_str NoMem = ''out of memory''"
| "error_str Invalid = ''invalid argument''"
| "error_str NotFound = ''not found''"
| "error_str BadFs = ''bad filesystem''"
| "error_str Exists = ''already exists''"
| "error_str NotEmpty = ''not empty''"
| "error_str Timeout = ''timeout''"
| "error_str Busy = ''busy''"
| "error_str NoDevice = ''no device''"
| "error_str NotSupported = ''not supported''"
| "error_str Full = ''full''"
| "error_str Fail = ''failed''"

text \<open>\<^verbatim>\<open>ENSURE(cond, err)\<close> as a guard on the rest of the function.\<close>

definition ensure :: "bool \<Rightarrow> error \<Rightarrow> (error + 'a) \<Rightarrow> error + 'a" where
  "ensure cond err k = (if cond then k else Inl err)"

lemma ensure_simps [simp]: "ensure True e k = k" "ensure False e k = Inl e"
  by (simp_all add: ensure_def)

lemma ensure_eq_Inr: "ensure c e k = Inr v \<longleftrightarrow> c \<and> k = Inr v"
  by (simp add: ensure_def)

section \<open>Result objects\<close>

datatype result_state = St_Value | St_Error | St_Consumed

text \<open>
  \<open>trivial\<close> tells whether \<^verbatim>\<open>T\<close> is trivially copyable (and destructible): then the value bits stay
  in the union when the object is reset, and moves leave the source unchanged.
\<close>

record 'a result_obj =
  slot :: "'a option"
  obj_error :: error
  obj_state :: result_state

definition from_value :: "'a \<Rightarrow> 'a result_obj" where
  "from_value v = \<lparr>slot = Some v, obj_error = Err_None, obj_state = St_Value\<rparr>"

definition from_error :: "error \<Rightarrow> fault + 'a result_obj" where
  "from_error e =
     (if e \<noteq> Err_None then Inr \<lparr>slot = None, obj_error = e, obj_state = St_Error\<rparr> else Inl Panicked)"

definition storage_reset :: "bool \<Rightarrow> 'a result_obj \<Rightarrow> 'a result_obj" where
  "storage_reset trivial r =
     r\<lparr>slot := (if trivial then slot r else None), obj_error := Err_None, obj_state := St_Consumed\<rparr>"

definition result_ok :: "'a result_obj \<Rightarrow> bool" where
  "result_ok r \<longleftrightarrow> obj_state r = St_Value"

definition is_consumed :: "'a result_obj \<Rightarrow> bool" where
  "is_consumed r \<longleftrightarrow> obj_state r = St_Consumed"

definition result_error :: "'a result_obj \<Rightarrow> fault + error" where
  "result_error r = (if is_consumed r then Inl Panicked else Inr (obj_error r))"

text \<open>Reading an empty slot would be a read of an inactive union member; it counts as a fault.\<close>

definition result_value :: "'a result_obj \<Rightarrow> fault + 'a" where
  "result_value r =
     (if result_ok r then (case slot r of Some v \<Rightarrow> Inr v | None \<Rightarrow> Inl Panicked) else Inl Panicked)"

definition value_or :: "'a result_obj \<Rightarrow> 'a \<Rightarrow> fault + 'a" where
  "value_or r fallback =
     (if is_consumed r then Inl Panicked
      else if result_ok r then (case slot r of Some v \<Rightarrow> Inr v | None \<Rightarrow> Inl Panicked)
      else Inr fallback)"

definition release_value :: "bool \<Rightarrow> 'a result_obj \<Rightarrow> fault + ('a \<times> 'a result_obj)" where
  "release_value trivial r =
     (case result_value r of Inl e \<Rightarrow> Inl e | Inr v \<Rightarrow> Inr (v, storage_reset trivial r))"

definition release_error :: "bool \<Rightarrow> 'a result_obj \<Rightarrow> fault + (error \<times> 'a result_obj)" where
  "release_error trivial r =
     (if obj_state r = St_Error then Inr (obj_error r, storage_reset trivial r) else Inl Panicked)"

definition value_or_move :: "bool \<Rightarrow> 'a result_obj \<Rightarrow> 'a \<Rightarrow> fault + ('a \<times> 'a result_obj)" where
  "value_or_move trivial r fallback =
     (if is_consumed r then Inl Panicked
      else if result_ok r then release_value trivial r
      else Inr (fallback, storage_reset trivial r))"

text \<open>Construction and assignment by move: the new object and what is left of the source.\<close>

definition storage_move :: "bool \<Rightarrow> 'a result_obj \<Rightarrow> 'a result_obj \<times> 'a result_obj" where
  "storage_move trivial other =
     (if trivial then (other, other)
      else (\<lparr>slot = (if obj_state other = St_Value then slot other else None),
              obj_error = obj_error other, obj_state = obj_state other\<rparr>,
            storage_reset trivial other))"

text \<open>
  The macro \<^verbatim>\<open>TRY\<close>: \<^verbatim>\<open>wrap_tryable\<close> moves its parameter into the object that is tested and
  released; the continuation \<open>k\<close> is the rest of the enclosing function.
\<close>

definition wrap_tryable :: "bool \<Rightarrow> 'a result_obj \<Rightarrow> 'a result_obj" where
  "wrap_tryable trivial r = fst (storage_move trivial r)"

definition try_result :: "bool \<Rightarrow> 'a result_obj \<Rightarrow> ('a \<Rightarrow> fault + (error + 'b)) \<Rightarrow> fault + (error + 'b)" where
  "try_result trivial r k =
     (let r = wrap_tryable trivial r in
      if \<not> result_ok r
      then (case release_error trivial r of Inl e \<Rightarrow> Inl e | Inr (err, _) \<Rightarrow> Inr (Inl err))
      else (case release_value trivial r of Inl e \<Rightarrow> Inl e | Inr (v, _) \<Rightarrow> k v))"

text \<open>The status-only object \<^verbatim>\<open>Result<void>\<close>.\<close>

record result_void =
  void_error :: error
  void_state :: result_state

definition void_from :: "error \<Rightarrow> result_void" where
  "void_from e = \<lparr>void_error = e, void_state = (if e = Err_None then St_Value else St_Error)\<rparr>"

definition void_release_value :: "result_void \<Rightarrow> fault + result_void" where
  "void_release_value r =
     (if void_state r = St_Value then Inr \<lparr>void_error = Err_None, void_state = St_Consumed\<rparr>
      else Inl Panicked)"

definition void_release_error :: "result_void \<Rightarrow> fault + (error \<times> result_void)" where
  "void_release_error r =
     (if void_state r = St_Error
      then Inr (void_error r, \<lparr>void_error = Err_None, void_state = St_Consumed\<rparr>)
      else Inl Panicked)"

definition try_void :: "error \<Rightarrow> (unit \<Rightarrow> fault + (error + 'b)) \<Rightarrow> fault + (error + 'b)" where
  "try_void e k =
     (let r = void_from e in
      if void_state r \<noteq> St_Value
      then (case void_release_error r of Inl f \<Rightarrow> Inl f | Inr (err, _) \<Rightarrow> Inr (Inl err))
      else (case void_release_value r of Inl f \<Rightarrow> Inl f | Inr _ \<Rightarrow> k ()))"

section \<open>The invariant of result objects\<close>

definition wf_result :: "'a result_obj \<Rightarrow> bool" where
  "wf_result r \<longleftrightarrow>
     (case obj_state r of
        St_Value \<Rightarrow> slot r \<noteq> None \<and> obj_error r = Err_None
      | St_Error \<Rightarrow> obj_error r \<noteq> Err_None
      | St_Consumed \<Rightarrow> obj_error r = Err_None)"

text \<open>The meaning of an object that is not consumed.\<close>

definition result_abs :: "'a result_obj \<Rightarrow> error + 'a" where
  "result_abs r = (if result_ok r then Inr (the (slot r)) else Inl (obj_error r))"

lemmas result_defs = result_ok_def is_consumed_def result_error_def result_value_def value_or_def
  release_value_def release_error_def storage_reset_def value_or_move_def storage_move_def

lemma from_value_wf [kernel_inv]: "wf_result (from_value v)" "result_abs (from_value v) = Inr v"
  by (simp_all add: wf_result_def from_value_def result_abs_def result_ok_def)

lemma from_error_wf [kernel_inv]:
  "from_error e = Inr r \<Longrightarrow> wf_result r \<and> result_abs r = Inl e"
  by (auto simp: from_error_def wf_result_def result_abs_def result_ok_def split: if_splits)

lemma storage_reset_wf [kernel_inv]: "wf_result (storage_reset t r)" "is_consumed (storage_reset t r)"
  by (simp_all add: result_defs wf_result_def)

lemma storage_move_wf:
  assumes "wf_result r" and "storage_move t r = (n, r')"
  shows "wf_result n \<and> wf_result r' \<and> (\<not> is_consumed r \<longrightarrow> result_abs n = result_abs r) \<and>
    (\<not> t \<longrightarrow> is_consumed r')"
  using assms
  by (auto simp: wf_result_def result_defs result_abs_def split: if_splits result_state.splits)

lemma release_value_wf:
  "wf_result r \<Longrightarrow> result_ok r \<Longrightarrow>
     \<exists>v r'. release_value t r = Inr (v, r') \<and> result_abs r = Inr v \<and> wf_result r' \<and> is_consumed r'"
  by (auto simp: wf_result_def result_defs result_abs_def)

lemma release_error_wf:
  "wf_result r \<Longrightarrow> obj_state r = St_Error \<Longrightarrow>
     \<exists>e r'. release_error t r = Inr (e, r') \<and> result_abs r = Inl e \<and> e \<noteq> Err_None \<and> is_consumed r'"
  by (auto simp: wf_result_def result_defs result_abs_def)

lemma error_code_inj: "error_code e = error_code f \<Longrightarrow> e = f"
  by (cases e; cases f; simp)

instantiation error :: linorder
begin

definition less_eq_error :: "error \<Rightarrow> error \<Rightarrow> bool" where
  "less_eq_error e f \<longleftrightarrow> error_code e \<le> error_code f"

definition less_error :: "error \<Rightarrow> error \<Rightarrow> bool" where
  "less_error e f \<longleftrightarrow> error_code e < error_code f"

instance
  by standard (auto simp: less_eq_error_def less_error_def dest: error_code_inj)

end

section \<open>Properties\<close>

text \<open>On a live well-formed result \<^verbatim>\<open>TRY\<close> never panics; it is the bind that the other theories use.\<close>

lemma try_result_is_bind:
  assumes "wf_result r" and "\<not> is_consumed r"
  shows "try_result t r (\<lambda>v. Inr (k v)) = Inr (try_bind (result_abs r) k)"
proof -
  let ?r = "wrap_tryable t r"
  have abs: "result_abs ?r = result_abs r" and wf: "wf_result ?r"
    using storage_move_wf [OF assms(1), of t ?r "snd (storage_move t r)"] assms(2)
    by (simp_all add: wrap_tryable_def)
  have "\<not> is_consumed ?r" using assms(2) by (simp add: wrap_tryable_def storage_move_def is_consumed_def)
  then have "try_result t r (\<lambda>v. Inr (k v)) = Inr (try_bind (result_abs ?r) k)"
    using wf release_value_wf [of ?r t] release_error_wf [of ?r t]
    by (cases "obj_state ?r") (auto simp: try_result_def result_ok_def is_consumed_def Let_def)
  then show ?thesis by (simp add: abs)
qed

text \<open>A result yields its value at most once: after its value or its error is released, and
  after a move from an object whose type is not trivial, every further access panics.\<close>

theorem released_once:
  assumes "wf_result r"
    and "(\<exists>v. release_value t r = Inr (v, r')) \<or> (\<exists>e. release_error t r = Inr (e, r')) \<or>
      (\<not> t \<and> r' = snd (storage_move t r))"
  shows "result_value r' = Inl Panicked \<and> release_value t' r' = Inl Panicked \<and>
    release_error t' r' = Inl Panicked \<and> result_error r' = Inl Panicked \<and>
    value_or r' v = Inl Panicked \<and> wf_result r'"
proof -
  have "r' = storage_reset t r"
    using assms(2)
    by (auto simp: release_value_def release_error_def storage_move_def split: sum.splits if_splits)
  then show ?thesis by (simp add: result_defs wf_result_def)
qed

theorem released_once_witness:
  "result_value (snd (storage_move False (from_value (1 :: nat)))) = Inl Panicked"
  using released_once [of "from_value (1 :: nat)" False "snd (storage_move False (from_value 1))"]
  by (simp add: kernel_inv)

end
