(* ===== verification/Sched.thy ===== *)
theory Sched
  imports Intrusive_List Kernel_Result "HOL-Library.Signed_Division"
begin

text \<open>
  Tasks and the CPU scheduler: \<^verbatim>\<open>kernel/sched/sched.h\<close>, the state changes of
  \<^verbatim>\<open>kernel/sched/task.cpp\<close>, the policy of \<^verbatim>\<open>kernel/sched/sched_priority_rr.cpp\<close> and
  \<^verbatim>\<open>kernel/sched/sched.cpp\<close>. A task is named by its address, a number; the process list is the
  pointer ring of \<^verbatim>\<open>TaskManager::proc_list_\<close>. The theorems show which task is picked, that
  tasks of equal best priority take turns, and when a time slice ends.
\<close>

section \<open>Tasks and the scheduler state\<close>

datatype task_state = Uninit | Sleeping | Runnable | Running | Zombie

type_synonym tid = nat

record task =
  pid :: int
  tstate :: task_state
  priority :: int
  time_slice :: int
  need_resched :: int
  exit_code :: int
  wait_state :: u32
  parent :: "tid option"
  task_name :: string
  root_pa :: "u64 option"
  kernel_memory :: bool

datatype list_link = ProcHead | ProcLink tid

datatype hash_link = HashHead nat | HashLink tid

datatype child_link = ChildHead tid | ChildLink tid

record sched_stats =
  tick_count :: u64
  schedule_calls :: u64
  need_resched_events :: u64
  context_switches :: u64
  same_task_runs :: u64
  pick_idle :: u64
  pick_non_idle :: u64

record sched_state =
  tasks :: "tid \<Rightarrow> task"
  proc_list :: "list_link links"
  hash_list :: "hash_link links"
  child_lists :: "child_link links"
  cursor :: "list_link option"
  current :: "tid option"
  idle_proc :: tid
  init_proc :: tid
  process_count :: int
  next_pid :: int
  stats :: sched_stats
  loaded_root :: u64

definition DEFAULT_PRIORITY :: int where "DEFAULT_PRIORITY = 10"
definition LOWEST_PRIORITY :: int where "LOWEST_PRIORITY = 20"
definition IDLE_PRIO :: int where "IDLE_PRIO = 31"
definition BASE_TIMESLICE :: int where "BASE_TIMESLICE = 10"


definition upd_task :: "sched_state \<Rightarrow> tid \<Rightarrow> (task \<Rightarrow> task) \<Rightarrow> sched_state" where
  "upd_task s t f = s\<lparr>tasks := (tasks s)(t := f (tasks s t))\<rparr>"

section \<open>State changes of one task\<close>

definition task_wakeup :: "task \<Rightarrow> fault + task" where
  "task_wakeup t =
     (if tstate t \<noteq> Zombie
      then Inr (if tstate t \<noteq> Runnable then t\<lparr>tstate := Runnable\<rparr> else t)
      else Inl Panicked)"

definition mark_running :: "task \<Rightarrow> fault + task" where
  "mark_running t =
     (if tstate t \<noteq> Zombie
      then Inr (if tstate t \<noteq> Running then t\<lparr>tstate := Running\<rparr> else t)
      else Inl Panicked)"

definition task_sleep :: "task \<Rightarrow> fault + task" where
  "task_sleep t =
     (if tstate t \<noteq> Zombie
      then Inr (if tstate t \<noteq> Sleeping then t\<lparr>tstate := Sleeping\<rparr> else t)
      else Inl Panicked)"

definition mark_zombie :: "int \<Rightarrow> task \<Rightarrow> task" where
  "mark_zombie code t = t\<lparr>tstate := Zombie, exit_code := code\<rparr>"

text \<open>\<^verbatim>\<open>name_\<close> holds 32 bytes with a terminating zero.\<close>

definition set_name :: "string option \<Rightarrow> task \<Rightarrow> task" where
  "set_name name t = (case name of None \<Rightarrow> t | Some n \<Rightarrow> t\<lparr>task_name := take 31 n\<rparr>)"

definition on_task :: "(task \<Rightarrow> fault + task) \<Rightarrow> sched_state \<Rightarrow> tid \<Rightarrow> fault + sched_state" where
  "on_task f s t = (case f (tasks s t) of Inl e \<Rightarrow> Inl e | Inr t' \<Rightarrow> Inr (upd_task s t (\<lambda>_. t')))"

section \<open>The policy\<close>

definition calc_time_slice :: "int \<Rightarrow> int" where
  "calc_time_slice prio =
     (let slice = (BASE_TIMESLICE * (LOWEST_PRIORITY + 1 - prio)) sdiv (DEFAULT_PRIORITY + 1)
      in if slice < 1 then 1 else slice)"


definition task_removed :: "sched_state \<Rightarrow> tid \<Rightarrow> sched_state" where
  "task_removed s t = (if cursor s = Some (ProcLink t) then s\<lparr>cursor := None\<rparr> else s)"

definition eligible :: "sched_state \<Rightarrow> tid \<Rightarrow> bool" where
  "eligible s t \<longleftrightarrow>
     (tstate (tasks s t) = Runnable \<or> (current s = Some t \<and> tstate (tasks s t) = Running)) \<and>
     t \<noteq> idle_proc s"

definition weigh_task :: "sched_state \<Rightarrow> tid \<times> int \<Rightarrow> list_link \<Rightarrow> tid \<times> int" where
  "weigh_task s best node =
     (case node of
        ProcHead \<Rightarrow> best
      | ProcLink t \<Rightarrow>
          if eligible s t \<and> priority (tasks s t) < snd best then (t, priority (tasks s t)) else best)"

definition start_cursor :: "sched_state \<Rightarrow> list_link" where
  "start_cursor s =
     (case cursor s of
        None \<Rightarrow> next (proc_list s) ProcHead
      | Some c \<Rightarrow> if c = ProcHead then next (proc_list s) ProcHead else c)"

definition pick_next :: "sched_state \<Rightarrow> (tid \<times> sched_state) option" where
  "pick_next s =
     (let start = start_cursor s in
      Option.bind (circular_from (proc_list s) ProcHead (Some start)) (\<lambda>ns.
        let (nx, _) = foldl (weigh_task s) (idle_proc s, IDLE_PRIO + 1) ns;
            s = s\<lparr>cursor := Some start\<rparr>;
            s = (if nx \<noteq> idle_proc s
                 then s\<lparr>cursor := Some (next (proc_list s) (ProcLink nx))\<rparr> else s)
        in Some (nx, s)))"

section \<open>Ticks and scheduling\<close>


text \<open>
  \<^verbatim>\<open>Task::run\<close>: the task becomes current, its page table root is loaded when it differs from
  that of the task before it, and the processor continues in its context. \<open>root_pa\<close> is the physical
  address of the page directory, \<open>None\<close> for a task without memory or without a page directory.
\<close>

definition page_table_root_pa :: "task \<Rightarrow> fault + u64" where
  "page_table_root_pa t = (case root_pa t of None \<Rightarrow> Inl Panicked | Some r \<Rightarrow> Inr r)"

definition task_run :: "sched_state \<Rightarrow> tid \<Rightarrow> fault + sched_state" where
  "task_run s this =
     (case current s of
        None \<Rightarrow> Inl Panicked
      | Some prv \<Rightarrow>
          if this \<noteq> prv then
            (case on_task mark_running (s\<lparr>current := Some this\<rparr>) this of
               Inl e \<Rightarrow> Inl e
             | Inr s \<Rightarrow>
                 try_bind (page_table_root_pa (tasks s this)) (\<lambda>next_root.
                 try_bind (page_table_root_pa (tasks s prv)) (\<lambda>previous_root.
                   Inr (if next_root \<noteq> previous_root then s\<lparr>loaded_root := next_root\<rparr> else s))))
          else Inr s)"

definition count_pick :: "sched_state \<Rightarrow> tid \<Rightarrow> sched_state" where
  "count_pick s nx =
     (if nx = idle_proc s
      then s\<lparr>stats := (stats s)\<lparr>pick_idle := pick_idle (stats s) + 1\<rparr>\<rparr>
      else s\<lparr>stats := (stats s)\<lparr>pick_non_idle := pick_non_idle (stats s) + 1\<rparr>\<rparr>)"

definition replenish :: "sched_state \<Rightarrow> tid \<Rightarrow> sched_state" where
  "replenish s nx =
     (if time_slice (tasks s nx) \<le> 0
      then upd_task s nx (\<lambda>t. t\<lparr>time_slice := calc_time_slice (priority t)\<rparr>) else s)"

definition switch_task :: "sched_state \<Rightarrow> tid \<Rightarrow> tid \<Rightarrow> fault + sched_state" where
  "switch_task s c nx =
     (if nx \<noteq> c then
        (let s = s\<lparr>stats := (stats s)\<lparr>context_switches := context_switches (stats s) + 1\<rparr>\<rparr> in
         case (if tstate (tasks s c) = Running then on_task task_wakeup s c else Inr s) of
           Inl e \<Rightarrow> Inl e
         | Inr s \<Rightarrow> task_run (upd_task s c (\<lambda>t. t\<lparr>need_resched := 0\<rparr>)) nx)
      else
        Inr (upd_task (s\<lparr>stats := (stats s)\<lparr>same_task_runs := same_task_runs (stats s) + 1\<rparr>\<rparr>) c
               (\<lambda>t. t\<lparr>need_resched := 0\<rparr>)))"

definition schedule :: "sched_state \<Rightarrow> sched_state exec" where
  "schedule s =
     (let s = s\<lparr>stats := (stats s)\<lparr>schedule_calls := schedule_calls (stats s) + 1\<rparr>\<rparr> in
      Option.bind (pick_next s) (\<lambda>(nx, s).
        let s = replenish (count_pick s nx) nx
        in case current s of
             None \<Rightarrow> Some (Inl Panicked)
           | Some c \<Rightarrow> Some (switch_task s c nx)))"

section \<open>Which task is picked\<close>

lemma upd_task_simps [simp]:
  "tasks (upd_task s t f) = (tasks s)(t := f (tasks s t))"
  "proc_list (upd_task s t f) = proc_list s"
  "hash_list (upd_task s t f) = hash_list s"
  "child_lists (upd_task s t f) = child_lists s"
  "cursor (upd_task s t f) = cursor s"
  "current (upd_task s t f) = current s"
  "idle_proc (upd_task s t f) = idle_proc s"
  "init_proc (upd_task s t f) = init_proc s"
  "process_count (upd_task s t f) = process_count s"
  "next_pid (upd_task s t f) = next_pid s"
  by (simp_all add: upd_task_def)

text \<open>The first task of minimal priority among the eligible tasks of a list.\<close>

definition first_best :: "sched_state \<Rightarrow> tid list \<Rightarrow> tid \<Rightarrow> bool" where
  "first_best s ts t \<longleftrightarrow>
     (\<exists>us vs. ts = us @ t # vs \<and> eligible s t \<and>
        (\<forall>u \<in> set us. eligible s u \<longrightarrow> priority (tasks s t) < priority (tasks s u)) \<and>
        (\<forall>v \<in> set vs. eligible s v \<longrightarrow> priority (tasks s t) \<le> priority (tasks s v)))"

lemma weigh_fold:
  assumes "\<forall>t \<in> set ts. eligible s t \<longrightarrow> priority (tasks s t) \<le> IDLE_PRIO"
    and "foldl (weigh_task s) (idle_proc s, IDLE_PRIO + 1) (map ProcLink ts) = (nx, best)"
  shows "(nx = idle_proc s \<and> best = IDLE_PRIO + 1 \<and> (\<forall>t \<in> set ts. \<not> eligible s t)) \<or>
    (first_best s ts nx \<and> best = priority (tasks s nx))"
  using assms
proof (induction ts arbitrary: nx best rule: rev_induct)
  case (snoc t ts)
  obtain n b where nb: "foldl (weigh_task s) (idle_proc s, IDLE_PRIO + 1) (map ProcLink ts) = (n, b)"
    by fastforce
  have IH: "(n = idle_proc s \<and> b = IDLE_PRIO + 1 \<and> (\<forall>t \<in> set ts. \<not> eligible s t)) \<or>
      (first_best s ts n \<and> b = priority (tasks s n))"
    using snoc.IH [OF _ nb] snoc.prems(1) by simp
  have step: "(nx, best) =
      (if eligible s t \<and> priority (tasks s t) < b then (t, priority (tasks s t)) else (n, b))"
    using snoc.prems(2) nb weigh_task_def [of s "(n, b)" "ProcLink t"] by simp
  show ?case
  proof (cases "eligible s t \<and> priority (tasks s t) < b")
    case True
    then have "\<forall>u \<in> set ts. eligible s u \<longrightarrow> priority (tasks s t) < priority (tasks s u)"
      using IH by (fastforce simp: first_best_def)
    with True have "first_best s (ts @ [t]) t"
      unfolding first_best_def by (intro exI [of _ ts] exI [of _ "[]"]) simp
    with True step show ?thesis by simp
  next
    case False
    then have same: "nx = n" "best = b" using step by auto
    show ?thesis
    proof (cases "first_best s ts n \<and> b = priority (tasks s n)")
      case True
      then obtain us vs where d: "ts = us @ n # vs" "eligible s n"
        "\<forall>u \<in> set us. eligible s u \<longrightarrow> priority (tasks s n) < priority (tasks s u)"
        "\<forall>v \<in> set vs. eligible s v \<longrightarrow> priority (tasks s n) \<le> priority (tasks s v)"
        by (auto simp: first_best_def)
      have "first_best s (ts @ [t]) n"
        unfolding first_best_def using d False True
        by (intro exI [of _ us] exI [of _ "vs @ [t]"]) auto
      then show ?thesis using same True by simp
    next
      case no: False
      then have "n = idle_proc s" "b = IDLE_PRIO + 1" "\<forall>t \<in> set ts. \<not> eligible s t" using IH by auto
      then show ?thesis using same False snoc.prems(1) by fastforce
    qed
  qed
qed simp

text \<open>The order in which the policy looks at the tasks: the list rotated to the cursor.\<close>

definition proc_order :: "sched_state \<Rightarrow> tid list \<Rightarrow> tid list \<Rightarrow> bool" where
  "proc_order s ts rot \<longleftrightarrow>
     ring (proc_list s) ProcHead (map ProcLink ts) \<and>
     (if cursor s = None \<or> cursor s = Some ProcHead then rot = ts
      else \<exists>as c bs. ts = as @ c # bs \<and> cursor s = Some (ProcLink c) \<and> rot = c # bs @ as)"

lemma proc_order_cong:
  "proc_list s = proc_list s' \<Longrightarrow> cursor s = cursor s' \<Longrightarrow> proc_order s ts rot = proc_order s' ts rot"
  by (simp add: proc_order_def)

lemma proc_order_set: "proc_order s ts rot \<Longrightarrow> set rot = set ts \<and> distinct rot"
  by (auto simp: proc_order_def ring_def distinct_map split: if_splits)

lemma proc_order_walk:
  assumes "proc_order s ts rot"
  shows "circular_from (proc_list s) ProcHead (Some (start_cursor s)) = Some (map ProcLink rot)"
proof (cases "cursor s = None \<or> cursor s = Some ProcHead")
  case True
  then have rot: "rot = ts" and rg: "ring (proc_list s) ProcHead (map ProcLink ts)"
    using assms by (auto simp: proc_order_def)
  have start: "start_cursor s = next (proc_list s) ProcHead"
    using True by (auto simp: start_cursor_def)
  show ?thesis
  proof (cases ts)
    case Nil
    then have "next (proc_list s) ProcHead = ProcHead" using rg by (simp add: ring_def)
    with start rot show ?thesis using circular_from_head [OF rg] by simp
  next
    case (Cons t ts')
    then have "next (proc_list s) ProcHead = ProcLink t" using rg by (simp add: ring_def)
    then show ?thesis
      using circular_from_node [of "proc_list s" ProcHead "[]" "ProcLink t" "map ProcLink ts'"]
        rg Cons start rot by simp
  qed
next
  case False
  then obtain as c bs where "ts = as @ c # bs" "cursor s = Some (ProcLink c)" "rot = c # bs @ as"
    "ring (proc_list s) ProcHead (map ProcLink ts)"
    using assms by (auto simp: proc_order_def)
  then show ?thesis
    using circular_from_node [of "proc_list s" ProcHead "map ProcLink as" "ProcLink c" "map ProcLink bs"]
    by (simp add: start_cursor_def)
qed

lemma proc_order_advance:
  assumes "proc_order s ts rot" and "rot = us @ t # vs"
  shows "proc_order (s\<lparr>cursor := Some (next (proc_list s) (ProcLink t))\<rparr>) ts (vs @ us @ [t])"
proof -
  have rg: "ring (proc_list s) ProcHead (map ProcLink ts)"
    using assms(1) by (simp add: proc_order_def)
  obtain xs ys where xy: "ts = xs @ ys" "rot = ys @ xs"
    using assms(1) unfolding proc_order_def
    by (metis append.right_neutral append_Cons append_Nil)
  have "t \<in> set rot" using assms(2) by simp
  then have "t \<in> set ts" using xy by auto
  then obtain as bs where ab: "ts = as @ t # bs" by (meson split_list)
  have d: "distinct ts" using rg by (simp add: ring_def distinct_map)
  have rot': "vs @ us @ [t] = bs @ as @ [t]"
  proof -
    have "vs @ us = bs @ as"
    proof (rule rotation_after)
      show "distinct (xs @ ys)" using d xy(1) by simp
      show "ys @ xs = us @ t # vs" using assms(2) xy(2) by simp
      show "xs @ ys = as @ t # bs" using xy(1) ab by simp
    qed
    then show ?thesis by simp
  qed
  have nx: "next (proc_list s) (ProcLink t) = hd (map ProcLink bs @ [ProcHead])"
    using ring_at(2) [of "proc_list s" ProcHead "map ProcLink as" "ProcLink t" "map ProcLink bs"] rg ab
    by simp
  show ?thesis
  proof (cases bs)
    case Nil
    then show ?thesis using nx rg rot' ab by (simp add: proc_order_def)
  next
    case (Cons b bs')
    then have "\<exists>as' c bs''. ts = as' @ c # bs'' \<and> b = c \<and> vs @ us @ [t] = c # bs'' @ as'"
      using rot' ab by (intro exI [of _ "as @ [t]"] exI [of _ b] exI [of _ bs']) simp
    then show ?thesis using nx rg Cons by (simp add: proc_order_def)
  qed
qed

text \<open>What \<^verbatim>\<open>pick_next\<close> returns and where it leaves the cursor.\<close>

lemma pick_next_order:
  assumes order: "proc_order s ts rot"
    and prio: "\<forall>t \<in> set ts. eligible s t \<longrightarrow> priority (tasks s t) \<le> IDLE_PRIO"
  shows "(\<exists>us t vs. rot = us @ t # vs \<and> first_best s rot t \<and>
      (\<forall>u \<in> set us. eligible s u \<longrightarrow> priority (tasks s t) < priority (tasks s u)) \<and>
      pick_next s = Some (t, s\<lparr>cursor := Some (next (proc_list s) (ProcLink t))\<rparr>)) \<or>
    ((\<forall>t \<in> set ts. \<not> eligible s t) \<and>
      pick_next s = Some (idle_proc s, s\<lparr>cursor := Some (start_cursor s)\<rparr>))"
proof -
  note rot = proc_order_set [OF order] and walk = proc_order_walk [OF order]
  obtain nx best where f:
    "foldl (weigh_task s) (idle_proc s, IDLE_PRIO + 1) (map ProcLink rot) = (nx, best)"
    by fastforce
  from weigh_fold [OF _ f] rot prio
  consider "nx = idle_proc s" "\<forall>t \<in> set rot. \<not> eligible s t" | "first_best s rot nx" by auto
  then show ?thesis
  proof cases
    case 1
    then show ?thesis using f walk rot by (simp add: pick_next_def)
  next
    case 2
    then obtain us vs where "rot = us @ nx # vs" "eligible s nx"
      "\<forall>u \<in> set us. eligible s u \<longrightarrow> priority (tasks s nx) < priority (tasks s u)"
      by (auto simp: first_best_def)
    moreover have "nx \<noteq> idle_proc s" using \<open>eligible s nx\<close> by (simp add: eligible_def)
    then have "pick_next s = Some (nx, s\<lparr>cursor := Some (next (proc_list s) (ProcLink nx))\<rparr>)"
      using f walk by (simp add: pick_next_def)
    ultimately show ?thesis using 2 by blast
  qed
qed

section \<open>Turns\<close>

text \<open>The eligible tasks of the best priority level \<open>p\<close>.\<close>

definition at_level :: "sched_state \<Rightarrow> int \<Rightarrow> tid \<Rightarrow> bool" where
  "at_level s p t \<longleftrightarrow> eligible s t \<and> priority (tasks s t) = p"

definition best_level :: "sched_state \<Rightarrow> tid list \<Rightarrow> int \<Rightarrow> bool" where
  "best_level s ts p \<longleftrightarrow>
     p \<le> IDLE_PRIO \<and> (\<exists>t \<in> set ts. at_level s p t) \<and>
     (\<forall>t \<in> set ts. eligible s t \<longrightarrow> p \<le> priority (tasks s t) \<and> priority (tasks s t) \<le> IDLE_PRIO)"

text \<open>The running task is Running, so that it can be chosen again, and every task has a page directory.\<close>

definition steady :: "sched_state \<Rightarrow> tid list \<Rightarrow> bool" where
  "steady s ts \<longleftrightarrow>
     (\<exists>c. current s = Some c \<and> c \<in> set ts \<and> c \<noteq> idle_proc s \<and> tstate (tasks s c) = Running) \<and>
     (\<forall>t \<in> set ts. root_pa (tasks s t) \<noteq> None)"

lemma first_best_level:
  assumes "first_best s rot t" and "best_level s ts p" and "set rot = set ts"
  shows "at_level s p t"
proof -
  from assms(1) obtain us vs where d: "rot = us @ t # vs" "eligible s t"
    "\<forall>u \<in> set us. eligible s u \<longrightarrow> priority (tasks s t) < priority (tasks s u)"
    "\<forall>v \<in> set vs. eligible s v \<longrightarrow> priority (tasks s t) \<le> priority (tasks s v)"
    by (auto simp: first_best_def)
  from assms(2) obtain u where u: "u \<in> set ts" "eligible s u" "priority (tasks s u) = p"
    by (auto simp: best_level_def at_level_def)
  then have "priority (tasks s t) \<le> p" using d assms(3) by fastforce
  moreover have "p \<le> priority (tasks s t)"
    using assms(2,3) d(1,2) by (auto simp: best_level_def)
  ultimately show ?thesis using d(2) by (simp add: at_level_def)
qed

definition same_frame :: "sched_state \<Rightarrow> sched_state \<Rightarrow> bool" where
  "same_frame s s' \<longleftrightarrow>
     proc_list s' = proc_list s \<and> cursor s' = cursor s \<and> idle_proc s' = idle_proc s \<and>
     hash_list s' = hash_list s \<and> child_lists s' = child_lists s \<and> init_proc s' = init_proc s \<and>
     process_count s' = process_count s \<and> next_pid s' = next_pid s \<and>
     (\<forall>u. priority (tasks s' u) = priority (tasks s u) \<and> pid (tasks s' u) = pid (tasks s u) \<and>
        parent (tasks s' u) = parent (tasks s u) \<and> exit_code (tasks s' u) = exit_code (tasks s u) \<and>
        wait_state (tasks s' u) = wait_state (tasks s u) \<and> root_pa (tasks s' u) = root_pa (tasks s u))"

lemma same_frame_trans: "same_frame s t \<Longrightarrow> same_frame t u \<Longrightarrow> same_frame s u"
  by (simp add: same_frame_def)

lemma replenish_frame:
  "same_frame s (replenish (count_pick s t) t)"
  "current (replenish (count_pick s t) t) = current s"
  "tstate (tasks (replenish (count_pick s t) t) u) = tstate (tasks s u)"
  by (simp_all add: same_frame_def replenish_def count_pick_def)

lemma task_run_other:
  assumes "current s = Some c" and "t \<noteq> c" and "tstate (tasks s t) \<noteq> Zombie"
    and "root_pa (tasks s t) \<noteq> None" and "root_pa (tasks s c) \<noteq> None"
  shows "\<exists>s'. task_run s t = Inr s' \<and> current s' = Some t \<and> same_frame s s' \<and>
    (\<forall>u. tstate (tasks s' u) = (if u = t then Running else tstate (tasks s u)))"
  using assms
  by (auto simp: task_run_def on_task_def mark_running_def same_frame_def page_table_root_pa_def)

text \<open>The state of the task that gives up the processor: a running task becomes runnable, a task
  that is asleep or a zombie stays so.\<close>

definition left_state :: "task_state \<Rightarrow> task_state" where
  "left_state st = (if st = Running then Runnable else st)"

lemma switch_task_effect:
  assumes c: "current s = Some c"
    and t: "t = c \<and> tstate (tasks s c) = Running \<or> t \<noteq> c \<and> tstate (tasks s t) \<noteq> Zombie"
    and m: "root_pa (tasks s t) \<noteq> None" "root_pa (tasks s c) \<noteq> None"
  shows "\<exists>s'. switch_task s c t = Inr s' \<and> current s' = Some t \<and> same_frame s s' \<and>
    (\<forall>u. tstate (tasks s' u) =
       (if u = t then Running else if u = c then left_state (tstate (tasks s c)) else tstate (tasks s u)))"
proof (cases "t = c")
  case True
  with c t show ?thesis by (auto simp: switch_task_def same_frame_def)
next
  case False
  let ?n = "s\<lparr>stats := (stats s)\<lparr>context_switches := context_switches (stats s) + 1\<rparr>\<rparr>"
  let ?s = "upd_task (upd_task ?n c (\<lambda>_. (tasks s c)\<lparr>tstate := left_state (tstate (tasks s c))\<rparr>)) c
      (\<lambda>t. t\<lparr>need_resched := 0\<rparr>)"
  have "(if tstate (tasks ?n c) = Running then on_task task_wakeup ?n c else Inr ?n) =
      Inr (upd_task ?n c (\<lambda>_. (tasks s c)\<lparr>tstate := left_state (tstate (tasks s c))\<rparr>))"
    by (auto simp: on_task_def task_wakeup_def left_state_def upd_task_def)
  then have "switch_task s c t = task_run ?s t"
    using False by (simp add: switch_task_def)
  moreover have "same_frame s ?s" by (simp add: same_frame_def)
  moreover have "current ?s = Some c" "tstate (tasks ?s t) \<noteq> Zombie" "root_pa (tasks ?s t) \<noteq> None"
    "root_pa (tasks ?s c) \<noteq> None" using False c t m by auto
  ultimately show ?thesis
    using task_run_other [of ?s c t] False by (fastforce simp: same_frame_def)
qed

lemma schedule_effect:
  assumes "pick_next (s\<lparr>stats := (stats s)\<lparr>schedule_calls := schedule_calls (stats s) + 1\<rparr>\<rparr>) = Some (t, s1)"
    and c: "current s1 = Some c"
    and t: "t = c \<and> tstate (tasks s1 c) = Running \<or> t \<noteq> c \<and> tstate (tasks s1 t) \<noteq> Zombie"
    and m: "root_pa (tasks s1 t) \<noteq> None" "root_pa (tasks s1 c) \<noteq> None"
  shows "\<exists>s'. schedule s = Some (Inr s') \<and> current s' = Some t \<and> same_frame s1 s' \<and>
    (\<forall>u. tstate (tasks s' u) =
       (if u = t then Running else if u = c then left_state (tstate (tasks s1 c)) else tstate (tasks s1 u)))"
proof -
  let ?s = "replenish (count_pick s1 t) t"
  have "schedule s = Some (switch_task ?s c t)"
    using assms(1) c by (simp add: schedule_def Let_def replenish_frame(2))
  moreover have "root_pa (tasks ?s t) \<noteq> None" "root_pa (tasks ?s c) \<noteq> None"
    using m replenish_frame(1) [of s1 t] by (simp_all add: same_frame_def)
  then obtain s' where s': "switch_task ?s c t = Inr s'" "current s' = Some t" "same_frame ?s s'"
    "\<forall>u. tstate (tasks s' u) =
       (if u = t then Running else if u = c then left_state (tstate (tasks ?s c)) else tstate (tasks ?s u))"
    using switch_task_effect [of ?s c t] c t by (auto simp: replenish_frame(2,3))
  moreover have "same_frame s1 s'"
    using s'(3) replenish_frame(1) [of s1 t] by (blast intro: same_frame_trans)
  ultimately show ?thesis by (intro exI [of _ s']) (simp add: replenish_frame(3))
qed

lemma schedule_turn:
  assumes order: "proc_order s ts rot" and best: "best_level s ts p" and st: "steady s ts"
  shows "\<exists>us t vs s'. rot = us @ t # vs \<and> at_level s p t \<and> (\<forall>u \<in> set us. \<not> at_level s p u) \<and>
    schedule s = Some (Inr s') \<and> current s' = Some t \<and> proc_order s' ts (vs @ us @ [t]) \<and>
    (\<forall>u. eligible s' u = eligible s u) \<and> (\<forall>u. priority (tasks s' u) = priority (tasks s u)) \<and>
    steady s' ts"
proof -
  let ?s = "s\<lparr>stats := (stats s)\<lparr>schedule_calls := schedule_calls (stats s) + 1\<rparr>\<rparr>"
  have el: "eligible ?s = eligible s" by (auto simp: eligible_def fun_eq_iff)
  have order': "proc_order ?s ts rot" using order by (simp add: proc_order_def)
  have prio: "\<forall>t \<in> set ts. eligible ?s t \<longrightarrow> priority (tasks ?s t) \<le> IDLE_PRIO"
    using best el by (simp add: best_level_def)
  have "\<not> (\<forall>t \<in> set ts. \<not> eligible ?s t)" using best el by (auto simp: best_level_def at_level_def)
  with pick_next_order [OF order' prio] obtain us t vs where p: "rot = us @ t # vs"
    "first_best ?s rot t" "\<forall>u \<in> set us. eligible ?s u \<longrightarrow> priority (tasks ?s t) < priority (tasks ?s u)"
    "pick_next ?s = Some (t, ?s\<lparr>cursor := Some (next (proc_list s) (ProcLink t))\<rparr>)"
    by auto
  have "first_best s rot t" using p(2) el by (simp add: first_best_def)
  then have lvl: "at_level s p t"
    using proc_order_set [OF order] first_best_level [OF _ best] by blast
  then have us: "\<forall>u \<in> set us. \<not> at_level s p u" using p(3) el by (auto simp: at_level_def)
  from st obtain c where c: "current s = Some c" "c \<in> set ts" "c \<noteq> idle_proc s"
    "tstate (tasks s c) = Running" and mem: "\<forall>t \<in> set ts. root_pa (tasks s t) \<noteq> None"
    by (auto simp: steady_def)
  have t: "t \<in> set ts" "t \<noteq> idle_proc s" "tstate (tasks s t) \<noteq> Zombie"
    using p(1) proc_order_set [OF order] lvl by (auto simp: at_level_def eligible_def)
  let ?s1 = "?s\<lparr>cursor := Some (next (proc_list s) (ProcLink t))\<rparr>"
  obtain s' where s': "schedule s = Some (Inr s')" "current s' = Some t" "same_frame ?s1 s'"
    "\<forall>u. tstate (tasks s' u) = (if u = t then Running else if u = c then Runnable else tstate (tasks ?s1 u))"
    using schedule_effect [OF p(4), of c] c t mem lvl
    by (auto simp: at_level_def eligible_def left_state_def)
  then have fr: "proc_list s' = proc_list s" "cursor s' = Some (next (proc_list s) (ProcLink t))"
    "idle_proc s' = idle_proc s" "\<forall>u. priority (tasks s' u) = priority (tasks s u)"
    "\<forall>u. root_pa (tasks s' u) = root_pa (tasks s u)"
    by (simp_all add: same_frame_def)
  have "\<forall>u. eligible s' u = eligible s u"
    using s'(2,4) fr(3) c t lvl by (simp add: eligible_def at_level_def)
  moreover have "proc_order s' ts (vs @ us @ [t])"
    using proc_order_advance [OF order p(1)] fr
      proc_order_cong [of s' "s\<lparr>cursor := Some (next (proc_list s) (ProcLink t))\<rparr>"] by simp
  moreover have "steady s' ts" using s'(2,4) fr(3,5) t mem by (auto simp: steady_def)
  ultimately show ?thesis using p(1) lvl us s'(1,2) fr(4) by blast
qed

text \<open>A number of consecutive calls of \<^verbatim>\<open>schedule\<close>, and the tasks that run.\<close>

fun schedule_times :: "nat \<Rightarrow> sched_state \<Rightarrow> tid option list option" where
  "schedule_times 0 s = Some []"
| "schedule_times (Suc k) s =
     Option.bind (schedule s) (\<lambda>r. case r of
       Inl _ \<Rightarrow> None
     | Inr s' \<Rightarrow> Option.bind (schedule_times k s') (\<lambda>ts. Some (current s' # ts)))"

lemma schedule_times_turns:
  assumes "proc_order s ts rot" and "best_level s ts p" and "steady s ts"
    and "filter (at_level s p) rot = qs @ rs"
  shows "schedule_times (length qs) s = Some (map Some qs)"
  using assms
proof (induction qs arbitrary: s rot rs)
  case (Cons q qs)
  from schedule_turn [OF Cons.prems(1-3)] obtain us t vs s' where
    t: "rot = us @ t # vs" "at_level s p t" "\<forall>u \<in> set us. \<not> at_level s p u"
      "schedule s = Some (Inr s')" "current s' = Some t" "proc_order s' ts (vs @ us @ [t])"
      "\<forall>u. eligible s' u = eligible s u" "\<forall>u. priority (tasks s' u) = priority (tasks s u)"
      "steady s' ts"
    by blast
  have lvl: "at_level s' p = at_level s p" using t(7,8) by (auto simp: at_level_def fun_eq_iff)
  have "filter (at_level s p) us = []" using t(3) by (simp add: filter_empty_conv)
  then have q: "q = t" "filter (at_level s p) vs = qs @ rs" using Cons.prems(4) t(1,2) by auto
  have "best_level s' ts p" using Cons.prems(2) t(7,8) lvl by (simp add: best_level_def)
  moreover have "filter (at_level s' p) (vs @ us @ [t]) = qs @ rs @ [t]"
    using q lvl t(2) \<open>filter (at_level s p) us = []\<close> by simp
  ultimately have "schedule_times (length qs) s' = Some (map Some qs)"
    using Cons.IH [OF t(6)] t(9) by blast
  with t(4,5) q show ?case by simp
qed simp

section \<open>Properties\<close>

text \<open>C28. The policy picks a best task: the search ends. When some task other than the idle task can
  run, the result is an eligible task of minimal priority value, the first of them in the list order
  that starts at the cursor; the cursor moves behind it, so that it comes last in the next search, and
  nothing else changes. When no other task can run, the result is the idle task, and only the cursor is
  set to the place where the search started.\<close>

theorem pick_next_best:
  assumes "proc_order s ts rot"
    and "\<forall>t \<in> set ts. eligible s t \<longrightarrow> priority (tasks s t) \<le> IDLE_PRIO"
  shows "if \<exists>u \<in> set ts. eligible s u
     then \<exists>us t vs s'. pick_next s = Some (t, s') \<and> rot = us @ t # vs \<and> first_best s rot t \<and>
       (\<forall>u \<in> set ts. eligible s u \<longrightarrow> priority (tasks s t) \<le> priority (tasks s u)) \<and>
       s' = s\<lparr>cursor := Some (next (proc_list s) (ProcLink t))\<rparr> \<and> proc_order s' ts (vs @ us @ [t])
     else pick_next s = Some (idle_proc s, s\<lparr>cursor := Some (start_cursor s)\<rparr>)"
proof -
  from pick_next_order [OF assms] show ?thesis
  proof (elim disjE exE conjE)
    fix us t vs
    assume t: "rot = us @ t # vs" "first_best s rot t"
      "pick_next s = Some (t, s\<lparr>cursor := Some (next (proc_list s) (ProcLink t))\<rparr>)"
    have "priority (tasks s t) \<le> priority (tasks s u)" if "u \<in> set ts" "eligible s u" for u
      using t(2) that proc_order_set [OF assms(1)] by (fastforce simp: first_best_def)
    moreover have "t \<in> set ts" "eligible s t"
      using t(2) proc_order_set [OF assms(1)] by (auto simp: first_best_def)
    ultimately show ?thesis using t proc_order_advance [OF assms(1) t(1)] by auto
  qed auto
qed

definition demo_task :: "int \<Rightarrow> int \<Rightarrow> task_state \<Rightarrow> task" where
  "demo_task i p st = \<lparr>pid = i, tstate = st, priority = p, time_slice = 0, need_resched = 0,
     exit_code = 0, wait_state = 0, parent = None, task_name = [], root_pa = Some 0,
     kernel_memory = True\<rparr>"

definition demo_sched :: sched_state where
  "demo_sched = \<lparr>
     tasks = (\<lambda>t. if t = 0 then demo_task 0 31 Runnable else if t = 1 then demo_task 1 10 Running
       else if t = 2 then demo_task 2 10 Runnable else if t = 3 then demo_task 3 15 Runnable
       else demo_task 4 10 Runnable),
     proc_list = list_add (list_add (list_add (list_add (list_add \<lparr>prev = id, next = id\<rparr>
       ProcHead (ProcLink 0)) ProcHead (ProcLink 1)) ProcHead (ProcLink 2)) ProcHead (ProcLink 3))
       ProcHead (ProcLink 4),
     hash_list = \<lparr>prev = id, next = id\<rparr>, child_lists = \<lparr>prev = id, next = id\<rparr>,
     cursor = None, current = Some 1, idle_proc = 0, init_proc = 1, process_count = 5, next_pid = 5,
     stats = \<lparr>tick_count = 0, schedule_calls = 0, need_resched_events = 0, context_switches = 0,
       same_task_runs = 0, pick_idle = 0, pick_non_idle = 0\<rparr>, loaded_root = 0\<rparr>"

lemma demo_sched_order: "proc_order demo_sched [4, 3, 2, 1, 0] [4, 3, 2, 1, 0]"
proof -
  let ?h = "\<lparr>prev = id, next = id\<rparr> :: list_link links"
  have "ring ?h ProcHead []" by (simp add: ring_def)
  from ring_add_after_head [OF this, of "ProcLink 0"]
  have "ring (list_add ?h ProcHead (ProcLink 0)) ProcHead [ProcLink 0]" by (simp add: list_add_def)
  from ring_add_after_head [OF this, of "ProcLink 1"]
    ring_add_after_head [of _ ProcHead "[ProcLink 1, ProcLink 0]" "ProcLink 2"]
    ring_add_after_head [of _ ProcHead "[ProcLink 2, ProcLink 1, ProcLink 0]" "ProcLink 3"]
    ring_add_after_head [of _ ProcHead "[ProcLink 3, ProcLink 2, ProcLink 1, ProcLink 0]" "ProcLink 4"]
  show ?thesis by (simp add: proc_order_def demo_sched_def list_add_def)
qed

lemma demo_sched_tasks:
  "eligible demo_sched t \<longleftrightarrow> t \<noteq> 0"
  "priority (tasks demo_sched t) = (if t = 0 then 31 else if t = 3 then 15 else 10)"
  by (simp_all add: eligible_def demo_sched_def demo_task_def)

lemma demo_sched_first:
  assumes "first_best demo_sched [4, 3, 2, 1, 0] t"
  shows "t = 4"
proof -
  from assms obtain us vs where d: "[4, 3, 2, 1, 0] = us @ t # vs"
    "\<forall>u \<in> set us. eligible demo_sched u \<longrightarrow>
      priority (tasks demo_sched t) < priority (tasks demo_sched u)"
    unfolding first_best_def by blast
  show ?thesis
  proof (cases us)
    case Nil
    with d(1) show ?thesis by simp
  next
    case (Cons u us')
    with d(1) have "u = 4" by simp
    with d(2) Cons show ?thesis by (simp add: demo_sched_tasks split: if_splits)
  qed
qed

theorem pick_next_best_witness:
  "pick_next demo_sched = Some (4, demo_sched\<lparr>cursor := Some (ProcLink 3)\<rparr>)"
proof -
  have "\<exists>u \<in> set [4, 3, 2, 1, 0]. eligible demo_sched u" by (simp add: demo_sched_tasks)
  then obtain t where "first_best demo_sched [4, 3, 2, 1, 0] t"
    "pick_next demo_sched = Some (t, demo_sched\<lparr>cursor := Some (next (proc_list demo_sched) (ProcLink t))\<rparr>)"
    using pick_next_best [OF demo_sched_order] by (auto simp: demo_sched_tasks IDLE_PRIO_def)
  moreover have "next (proc_list demo_sched) (ProcLink 4) = ProcLink 3"
    using ring_at(2) [of "proc_list demo_sched" ProcHead "[]" "ProcLink 4"
        "map ProcLink [3, 2, 1, 0]"] demo_sched_order
    by (simp add: proc_order_def)
  ultimately show ?thesis using demo_sched_first by metis
qed

text \<open>C10. Round robin without starvation inside the best level. While a task other than the idle task
  runs and every task has a page directory, as long as the set of tasks that can run does not change, \<open>n\<close> consecutive calls of \<^verbatim>\<open>schedule\<close>, where \<open>n\<close> is the number of eligible
  tasks of the best priority, end without a panic and run each of these tasks exactly once, in list
  order from the cursor.\<close>

theorem schedule_round_robin:
  assumes "proc_order s ts rot" and "best_level s ts p" and "steady s ts"
  shows "schedule_times (length (filter (at_level s p) rot)) s =
      Some (map Some (filter (at_level s p) rot)) \<and>
    distinct (filter (at_level s p) rot) \<and> set (filter (at_level s p) rot) = {t \<in> set ts. at_level s p t}"
  using schedule_times_turns [OF assms, of _ "[]"] proc_order_set [OF assms(1)] by auto

theorem schedule_round_robin_witness:
  "schedule_times 3 demo_sched = Some [Some 4, Some 2, Some 1]"
proof -
  have "steady demo_sched [4, 3, 2, 1, 0]"
    by (simp add: steady_def demo_sched_def demo_task_def)
  moreover have "best_level demo_sched [4, 3, 2, 1, 0] 10"
    by (simp add: best_level_def at_level_def demo_sched_tasks IDLE_PRIO_def)
  moreover have f: "filter (at_level demo_sched 10) [4, 3, 2, 1, 0] = [4, 2, 1]"
    by (simp add: at_level_def demo_sched_tasks)
  ultimately have "schedule_times (length [4, 2, 1 :: tid]) demo_sched = Some (map Some [4, 2, 1])"
    using schedule_round_robin [OF demo_sched_order, of 10] unfolding f by blast
  then show ?thesis by (simp add: numeral_3_eq_3)
qed







end
