(* ===== verification/Process.thy ===== *)
theory Process
  imports Sched
begin

text \<open>
  The process table and process life cycle: \<^verbatim>\<open>kernel/sched/task_table.cpp\<close>, the links of
  \<^verbatim>\<open>kernel/sched/task.cpp\<close> and fork, exit and wait of \<^verbatim>\<open>kernel/sched/process.cpp\<close>. Each task
  is linked into three rings: the process list, a bucket of the pid hash table, and the child list
  of its parent. Every operation runs with interrupts off on one processor, so it is one step.
\<close>

section \<open>The process table\<close>

definition HASH_SHIFT :: nat where "HASH_SHIFT = 10"

definition pid_hash :: "int \<Rightarrow> nat" where
  "pid_hash x = unat (drop_bit (32 - HASH_SHIFT) (word_of_int x * 0x61C88647 :: u32))"

definition add_process :: "sched_state \<Rightarrow> tid \<Rightarrow> sched_state" where
  "add_process s t =
     s\<lparr>hash_list := list_add (hash_list s) (HashHead (pid_hash (pid (tasks s t)))) (HashLink t),
       proc_list := list_add (proc_list s) ProcHead (ProcLink t),
       process_count := process_count s + 1\<rparr>"

definition remove_process :: "sched_state \<Rightarrow> tid \<Rightarrow> sched_state" where
  "remove_process s t =
     (let s = task_removed s t
      in s\<lparr>hash_list := unlink (hash_list s) (HashLink t),
           proc_list := unlink (proc_list s) (ProcLink t),
           process_count := process_count s - 1\<rparr>)"

fun link_task :: "hash_link \<Rightarrow> tid option" where
  "link_task (HashLink t) = Some t"
| "link_task (HashHead b) = None"

definition find_process :: "sched_state \<Rightarrow> int \<Rightarrow> tid option option" where
  "find_process s p =
     (if p \<le> 0 then Some None
      else Option.bind (iterate (hash_list s) (HashHead (pid_hash p))) (\<lambda>ns.
        Some (find (\<lambda>t. pid (tasks s t) = p) (List.map_filter link_task ns))))"

definition set_links :: "sched_state \<Rightarrow> tid \<Rightarrow> sched_state" where
  "set_links s t =
     (let s = add_process s t
      in case parent (tasks s t) of
           None \<Rightarrow> s
         | Some p \<Rightarrow> s\<lparr>child_lists := list_add (child_lists s) (ChildHead p) (ChildLink t)\<rparr>)"

definition remove_links :: "sched_state \<Rightarrow> tid \<Rightarrow> sched_state" where
  "remove_links s t =
     (let s = remove_process s t
      in s\<lparr>child_lists := unlink (child_lists s) (ChildLink t)\<rparr>)"

text \<open>\<^verbatim>\<open>Task::destroy\<close> with the assertions of the destructor; the storage itself is not modelled.\<close>

definition task_destroy :: "sched_state \<Rightarrow> tid \<Rightarrow> fault + sched_state" where
  "task_destroy s t =
     (if tstate (tasks s t) = Zombie \<and> current s \<noteq> Some t \<and>
         list_empty (proc_list s) (ProcLink t) \<and> list_empty (hash_list s) (HashLink t) \<and>
         list_empty (child_lists s) (ChildLink t) \<and> list_empty (child_lists s) (ChildHead t)
      then Inr s else Inl Panicked)"

section \<open>Fork, exit and wait\<close>

text \<open>
  \<open>fresh\<close> is the address of the new task object, \<open>None\<close> when the allocation fails; \<open>prepare\<close> is the
  outcome of the calls that set up its descriptor table, its standard files and its kernel stack.
\<close>

definition new_task :: task where
  "new_task = \<lparr>pid = 0, tstate = Uninit, priority = DEFAULT_PRIORITY, time_slice = 0,
     need_resched = 0, exit_code = 0, wait_state = 0, parent = None, task_name = [], root_pa = None,
     kernel_memory = False\<rparr>"

definition construct_task :: "sched_state \<Rightarrow> tid \<Rightarrow> sched_state" where
  "construct_task s t =
     (upd_task s t (\<lambda>_. new_task))
       \<lparr>proc_list := list_node_init (proc_list s) (ProcLink t),
        hash_list := list_node_init (hash_list s) (HashLink t),
        child_lists := list_node_init (list_node_init (child_lists s) (ChildLink t)) (ChildHead t)\<rparr>"

text \<open>\<^verbatim>\<open>++\<close> on a 32-bit \<^verbatim>\<open>int\<close>, with the wrap-around of two's complement.\<close>

definition int_inc :: "int \<Rightarrow> int" where
  "int_inc i = signed_take_bit 31 (i + 1)"

definition fork :: "sched_state \<Rightarrow> tid option \<Rightarrow> error + unit \<Rightarrow> u64 \<Rightarrow> (error + int) \<times> sched_state" where
  "fork s fresh prepare kernel_root =
     (case current s of
        None \<Rightarrow> (Inl NotSupported, s)
      | Some par \<Rightarrow>
          if \<not> kernel_memory (tasks s par) then (Inl NotSupported, s)
          else case fresh of
            None \<Rightarrow> (Inl NoMem, s)
          | Some t \<Rightarrow>
              (case prepare of
                 Inl e \<Rightarrow> (Inl e, s)
               | Inr _ \<Rightarrow>
                   let prio = priority (tasks s par);
                       s = upd_task (construct_task s t) t (\<lambda>p. p\<lparr>parent := Some par,
                             kernel_memory := True, root_pa := Some kernel_root, priority := prio,
                             time_slice := calc_time_slice prio, pid := next_pid s\<rparr>);
                       s = s\<lparr>next_pid := int_inc (next_pid s)\<rparr>;
                       s = set_links s t;
                       s = upd_task s t (\<lambda>p. p\<lparr>tstate := Runnable\<rparr>)
                   in (Inr (pid (tasks s t)), s)))"

partial_function (option) adopt_children :: "sched_state \<Rightarrow> tid \<Rightarrow> (fault + sched_state) option" where
  "adopt_children s cur =
     (if list_empty (child_lists s) (ChildHead cur) then Some (Inr s)
      else
        case next (child_lists s) (ChildHead cur) of
          ChildHead _ \<Rightarrow> Some (Inl Panicked)
        | ChildLink c \<Rightarrow>
            (let node = ChildLink c;
                 s = s\<lparr>child_lists := unlink (child_lists s) node\<rparr>;
                 s = upd_task s c (\<lambda>t. t\<lparr>parent := Some (init_proc s)\<rparr>);
                 s = s\<lparr>child_lists := list_add (child_lists s) (ChildHead (init_proc s)) node\<rparr>
             in case (if tstate (tasks s c) = Zombie \<and> wait_state (tasks s (init_proc s)) \<noteq> 0
                      then on_task task_wakeup s (init_proc s) else Inr s) of
                  Inl e \<Rightarrow> Some (Inl e)
                | Inr s \<Rightarrow> adopt_children s cur))"

definition notify_parent :: "sched_state \<Rightarrow> tid \<Rightarrow> fault + sched_state" where
  "notify_parent s c =
     (case parent (tasks s c) of
        None \<Rightarrow> Inr s
      | Some p \<Rightarrow> if wait_state (tasks s p) \<noteq> 0 then on_task task_wakeup s p else Inr s)"

text \<open>
  The scheduler comes back to the exiting task only when it leaves that task on the processor; then
  the \<^verbatim>\<open>PANIC\<close> behind the call is reached.
\<close>

definition process_exit :: "sched_state \<Rightarrow> int \<Rightarrow> sched_state exec" where
  "process_exit s code =
     (case current s of
        None \<Rightarrow> Some (Inl Panicked)
      | Some c \<Rightarrow>
          (case notify_parent (upd_task s c (mark_zombie code)) c of
             Inl e \<Rightarrow> Some (Inl e)
           | Inr s \<Rightarrow>
               Option.bind (adopt_children s c) (\<lambda>r. case r of
                 Inl e \<Rightarrow> Some (Inl e)
               | Inr s \<Rightarrow>
                   Option.bind (schedule s) (\<lambda>r. case r of
                     Inl e \<Rightarrow> Some (Inl e)
                   | Inr s \<Rightarrow> Some (if current s = Some c then Inl Panicked else Inr s)))))"

text \<open>One round of the loop of \<^verbatim>\<open>wait\<close>: it reaps a zombie, fails, or goes to sleep.\<close>

datatype wait_round = Reaped int int sched_state | No_child | Blocked sched_state

fun scan_children :: "sched_state \<Rightarrow> int \<Rightarrow> bool \<Rightarrow> child_link list \<Rightarrow> bool \<times> tid option" where
  "scan_children s p has [] = (has, None)"
| "scan_children s p has (ChildHead _ # ns) = scan_children s p has ns"
| "scan_children s p has (ChildLink c # ns) =
     (if p = 0 \<or> pid (tasks s c) = p
      then (if tstate (tasks s c) = Zombie then (True, Some c) else scan_children s p True ns)
      else scan_children s p has ns)"

definition wait_once :: "sched_state \<Rightarrow> int \<Rightarrow> (fault + wait_round) option" where
  "wait_once s p =
     (case current s of
        None \<Rightarrow> Some (Inl Panicked)
      | Some cur \<Rightarrow>
          Option.bind (iterate (child_lists s) (ChildHead cur)) (\<lambda>ns.
            case scan_children s p False ns of
              (_, Some z) \<Rightarrow>
                (let zpid = pid (tasks s z); code = exit_code (tasks s z)
                 in case task_destroy (remove_links s z) z of
                      Inl e \<Rightarrow> Some (Inl e)
                    | Inr s \<Rightarrow> Some (Inr (Reaped zpid code s)))
            | (False, None) \<Rightarrow> Some (Inr No_child)
            | (True, None) \<Rightarrow>
                (case on_task task_sleep (upd_task s cur (\<lambda>t. t\<lparr>wait_state := 1\<rparr>)) cur of
                   Inl e \<Rightarrow> Some (Inl e)
                 | Inr s \<Rightarrow> Option.bind (schedule s) (\<lambda>r. case r of
                     Inl e \<Rightarrow> Some (Inl e)
                   | Inr s \<Rightarrow> Some (Inr (Blocked s))))))"

text \<open>The call: the check of its argument, and the round that follows each return from sleep.\<close>

definition process_wait :: "sched_state \<Rightarrow> int \<Rightarrow> (fault + (error + wait_round)) option" where
  "process_wait s p =
     (if p < 0 then Some (Inr (Inl Invalid))
      else map_option (map_sum id (\<lambda>r. case r of No_child \<Rightarrow> Inl NotFound | _ \<Rightarrow> Inr r)) (wait_once s p))"

definition wait_resume :: "sched_state \<Rightarrow> int \<Rightarrow> (fault + wait_round) option" where
  "wait_resume s p =
     (case current s of
        None \<Rightarrow> Some (Inl Panicked)
      | Some cur \<Rightarrow> wait_once (upd_task s cur (\<lambda>t. t\<lparr>wait_state := 0\<rparr>)) p)"

section \<open>The invariant of the table\<close>

definition in_bucket :: "sched_state \<Rightarrow> nat \<Rightarrow> tid \<Rightarrow> bool" where
  "in_bucket s b t \<longleftrightarrow> pid_hash (pid (tasks s t)) = b"

definition wf_table :: "sched_state \<Rightarrow> tid list \<Rightarrow> bool" where
  "wf_table s ts \<longleftrightarrow>
     ring (proc_list s) ProcHead (map ProcLink ts) \<and>
     (\<forall>b < 1024. ring (hash_list s) (HashHead b) (map HashLink (filter (in_bucket s b) ts))) \<and>
     inj_on (\<lambda>t. pid (tasks s t)) (set ts) \<and>
     (\<forall>t \<in> set ts. pid (tasks s t) < next_pid s) \<and>
     process_count s = int (length ts)"

definition wf_children :: "sched_state \<Rightarrow> tid list \<Rightarrow> (tid \<Rightarrow> tid list) \<Rightarrow> bool" where
  "wf_children s ts ch \<longleftrightarrow>
     (\<forall>p \<in> set ts. ring (child_lists s) (ChildHead p) (map ChildLink (ch p)) \<and>
        (\<forall>c \<in> set (ch p). c \<in> set ts \<and> parent (tasks s c) = Some p))"

lemma pid_hash_bound: "pid_hash x < 1024"
proof -
  have "unat (drop_bit 22 (y :: u32)) = unat y div 4194304" for y
    by (simp add: drop_bit_eq_div unat_div_distrib)
  moreover have "unat (y :: u32) div 4194304 < 1024" for y
    using unat_lt_u32 [of y] by (simp add: less_mult_imp_div_less)
  ultimately show ?thesis by (simp add: pid_hash_def HASH_SHIFT_def)
qed

lemma map_filter_links [simp]: "List.map_filter link_task (map HashLink ts) = ts"
  by (induction ts) (simp_all add: List.map_filter_def)

lemma find_process_table:
  assumes "wf_table s ts" and "0 < p"
  shows "find_process s p = Some (find (\<lambda>t. pid (tasks s t) = p) ts)"
proof -
  let ?b = "pid_hash p"
  have "iterate (hash_list s) (HashHead ?b) = Some (map HashLink (filter (in_bucket s ?b) ts))"
    using assms(1) pid_hash_bound by (intro iterate_ring) (simp add: wf_table_def)
  moreover have "find (\<lambda>t. pid (tasks s t) = p) (filter (in_bucket s ?b) ts) =
      find (\<lambda>t. pid (tasks s t) = p) ts"
    by (induction ts) (auto simp: in_bucket_def)
  ultimately show ?thesis using assms(2) by (simp add: find_process_def)
qed

section \<open>Adding and removing a process\<close>

definition same_tasks :: "sched_state \<Rightarrow> sched_state \<Rightarrow> bool" where
  "same_tasks s s' \<longleftrightarrow> (\<forall>t. pid (tasks s' t) = pid (tasks s t))"

lemma in_bucket_cong: "same_tasks s s' \<Longrightarrow> in_bucket s' = in_bucket s"
  by (auto simp: in_bucket_def same_tasks_def fun_eq_iff)

lemma wf_table_cong:
  assumes "same_tasks s s'" and "proc_list s' = proc_list s" and "hash_list s' = hash_list s"
    and "next_pid s' = next_pid s" and "process_count s' = process_count s"
  shows "wf_table s' ts = wf_table s ts"
  using assms in_bucket_cong [OF assms(1)] by (simp add: wf_table_def same_tasks_def)

lemma wf_children_cong:
  assumes "child_lists s' = child_lists s" and "\<And>t. parent (tasks s' t) = parent (tasks s t)"
  shows "wf_children s' ts ch = wf_children s ts ch"
  using assms by (simp add: wf_children_def)

lemma wf_children_ring:
  "wf_children s ts ch \<Longrightarrow> p \<in> set ts \<Longrightarrow> ring (child_lists s) (ChildHead p) (map ChildLink (ch p))"
  by (simp add: wf_children_def)

lemma wf_children_parent:
  "wf_children s ts ch \<Longrightarrow> p \<in> set ts \<Longrightarrow> c \<in> set (ch p) \<Longrightarrow> c \<in> set ts \<and> parent (tasks s c) = Some p"
  by (simp add: wf_children_def)

lemma wf_children_disjoint:
  assumes "wf_children s ts ch" and "p \<in> set ts" and "q \<in> set ts" and "p \<noteq> q"
  shows "set (ChildHead p # map ChildLink (ch p)) \<inter> set (ChildHead q # map ChildLink (ch q)) = {}"
proof -
  have "set (ch p) \<inter> set (ch q) = {}"
    using wf_children_parent [OF assms(1,2)] wf_children_parent [OF assms(1,3)] assms(4) by fastforce
  with assms(4) show ?thesis by auto
qed

lemma wf_table_bucket:
  "wf_table s ts \<Longrightarrow> b < 1024 \<Longrightarrow>
     ring (hash_list s) (HashHead b) (map HashLink (filter (in_bucket s b) ts))"
  by (simp add: wf_table_def)

lemma wf_table_distinct: "wf_table s ts \<Longrightarrow> distinct ts"
  by (auto simp: wf_table_def ring_def distinct_map)

lemma add_process_table:
  assumes wf: "wf_table s ts" and t: "t \<notin> set ts" and p: "pid (tasks s t) < next_pid s"
    and new: "\<forall>u \<in> set ts. pid (tasks s u) \<noteq> pid (tasks s t)"
  shows "wf_table (add_process s t) (t # ts)"
proof -
  let ?s = "add_process s t" and ?b = "pid_hash (pid (tasks s t))"
  have same: "tasks ?s = tasks s" "next_pid ?s = next_pid s" "in_bucket ?s = in_bucket s"
    by (auto simp: add_process_def in_bucket_def fun_eq_iff)
  have "ring (proc_list ?s) ProcHead (map ProcLink (t # ts))"
    using wf t ring_add_after_head [of "proc_list s" ProcHead "map ProcLink ts" "ProcLink t"]
    by (auto simp: wf_table_def add_process_def list_add_def)
  moreover have "ring (hash_list ?s) (HashHead b) (map HashLink (filter (in_bucket s b) (t # ts)))"
    if b: "b < 1024" for b
  proof -
    let ?r = "\<lambda>b. map HashLink (filter (in_bucket s b) ts)"
    have r: "ring (hash_list s) (HashHead b) (?r b)" "ring (hash_list s) (HashHead ?b) (?r ?b)"
      using wf b pid_hash_bound by (simp_all add: wf_table_def)
    have "ring (add_after (hash_list s) (HashHead ?b) (HashLink t)) (HashHead b)
        (if b = ?b then HashLink t # ?r b else ?r b)"
    proof (cases "b = ?b")
      case True
      then show ?thesis using ring_add_after_head [OF r(1), of "HashLink t"] t by auto
    next
      case False
      then have "set (HashHead ?b # ?r ?b) \<inter> set (HashHead b # ?r b) = {}"
        by (auto simp: in_bucket_def)
      then show ?thesis using ring_add_after_other [OF r(2,1)] t False by auto
    qed
    then show ?thesis by (auto simp: add_process_def list_add_def in_bucket_def)
  qed
  ultimately show ?thesis
    using wf t p new unfolding wf_table_def same by (auto simp: inj_on_def add_process_def)
qed

lemma remove_process_table:
  assumes wf: "wf_table s (as @ t # bs)"
  shows "wf_table (remove_process s t) (as @ bs)"
    and "list_empty (proc_list (remove_process s t)) (ProcLink t)"
    and "list_empty (hash_list (remove_process s t)) (HashLink t)"
proof -
  let ?s = "remove_process s t" and ?b = "pid_hash (pid (tasks s t))"
  have same: "tasks ?s = tasks s" "next_pid ?s = next_pid s" "in_bucket ?s = in_bucket s"
    "process_count ?s = process_count s - 1"
    by (auto simp: remove_process_def task_removed_def in_bucket_def fun_eq_iff Let_def)
  have lists: "proc_list ?s = unlink (proc_list s) (ProcLink t)"
    "hash_list ?s = unlink (hash_list s) (HashLink t)"
    by (auto simp: remove_process_def task_removed_def Let_def)
  have pr: "ring (proc_list s) ProcHead (map ProcLink as @ ProcLink t # map ProcLink bs)"
    using wf by (simp add: wf_table_def)
  let ?r = "\<lambda>b. map HashLink (filter (in_bucket s b) as)"
  let ?q = "\<lambda>b. map HashLink (filter (in_bucket s b) bs)"
  have hr: "ring (hash_list s) (HashHead ?b) (?r ?b @ HashLink t # ?q ?b)"
  proof -
    have "ring (hash_list s) (HashHead ?b) (map HashLink (filter (in_bucket s ?b) (as @ t # bs)))"
      using wf_table_bucket [OF wf pid_hash_bound] .
    moreover have "in_bucket s ?b t" by (simp add: in_bucket_def)
    ultimately show ?thesis by simp
  qed
  have "ring (hash_list ?s) (HashHead b) (map HashLink (filter (in_bucket s b) (as @ bs)))"
    if b: "b < 1024" for b
  proof (cases "b = ?b")
    case True
    then show ?thesis using ring_unlink(1) [OF hr] lists by simp
  next
    case False
    then have r: "ring (hash_list s) (HashHead b) (?r b @ ?q b)"
      using wf_table_bucket [OF wf b] by (simp add: in_bucket_def)
    have "set (HashHead ?b # ?r ?b @ HashLink t # ?q ?b) \<inter> set (HashHead b # ?r b @ ?q b) = {}"
      using False wf_table_distinct [OF wf] by (auto simp: in_bucket_def)
    then show ?thesis using ring_unlink_other [OF hr r] lists by simp
  qed
  moreover have "ring (proc_list ?s) ProcHead (map ProcLink (as @ bs))"
    using ring_unlink(1) [OF pr] lists by simp
  ultimately show "wf_table ?s (as @ bs)"
    using wf unfolding wf_table_def same by (auto simp: inj_on_def)
  show "list_empty (proc_list ?s) (ProcLink t)" "list_empty (hash_list ?s) (HashLink t)"
    using ring_unlink(2) [OF pr] ring_unlink(2) [OF hr] lists by (simp_all add: list_empty_ring)
qed

section \<open>Fork\<close>

lemma construct_task_table:
  assumes "wf_table s ts" and "t \<notin> set ts"
  shows "wf_table (construct_task s t) ts"
proof -
  let ?s = "construct_task s t"
  have pids: "pid (tasks ?s u) = pid (tasks s u)" if "u \<in> set ts" for u
    using that assms(2) by (auto simp: construct_task_def)
  then have flt: "filter (in_bucket ?s b) ts = filter (in_bucket s b) ts" for b
    by (auto simp: in_bucket_def intro!: filter_cong)
  have "ring (proc_list ?s) ProcHead (map ProcLink ts)"
    using assms ring_node_init_other [of "proc_list s" ProcHead "map ProcLink ts" "ProcLink t"]
    by (auto simp: wf_table_def construct_task_def)
  moreover have "ring (hash_list ?s) (HashHead b) (map HashLink (filter (in_bucket s b) ts))"
    if "b < 1024" for b
    using assms that
      ring_node_init_other [of "hash_list s" "HashHead b" "map HashLink (filter (in_bucket s b) ts)" "HashLink t"]
    by (auto simp: wf_table_def construct_task_def)
  moreover have "inj_on (\<lambda>t. pid (tasks ?s t)) (set ts)"
    using assms(1) pids by (simp add: wf_table_def inj_on_def)
  ultimately show ?thesis
    using assms(1) pids flt by (simp add: wf_table_def) (simp add: construct_task_def)
qed

lemma construct_task_children:
  assumes "wf_children s ts ch" and "t \<notin> set ts"
  shows "wf_children (construct_task s t) (t # ts) (ch(t := []))"
proof -
  let ?s = "construct_task s t" and ?h = "list_node_init (child_lists s) (ChildLink t)"
  have "ring (child_lists ?s) (ChildHead p) (map ChildLink (ch p))" if p: "p \<in> set ts" for p
  proof -
    have r: "ring (child_lists s) (ChildHead p) (map ChildLink (ch p))" "t \<notin> set (ch p)" "t \<noteq> p"
      using assms p by (auto simp: wf_children_def)
    then have "ring ?h (ChildHead p) (map ChildLink (ch p))"
      by (intro ring_node_init_other) auto
    then show ?thesis
      unfolding construct_task_def using r
      by (simp add: ring_node_init_other image_iff)
  qed
  moreover have "ring (child_lists ?s) (ChildHead t) []"
    by (simp add: construct_task_def ring_node_init)
  moreover have "c \<in> set (t # ts) \<and> parent (tasks ?s c) = Some p" if "p \<in> set ts" "c \<in> set (ch p)" for c p
    using assms that by (auto simp: wf_children_def construct_task_def)
  ultimately show ?thesis using assms(2) by (auto simp: wf_children_def)
qed

lemma set_links_wf:
  assumes "wf_table s ts" and "wf_children s (t # ts) ch" and t: "t \<notin> set ts"
    and "pid (tasks s t) < next_pid s" and "\<forall>u \<in> set ts. pid (tasks s u) \<noteq> pid (tasks s t)"
    and par: "parent (tasks s t) = Some q" "q \<in> set ts" and orphan: "\<forall>p \<in> set (t # ts). t \<notin> set (ch p)"
  shows "wf_table (set_links s t) (t # ts)" and "wf_children (set_links s t) (t # ts) (ch(q := t # ch q))"
proof -
  let ?a = "add_process s t"
  have tasks: "tasks ?a = tasks s" "child_lists ?a = child_lists s" by (simp_all add: add_process_def)
  have sl: "set_links s t = ?a\<lparr>child_lists := list_add (child_lists s) (ChildHead q) (ChildLink t)\<rparr>"
    using par tasks by (simp add: set_links_def Let_def)
  have "wf_table ?a (t # ts)" using assms by (intro add_process_table)
  then show "wf_table (set_links s t) (t # ts)"
    unfolding sl by (subst wf_table_cong [of ?a]) (simp_all add: same_tasks_def)
  have rq: "ring (child_lists s) (ChildHead q) (map ChildLink (ch q))"
    using assms(2) par by (simp add: wf_children_def)
  have "ring (child_lists (set_links s t)) (ChildHead p) (map ChildLink ((ch(q := t # ch q)) p))"
    if p: "p \<in> set (t # ts)" for p
  proof (cases "p = q")
    case True
    then show ?thesis
      using ring_add_after_head [OF rq, of "ChildLink t"] orphan par by (auto simp: sl list_add_def)
  next
    case False
    have rp: "ring (child_lists s) (ChildHead p) (map ChildLink (ch p))"
      and cp: "\<forall>c \<in> set (ch p). parent (tasks s c) = Some p"
      using assms(2) p by (auto simp: wf_children_def)
    have "\<forall>c \<in> set (ch q). parent (tasks s c) = Some q" using assms(2) par by (auto simp: wf_children_def)
    then have "set (ChildHead q # map ChildLink (ch q)) \<inter> set (ChildHead p # map ChildLink (ch p)) = {}"
      using cp False by auto
    then show ?thesis
      using ring_add_after_other [OF rq rp, of "ChildLink t"] False orphan p
      by (auto simp: sl list_add_def)
  qed
  then show "wf_children (set_links s t) (t # ts) (ch(q := t # ch q))"
    using assms(2) par tasks by (auto simp: wf_children_def sl)
qed

lemma set_links_next_pid: "set_links (s\<lparr>next_pid := k\<rparr>) t = (set_links s t)\<lparr>next_pid := k\<rparr>"
  by (simp add: set_links_def add_process_def Let_def split: option.splits)

lemma int_inc_exact: "- 2147483648 \<le> i \<Longrightarrow> i < 2147483647 \<Longrightarrow> int_inc i = i + 1"
  unfolding int_inc_def by (intro signed_take_bit_int_eq_self) simp_all

text \<open>The state after a fork is well formed, with the next pid counted without a bound.\<close>

lemma fork_ok:
  assumes wf: "wf_table s ts" "wf_children s ts ch" and cur: "current s = Some par" "par \<in> set ts"
    and km: "kernel_memory (tasks s par)" and t: "t \<notin> set ts"
  shows "\<exists>s'. fork s (Some t) (Inr ()) root = (Inr (next_pid s), s'\<lparr>next_pid := int_inc (next_pid s)\<rparr>) \<and>
    next_pid s' = next_pid s + 1 \<and>
    wf_table s' (t # ts) \<and> wf_children s' (t # ts) (ch(t := [], par := t # ch par)) \<and>
    pid (tasks s' t) = next_pid s \<and> tstate (tasks s' t) = Runnable \<and>
    priority (tasks s' t) = priority (tasks s par) \<and> parent (tasks s' t) = Some par \<and>
    root_pa (tasks s' t) = Some root \<and>
    (\<forall>u. u \<noteq> t \<longrightarrow> tasks s' u = tasks s u) \<and> current s' = current s"
proof -
  let ?c = "construct_task s t"
  let ?n = "upd_task ?c t (\<lambda>p. p\<lparr>parent := Some par, kernel_memory := True, root_pa := Some root,
      priority := priority (tasks s par), time_slice := calc_time_slice (priority (tasks s par)),
      pid := next_pid s\<rparr>)\<lparr>next_pid := next_pid s + 1\<rparr>"
  let ?s = "upd_task (set_links ?n t) t (\<lambda>p. p\<lparr>tstate := Runnable\<rparr>)"
  have par: "par \<noteq> t" using cur t by auto
  have c: "next_pid ?c = next_pid s" "\<forall>u. u \<noteq> t \<longrightarrow> tasks ?c u = tasks s u" "current ?c = current s"
    by (simp_all add: construct_task_def)
  have pids: "\<forall>u \<in> set ts. pid (tasks s u) < next_pid s" using wf(1) by (simp add: wf_table_def)
  have "wf_table ?n ts"
  proof -
    have "filter (in_bucket ?n b) ts = filter (in_bucket ?c b) ts" for b
      using t by (auto simp: in_bucket_def intro!: filter_cong)
    moreover have "\<forall>u \<in> set ts. pid (tasks ?n u) = pid (tasks ?c u)" using t by auto
    ultimately show ?thesis
      using construct_task_table [OF wf(1) t] t c by (force simp: wf_table_def inj_on_def)
  qed
  moreover have "wf_children ?n (t # ts) (ch(t := []))"
  proof -
    have "\<forall>p \<in> set (t # ts). t \<notin> set ((ch(t := [])) p)" using wf(2) t by (auto simp: wf_children_def)
    then show ?thesis
      using construct_task_children [OF wf(2) t] by (auto simp: wf_children_def)
  qed
  moreover have nt: "tasks ?n t = new_task\<lparr>parent := Some par, kernel_memory := True, root_pa := Some root,
      priority := priority (tasks s par), time_slice := calc_time_slice (priority (tasks s par)),
      pid := next_pid s\<rparr>" "\<forall>u. u \<noteq> t \<longrightarrow> tasks ?n u = tasks s u"
    by (simp_all add: construct_task_def)
  moreover have "\<forall>p \<in> set (t # ts). t \<notin> set ((ch(t := [])) p)"
    using wf(2) t by (auto simp: wf_children_def)
  moreover have "\<forall>u \<in> set ts. pid (tasks ?n u) \<noteq> pid (tasks ?n t)"
    using pids t nt by fastforce
  ultimately have sl: "wf_table (set_links ?n t) (t # ts)"
    "wf_children (set_links ?n t) (t # ts) ((ch(t := []))(par := t # (ch(t := [])) par))"
    using set_links_wf [of ?n ts t "ch(t := [])" par] cur(2) t by auto
  have keep: "tasks (set_links ?n t) = tasks ?n" "current (set_links ?n t) = current s"
    using c by (auto simp: set_links_def add_process_def Let_def split: option.splits)
  have "wf_table ?s (t # ts)"
    by (subst wf_table_cong [of "set_links ?n t"]) (simp_all add: same_tasks_def sl)
  moreover have "wf_children ?s (t # ts) (ch(t := [], par := t # ch par))"
    using sl(2) par by (subst wf_children_cong [of _ "set_links ?n t"]) auto
  moreover have "?n\<lparr>next_pid := int_inc (next_pid s)\<rparr> = upd_task ?c t (\<lambda>p. p\<lparr>parent := Some par,
      kernel_memory := True, root_pa := Some root, priority := priority (tasks s par),
      time_slice := calc_time_slice (priority (tasks s par)), pid := next_pid s\<rparr>)
      \<lparr>next_pid := int_inc (next_pid s)\<rparr>" by simp
  then have "fork s (Some t) (Inr ()) root = (Inr (next_pid s), ?s\<lparr>next_pid := int_inc (next_pid s)\<rparr>)"
    using cur km keep(1) nt(1) c(1) by (simp add: fork_def Let_def set_links_next_pid upd_task_def)
  moreover have "next_pid ?s = next_pid s + 1" by (simp add: set_links_next_pid)
  ultimately show ?thesis using keep nt par c by (intro exI [of _ ?s]) simp
qed

section \<open>Wait\<close>

text \<open>Children that a call of \<^verbatim>\<open>wait\<close> asks for, and the zombies among them.\<close>

definition asked :: "sched_state \<Rightarrow> int \<Rightarrow> tid \<Rightarrow> bool" where
  "asked s p c \<longleftrightarrow> p = 0 \<or> pid (tasks s c) = p"

lemma scan_children_find:
  "scan_children s p has (map ChildLink cs) =
     (case find (\<lambda>c. asked s p c \<and> tstate (tasks s c) = Zombie) cs of
        Some z \<Rightarrow> (True, Some z)
      | None \<Rightarrow> (has \<or> (\<exists>c \<in> set cs. asked s p c), None))"
  by (induction cs arbitrary: has) (auto simp: asked_def split: option.splits)

lemma remove_links_wf:
  assumes wf: "wf_table s (as @ z # bs)" "wf_children s (as @ z # bs) ch"
    and q: "q \<in> set (as @ bs)" "ch q = cs @ z # ds" and leaf: "ch z = []"
  shows "wf_table (remove_links s z) (as @ bs)"
    and "wf_children (remove_links s z) (as @ bs) (ch(q := cs @ ds))"
    and "list_empty (proc_list (remove_links s z)) (ProcLink z)"
    and "list_empty (hash_list (remove_links s z)) (HashLink z)"
    and "list_empty (child_lists (remove_links s z)) (ChildLink z)"
    and "list_empty (child_lists (remove_links s z)) (ChildHead z)"
proof -
  let ?r = "remove_process s z" and ?s = "remove_links s z"
  have tasks: "tasks ?r = tasks s" "child_lists ?r = child_lists s"
    by (auto simp: remove_process_def task_removed_def Let_def)
  have s: "?s = ?r\<lparr>child_lists := unlink (child_lists s) (ChildLink z)\<rparr>"
    using tasks by (simp add: remove_links_def Let_def)
  show "wf_table ?s (as @ bs)"
    unfolding s by (subst wf_table_cong [of ?r]) (simp_all add: same_tasks_def remove_process_table [OF wf(1)])
  show "list_empty (proc_list ?s) (ProcLink z)" "list_empty (hash_list ?s) (HashLink z)"
    unfolding s by (simp_all add: remove_process_table(2,3) [OF wf(1)])
  have rq: "ring (child_lists s) (ChildHead q) (map ChildLink cs @ ChildLink z # map ChildLink ds)"
    using wf_children_ring [OF wf(2), of q] q by auto
  show "list_empty (child_lists ?s) (ChildLink z)"
    using ring_unlink(2) [OF rq] by (simp add: s list_empty_ring)
  have parents: "parent (tasks s c) = Some p" if "p \<in> set (as @ z # bs)" "c \<in> set (ch p)" for p c
    using wf_children_parent [OF wf(2) that] by simp
  have other: "ring (child_lists ?s) (ChildHead p) (map ChildLink (ch p))"
    if p: "p \<in> set (as @ z # bs)" "p \<noteq> q" for p
  proof -
    have rp: "ring (child_lists s) (ChildHead p) (map ChildLink (ch p))"
      using wf_children_ring [OF wf(2) p(1)] .
    have "set (ChildHead q # map ChildLink cs @ ChildLink z # map ChildLink ds) \<inter>
        set (ChildHead p # map ChildLink (ch p)) = {}"
      using wf_children_disjoint [OF wf(2), of q p] p q by auto
    then show ?thesis using ring_unlink_other [OF rq rp] by (simp add: s)
  qed
  have "z \<noteq> q" using q wf_table_distinct [OF wf(1)] by auto
  then show "list_empty (child_lists ?s) (ChildHead z)"
    using other [of z] leaf by (simp add: list_empty_ring)
  have zq: "parent (tasks s z) = Some q" using parents [of q z] q by simp
  have "c \<noteq> z" if "p \<in> set (as @ bs)" "c \<in> set ((ch(q := cs @ ds)) p)" for p c
  proof (cases "p = q")
    case True
    have "distinct (map ChildLink (cs @ z # ds))" using ring_distinct [OF rq] by simp
    then show ?thesis using True that by (auto simp: distinct_map)
  next
    case False
    then show ?thesis using parents [of p c] that zq by auto
  qed
  moreover have "c \<in> set (as @ z # bs) \<and> parent (tasks ?s c) = Some p"
    if "p \<in> set (as @ bs)" "c \<in> set ((ch(q := cs @ ds)) p)" for p c
    using wf_children_parent [OF wf(2), of p c] that q(2) tasks by (auto simp: s split: if_splits)
  ultimately have "\<forall>p \<in> set (as @ bs). \<forall>c \<in> set ((ch(q := cs @ ds)) p).
      c \<in> set (as @ bs) \<and> parent (tasks ?s c) = Some p"
    by fastforce
  moreover have "ring (child_lists ?s) (ChildHead q) (map ChildLink (cs @ ds))"
    using ring_unlink(1) [OF rq] by (simp add: s)
  then have "\<forall>p \<in> set (as @ bs). ring (child_lists ?s) (ChildHead p) (map ChildLink ((ch(q := cs @ ds)) p))"
    using other by auto
  ultimately show "wf_children ?s (as @ bs) (ch(q := cs @ ds))"
    unfolding wf_children_def by blast
qed

lemma wait_once_reaps:
  assumes wf: "wf_table s ts" "wf_children s ts ch" and cur: "current s = Some q" "q \<in> set ts"
    and z: "find (\<lambda>c. asked s p c \<and> tstate (tasks s c) = Zombie) (ch q) = Some z"
    and leaf: "ch z = []" and live: "tstate (tasks s q) \<noteq> Zombie"
  shows "\<exists>s' as bs cs ds. wait_once s p = Some (Inr (Reaped (pid (tasks s z)) (exit_code (tasks s z)) s')) \<and>
    ts = as @ z # bs \<and> ch q = cs @ z # ds \<and> wf_table s' (as @ bs) \<and>
    wf_children s' (as @ bs) (ch(q := cs @ ds)) \<and> tasks s' = tasks s \<and> current s' = current s"
proof -
  from z obtain cs ds where c: "ch q = cs @ z # ds" "tstate (tasks s z) = Zombie"
    by (auto simp: find_split)
  have "z \<in> set ts" using wf(2) cur(2) c(1) by (auto simp: wf_children_def)
  then obtain as bs where ts: "ts = as @ z # bs" by (meson split_list)
  have zq: "z \<noteq> q" using c(2) live by auto
  then have q: "q \<in> set (as @ bs)" using cur(2) ts by auto
  note rm = remove_links_wf [OF wf [unfolded ts] q c(1) leaf]
  have same: "tasks (remove_links s z) = tasks s" "current (remove_links s z) = current s"
    by (auto simp: remove_links_def remove_process_def task_removed_def Let_def)
  have "task_destroy (remove_links s z) z = Inr (remove_links s z)"
    using rm same c(2) cur(1) zq by (simp add: task_destroy_def)
  moreover have "iterate (child_lists s) (ChildHead q) = Some (map ChildLink (ch q))"
    using wf(2) cur(2) by (intro iterate_ring) (simp add: wf_children_def)
  ultimately have "wait_once s p =
      Some (Inr (Reaped (pid (tasks s z)) (exit_code (tasks s z)) (remove_links s z)))"
    using cur(1) z by (simp add: wait_once_def scan_children_find)
  with rm same ts c(1) show ?thesis by blast
qed

section \<open>Exit\<close>

text \<open>One child moves from the list of the exiting task to the front of the list of init.\<close>

definition move_child :: "sched_state \<Rightarrow> tid \<Rightarrow> sched_state" where
  "move_child s c =
     (let s = s\<lparr>child_lists := unlink (child_lists s) (ChildLink c)\<rparr>;
          s = upd_task s c (\<lambda>t. t\<lparr>parent := Some (init_proc s)\<rparr>)
      in s\<lparr>child_lists := list_add (child_lists s) (ChildHead (init_proc s)) (ChildLink c)\<rparr>)"

lemma move_child_wf:
  assumes wf: "wf_children s ts ch" and q: "q \<in> set ts" "ch q = c # cs"
    and i: "init_proc s \<in> set ts" "init_proc s \<noteq> q"
  shows "wf_children (move_child s c) ts (ch(q := cs, init_proc s := c # ch (init_proc s)))"
proof -
  let ?i = "init_proc s" and ?u = "unlink (child_lists s) (ChildLink c)"
  have rq: "ring (child_lists s) (ChildHead q) ([] @ ChildLink c # map ChildLink cs)"
    using wf_children_ring [OF wf q(1)] q(2) by simp
  have dq: "set (ChildHead q # [] @ ChildLink c # map ChildLink cs) \<inter>
      set (ChildHead p # map ChildLink (ch p)) = {}" if "p \<in> set ts" "p \<noteq> q" for p
    using wf_children_disjoint [OF wf q(1) that(1)] that(2) q(2) by simp
  have u: "ring ?u (ChildHead p) (map ChildLink (ch p))" if "p \<in> set ts" "p \<noteq> q" for p
    using ring_unlink_other [OF rq wf_children_ring [OF wf that(1)] dq [OF that]] .
  have uq: "ring ?u (ChildHead q) (map ChildLink cs)" using ring_unlink(1) [OF rq] by simp
  have notin: "ChildLink c \<notin> set (ChildHead p # map ChildLink (ch p))" if "p \<in> set ts" "p \<noteq> q" for p
    using dq [OF that] by auto
  have cq: "ChildLink c \<notin> set (ChildHead q # map ChildLink cs)" using ring_distinct [OF rq] by simp
  let ?h = "add_after ?u (ChildHead ?i) (ChildLink c)"
  have "ring ?h (ChildHead p) (map ChildLink ((ch(q := cs, ?i := c # ch ?i)) p))" if p: "p \<in> set ts" for p
  proof -
    consider "p = ?i" | "p = q" "p \<noteq> ?i" | "p \<noteq> q" "p \<noteq> ?i" by blast
    then show ?thesis
    proof cases
      case 1
      then show ?thesis using ring_add_after_head [OF u [OF i] notin [OF i]] by simp
    next
      case 2
      have "set (ChildHead ?i # map ChildLink (ch ?i)) \<inter> set (ChildHead q # map ChildLink cs) = {}"
        using dq [OF i] by auto
      then show ?thesis using ring_add_after_other [OF u [OF i] uq _ cq] 2 by simp
    next
      case 3
      then show ?thesis
        using ring_add_after_other [OF u [OF i] u [OF p 3(1)]
            wf_children_disjoint [OF wf i(1) p 3(2) [symmetric]] notin [OF p 3(1)]]
        by simp
    qed
  qed
  moreover have "d \<in> set ts \<and> parent (tasks (move_child s c) d) = Some p"
    if "p \<in> set ts" "d \<in> set ((ch(q := cs, ?i := c # ch ?i)) p)" for p d
    using that wf_children_parent [OF wf] q i notin [of p] cq
    by (auto simp: move_child_def Let_def split: if_splits)
  moreover have "child_lists (move_child s c) = ?h"
    by (simp add: move_child_def Let_def list_add_def)
  ultimately show ?thesis unfolding wf_children_def by simp
qed

text \<open>
  What adoption changes besides the child lists: the parents of the moved tasks, and the state of
  init, which is woken when it waits and one of them is a zombie.
\<close>

definition adopted :: "tid list \<Rightarrow> sched_state \<Rightarrow> sched_state \<Rightarrow> bool" where
  "adopted cs s s' \<longleftrightarrow>
     (\<forall>t. parent (tasks s' t) = (if t \<in> set cs then Some (init_proc s) else parent (tasks s t))) \<and>
     (\<forall>t. tstate (tasks s' t) =
        (if t = init_proc s \<and> wait_state (tasks s t) \<noteq> 0 \<and> (\<exists>c \<in> set cs. tstate (tasks s c) = Zombie)
         then Runnable else tstate (tasks s t))) \<and>
     (\<forall>t. pid (tasks s' t) = pid (tasks s t) \<and> exit_code (tasks s' t) = exit_code (tasks s t) \<and>
        wait_state (tasks s' t) = wait_state (tasks s t) \<and> priority (tasks s' t) = priority (tasks s t) \<and>
        root_pa (tasks s' t) = root_pa (tasks s t)) \<and>
     proc_list s' = proc_list s \<and> hash_list s' = hash_list s \<and> current s' = current s \<and>
     init_proc s' = init_proc s \<and> idle_proc s' = idle_proc s \<and> cursor s' = cursor s \<and>
     process_count s' = process_count s \<and> next_pid s' = next_pid s"

lemma adopt_children_step:
  assumes "ring (child_lists s) (ChildHead q) (map ChildLink (c # cs))"
    and "tstate (tasks s (init_proc s)) \<noteq> Zombie"
  shows "\<exists>s'. adopt_children s q = adopt_children s' q \<and> adopted [c] s s' \<and>
    child_lists s' = child_lists (move_child s c)"
proof -
  let ?m = "move_child s c" and ?i = "init_proc s"
  have m: "tasks ?m = (tasks s)(c := (tasks s c)\<lparr>parent := Some ?i\<rparr>)" "init_proc ?m = ?i"
    "proc_list ?m = proc_list s" "hash_list ?m = hash_list s" "current ?m = current s"
    "idle_proc ?m = idle_proc s" "cursor ?m = cursor s" "process_count ?m = process_count s"
    "next_pid ?m = next_pid s"
    by (simp_all add: move_child_def Let_def)
  have h: "next (child_lists s) (ChildHead q) = ChildLink c" "\<not> list_empty (child_lists s) (ChildHead q)"
    using assms(1) list_empty_ring [OF assms(1)] by (simp_all add: ring_def)
  have run: "adopt_children s q =
      (case (if tstate (tasks ?m c) = Zombie \<and> wait_state (tasks ?m ?i) \<noteq> 0
             then on_task task_wakeup ?m ?i else Inr ?m) of
         Inl e \<Rightarrow> Some (Inl e) | Inr s \<Rightarrow> adopt_children s q)"
    using h by (subst adopt_children.simps) (auto simp: move_child_def Let_def)
  show ?thesis
  proof (cases "tstate (tasks s c) = Zombie \<and> wait_state (tasks s ?i) \<noteq> 0")
    case False
    then have "adopt_children s q = adopt_children ?m q" using run m(1) by auto
    moreover have "adopted [c] s ?m" using False m by (auto simp: adopted_def)
    ultimately show ?thesis by blast
  next
    case True
    let ?w = "upd_task ?m ?i (\<lambda>t. t\<lparr>tstate := Runnable\<rparr>)"
    have wake: "on_task task_wakeup ?m ?i = Inr ?w"
      using assms(2) m(1) by (auto simp: on_task_def task_wakeup_def upd_task_def fun_eq_iff)
    then have "adopt_children s q = adopt_children ?w q" using run m(1) True by auto
    moreover have "adopted [c] s ?w" using True m by (auto simp: adopted_def)
    ultimately show ?thesis by fastforce
  qed
qed

lemma adopted_trans:
  assumes a: "adopted [c] s s'" and b: "adopted cs s' s''" and i: "init_proc s \<notin> set (c # cs)"
  shows "adopted (c # cs) s s''"
proof -
  have init: "init_proc s' = init_proc s" and ws: "\<forall>t. wait_state (tasks s' t) = wait_state (tasks s t)"
    using a by (simp_all add: adopted_def)
  have st1: "tstate (tasks s' t) = (if t = init_proc s \<and> wait_state (tasks s t) \<noteq> 0 \<and>
      tstate (tasks s c) = Zombie then Runnable else tstate (tasks s t))" for t
    using a by (simp add: adopted_def)
  have "(\<exists>d \<in> set cs. tstate (tasks s' d) = Zombie) \<longleftrightarrow> (\<exists>d \<in> set cs. tstate (tasks s d) = Zombie)"
  proof (intro bex_cong refl)
    fix d assume "d \<in> set cs"
    then have "d \<noteq> init_proc s" using i by auto
    then show "(tstate (tasks s' d) = Zombie) = (tstate (tasks s d) = Zombie)" by (simp add: st1)
  qed
  then have st2: "tstate (tasks s'' t) = (if t = init_proc s \<and> wait_state (tasks s t) \<noteq> 0 \<and>
      (\<exists>d \<in> set cs. tstate (tasks s d) = Zombie) then Runnable else tstate (tasks s' t))" for t
    using b ws init by (simp add: adopted_def)
  have "tstate (tasks s'' t) = (if t = init_proc s \<and> wait_state (tasks s t) \<noteq> 0 \<and>
      (\<exists>d \<in> set (c # cs). tstate (tasks s d) = Zombie) then Runnable else tstate (tasks s t))" for t
    unfolding st2 st1 by auto
  moreover have "parent (tasks s'' t) = (if t \<in> set (c # cs) then Some (init_proc s) else parent (tasks s t))"
    for t
    using a b init by (simp add: adopted_def)
  ultimately show ?thesis using a b by (simp add: adopted_def)
qed

lemma adopt_children_all:
  assumes "wf_children s ts ch" and "q \<in> set ts" and "ch q = cs"
    and "init_proc s \<in> set ts" "init_proc s \<noteq> q" "init_proc s \<notin> set cs"
    and "tstate (tasks s (init_proc s)) \<noteq> Zombie"
  shows "\<exists>s'. adopt_children s q = Some (Inr s') \<and> adopted cs s s' \<and>
    wf_children s' ts (ch(q := [], init_proc s := rev cs @ ch (init_proc s)))"
  using assms
proof (induction cs arbitrary: s ch)
  case Nil
  have "list_empty (child_lists s) (ChildHead q)"
    using wf_children_ring [OF Nil.prems(1,2)] Nil.prems(3) by (simp add: list_empty_ring)
  then have "adopt_children s q = Some (Inr s)" by (subst adopt_children.simps) simp
  moreover have "ch(q := [], init_proc s := rev [] @ ch (init_proc s)) = ch"
    using Nil.prems(3,5) by auto
  moreover have "adopted [] s s" by (simp add: adopted_def)
  ultimately show ?case using Nil.prems(1) by metis
next
  case (Cons c cs)
  let ?i = "init_proc s" and ?ch = "ch(q := cs, init_proc s := c # ch (init_proc s))"
  have r: "ring (child_lists s) (ChildHead q) (map ChildLink (c # cs))"
    using wf_children_ring [OF Cons.prems(1,2)] Cons.prems(3) by simp
  from adopt_children_step [OF r Cons.prems(7)] obtain s1 where
    s1: "adopt_children s q = adopt_children s1 q" "adopted [c] s s1"
      "child_lists s1 = child_lists (move_child s c)" by blast
  have i1: "init_proc s1 = ?i" using s1(2) by (simp add: adopted_def)
  have "\<And>t. parent (tasks s1 t) = parent (tasks (move_child s c) t)"
    using s1(2) by (simp add: adopted_def move_child_def Let_def)
  then have "wf_children s1 ts ?ch = wf_children (move_child s c) ts ?ch"
    using s1(3) by (intro wf_children_cong)
  then have wf1: "wf_children s1 ts ?ch"
    using move_child_wf [OF Cons.prems(1,2,3,4,5)] by simp
  have st: "tstate (tasks s1 ?i) \<noteq> Zombie" using s1(2) Cons.prems(7) by (simp add: adopted_def)
  have "\<exists>s'. adopt_children s1 q = Some (Inr s') \<and> adopted cs s1 s' \<and>
      wf_children s' ts (?ch(q := [], ?i := rev cs @ ?ch ?i))"
    by (rule Cons.IH [OF wf1 Cons.prems(2), unfolded i1]) (use Cons.prems st in simp_all)
  then obtain s' where s': "adopt_children s1 q = Some (Inr s')" "adopted cs s1 s'"
    "wf_children s' ts (?ch(q := [], ?i := rev cs @ ?ch ?i))"
    by blast
  have "?ch(q := [], ?i := rev cs @ ?ch ?i) = ch(q := [], ?i := rev (c # cs) @ ch ?i)"
    using Cons.prems(5) by auto
  with s' s1(1) adopted_trans [OF s1(2) s'(2) Cons.prems(6)] show ?case by metis
qed

text \<open>The state in which exit of task \<open>q\<close> with parent \<open>p\<close> and children \<open>cs\<close> calls the scheduler.\<close>

definition exit_handed :: "sched_state \<Rightarrow> int \<Rightarrow> tid \<Rightarrow> tid \<Rightarrow> tid list \<Rightarrow> sched_state \<Rightarrow> bool" where
  "exit_handed s code q p cs s' \<longleftrightarrow>
     proc_list s' = proc_list s \<and> hash_list s' = hash_list s \<and> current s' = current s \<and>
     idle_proc s' = idle_proc s \<and> cursor s' = cursor s \<and> process_count s' = process_count s \<and>
     next_pid s' = next_pid s \<and>
     (\<forall>t. pid (tasks s' t) = pid (tasks s t) \<and> priority (tasks s' t) = priority (tasks s t) \<and>
        root_pa (tasks s' t) = root_pa (tasks s t)) \<and>
     tstate (tasks s' q) = Zombie \<and> exit_code (tasks s' q) = code \<and>
     (\<forall>t. t \<noteq> q \<longrightarrow> tstate (tasks s t) \<noteq> Zombie \<longrightarrow> tstate (tasks s' t) \<noteq> Zombie) \<and>
     (\<forall>c \<in> set cs. parent (tasks s' c) = Some (init_proc s)) \<and>
     (wait_state (tasks s p) \<noteq> 0 \<longrightarrow> tstate (tasks s' p) = Runnable) \<and>
     (wait_state (tasks s (init_proc s)) \<noteq> 0 \<and> (\<exists>c \<in> set cs. tstate (tasks s c) = Zombie) \<longrightarrow>
        tstate (tasks s' (init_proc s)) = Runnable)"

lemma exit_handedD:
  assumes "exit_handed s code q p cs s'"
  shows "proc_list s' = proc_list s \<and> hash_list s' = hash_list s \<and> current s' = current s \<and>
     idle_proc s' = idle_proc s \<and> cursor s' = cursor s \<and> process_count s' = process_count s \<and>
     next_pid s' = next_pid s"
    and "\<forall>t. pid (tasks s' t) = pid (tasks s t) \<and> priority (tasks s' t) = priority (tasks s t) \<and>
       root_pa (tasks s' t) = root_pa (tasks s t)"
    and "tstate (tasks s' q) = Zombie" and "exit_code (tasks s' q) = code"
    and "t \<noteq> q \<Longrightarrow> tstate (tasks s t) \<noteq> Zombie \<Longrightarrow> tstate (tasks s' t) \<noteq> Zombie"
    and "\<forall>c \<in> set cs. parent (tasks s' c) = Some (init_proc s)"
    and "wait_state (tasks s p) \<noteq> 0 \<Longrightarrow> tstate (tasks s' p) = Runnable"
    and "wait_state (tasks s (init_proc s)) \<noteq> 0 \<Longrightarrow> c \<in> set cs \<Longrightarrow> tstate (tasks s c) = Zombie \<Longrightarrow>
       tstate (tasks s' (init_proc s)) = Runnable"
  using assms unfolding exit_handed_def by blast+

lemma exit_adopts:
  assumes wf: "wf_children s ts ch" and q: "q \<in> set ts"
    and i: "init_proc s \<in> set ts" "init_proc s \<noteq> q" "init_proc s \<notin> set (ch q)"
      "tstate (tasks s (init_proc s)) \<noteq> Zombie"
    and p: "parent (tasks s q) = Some p" "p \<noteq> q" "tstate (tasks s p) \<noteq> Zombie"
  shows "\<exists>n s'. notify_parent (upd_task s q (mark_zombie code)) q = Inr n \<and>
    adopt_children n q = Some (Inr s') \<and> exit_handed s code q p (ch q) s' \<and>
    wf_children s' ts (ch(q := [], init_proc s := rev (ch q) @ ch (init_proc s)))"
proof -
  let ?z = "upd_task s q (mark_zombie code)"
  define n where "n = (if wait_state (tasks s p) \<noteq> 0
    then upd_task ?z p (\<lambda>t. t\<lparr>tstate := Runnable\<rparr>) else ?z)"
  have np: "notify_parent ?z q = Inr n"
    using p
    by (auto simp: notify_parent_def n_def mark_zombie_def on_task_def task_wakeup_def upd_task_def fun_eq_iff)
  have nt: "tstate (tasks n t) = (if t = p \<and> wait_state (tasks s p) \<noteq> 0 then Runnable
      else if t = q then Zombie else tstate (tasks s t))" "parent (tasks n t) = parent (tasks s t)"
      "wait_state (tasks n t) = wait_state (tasks s t)" "pid (tasks n t) = pid (tasks s t)"
      "priority (tasks n t) = priority (tasks s t)" "root_pa (tasks n t) = root_pa (tasks s t)" for t
    using p(2) by (auto simp: n_def mark_zombie_def)
  have n: "init_proc n = init_proc s" "child_lists n = child_lists s" "exit_code (tasks n q) = code"
      "proc_list n = proc_list s" "hash_list n = hash_list s" "current n = current s"
      "idle_proc n = idle_proc s" "cursor n = cursor s" "process_count n = process_count s"
      "next_pid n = next_pid s"
    using p(2) by (auto simp: n_def mark_zombie_def)
  have wfn: "wf_children n ts ch" using wf nt(2) n(2) by (subst wf_children_cong [of n s]) auto
  have "tstate (tasks n (init_proc s)) \<noteq> Zombie" using nt(1) i(2,4) by simp
  from adopt_children_all [OF wfn q refl, unfolded n(1), OF i(1-3) this] obtain s' where
    s': "adopt_children n q = Some (Inr s')" "adopted (ch q) n s'"
      "wf_children s' ts (ch(q := [], init_proc s := rev (ch q) @ ch (init_proc s)))"
    by blast
  have st: "tstate (tasks s' t) = (if t = init_proc s \<and> wait_state (tasks s t) \<noteq> 0 \<and>
      (\<exists>c \<in> set (ch q). tstate (tasks n c) = Zombie) then Runnable else tstate (tasks n t))" for t
    using s'(2) n(1) nt(3) by (simp add: adopted_def)
  have "tstate (tasks n c) = Zombie" if "tstate (tasks s c) = Zombie" for c
    using that nt(1) p(3) by auto
  then have "wait_state (tasks s (init_proc s)) \<noteq> 0 \<and> (\<exists>c \<in> set (ch q). tstate (tasks s c) = Zombie) \<longrightarrow>
      tstate (tasks s' (init_proc s)) = Runnable"
    using st by auto
  moreover have "tstate (tasks s' q) = Zombie" "wait_state (tasks s p) \<noteq> 0 \<longrightarrow> tstate (tasks s' p) = Runnable"
    "\<forall>t. t \<noteq> q \<longrightarrow> tstate (tasks s t) \<noteq> Zombie \<longrightarrow> tstate (tasks s' t) \<noteq> Zombie"
    using st nt(1) i(2) p(2) by simp_all
  ultimately have "exit_handed s code q p (ch q) s'"
    using s'(2) nt(2-6) n by (simp add: exit_handed_def adopted_def)
  with np s'(1,3) show ?thesis by blast
qed

text \<open>The scheduler leaves a zombie: it runs an eligible task or the idle task.\<close>

lemma schedule_leaves_zombie:
  assumes order: "proc_order s ts rot" and q: "current s = Some q" "q \<in> set ts" "tstate (tasks s q) = Zombie"
    and idle: "idle_proc s \<in> set ts" "idle_proc s \<noteq> q" "tstate (tasks s (idle_proc s)) \<noteq> Zombie"
    and fit: "\<forall>t \<in> set ts. priority (tasks s t) \<le> IDLE_PRIO \<and> root_pa (tasks s t) \<noteq> None"
  shows "\<exists>s' t. schedule s = Some (Inr s') \<and> current s' = Some t \<and> t \<in> set ts \<and> t \<noteq> q \<and>
    same_frame (s\<lparr>cursor := cursor s'\<rparr>) s' \<and>
    (\<forall>u. tstate (tasks s' u) = (if u = t then Running else tstate (tasks s u)))"
proof -
  let ?s = "s\<lparr>stats := (stats s)\<lparr>schedule_calls := schedule_calls (stats s) + 1\<rparr>\<rparr>"
  have order': "proc_order ?s ts rot" using order by (simp add: proc_order_def)
  have prio: "\<forall>t \<in> set ts. eligible ?s t \<longrightarrow> priority (tasks ?s t) \<le> IDLE_PRIO" using fit by simp
  have "\<exists>t k. pick_next ?s = Some (t, ?s\<lparr>cursor := k\<rparr>) \<and> t \<in> set ts \<and> t \<noteq> q \<and> tstate (tasks s t) \<noteq> Zombie"
    using pick_next_order [OF order' prio]
  proof (elim disjE exE conjE)
    fix us t vs
    assume t: "first_best ?s rot t"
      "pick_next ?s = Some (t, ?s\<lparr>cursor := Some (next (proc_list ?s) (ProcLink t))\<rparr>)"
    then have "t \<in> set ts" "eligible s t"
      using proc_order_set [OF order] by (auto simp: first_best_def eligible_def)
    then have "t \<noteq> q" "tstate (tasks s t) \<noteq> Zombie" using q(3) by (auto simp: eligible_def)
    with t(2) \<open>t \<in> set ts\<close> show ?thesis by blast
  qed (use idle in auto)
  then obtain t k where t: "pick_next ?s = Some (t, ?s\<lparr>cursor := k\<rparr>)" "t \<in> set ts" "t \<noteq> q"
    "tstate (tasks s t) \<noteq> Zombie" by blast
  obtain s' where "schedule s = Some (Inr s')" "current s' = Some t" "same_frame (?s\<lparr>cursor := k\<rparr>) s'"
    "\<forall>u. tstate (tasks s' u) = (if u = t then Running else tstate (tasks s u))"
    using schedule_effect [OF t(1), of q] q t(2-4) fit by (auto simp: left_state_def)
  with t(2,3) show ?thesis by (intro exI [of _ s'] exI [of _ t]) (simp add: same_frame_def)
qed

section \<open>Properties\<close>

text \<open>C36. The pid hash table agrees with the process list: a lookup ends; it returns the one process with
  that pid if there is one, and nothing otherwise or for a pid that is not positive.\<close>

theorem find_process_correct:
  assumes "wf_table s ts"
  shows "\<exists>r. find_process s p = Some r \<and>
    (case r of Some t \<Rightarrow> 0 < p \<and> t \<in> set ts \<and> (\<forall>u \<in> set ts. pid (tasks s u) = p \<longleftrightarrow> u = t)
     | None \<Rightarrow> p \<le> 0 \<or> (\<forall>t \<in> set ts. pid (tasks s t) \<noteq> p))"
proof (cases "p \<le> 0")
  case False
  have "inj_on (\<lambda>t. pid (tasks s t)) (set ts)" using assms by (simp add: wf_table_def)
  then show ?thesis using find_process_table [OF assms, of p] False
    by (cases "find (\<lambda>t. pid (tasks s t) = p) ts")
      (auto simp: find_Some_iff find_None_iff dest: inj_onD)
qed (simp add: find_process_def)

definition boot_sched :: sched_state where
  "boot_sched = add_process (demo_sched
     \<lparr>tasks := (\<lambda>t. if t = 0 then demo_task 0 31 Running else demo_task 0 10 Uninit),
      proc_list := \<lparr>prev = id, next = id\<rparr>, current := Some 0, process_count := 0, next_pid := 1\<rparr>) 0"

lemma boot_sched_wf:
  "wf_table boot_sched [0]" "wf_children boot_sched [0] (\<lambda>_. [])" "current boot_sched = Some 0"
  "kernel_memory (tasks boot_sched 0)" "next_pid boot_sched = 1"
proof -
  show "wf_table boot_sched [0]"
    unfolding boot_sched_def
    by (rule add_process_table) (simp_all add: wf_table_def ring_def demo_task_def demo_sched_def)
qed (simp_all add: boot_sched_def add_process_def demo_sched_def demo_task_def wf_children_def ring_def)

theorem find_process_correct_witness:
  "\<exists>s. find_process s 1 = Some (Some 3) \<and> find_process s 5 = Some None"
proof -
  from fork_ok [OF boot_sched_wf(1-3) _ boot_sched_wf(4), of 3 0] obtain s where
    s: "wf_table s [3, 0]" "pid (tasks s 3) = 1" "tasks s 0 = tasks boot_sched 0"
    by (auto simp: boot_sched_wf(3,5))
  have z: "pid (tasks s 0) = 0" using s(3) by (simp add: boot_sched_def add_process_def demo_task_def)
  have "find_process s 1 = Some (Some 3)"
    using find_process_correct [OF s(1), of 1] s(2) z by (auto split: option.splits)
  moreover have "find_process s 5 = Some None"
  proof -
    from find_process_correct [OF s(1), of 5] obtain r where r: "find_process s 5 = Some r"
      "\<And>t. r = Some t \<Longrightarrow> t \<in> set [3, 0] \<and> pid (tasks s t) = 5"
      by (fastforce split: option.splits)
    then have "r = None" using s(2) z by (cases r) auto
    with r(1) show ?thesis by simp
  qed
  ultimately show ?thesis by blast
qed

text \<open>C12. Fork publishes a complete process: with memory available, the new task gets the next pid, is
  found under it, is runnable with its parent's priority and the kernel's page tables, appears first in
  its parent's child list, and no other task changes. Unless that pid was the largest \<^verbatim>\<open>int\<close>, the table
  of the tasks with the new one in front is well formed again, with the next pid one larger.\<close>

theorem fork_publishes:
  assumes "wf_table s ts" and "wf_children s ts ch" and "current s = Some par" and "par \<in> set ts"
    and "kernel_memory (tasks s par)" and "t \<notin> set ts" and "0 < next_pid s"
  shows "\<exists>s'. fork s (Some t) (Inr ()) root = (Inr (next_pid s), s') \<and>
    find_process s' (next_pid s) = Some (Some t) \<and>
    (next_pid s < 2147483647 \<longrightarrow> wf_table s' (t # ts) \<and> next_pid s' = next_pid s + 1) \<and>
    wf_children s' (t # ts) (ch(t := [], par := t # ch par)) \<and>
    tstate (tasks s' t) = Runnable \<and> priority (tasks s' t) = priority (tasks s par) \<and>
    root_pa (tasks s' t) = Some root \<and> (\<forall>u. u \<noteq> t \<longrightarrow> tasks s' u = tasks s u)"
proof -
  from fork_ok [OF assms(1-6)] obtain s' where s':
    "fork s (Some t) (Inr ()) root = (Inr (next_pid s), s'\<lparr>next_pid := int_inc (next_pid s)\<rparr>)"
    "next_pid s' = next_pid s + 1" "wf_table s' (t # ts)"
    "wf_children s' (t # ts) (ch(t := [], par := t # ch par))" "pid (tasks s' t) = next_pid s"
    "tstate (tasks s' t) = Runnable" "priority (tasks s' t) = priority (tasks s par)"
    "root_pa (tasks s' t) = Some root" "\<forall>u. u \<noteq> t \<longrightarrow> tasks s' u = tasks s u"
    by blast
  let ?s = "s'\<lparr>next_pid := int_inc (next_pid s)\<rparr>"
  have "find_process s' (next_pid s) = Some (Some t)"
    using find_process_table [OF s'(3) assms(7)] s'(5) by simp
  then have "find_process ?s (next_pid s) = Some (Some t)" using assms(7) by (simp add: find_process_def)
  moreover have "?s = s'" if "next_pid s < 2147483647"
    using int_inc_exact [of "next_pid s"] that assms(7) s'(2) by simp
  moreover have "wf_children ?s (t # ts) (ch(t := [], par := t # ch par))"
    using s'(4) by (subst wf_children_cong [of _ s']) simp_all
  ultimately show ?thesis using s' by (intro exI [of _ ?s]) auto
qed

theorem fork_publishes_witness:
  "\<exists>s'. fork boot_sched (Some 3) (Inr ()) 0 = (Inr 1, s') \<and> find_process s' 1 = Some (Some 3) \<and>
     wf_table s' [3, 0] \<and> next_pid s' = 2"
  using fork_publishes [OF boot_sched_wf(1,2,3) _ boot_sched_wf(4), of 3 0]
  by (auto simp: boot_sched_wf(5))

text \<open>C26. Wait reaps a zombie: when a child that the call asks for is a zombie, the first such child in
  the child list is removed from every list, its pid and exit code are returned, the destructor's
  assertions hold, and the table stays well formed.\<close>

theorem wait_reaps_zombie:
  assumes "wf_table s ts" and "wf_children s ts ch" and "current s = Some q" and "q \<in> set ts"
    and "find (\<lambda>c. asked s p c \<and> tstate (tasks s c) = Zombie) (ch q) = Some z"
    and "ch z = []" and "tstate (tasks s q) \<noteq> Zombie" and "0 \<le> p"
  shows "\<exists>s' as bs cs ds.
    process_wait s p = Some (Inr (Inr (Reaped (pid (tasks s z)) (exit_code (tasks s z)) s'))) \<and>
    ts = as @ z # bs \<and> ch q = cs @ z # ds \<and> wf_table s' (as @ bs) \<and>
    wf_children s' (as @ bs) (ch(q := cs @ ds))"
  using wait_once_reaps [OF assms(1-7)] assms(8) by (fastforce simp: process_wait_def)

lemma zombie_child:
  "\<exists>s ts ch. wf_table s ts \<and> wf_children s ts ch \<and> current s = Some 0 \<and> 0 \<in> set ts \<and>
     find (\<lambda>c. asked s 0 c \<and> tstate (tasks s c) = Zombie) (ch 0) = Some 3 \<and> ch 3 = [] \<and>
     tstate (tasks s 0) \<noteq> Zombie \<and> pid (tasks s 3) = 1 \<and> exit_code (tasks s 3) = 7"
proof -
  from fork_ok [OF boot_sched_wf(1-3) _ boot_sched_wf(4), of 3 0] obtain s where
    s: "wf_table s [3, 0]" "wf_children s [3, 0] ((\<lambda>_. [])(3 := [], 0 := [3]))"
      "pid (tasks s 3) = 1" "\<forall>u. u \<noteq> 3 \<longrightarrow> tasks s u = tasks boot_sched u" "current s = Some 0"
    by (auto simp: boot_sched_wf(3,5))
  let ?s = "upd_task s 3 (mark_zombie 7)"
  have "wf_table ?s [3, 0]"
    by (subst wf_table_cong [of s]) (simp_all add: same_tasks_def mark_zombie_def s(1))
  moreover have "wf_children ?s [3, 0] ((\<lambda>_. [])(3 := [], 0 := [3]))"
    using s(2) by (subst wf_children_cong [of _ s]) (simp_all add: mark_zombie_def)
  moreover have "tstate (tasks ?s 0) \<noteq> Zombie"
    using s(4) by (simp add: boot_sched_def add_process_def demo_task_def)
  ultimately show ?thesis
    using s(3,5) by (intro exI [of _ ?s] exI [of _ "[3, 0]"] exI [of _ "(\<lambda>_. [])(3 := [], 0 := [3])"])
      (simp add: asked_def mark_zombie_def)
qed

theorem wait_reaps_zombie_witness:
  "\<exists>s s' :: sched_state. process_wait s 0 = Some (Inr (Inr (Reaped 1 7 s')))"
proof -
  from zombie_child obtain s ts ch where h: "wf_table s ts" "wf_children s ts ch" "current s = Some 0"
    "0 \<in> set ts" "find (\<lambda>c. asked s 0 c \<and> tstate (tasks s c) = Zombie) (ch 0) = Some 3" "ch 3 = []"
    "tstate (tasks s 0) \<noteq> Zombie" "pid (tasks s 3) = 1" "exit_code (tasks s 3) = 7"
    by blast
  from wait_reaps_zombie [OF h(1-7)] h(8,9) show ?thesis by fastforce
qed

text \<open>C27. Exit terminates and hands over: the exiting task becomes a zombie with its code and the
  processor goes to another task that can run, so the \<^verbatim>\<open>PANIC\<close> behind the scheduler call is not reached;
  a parent that waits is woken, every child becomes a child of init, init is woken when it waits and one
  of them is a zombie, and the process table and the child lists stay well formed.\<close>

theorem exit_hands_over:
  assumes wf: "wf_table s ts" "wf_children s ts ch" and order: "proc_order s ts rot"
    and q: "current s = Some q" "q \<in> set ts"
    and i: "init_proc s \<in> set ts" "init_proc s \<noteq> q" "init_proc s \<notin> set (ch q)"
      "tstate (tasks s (init_proc s)) \<noteq> Zombie"
    and p: "parent (tasks s q) = Some p" "p \<noteq> q" "tstate (tasks s p) \<noteq> Zombie"
    and idle: "idle_proc s \<in> set ts" "idle_proc s \<noteq> q" "tstate (tasks s (idle_proc s)) \<noteq> Zombie"
    and fit: "\<forall>t \<in> set ts. priority (tasks s t) \<le> IDLE_PRIO \<and> root_pa (tasks s t) \<noteq> None"
  shows "\<exists>s' t. process_exit s code = Some (Inr s') \<and>
    current s' = Some t \<and> t \<in> set ts \<and> t \<noteq> q \<and> tstate (tasks s' t) = Running \<and>
    tstate (tasks s' q) = Zombie \<and> exit_code (tasks s' q) = code \<and> wf_table s' ts \<and>
    wf_children s' ts (ch(q := [], init_proc s := rev (ch q) @ ch (init_proc s))) \<and>
    (\<forall>c \<in> set (ch q). parent (tasks s' c) = Some (init_proc s)) \<and>
    (wait_state (tasks s p) \<noteq> 0 \<longrightarrow> tstate (tasks s' p) = (if p = t then Running else Runnable)) \<and>
    (wait_state (tasks s (init_proc s)) \<noteq> 0 \<and> (\<exists>c \<in> set (ch q). tstate (tasks s c) = Zombie) \<longrightarrow>
       tstate (tasks s' (init_proc s)) = (if init_proc s = t then Running else Runnable))"
proof -
  obtain n s1 where run: "notify_parent (upd_task s q (mark_zombie code)) q = Inr n"
      "adopt_children n q = Some (Inr s1)"
    and s1: "exit_handed s code q p (ch q) s1"
      "wf_children s1 ts (ch(q := [], init_proc s := rev (ch q) @ ch (init_proc s)))"
    using exit_adopts [OF wf(2) q(2) i p] by blast
  note h = exit_handedD [OF s1(1)]
  have "proc_order s1 ts rot" using order h(1) proc_order_cong [of s1 s] by simp
  moreover have "tstate (tasks s1 (idle_proc s1)) \<noteq> Zombie" using h(1,5) idle(2,3) by simp
  moreover have "\<forall>t \<in> set ts. priority (tasks s1 t) \<le> IDLE_PRIO \<and> root_pa (tasks s1 t) \<noteq> None"
    using fit h(2) by simp
  ultimately obtain s' t where s': "schedule s1 = Some (Inr s')" "current s' = Some t" "t \<in> set ts"
    "t \<noteq> q" "same_frame (s1\<lparr>cursor := cursor s'\<rparr>) s'"
    "\<forall>u. tstate (tasks s' u) = (if u = t then Running else tstate (tasks s1 u))"
    using schedule_leaves_zombie [of s1 ts rot q] h(1,3) q idle(1,2) by auto
  have "process_exit s code = Some (Inr s')" using q(1) run s'(1,2,4) by (simp add: process_exit_def)
  moreover have "wf_table s' ts"
    using wf(1) s'(5) h(1,2) by (subst wf_table_cong [of s]) (simp_all add: same_frame_def same_tasks_def)
  moreover have "wf_children s' ts (ch(q := [], init_proc s := rev (ch q) @ ch (init_proc s)))"
    using s1(2) s'(5) by (subst wf_children_cong [of _ s1]) (simp_all add: same_frame_def)
  moreover have "exit_code (tasks s' q) = code" "\<forall>c \<in> set (ch q). parent (tasks s' c) = Some (init_proc s)"
    using s'(5) h(4,6) by (simp_all add: same_frame_def)
  ultimately show ?thesis using s'(2-4,6) h(3,7,8)
    by (intro exI [of _ s'] exI [of _ t]) auto
qed

text \<open>Init, task 1, waits for its child 3, which runs; task 0 is the idle task.\<close>

lemma demo_exit:
  "\<exists>s. wf_table s [3, 1, 0] \<and> wf_children s [3, 1, 0] ((\<lambda>_. [])(0 := [1], 1 := [3])) \<and>
     proc_order s [3, 1, 0] [3, 1, 0] \<and> current s = Some 3 \<and> init_proc s = 1 \<and> idle_proc s = 0 \<and>
     parent (tasks s 3) = Some 1 \<and> wait_state (tasks s 1) = 1 \<and>
     tstate (tasks s 1) = Sleeping \<and> tstate (tasks s 0) = Running \<and>
     (\<forall>t \<in> set [3, 1, 0]. priority (tasks s t) \<le> IDLE_PRIO \<and> root_pa (tasks s t) \<noteq> None)"
proof -
  have z: "priority (tasks boot_sched 0) = 31" "root_pa (tasks boot_sched 0) = Some 0"
    "tstate (tasks boot_sched 0) = Running" "kernel_memory (tasks boot_sched 0)"
    by (simp_all add: boot_sched_def add_process_def demo_sched_def demo_task_def)
  from fork_ok [OF boot_sched_wf(1-3) _ boot_sched_wf(4), of 1 0] obtain a where
    a: "wf_table a [1, 0]" "wf_children a [1, 0] ((\<lambda>_. [])(1 := [], 0 := [1]))"
      "priority (tasks a 1) = 31" "root_pa (tasks a 1) = Some 0"
      "\<forall>u. u \<noteq> 1 \<longrightarrow> tasks a u = tasks boot_sched u"
    by (auto simp: z)
  let ?a = "upd_task a 1 (\<lambda>t. t\<lparr>wait_state := 1, tstate := Sleeping, kernel_memory := True\<rparr>)\<lparr>current := Some 1\<rparr>"
  have wa: "wf_table ?a [1, 0]" by (subst wf_table_cong [of a]) (use a(1) in \<open>simp_all add: same_tasks_def\<close>)
  have ca: "wf_children ?a [1, 0] ((\<lambda>_. [])(1 := [], 0 := [1]))"
    using a(2) by (subst wf_children_cong [of _ a]) simp_all
  obtain b where b: "wf_table b [3, 1, 0]"
      "wf_children b [3, 1, 0] ((\<lambda>_. [])(1 := [], 0 := [1], 3 := [], 1 := [3]))"
      "priority (tasks b 3) = 31" "root_pa (tasks b 3) = Some 0" "parent (tasks b 3) = Some 1"
      "\<forall>u. u \<noteq> 3 \<longrightarrow> tasks b u = tasks ?a u"
    using fork_ok [OF wa ca, of 1 3 0] a(3) by auto
  let ?b = "upd_task b 3 (\<lambda>t. t\<lparr>tstate := Running\<rparr>)\<lparr>current := Some 3, cursor := None, idle_proc := 0, init_proc := 1\<rparr>"
  have "(\<lambda>_ :: tid. [])(1 := [], 0 := [1], 3 := [], 1 := [3]) = (\<lambda>_. [])(0 := [1], 1 := [3 :: tid])"
    by (auto simp: fun_eq_iff)
  then have "wf_children ?b [3, 1, 0] ((\<lambda>_. [])(0 := [1], 1 := [3]))"
    using b(2) by (subst wf_children_cong [of _ b]) simp_all
  moreover have wt: "wf_table ?b [3, 1, 0]" by (subst wf_table_cong [of b]) (use b(1) in \<open>simp_all add: same_tasks_def\<close>)
  moreover have "proc_order ?b [3, 1, 0] [3, 1, 0]"
    using wt by (simp add: proc_order_def wf_table_def)
  ultimately show ?thesis using a b(3-6) z by (intro exI [of _ ?b]) (simp add: IDLE_PRIO_def)
qed

theorem exit_hands_over_witness:
  "\<exists>s s' t. current s = Some 3 \<and> process_exit s 9 = Some (Inr s') \<and> current s' = Some t \<and> t \<noteq> 3 \<and>
     tstate (tasks s' 3) = Zombie \<and> exit_code (tasks s' 3) = 9 \<and>
     tstate (tasks s 1) = Sleeping \<and> tstate (tasks s' 1) = (if t = 1 then Running else Runnable)"
proof -
  obtain s where s: "wf_table s [3, 1, 0]" "wf_children s [3, 1, 0] ((\<lambda>_. [])(0 := [1], 1 := [3]))"
     "proc_order s [3, 1, 0] [3, 1, 0]" "current s = Some 3" "init_proc s = 1" "idle_proc s = 0"
     "parent (tasks s 3) = Some 1" "wait_state (tasks s 1) = 1" "tstate (tasks s 1) = Sleeping"
     "tstate (tasks s 0) = Running"
     "\<forall>t \<in> set [3, 1, 0]. priority (tasks s t) \<le> IDLE_PRIO \<and> root_pa (tasks s t) \<noteq> None"
    using demo_exit by blast
  have "\<exists>s' t. process_exit s 9 = Some (Inr s') \<and> current s' = Some t \<and> t \<noteq> 3 \<and>
     tstate (tasks s' 3) = Zombie \<and> exit_code (tasks s' 3) = 9 \<and>
     (wait_state (tasks s 1) \<noteq> 0 \<longrightarrow> tstate (tasks s' 1) = (if 1 = t then Running else Runnable))"
    using exit_hands_over [OF s(1-4) _ _ _ _ _ s(7) _ _ _ _ _ s(11), of 9] s(5,6,9,10) by fastforce
  then obtain s' t where "process_exit s 9 = Some (Inr s')" "current s' = Some t" "t \<noteq> 3"
     "tstate (tasks s' 3) = Zombie" "exit_code (tasks s' 3) = 9"
     "tstate (tasks s' 1) = (if t = 1 then Running else Runnable)"
    using s(8) by auto
  then show ?thesis using s(4,9) by (intro exI [of _ s] exI [of _ s'] exI [of _ t]) simp
qed

end
