(* ===== verification/Sync.thy ===== *)
theory Sync
  imports Sched
begin

text \<open>
  Blocking synchronisation: \<^verbatim>\<open>kernel/sync/waitqueue.cpp\<close>, \<^verbatim>\<open>mutex.cpp\<close>, \<^verbatim>\<open>semaphore.cpp\<close> and
  \<^verbatim>\<open>spinlock.cpp\<close>. The wait queue is a pointer ring of entries on the stacks of the sleeping
  tasks. Mutex and semaphore are step relations: one step is a stretch of code that runs with
  interrupts off, so tasks interleave between the two halves of \<^verbatim>\<open>unlock\<close> and \<^verbatim>\<open>up\<close> and at every
  sleep. A task may also be woken by unrelated code while it is queued.
\<close>

section \<open>Wait queues\<close>

datatype wq_node = WqHead | WqEntry tid

record wait_queue =
  wq_links :: "wq_node links"
  tst :: "tid \<Rightarrow> task_state"

definition set_tst :: "wait_queue \<Rightarrow> tid \<Rightarrow> task_state \<Rightarrow> wait_queue" where
  "set_tst w t st = w\<lparr>tst := (tst w)(t := st)\<rparr>"

definition wq_task_op :: "(task \<Rightarrow> fault + task) \<Rightarrow> wait_queue \<Rightarrow> tid \<Rightarrow> fault + wait_queue" where
  "wq_task_op f w t =
     map_sum id (\<lambda>p. set_tst w t (tstate p))
       (f \<lparr>pid = 0, tstate = tst w t, priority = 0, time_slice = 0, need_resched = 0, exit_code = 0,
           wait_state = 0, parent = None, task_name = [], root_pa = None, kernel_memory = True\<rparr>)"

text \<open>\<^verbatim>\<open>sleep\<close> up to the call of the scheduler, and after it returns.\<close>

definition wq_sleep :: "wait_queue \<Rightarrow> tid \<Rightarrow> fault + wait_queue" where
  "wq_sleep w t =
     wq_task_op task_sleep (w\<lparr>wq_links := add_before (wq_links w) WqHead (WqEntry t)\<rparr>) t"

definition wq_leave :: "wait_queue \<Rightarrow> tid \<Rightarrow> wait_queue" where
  "wq_leave w t = w\<lparr>wq_links := unlink (wq_links w) (WqEntry t)\<rparr>"

definition wakeup_one :: "wait_queue \<Rightarrow> fault + wait_queue" where
  "wakeup_one w =
     (if list_empty (wq_links w) WqHead then Inr w
      else case next (wq_links w) WqHead of
        WqHead \<Rightarrow> Inr w
      | WqEntry t \<Rightarrow>
          wq_task_op task_wakeup (w\<lparr>wq_links := unlink (wq_links w) (WqEntry t)\<rparr>) t)"

partial_function (option) wakeup_all :: "wait_queue \<Rightarrow> (fault + wait_queue) option" where
  "wakeup_all w =
     (if list_empty (wq_links w) WqHead then Some (Inr w)
      else case next (wq_links w) WqHead of
        WqHead \<Rightarrow> Some (Inr w)
      | WqEntry t \<Rightarrow>
          (case wq_task_op task_wakeup (w\<lparr>wq_links := unlink (wq_links w) (WqEntry t)\<rparr>) t of
             Inl e \<Rightarrow> Some (Inl e)
           | Inr w \<Rightarrow> wakeup_all w))"

text \<open>The tasks queued, in order; none of them is a zombie.\<close>

definition queued :: "wait_queue \<Rightarrow> tid list \<Rightarrow> bool" where
  "queued w q \<longleftrightarrow> ring (wq_links w) WqHead (map WqEntry q) \<and> (\<forall>t \<in> set q. tst w t \<noteq> Zombie)"

lemma wq_task_ops [simp]:
  "wq_task_op task_wakeup w t = (if tst w t = Zombie then Inl Panicked else Inr (set_tst w t Runnable))"
  "wq_task_op task_sleep w t = (if tst w t = Zombie then Inl Panicked else Inr (set_tst w t Sleeping))"
  by (auto simp: wq_task_op_def task_wakeup_def task_sleep_def set_tst_def)

lemma set_tst_simps [simp]:
  "wq_links (set_tst w t st) = wq_links w" "tst (set_tst w t st) = (tst w)(t := st)"
  by (simp_all add: set_tst_def)

text \<open>A task whose entry is linked to nothing but itself.\<close>

definition loose :: "wait_queue \<Rightarrow> tid \<Rightarrow> bool" where
  "loose w u \<longleftrightarrow> ring (wq_links w) (WqEntry u) []"

lemma queued_distinct: "queued w q \<Longrightarrow> distinct q"
  by (auto simp: queued_def ring_def distinct_map)

lemma queued_sleep:
  assumes "queued w q" and "t \<notin> set q" and "tst w t \<noteq> Zombie"
  shows "\<exists>w'. wq_sleep w t = Inr w' \<and> queued w' (q @ [t]) \<and> tst w' = (tst w)(t := Sleeping) \<and>
    (\<forall>u. u \<notin> set q \<and> u \<noteq> t \<and> loose w u \<longrightarrow> loose w' u)"
proof -
  have r: "ring (wq_links w) WqHead (map WqEntry q)" using assms(1) by (simp add: queued_def)
  let ?h = "add_before (wq_links w) WqHead (WqEntry t)"
  have "ring ?h WqHead (map WqEntry q @ [WqEntry t])"
    using ring_add_before_head [OF r, of "WqEntry t"] assms(2) by auto
  moreover have "ring ?h (WqEntry u) []" if "u \<notin> set q" "u \<noteq> t" "loose w u" for u
    using ring_add_before_other [OF r, of "WqEntry u" "[]" "WqEntry t"] that by (auto simp: loose_def)
  ultimately show ?thesis using assms by (auto simp: wq_sleep_def queued_def loose_def)
qed

lemma queued_wakeup_one_Nil: "queued w [] \<Longrightarrow> wakeup_one w = Inr w"
  by (simp add: queued_def wakeup_one_def list_empty_ring)

lemma queued_wakeup_one:
  assumes "queued w (t # q)"
  shows "\<exists>w'. wakeup_one w = Inr w' \<and> queued w' q \<and> tst w' = (tst w)(t := Runnable) \<and> loose w' t \<and>
    (\<forall>u. u \<notin> set (t # q) \<and> loose w u \<longrightarrow> loose w' u)"
proof -
  have r: "ring (wq_links w) WqHead ([] @ WqEntry t # map WqEntry q)" using assms by (simp add: queued_def)
  let ?h = "unlink (wq_links w) (WqEntry t)"
  have "next (wq_links w) WqHead = WqEntry t" "\<not> list_empty (wq_links w) WqHead"
    using r list_empty_ring [OF r] by (simp_all add: ring_def)
  moreover have "tst w t \<noteq> Zombie" using assms by (simp add: queued_def)
  ultimately have "wakeup_one w = Inr (set_tst (w\<lparr>wq_links := ?h\<rparr>) t Runnable)"
    by (simp add: wakeup_one_def)
  moreover have "ring ?h (WqEntry u) []" if "u \<notin> set (t # q)" "loose w u" for u
    using ring_unlink_other [OF r, of "WqEntry u" "[]"] that by (auto simp: loose_def)
  ultimately show ?thesis
    using assms ring_unlink [OF r] by (auto simp: queued_def loose_def)
qed

lemma queued_leave:
  assumes "queued w q" and "t \<in> set q \<or> loose w t"
  shows "queued (wq_leave w t) (remove1 t q) \<and> tst (wq_leave w t) = tst w \<and>
    (\<forall>u. u \<notin> set q \<and> u \<noteq> t \<and> loose w u \<longrightarrow> loose (wq_leave w t) u)"
proof (cases "t \<in> set q")
  case True
  then obtain as bs where q: "q = as @ t # bs" by (meson split_list)
  have r: "ring (wq_links w) WqHead (map WqEntry as @ WqEntry t # map WqEntry bs)"
    using assms q by (simp add: queued_def)
  have "remove1 t q = as @ bs" using q queued_distinct [OF assms(1)] by (simp add: remove1_append)
  moreover have "ring (unlink (wq_links w) (WqEntry t)) (WqEntry u) []"
    if "u \<notin> set q" "loose w u" for u
    using ring_unlink_other [OF r, of "WqEntry u" "[]"] that q by (auto simp: loose_def)
  ultimately show ?thesis
    using ring_unlink(1) [OF r] assms q by (auto simp: queued_def wq_leave_def loose_def)
next
  case False
  with assms(2) have "unlink (wq_links w) (WqEntry t) = wq_links w"
    by (simp add: loose_def ring_def unlink_def ptr_defs Let_def fun_upd_idem)
  then have "wq_leave w t = w" by (simp add: wq_leave_def)
  with assms(1) False show ?thesis by (simp add: remove1_idem)
qed

lemma wakeup_all_queued:
  assumes "queued w q"
  shows "\<exists>w'. wakeup_all w = Some (Inr w') \<and> queued w' [] \<and>
    (\<forall>t. tst w' t = (if t \<in> set q then Runnable else tst w t))"
  using assms
proof (induction q arbitrary: w)
  case Nil
  then have "wakeup_all w = Some (Inr w)"
    by (subst wakeup_all.simps) (simp add: queued_def list_empty_ring)
  with Nil show ?case by simp
next
  case (Cons t q)
  from queued_wakeup_one [OF Cons.prems] obtain w1 where
    w1: "wakeup_one w = Inr w1" "queued w1 q" "tst w1 = (tst w)(t := Runnable)" by blast
  have r: "ring (wq_links w) WqHead (WqEntry t # map WqEntry q)" using Cons.prems by (simp add: queued_def)
  then have nx: "next (wq_links w) WqHead = WqEntry t" "\<not> list_empty (wq_links w) WqHead"
    using list_empty_ring [OF r] by (simp_all add: ring_def)
  then have "wakeup_all w = wakeup_all w1"
    using w1(1) by (subst wakeup_all.simps) (auto simp: wakeup_one_def split: if_splits)
  with Cons.IH [OF w1(2)] w1(3) show ?case by auto
qed

text \<open>The queue is first in first out.\<close>

definition wq_push :: "wait_queue \<Rightarrow> tid \<Rightarrow> wait_queue" where
  "wq_push w t = (case wq_sleep w t of Inr w' \<Rightarrow> w' | Inl _ \<Rightarrow> w)"

definition wq_pop :: "wait_queue \<Rightarrow> (tid \<times> wait_queue) option" where
  "wq_pop w =
     (case next (wq_links w) WqHead of
        WqHead \<Rightarrow> None
      | WqEntry t \<Rightarrow> (case wakeup_one w of Inr w' \<Rightarrow> Some (t, w') | Inl _ \<Rightarrow> None))"

interpretation wq: fifo_queue queued "\<lambda>w t. tst w t \<noteq> Zombie" wq_push wq_pop
proof unfold_locales
  fix w xs ys t
  show "queued w xs \<Longrightarrow> queued w ys \<Longrightarrow> xs = ys"
    using ring_unique [of "wq_links w" WqHead "map WqEntry xs" "map WqEntry ys"]
    by (simp add: queued_def inj_map_eq_map inj_def)
  show "queued w xs \<Longrightarrow> tst w t \<noteq> Zombie \<Longrightarrow> t \<notin> set xs \<Longrightarrow> queued (wq_push w t) (xs @ [t])"
    using queued_sleep [of w xs t] by (auto simp: wq_push_def)
  show "queued w [] \<Longrightarrow> wq_pop w = None" by (simp add: queued_def ring_def wq_pop_def)
next
  fix w m n
  show "tst w m \<noteq> Zombie \<Longrightarrow> tst (wq_push w n) m \<noteq> Zombie"
    by (auto simp: wq_push_def wq_sleep_def)
next
  fix w x xs
  assume q: "queued w (x # xs)"
  from queued_wakeup_one [OF this] obtain w' where "wakeup_one w = Inr w'" "queued w' xs" by blast
  moreover have "next (wq_links w) WqHead = WqEntry x" using q by (simp add: queued_def ring_def)
  ultimately show "\<exists>w'. wq_pop w = Some (x, w') \<and> queued w' xs" by (simp add: wq_pop_def)
qed

section \<open>Sleeping tasks\<close>

text \<open>
  \<open>A\<close> are the tasks inside \<^verbatim>\<open>sleep\<close>, \<open>q\<close> those of them still queued; the others have been taken out
  of the queue and are runnable.
\<close>

definition sleepers :: "wait_queue \<Rightarrow> tid set \<Rightarrow> tid list \<Rightarrow> bool" where
  "sleepers w A q \<longleftrightarrow>
     queued w q \<and> (\<forall>t. tst w t \<noteq> Zombie) \<and> set q \<subseteq> A \<and>
     (\<forall>t \<in> A - set q. tst w t = Runnable \<and> loose w t)"

lemma sleepers_sleep:
  assumes "sleepers w A q" and "t \<notin> A"
  shows "\<exists>w'. wq_sleep w t = Inr w' \<and> sleepers w' (insert t A) (q @ [t])"
proof -
  have "t \<notin> set q" "tst w t \<noteq> Zombie" "queued w q" using assms by (auto simp: sleepers_def)
  then obtain w' where w': "wq_sleep w t = Inr w'" "queued w' (q @ [t])" "tst w' = (tst w)(t := Sleeping)"
    "\<forall>u. u \<notin> set q \<and> u \<noteq> t \<and> loose w u \<longrightarrow> loose w' u"
    using queued_sleep [of w q t] by blast
  then have "sleepers w' (insert t A) (q @ [t])" using assms unfolding sleepers_def by auto
  with w'(1) show ?thesis by blast
qed

lemma sleepers_leave:
  assumes "sleepers w A q" and "t \<in> A"
  shows "sleepers (set_tst (wq_leave w t) t Running) (A - {t}) (remove1 t q)"
proof -
  have q: "queued w q" "t \<in> set q \<or> loose w t" using assms by (auto simp: sleepers_def)
  note l = queued_leave [OF q]
  have "set (remove1 t q) = set q - {t}" using queued_distinct [OF q(1)] by simp
  then show ?thesis using assms l by (auto simp: sleepers_def queued_def loose_def)
qed

lemma sleepers_wake:
  assumes "sleepers w A q"
  shows "\<exists>w'. wakeup_one w = Inr w' \<and> sleepers w' A (tl q)"
proof (cases q)
  case Nil
  then show ?thesis using assms queued_wakeup_one_Nil [of w] by (simp add: sleepers_def)
next
  case (Cons u q')
  then obtain w' where w': "wakeup_one w = Inr w'" "queued w' q'" "tst w' = (tst w)(u := Runnable)"
    "loose w' u" "\<forall>v. v \<notin> set (u # q') \<and> loose w v \<longrightarrow> loose w' v"
    using assms queued_wakeup_one [of w u q'] by (auto simp: sleepers_def)
  then have "sleepers w' A (tl q)" using assms Cons by (auto simp: sleepers_def)
  with w'(1) show ?thesis by blast
qed

lemma sleepers_wander: "sleepers w A q \<Longrightarrow> sleepers (set_tst w t Runnable) A q"
  by (auto simp: sleepers_def queued_def loose_def)

lemma sleepers_distinct: "sleepers w A q \<Longrightarrow> distinct q \<and> set q \<subseteq> A"
  using queued_distinct by (auto simp: sleepers_def)

section \<open>Mutex and semaphore operations\<close>

record mutex =
  held :: bool
  owner :: "tid option"
  waitq :: wait_queue

definition mutex_try_lock :: "mutex \<Rightarrow> tid \<Rightarrow> bool \<times> mutex" where
  "mutex_try_lock m cur = (if \<not> held m then (True, m\<lparr>held := True, owner := Some cur\<rparr>) else (False, m))"

text \<open>One round of the loop of \<^verbatim>\<open>lock\<close>: the lock is taken (\<open>True\<close>) or the task goes to sleep.\<close>

definition mutex_lock_round :: "mutex \<Rightarrow> tid \<Rightarrow> fault + (bool \<times> mutex)" where
  "mutex_lock_round m cur =
     (if \<not> held m then Inr (True, m\<lparr>held := True, owner := Some cur\<rparr>)
      else map_sum id (\<lambda>w. (False, m\<lparr>waitq := w\<rparr>)) (wq_sleep (waitq m) cur))"

definition mutex_unlock_release :: "mutex \<Rightarrow> tid \<Rightarrow> fault + mutex" where
  "mutex_unlock_release m cur =
     (if held m \<and> owner m = Some cur then Inr (m\<lparr>held := False, owner := None\<rparr>) else Inl Panicked)"

definition mutex_unlock_wake :: "mutex \<Rightarrow> fault + mutex" where
  "mutex_unlock_wake m = map_sum id (\<lambda>w. m\<lparr>waitq := w\<rparr>) (wakeup_one (waitq m))"

text \<open>\<^verbatim>\<open>count_\<close> is a 32-bit \<^verbatim>\<open>int\<close>; its increment wraps at the largest value.\<close>

record semaphore =
  count :: u32
  sem_waitq :: wait_queue

definition sem_try_down :: "semaphore \<Rightarrow> bool \<times> semaphore" where
  "sem_try_down s = (if sint (count s) > 0 then (True, s\<lparr>count := count s - 1\<rparr>) else (False, s))"

definition sem_down_round :: "semaphore \<Rightarrow> tid \<Rightarrow> fault + (bool \<times> semaphore)" where
  "sem_down_round s cur =
     (if sint (count s) > 0 then Inr (True, s\<lparr>count := count s - 1\<rparr>)
      else map_sum id (\<lambda>w. (False, s\<lparr>sem_waitq := w\<rparr>)) (wq_sleep (sem_waitq s) cur))"

definition sem_up_count :: "semaphore \<Rightarrow> semaphore" where
  "sem_up_count s = s\<lparr>count := count s + 1\<rparr>"

definition sem_up_wake :: "semaphore \<Rightarrow> fault + semaphore" where
  "sem_up_wake s = map_sum id (\<lambda>w. s\<lparr>sem_waitq := w\<rparr>) (wakeup_one (sem_waitq s))"

text \<open>\<^verbatim>\<open>Spinlock\<close> on one processor; \<open>irq\<close> is the interrupt flag. A second \<^verbatim>\<open>lock\<close> would spin for ever.\<close>

record spinlock =
  locked :: bool
  saved_flags :: bool

definition spin_lock :: "spinlock \<Rightarrow> bool \<Rightarrow> (spinlock \<times> bool) option" where
  "spin_lock l irq = (if locked l then None else Some (\<lparr>locked = True, saved_flags = irq\<rparr>, False))"

definition spin_unlock :: "spinlock \<Rightarrow> spinlock \<times> bool" where
  "spin_unlock l = (l\<lparr>locked := False\<rparr>, saved_flags l)"

section \<open>Interleavings of mutex users\<close>

text \<open>
  Where a task is: outside, at the check of the lock loop, asleep in the queue (the context switch
  has happened), inside the critical section, or between the two halves of \<^verbatim>\<open>unlock\<close>.
\<close>

datatype mutex_pc = Outside | Checking | Asleep | Inside | Releasing

record mutex_sys =
  mx :: mutex
  mpc :: "tid \<Rightarrow> mutex_pc"

definition at_pc :: "mutex_sys \<Rightarrow> tid \<Rightarrow> mutex_pc \<Rightarrow> mutex_sys" where
  "at_pc s t p = s\<lparr>mpc := (mpc s)(t := p)\<rparr>"

inductive mutex_step :: "mutex_sys \<Rightarrow> mutex_sys \<Rightarrow> bool" where
  enter: "mpc s t = Outside \<Longrightarrow> tst (waitq (mx s)) t = Running \<Longrightarrow> mutex_step s (at_pc s t Checking)"
| take: "mpc s t = Checking \<Longrightarrow> mutex_lock_round (mx s) t = Inr (True, m) \<Longrightarrow>
    mutex_step s (at_pc (s\<lparr>mx := m\<rparr>) t Inside)"
| block: "mpc s t = Checking \<Longrightarrow> mutex_lock_round (mx s) t = Inr (False, m) \<Longrightarrow>
    mutex_step s (at_pc (s\<lparr>mx := m\<rparr>) t Asleep)"
| wander: "mpc s t = Asleep \<Longrightarrow>
    mutex_step s (s\<lparr>mx := (mx s)\<lparr>waitq := set_tst (waitq (mx s)) t Runnable\<rparr>\<rparr>)"
| resume: "mpc s t = Asleep \<Longrightarrow> tst (waitq (mx s)) t = Runnable \<Longrightarrow>
    mutex_step s (at_pc (s\<lparr>mx := (mx s)\<lparr>waitq := set_tst (wq_leave (waitq (mx s)) t) t Running\<rparr>\<rparr>) t Checking)"
| try_lock: "mpc s t = Outside \<Longrightarrow> tst (waitq (mx s)) t = Running \<Longrightarrow> mutex_try_lock (mx s) t = (True, m) \<Longrightarrow>
    mutex_step s (at_pc (s\<lparr>mx := m\<rparr>) t Inside)"
| release: "mpc s t = Inside \<Longrightarrow> mutex_unlock_release (mx s) t = Inr m \<Longrightarrow>
    mutex_step s (at_pc (s\<lparr>mx := m\<rparr>) t Releasing)"
| wake: "mpc s t = Releasing \<Longrightarrow> mutex_unlock_wake (mx s) = Inr m \<Longrightarrow>
    mutex_step s (at_pc (s\<lparr>mx := m\<rparr>) t Outside)"

inductive mutex_reach :: "mutex_sys \<Rightarrow> mutex_sys \<Rightarrow> bool" for s0 where
  here: "mutex_reach s0 s0"
| step: "mutex_reach s0 s \<Longrightarrow> mutex_step s s' \<Longrightarrow> mutex_reach s0 s'"

definition mutex_start :: mutex_sys where
  "mutex_start = \<lparr>mx = \<lparr>held = False, owner = None,
       waitq = \<lparr>wq_links = \<lparr>prev = id, next = id\<rparr>, tst = (\<lambda>_. Running)\<rparr>\<rparr>, mpc = (\<lambda>_. Outside)\<rparr>"

text \<open>
  The invariant: the holder is the only task inside, sleepers are queued or have been dequeued and
  are runnable again, and whenever someone is queued, some task will wake the queue or look again.
\<close>

definition tasks_at :: "mutex_pc \<Rightarrow> mutex_sys \<Rightarrow> tid set" where
  "tasks_at p s = {t. mpc s t = p}"

definition mutex_owner :: "mutex_sys \<Rightarrow> bool" where
  "mutex_owner s \<longleftrightarrow>
     (if held (mx s) then \<exists>t. owner (mx s) = Some t \<and> tasks_at Inside s = {t} else tasks_at Inside s = {})"

definition mutex_progress :: "mutex_sys \<Rightarrow> tid list \<Rightarrow> bool" where
  "mutex_progress s q \<longleftrightarrow>
     (q \<noteq> [] \<longrightarrow> held (mx s) \<or>
        tasks_at Releasing s \<union> tasks_at Checking s \<union> (tasks_at Asleep s - set q) \<noteq> {})"

definition mutex_inv :: "mutex_sys \<Rightarrow> tid list \<Rightarrow> bool" where
  "mutex_inv s q \<longleftrightarrow>
     sleepers (waitq (mx s)) (tasks_at Asleep s) q \<and> mutex_owner s \<and> mutex_progress s q"

lemma tasks_at_pc [simp]:
  "tasks_at p (at_pc s t y) = (if y = p then insert t (tasks_at p s) else tasks_at p s - {t})"
  "mx (at_pc s t y) = mx s" "tasks_at p (s\<lparr>mx := m\<rparr>) = tasks_at p s"
  by (auto simp: tasks_at_def at_pc_def)

lemma tasks_at_mem: "mpc s t = y \<Longrightarrow> t \<in> tasks_at p s \<longleftrightarrow> y = p"
  by (auto simp: tasks_at_def)

lemma tasks_at_drop: "mpc s t = y \<Longrightarrow> y \<noteq> p \<Longrightarrow> tasks_at p s - {t} = tasks_at p s"
  by (auto simp: tasks_at_def)

lemma mutex_inv_enter:
  assumes "mutex_inv s q" and "mpc s t = Outside"
  shows "mutex_inv (at_pc s t Checking) q"
  using assms by (simp add: mutex_inv_def mutex_owner_def mutex_progress_def tasks_at_drop [OF assms(2)])

lemma mutex_inv_take:
  assumes "mutex_inv s q" and t: "mpc s t = y" "y = Checking \<or> y = Outside" and "\<not> held (mx s)"
  shows "mutex_inv (at_pc (s\<lparr>mx := (mx s)\<lparr>held := True, owner := Some t\<rparr>\<rparr>) t Inside) q"
  using assms by (auto simp: mutex_inv_def mutex_owner_def mutex_progress_def tasks_at_drop [OF t(1)])

lemma mutex_inv_block:
  assumes inv: "mutex_inv s q" and t: "mpc s t = Checking" and h: "held (mx s)"
    and w: "wq_sleep (waitq (mx s)) t = Inr w"
  shows "mutex_inv (at_pc (s\<lparr>mx := (mx s)\<lparr>waitq := w\<rparr>\<rparr>) t Asleep) (q @ [t])"
proof -
  have "t \<notin> tasks_at Asleep s" using t by (simp add: tasks_at_def)
  then have "sleepers w (insert t (tasks_at Asleep s)) (q @ [t])"
    using sleepers_sleep [of "waitq (mx s)" "tasks_at Asleep s" q t] inv w by (simp add: mutex_inv_def)
  then show ?thesis
    using inv h by (simp add: mutex_inv_def mutex_owner_def mutex_progress_def tasks_at_drop [OF t])
qed

lemma mutex_inv_resume:
  assumes inv: "mutex_inv s q" and t: "mpc s t = Asleep"
  shows "mutex_inv (at_pc (s\<lparr>mx := (mx s)\<lparr>waitq := set_tst (wq_leave (waitq (mx s)) t) t Running\<rparr>\<rparr>) t Checking)
    (remove1 t q)"
proof -
  have "sleepers (set_tst (wq_leave (waitq (mx s)) t) t Running) (tasks_at Asleep s - {t}) (remove1 t q)"
    using inv t by (intro sleepers_leave) (auto simp: mutex_inv_def tasks_at_def)
  then show ?thesis
    using inv by (simp add: mutex_inv_def mutex_owner_def mutex_progress_def tasks_at_drop [OF t])
qed

lemma mutex_inv_release:
  assumes "mutex_inv s q" and t: "mpc s t = Inside"
  shows "mutex_inv (at_pc (s\<lparr>mx := (mx s)\<lparr>held := False, owner := None\<rparr>\<rparr>) t Releasing) q"
proof -
  have "t \<in> tasks_at Inside s" using t by (simp add: tasks_at_def)
  then have "tasks_at Inside s - {t} = {}"
    using assms(1) by (auto simp: mutex_inv_def mutex_owner_def split: if_splits)
  then show ?thesis
    using assms(1) by (simp add: mutex_inv_def mutex_owner_def mutex_progress_def tasks_at_drop [OF t])
qed

lemma mutex_inv_wake:
  assumes inv: "mutex_inv s q" and t: "mpc s t = Releasing" and m: "mutex_unlock_wake (mx s) = Inr m"
  shows "mutex_inv (at_pc (s\<lparr>mx := m\<rparr>) t Outside) (tl q)"
proof -
  have sl: "sleepers (waitq (mx s)) (tasks_at Asleep s) q" using inv by (simp add: mutex_inv_def)
  from sleepers_wake [OF sl] m obtain w where
    w: "m = (mx s)\<lparr>waitq := w\<rparr>" "sleepers w (tasks_at Asleep s) (tl q)"
    by (auto simp: mutex_unlock_wake_def)
  have "tasks_at Asleep s - set (tl q) \<noteq> {}" if "q \<noteq> []"
    using sleepers_distinct [OF sl] that by (cases q) auto
  then have "mutex_progress (at_pc (s\<lparr>mx := m\<rparr>) t Outside) (tl q)"
    using tasks_at_drop [OF t, of Asleep] by (cases q) (auto simp: mutex_progress_def)
  then show ?thesis
    using inv w by (simp add: mutex_inv_def mutex_owner_def tasks_at_drop [OF t])
qed

lemma lock_round_cases:
  assumes "mutex_lock_round m t = Inr (b, m')"
  shows "if b then \<not> held m \<and> m' = m\<lparr>held := True, owner := Some t\<rparr>
    else held m \<and> (\<exists>w. wq_sleep (waitq m) t = Inr w \<and> m' = m\<lparr>waitq := w\<rparr>)"
  using assms by (cases "wq_sleep (waitq m) t") (auto simp: mutex_lock_round_def split: if_splits)

lemma mutex_step_inv:
  assumes step: "mutex_step s s'" and inv: "mutex_inv s q"
  shows "\<exists>q'. mutex_inv s' q'"
  using step
proof (cases rule: mutex_step.cases)
  case (enter t)
  then show ?thesis using mutex_inv_enter [OF inv, of t] by blast
next
  case (take t m)
  then show ?thesis using mutex_inv_take [OF inv, of t Checking] lock_round_cases [OF take(3)] by auto
next
  case (block t m)
  then show ?thesis using mutex_inv_block [OF inv, of t] lock_round_cases [OF block(3)] by auto
next
  case (wander t)
  then have "mutex_inv s' q"
    using inv sleepers_wander by (simp add: mutex_inv_def mutex_owner_def mutex_progress_def)
  then show ?thesis ..
next
  case (resume t)
  then show ?thesis using mutex_inv_resume [OF inv, of t] by blast
next
  case (try_lock t m)
  then show ?thesis
    using mutex_inv_take [OF inv, of t Outside] by (auto simp: mutex_try_lock_def split: if_splits)
next
  case (release t m)
  then show ?thesis
    using mutex_inv_release [OF inv, of t] by (auto simp: mutex_unlock_release_def split: if_splits)
next
  case (wake t m)
  then show ?thesis using mutex_inv_wake [OF inv, of t m] by blast
qed

lemma mutex_start_inv: "mutex_inv mutex_start []"
  by (simp add: mutex_inv_def mutex_owner_def mutex_progress_def mutex_start_def sleepers_def queued_def
      ring_def tasks_at_def)

lemma mutex_reach_inv: "mutex_reach mutex_start s \<Longrightarrow> \<exists>q. mutex_inv s q"
proof (induction rule: mutex_reach.induct)
  case here
  then show ?case using mutex_start_inv by blast
next
  case (step s s')
  then show ?case using mutex_step_inv by blast
qed

section \<open>Interleavings of semaphore users\<close>

datatype sem_pc = S_Outside | S_Checking | S_Asleep | S_Raising

text \<open>\<open>ups\<close> and \<open>downs\<close> count the completed operations, and \<open>overflowed\<close> records whether some \<^verbatim>\<open>up\<close>
  has incremented the largest \<^verbatim>\<open>int\<close>; the code has no such fields.\<close>

record sem_sys =
  sem :: semaphore
  spc :: "tid \<Rightarrow> sem_pc"
  ups :: int
  downs :: int
  overflowed :: bool

definition at_spc :: "sem_sys \<Rightarrow> tid \<Rightarrow> sem_pc \<Rightarrow> sem_sys" where
  "at_spc s t p = s\<lparr>spc := (spc s)(t := p)\<rparr>"

inductive sem_step :: "sem_sys \<Rightarrow> sem_sys \<Rightarrow> bool" where
  enter: "spc s t = S_Outside \<Longrightarrow> sem_step s (at_spc s t S_Checking)"
| take: "spc s t = S_Checking \<Longrightarrow> sem_down_round (sem s) t = Inr (True, m) \<Longrightarrow>
    sem_step s (at_spc (s\<lparr>sem := m, downs := downs s + 1\<rparr>) t S_Outside)"
| block: "spc s t = S_Checking \<Longrightarrow> sem_down_round (sem s) t = Inr (False, m) \<Longrightarrow>
    sem_step s (at_spc (s\<lparr>sem := m\<rparr>) t S_Asleep)"
| wander: "spc s t = S_Asleep \<Longrightarrow>
    sem_step s (s\<lparr>sem := (sem s)\<lparr>sem_waitq := set_tst (sem_waitq (sem s)) t Runnable\<rparr>\<rparr>)"
| resume: "spc s t = S_Asleep \<Longrightarrow> tst (sem_waitq (sem s)) t = Runnable \<Longrightarrow>
    sem_step s (at_spc (s\<lparr>sem := (sem s)\<lparr>sem_waitq :=
      set_tst (wq_leave (sem_waitq (sem s)) t) t Running\<rparr>\<rparr>) t S_Checking)"
| try_down: "spc s t = S_Outside \<Longrightarrow> sem_try_down (sem s) = (True, m) \<Longrightarrow>
    sem_step s (s\<lparr>sem := m, downs := downs s + 1\<rparr>)"
| raise: "spc s t = S_Outside \<Longrightarrow>
    sem_step s (at_spc (s\<lparr>sem := sem_up_count (sem s), ups := ups s + 1,
      overflowed := (overflowed s \<or> sint (count (sem s)) = 2147483647)\<rparr>) t S_Raising)"
| wake: "spc s t = S_Raising \<Longrightarrow> sem_up_wake (sem s) = Inr m \<Longrightarrow>
    sem_step s (at_spc (s\<lparr>sem := m\<rparr>) t S_Outside)"

inductive sem_reach :: "sem_sys \<Rightarrow> sem_sys \<Rightarrow> bool" for s0 where
  here: "sem_reach s0 s0"
| step: "sem_reach s0 s \<Longrightarrow> sem_step s s' \<Longrightarrow> sem_reach s0 s'"

definition sem_start :: "u32 \<Rightarrow> sem_sys" where
  "sem_start n = \<lparr>sem = \<lparr>count = n, sem_waitq = \<lparr>wq_links = \<lparr>prev = id, next = id\<rparr>, tst = (\<lambda>_. Running)\<rparr>\<rparr>,
     spc = (\<lambda>_. S_Outside), ups = 0, downs = 0, overflowed = False\<rparr>"

definition users_at :: "sem_pc \<Rightarrow> sem_sys \<Rightarrow> tid set" where
  "users_at p s = {t. spc s t = p}"

text \<open>The tasks that will look at the counter again or wake another task.\<close>

definition active :: "sem_sys \<Rightarrow> tid list \<Rightarrow> tid set" where
  "active s q = users_at S_Checking s \<union> users_at S_Raising s \<union> (users_at S_Asleep s - set q)"

definition sem_inv :: "u32 \<Rightarrow> sem_sys \<Rightarrow> tid list \<Rightarrow> bool" where
  "sem_inv n s q \<longleftrightarrow>
     sleepers (sem_waitq (sem s)) (users_at S_Asleep s) q \<and>
     finite (active s q) \<and> (q \<noteq> [] \<longrightarrow> sint (count (sem s)) \<le> int (card (active s q))) \<and>
     sint (count (sem s)) = sint n + ups s - downs s \<and> 0 \<le> sint (count (sem s)) \<and>
     0 \<le> downs s \<and> \<not> overflowed s"

lemma sint_u32_step:
  "0 < sint c \<Longrightarrow> sint (c - 1) = sint c - 1"
  "sint c \<noteq> 2147483647 \<Longrightarrow> sint (c + 1) = sint c + 1" for c :: u32
proof -
  have b: "- 2147483648 \<le> sint c" "sint c < 2147483648" using sint_greater_eq [of c] sint_less [of c] by simp_all
  show "sint (c - 1) = sint c - 1" if "0 < sint c"
    using that b by (simp add: sint_word_ariths signed_take_bit_int_eq_self)
  show "sint (c + 1) = sint c + 1" if "sint c \<noteq> 2147483647"
    using that b by (simp add: sint_word_ariths signed_take_bit_int_eq_self)
qed

lemma users_at_pc [simp]:
  "users_at p (at_spc s t y) = (if y = p then insert t (users_at p s) else users_at p s - {t})"
  "sem (at_spc s t y) = sem s" "ups (at_spc s t y) = ups s" "downs (at_spc s t y) = downs s"
  "overflowed (at_spc s t y) = overflowed s" "users_at p (s\<lparr>overflowed := b\<rparr>) = users_at p s"
  "users_at p (s\<lparr>sem := m\<rparr>) = users_at p s" "users_at p (s\<lparr>ups := k\<rparr>) = users_at p s"
  "users_at p (s\<lparr>downs := k\<rparr>) = users_at p s"
  by (auto simp: users_at_def at_spc_def)

lemma active_upd [simp]:
  "active (s\<lparr>sem := m\<rparr>) q = active s q" "active (s\<lparr>ups := k\<rparr>) q = active s q"
  "active (s\<lparr>downs := k\<rparr>) q = active s q" "active (s\<lparr>overflowed := b\<rparr>) q = active s q"
  by (simp_all add: active_def)

lemma users_at_drop: "spc s t = y \<Longrightarrow> y \<noteq> p \<Longrightarrow> users_at p s - {t} = users_at p s"
  by (auto simp: users_at_def)

lemma active_moves:
  "spc s t = S_Outside \<Longrightarrow> y = S_Checking \<or> y = S_Raising \<Longrightarrow>
     active (at_spc s t y) q = insert t (active s q) \<and> t \<notin> active s q"
  "spc s t = S_Checking \<Longrightarrow> active (at_spc s t S_Outside) q = active s q - {t} \<and> t \<in> active s q"
  "spc s t = S_Checking \<Longrightarrow> t \<notin> set q \<Longrightarrow> active (at_spc s t S_Asleep) (q @ [t]) = active s q - {t}"
  "spc s t = S_Asleep \<Longrightarrow> distinct q \<Longrightarrow>
     active (at_spc s t S_Checking) (remove1 t q) = insert t (active s q)"
  by (auto simp: active_def users_at_def at_spc_def)

lemma sem_invI:
  "sleepers (sem_waitq (sem s)) (users_at S_Asleep s) q \<Longrightarrow> finite (active s q) \<Longrightarrow>
   (q \<noteq> [] \<Longrightarrow> sint (count (sem s)) \<le> int (card (active s q))) \<Longrightarrow>
   sint (count (sem s)) = sint n + ups s - downs s \<Longrightarrow> 0 \<le> sint (count (sem s)) \<Longrightarrow>
   0 \<le> downs s \<Longrightarrow> \<not> overflowed s \<Longrightarrow> sem_inv n s q"
  by (simp add: sem_inv_def)

lemma sem_invD:
  assumes "sem_inv n s q"
  shows "sleepers (sem_waitq (sem s)) (users_at S_Asleep s) q" and "finite (active s q)"
    and "q \<noteq> [] \<Longrightarrow> sint (count (sem s)) \<le> int (card (active s q))"
    and "sint (count (sem s)) = sint n + ups s - downs s" and "0 \<le> sint (count (sem s))"
    and "0 \<le> downs s" and "\<not> overflowed s"
  using assms by (simp_all add: sem_inv_def)

lemma sem_inv_enter:
  assumes "sem_inv n s q" and t: "spc s t = S_Outside"
  shows "sem_inv n (at_spc s t S_Checking) q"
  using assms active_moves(1) [OF t, of S_Checking q]
  by (auto simp: sem_inv_def users_at_drop [OF t])

lemma sem_inv_raise:
  assumes "sem_inv n s q" and t: "spc s t = S_Outside" and c: "sint (count (sem s)) \<noteq> 2147483647"
  shows "sem_inv n (at_spc (s\<lparr>sem := sem_up_count (sem s), ups := ups s + 1, overflowed := False\<rparr>) t S_Raising) q"
proof -
  let ?s = "s\<lparr>sem := sem_up_count (sem s), ups := ups s + 1, overflowed := False\<rparr>"
  have "active (at_spc ?s t S_Raising) q = insert t (active s q)" "t \<notin> active s q"
    using active_moves(1) [of ?s t S_Raising q] t by auto
  then show ?thesis
    using assms by (auto simp: sem_inv_def users_at_drop [OF t] sem_up_count_def sint_u32_step(2) [OF c])
qed

lemma sem_inv_take:
  assumes inv: "sem_inv n s q" and t: "spc s t = S_Checking" and c: "sint (count (sem s)) > 0"
  shows "sem_inv n (at_spc (s\<lparr>sem := (sem s)\<lparr>count := count (sem s) - 1\<rparr>, downs := downs s + 1\<rparr>) t S_Outside) q"
    (is "sem_inv n (at_spc ?s t S_Outside) q")
proof -
  have act: "active (at_spc ?s t S_Outside) q = active s q - {t}" "t \<in> active s q"
    using active_moves(2) [of ?s t q] t by auto
  have card: "Suc (card (active s q - {t})) = card (active s q)"
    using act(2) sem_invD(2) [OF inv] by (intro card_Suc_Diff1)
  show ?thesis
  proof (rule sem_invI)
    show "sleepers (sem_waitq (sem (at_spc ?s t S_Outside))) (users_at S_Asleep (at_spc ?s t S_Outside)) q"
      using sem_invD(1) [OF inv] by (simp add: users_at_drop [OF t])
    show "finite (active (at_spc ?s t S_Outside) q)" using sem_invD(2) [OF inv] act(1) by simp
    assume "q \<noteq> []"
    from sem_invD(3) [OF inv this] card
    have "sint (count (sem s)) - 1 \<le> int (card (active s q - {t}))" by linarith
    then show "sint (count (sem (at_spc ?s t S_Outside))) \<le> int (card (active (at_spc ?s t S_Outside) q))"
      unfolding act(1) by (simp add: sint_u32_step(1) [OF c])
  qed (use sem_invD(4,6,7) [OF inv] c in \<open>simp_all add: sint_u32_step(1) [OF c]\<close>)
qed

lemma sem_inv_block:
  assumes inv: "sem_inv n s q" and t: "spc s t = S_Checking" and c: "\<not> sint (count (sem s)) > 0"
    and w: "wq_sleep (sem_waitq (sem s)) t = Inr w"
  shows "sem_inv n (at_spc (s\<lparr>sem := (sem s)\<lparr>sem_waitq := w\<rparr>\<rparr>) t S_Asleep) (q @ [t])"
proof -
  let ?s = "s\<lparr>sem := (sem s)\<lparr>sem_waitq := w\<rparr>\<rparr>"
  have tA: "t \<notin> users_at S_Asleep s" using t by (simp add: users_at_def)
  then have "t \<notin> set q" using inv by (auto simp: sem_inv_def sleepers_def)
  then have "active (at_spc ?s t S_Asleep) (q @ [t]) = active s q - {t}"
    using active_moves(3) [of ?s t q] t by simp
  moreover have "sleepers w (insert t (users_at S_Asleep s)) (q @ [t])"
    using sleepers_sleep [OF _ tA, of "sem_waitq (sem s)" q] inv w by (simp add: sem_inv_def)
  ultimately show ?thesis using inv c by (auto simp: sem_inv_def)
qed

lemma sem_inv_resume:
  assumes inv: "sem_inv n s q" and t: "spc s t = S_Asleep"
  shows "sem_inv n (at_spc (s\<lparr>sem := (sem s)\<lparr>sem_waitq :=
      set_tst (wq_leave (sem_waitq (sem s)) t) t Running\<rparr>\<rparr>) t S_Checking) (remove1 t q)"
proof -
  let ?w = "set_tst (wq_leave (sem_waitq (sem s)) t) t Running"
  let ?s = "s\<lparr>sem := (sem s)\<lparr>sem_waitq := ?w\<rparr>\<rparr>"
  have sl: "sleepers (sem_waitq (sem s)) (users_at S_Asleep s) q" using inv by (simp add: sem_inv_def)
  have "active (at_spc ?s t S_Checking) (remove1 t q) = insert t (active s q)"
    using active_moves(4) [of ?s t q] t sleepers_distinct [OF sl] by simp
  moreover have "sleepers ?w (users_at S_Asleep s - {t}) (remove1 t q)"
    using sleepers_leave [OF sl] t by (simp add: users_at_def)
  moreover have "remove1 t q \<noteq> [] \<longrightarrow> q \<noteq> []" by auto
  moreover have "int (card (active s q)) \<le> int (card (insert t (active s q)))"
    using inv by (simp add: sem_inv_def card_insert_le)
  ultimately show ?thesis using inv by (auto simp: sem_inv_def)
qed

lemma sem_inv_wake:
  assumes inv: "sem_inv n s q" and t: "spc s t = S_Raising" and m: "sem_up_wake (sem s) = Inr m"
  shows "sem_inv n (at_spc (s\<lparr>sem := m\<rparr>) t S_Outside) (tl q)"
proof -
  have sl: "sleepers (sem_waitq (sem s)) (users_at S_Asleep s) q" using inv by (simp add: sem_inv_def)
  from sleepers_wake [OF sl] m obtain w where
    w: "m = (sem s)\<lparr>sem_waitq := w\<rparr>" "sleepers w (users_at S_Asleep s) (tl q)"
    by (auto simp: sem_up_wake_def)
  show ?thesis
  proof (cases q)
    case Nil
    have "active (at_spc (s\<lparr>sem := m\<rparr>) t S_Outside) [] \<subseteq> active s q"
      using Nil by (auto simp: active_def)
    then show ?thesis
      using inv w Nil finite_subset by (auto simp: sem_inv_def users_at_drop [OF t])
  next
    case (Cons u q')
    have u: "u \<in> users_at S_Asleep s" "u \<notin> set q'" "u \<notin> active s q"
      using sleepers_distinct [OF sl] Cons by (auto simp: active_def users_at_def)
    have tm: "t \<in> active s q" using t by (simp add: active_def users_at_def)
    have "active (at_spc (s\<lparr>sem := m\<rparr>) t S_Outside) q' = insert u (active s q - {t})"
      using Cons u t by (auto simp: active_def users_at_def at_spc_def)
    moreover have "card (insert u (active s q - {t})) = card (active s q)"
    proof -
      have fin: "finite (active s q)" using inv by (simp add: sem_inv_def)
      then have "card (insert u (active s q - {t})) = Suc (card (active s q - {t}))"
        using u(3) by (intro card_insert_disjoint) auto
      then show ?thesis using card_Suc_Diff1 [OF fin tm] by (rule trans)
    qed
    ultimately show ?thesis
      using inv w Cons by (auto simp: sem_inv_def users_at_drop [OF t])
  qed
qed

lemma down_round_cases:
  assumes "sem_down_round m t = Inr (b, m')"
  shows "if b then sint (count m) > 0 \<and> m' = m\<lparr>count := count m - 1\<rparr>
    else \<not> sint (count m) > 0 \<and> (\<exists>w. wq_sleep (sem_waitq m) t = Inr w \<and> m' = m\<lparr>sem_waitq := w\<rparr>)"
  using assms by (cases "wq_sleep (sem_waitq m) t") (auto simp: sem_down_round_def split: if_splits)

text \<open>An overflow needs more ups than the remaining room of the counter.\<close>

definition sem_over :: "u32 \<Rightarrow> sem_sys \<Rightarrow> bool" where
  "sem_over n s \<longleftrightarrow> overflowed s \<and> 2147483648 \<le> sint n + ups s"

lemma sem_step_over: "sem_step s s' \<Longrightarrow> sem_over n s \<Longrightarrow> sem_over n s'"
  by (auto simp: sem_over_def elim!: sem_step.cases)

lemma sem_step_inv:
  assumes step: "sem_step s s'" and inv: "sem_inv n s q"
  shows "(\<exists>q'. sem_inv n s' q') \<or> sem_over n s'"
  using step
proof (cases rule: sem_step.cases)
  case (enter t)
  then show ?thesis using sem_inv_enter [OF inv, of t] by blast
next
  case (take t m)
  then show ?thesis using sem_inv_take [OF inv, of t] down_round_cases [OF take(3)] by auto
next
  case (block t m)
  then show ?thesis using sem_inv_block [OF inv, of t] down_round_cases [OF block(3)] by auto
next
  case (wander t)
  have "sem_inv n s' q"
    unfolding wander(1) using sem_invD [OF inv] by (intro sem_invI) (simp_all add: sleepers_wander)
  then show ?thesis by blast
next
  case (resume t)
  then show ?thesis using sem_inv_resume [OF inv, of t] by blast
next
  case (try_down t m)
  then have "sint (count (sem s)) > 0" "m = (sem s)\<lparr>count := count (sem s) - 1\<rparr>"
    by (auto simp: sem_try_down_def split: if_splits)
  then have "sem_inv n s' q"
    unfolding try_down(1) using sem_invD [OF inv]
    by (intro sem_invI) (simp_all add: sint_u32_step(1))
  then show ?thesis by blast
next
  case (raise t)
  show ?thesis
  proof (cases "sint (count (sem s)) = 2147483647")
    case True
    then show ?thesis using raise sem_invD(4,6) [OF inv] by (simp add: sem_over_def)
  next
    case False
    then show ?thesis using raise sem_inv_raise [OF inv, of t] sem_invD(7) [OF inv] by auto
  qed
next
  case (wake t m)
  then show ?thesis using sem_inv_wake [OF inv, of t m] by blast
qed

lemma sem_reach_inv:
  assumes "sem_reach (sem_start n) s" and "0 \<le> sint n"
  shows "(\<exists>q. sem_inv n s q) \<or> sem_over n s"
  using assms
proof (induction rule: sem_reach.induct)
  case here
  then have "sem_inv n (sem_start n) []"
    by (simp add: sem_inv_def sem_start_def sleepers_def queued_def ring_def users_at_def active_def)
  then show ?case by blast
next
  case (step s s')
  then show ?case using sem_step_inv sem_step_over by blast
qed

section \<open>Properties\<close>

text \<open>C6. Mutual exclusion: in every reachable state at most one task is inside the critical section,
  it is the recorded owner, and its \<^verbatim>\<open>unlock\<close> passes the ownership assertion.\<close>

theorem mutex_exclusion:
  assumes "mutex_reach mutex_start s" and "mpc s t = Inside" and "mpc s u = Inside"
  shows "t = u \<and> owner (mx s) = Some t \<and> (\<exists>m. mutex_unlock_release (mx s) t = Inr m)"
proof -
  from mutex_reach_inv [OF assms(1)] obtain q where "mutex_inv s q" by blast
  then have "mutex_owner s" by (simp add: mutex_inv_def)
  moreover have "t \<in> tasks_at Inside s" "u \<in> tasks_at Inside s" using assms(2,3) by (simp_all add: tasks_at_def)
  ultimately show ?thesis by (auto simp: mutex_owner_def mutex_unlock_release_def split: if_splits)
qed

lemma demo_mutex: "\<exists>s. mutex_reach mutex_start s \<and> mpc s 1 = Inside \<and> mpc s 2 = Asleep \<and>
  tst (waitq (mx s)) 2 = Sleeping"
proof -
  define s1 where "s1 = at_pc mutex_start 1 Checking"
  define m where "m = (mx mutex_start)\<lparr>held := True, owner := Some 1\<rparr>"
  define s2 where "s2 = at_pc (s1\<lparr>mx := m\<rparr>) 1 Inside"
  define s3 where "s3 = at_pc s2 2 Checking"
  have 1: "mutex_step mutex_start s1"
    unfolding s1_def by (rule mutex_step.enter) (simp_all add: mutex_start_def)
  have 2: "mutex_step s1 s2"
    unfolding s2_def by (rule mutex_step.take)
      (simp_all add: s1_def m_def at_pc_def mutex_lock_round_def mutex_start_def)
  have 3: "mutex_step s2 s3"
    unfolding s3_def by (rule mutex_step.enter) (simp_all add: s2_def s1_def m_def at_pc_def mutex_start_def)
  have "queued (waitq (mx mutex_start)) []"
    using mutex_start_inv by (simp add: mutex_inv_def sleepers_def)
  then obtain w where w: "wq_sleep (waitq m) 2 = Inr w" "tst w 2 = Sleeping"
    using queued_sleep [of "waitq (mx mutex_start)" "[]" 2] by (auto simp: m_def mutex_start_def)
  define s4 where "s4 = at_pc (s3\<lparr>mx := m\<lparr>waitq := w\<rparr>\<rparr>) 2 Asleep"
  have "held m" "mx s3 = m" "mpc s3 2 = Checking"
    by (simp_all add: m_def s3_def s2_def at_pc_def)
  then have 4: "mutex_step s3 s4"
    unfolding s4_def using w(1) by (intro mutex_step.block) (simp_all add: mutex_lock_round_def)
  have "mutex_reach mutex_start s4"
    by (rule mutex_reach.step [OF mutex_reach.step [OF mutex_reach.step [OF mutex_reach.step
          [OF mutex_reach.here 1] 2] 3] 4])
  moreover have "mpc s4 1 = Inside" "mpc s4 2 = Asleep" "tst (waitq (mx s4)) 2 = Sleeping"
    using w(2) by (simp_all add: s4_def s3_def s2_def at_pc_def)
  ultimately show ?thesis by blast
qed

theorem mutex_exclusion_witness:
  "\<exists>s. mutex_reach mutex_start s \<and> owner (mx s) = Some 1"
  using demo_mutex mutex_exclusion by blast

text \<open>C7. No lost wake-up on a mutex: while a task sleeps in \<^verbatim>\<open>lock\<close>, the mutex is held, or some task
  is about to call \<^verbatim>\<open>wakeup_one\<close>, or some task that was woken or is in the lock loop will check the
  mutex again.\<close>

theorem mutex_no_lost_wakeup:
  assumes "mutex_reach mutex_start s" and "mpc s t = Asleep" and "tst (waitq (mx s)) t = Sleeping"
  shows "held (mx s) \<or> (\<exists>u. mpc s u = Releasing \<or> mpc s u = Checking \<or>
    (mpc s u = Asleep \<and> tst (waitq (mx s)) u = Runnable))"
proof -
  from mutex_reach_inv [OF assms(1)] obtain q where inv: "mutex_inv s q" by blast
  then have sl: "sleepers (waitq (mx s)) (tasks_at Asleep s) q" by (simp add: mutex_inv_def)
  have "t \<in> set q"
  proof (rule ccontr)
    assume "t \<notin> set q"
    with sl assms(2) have "tst (waitq (mx s)) t = Runnable" by (simp add: sleepers_def tasks_at_def)
    with assms(3) show False by simp
  qed
  then have "held (mx s) \<or> tasks_at Releasing s \<union> tasks_at Checking s \<union> (tasks_at Asleep s - set q) \<noteq> {}"
    using inv by (auto simp: mutex_inv_def mutex_progress_def)
  then show ?thesis using sl by (auto simp: sleepers_def tasks_at_def)
qed

theorem mutex_no_lost_wakeup_witness:
  "\<exists>s. mutex_reach mutex_start s \<and> mpc s 2 = Asleep \<and>
     (held (mx s) \<or> (\<exists>u. mpc s u = Releasing \<or> mpc s u = Checking \<or>
        (mpc s u = Asleep \<and> tst (waitq (mx s)) u = Runnable)))"
  using demo_mutex mutex_no_lost_wakeup by blast

text \<open>C23. Semaphore, with its 32-bit counter: as long as no \<^verbatim>\<open>up\<close> has met the largest \<^verbatim>\<open>int\<close>, which takes
  at least as many ups as the initial count leaves room for, the counter is the initial count plus the
  ups minus the downs and is not negative, so the completed downs never exceed the initial count plus
  the ups; and when a task sleeps in \<^verbatim>\<open>down\<close> while the counter is positive, at least as many tasks as the
  counter allows are awake and will check it or wake another task.\<close>

theorem semaphore_safe_and_live:
  assumes "sem_reach (sem_start n) s" and "0 \<le> sint n"
  shows "if overflowed s then 2147483647 < sint n + ups s
    else downs s \<le> sint n + ups s \<and> sint (count (sem s)) = sint n + ups s - downs s \<and>
      ((\<exists>t. spc s t = S_Asleep \<and> tst (sem_waitq (sem s)) t = Sleeping) \<longrightarrow>
         (\<exists>U. finite U \<and> sint (count (sem s)) \<le> int (card U) \<and>
            (\<forall>u \<in> U. spc s u = S_Checking \<or> spc s u = S_Raising \<or>
               (spc s u = S_Asleep \<and> tst (sem_waitq (sem s)) u = Runnable))))"
proof (cases "overflowed s")
  case True
  then show ?thesis using sem_reach_inv [OF assms] by (auto simp: sem_inv_def sem_over_def)
next
  case False
  with sem_reach_inv [OF assms] obtain q where inv: "sem_inv n s q" by (auto simp: sem_over_def)
  then have sl: "sleepers (sem_waitq (sem s)) (users_at S_Asleep s) q" by (simp add: sem_inv_def)
  have "q \<noteq> []" if "spc s t = S_Asleep" "tst (sem_waitq (sem s)) t = Sleeping" for t
    using sl that by (auto simp: sleepers_def users_at_def)
  moreover have "\<forall>u \<in> active s q. spc s u = S_Checking \<or> spc s u = S_Raising \<or>
      (spc s u = S_Asleep \<and> tst (sem_waitq (sem s)) u = Runnable)"
    using sl by (auto simp: active_def users_at_def sleepers_def)
  ultimately show ?thesis
    using inv False unfolding sem_inv_def by (auto intro!: exI [of _ "active s q"])
qed

theorem semaphore_safe_and_live_witness:
  "\<exists>s. sem_reach (sem_start 2) s \<and> downs s = 1 \<and> \<not> overflowed s \<and> sint (count (sem s)) = 2 + ups s - downs s"
proof -
  let ?s = "(sem_start 2)\<lparr>sem := (sem (sem_start 2))\<lparr>count := 1\<rparr>, downs := 1\<rparr>"
  have "sem_step (sem_start 2) ?s"
    using sem_step.try_down [of "sem_start 2" 1 "(sem (sem_start 2))\<lparr>count := 1\<rparr>"]
    by (simp add: sem_start_def sem_try_down_def)
  then have "sem_reach (sem_start 2) ?s" by (blast intro: sem_reach.intros)
  with semaphore_safe_and_live [OF this] show ?thesis
    by (intro exI [of _ ?s]) (simp add: sem_start_def)
qed

text \<open>Waiters are served in order: tasks that go to sleep on an empty queue are woken first in,
  first out.\<close>

theorem wait_queue_fifo:
  assumes "queued w []" and "\<forall>t \<in> set ts. tst w t \<noteq> Zombie" and "distinct ts"
  shows "wq.pop_all (length ts) (wq.push_all w ts) = ts \<and>
    wq.push_all w ts = foldl wq_push w ts"
proof -
  have "wq.push_all w ts = foldl wq_push w ts" for w ts by (induction ts arbitrary: w) simp_all
  then show ?thesis using wq.first_in_first_out [OF assms] by simp
qed

theorem wait_queue_fifo_witness:
  "wq.pop_all 3 (wq.push_all (waitq (mx mutex_start)) [5, 2, 9]) = [5, 2, 9]"
  using wait_queue_fifo [of "waitq (mx mutex_start)" "[5, 2, 9]"]
  by (simp add: mutex_start_def queued_def ring_def numeral_3_eq_3)

end
