(* ===== verification/Byte_Codec.thy ===== *)
theory Byte_Codec
  imports Kernel_Result
begin

unbundle bit_operations_syntax

text \<open>
  Bytes, strings and calls that thread a state. On-disk and in-memory structures are byte lists;
  a packed structure is read at the offsets of its fields as little-endian words. A C string is the
  list of its bytes before the terminating zero. The combinators at the end are \<^verbatim>\<open>TRY\<close> and
  \<^verbatim>\<open>ENSURE\<close> for methods that change an object and may return an error: the changes made before
  an early return stay.
\<close>

type_synonym bytes = "u8 list"

section \<open>Little-endian words\<close>

fun le_word :: "bytes \<Rightarrow> 'a::len word" where
  "le_word [] = 0"
| "le_word (b # bs) = ucast b OR push_bit 8 (le_word bs)"

fun le_bytes :: "nat \<Rightarrow> 'a::len word \<Rightarrow> bytes" where
  "le_bytes 0 v = []"
| "le_bytes (Suc n) v = ucast v # le_bytes n (drop_bit 8 v)"

lemma length_le_bytes [simp]: "length (le_bytes n v) = n"
  by (induction n arbitrary: v) simp_all

lemma bit_le_word_bytes: "bit (le_word (le_bytes n v) :: 'a::len word) k \<longleftrightarrow> k < 8 * n \<and> bit (v :: 'a word) k"
proof (induction n arbitrary: v k)
  case (Suc n)
  show ?case
  proof (cases "k < LENGTH('a)")
    case True
    then show ?thesis
      by (cases "k < 8") (auto simp: bit_simps Suc.IH)
  next
    case False
    then have "\<not> bit w k" for w :: "'a word" by (meson bit_imp_le_length not_le)
    then show ?thesis by blast
  qed
qed simp

lemma le_word_bytes: "LENGTH('a) \<le> 8 * n \<Longrightarrow> le_word (le_bytes n v) = (v :: 'a::len word)"
  by (rule bit_eqI) (auto simp: bit_le_word_bytes)

lemma ucast_le_word_Cons:
  "8 \<le> LENGTH('a::len) \<Longrightarrow> ucast (le_word (b # bs) :: 'a word) = b"
  by (rule bit_eqI) (auto simp: bit_simps)

lemma drop_le_word_Cons:
  "8 + 8 * length bs \<le> LENGTH('a::len) \<Longrightarrow> drop_bit 8 (le_word (b # bs) :: 'a word) = le_word bs"
proof (rule bit_word_eqI)
  fix k assume len: "8 + 8 * length bs \<le> LENGTH('a)" and "k < LENGTH('a)"
  have bound: "bit (le_word cs :: 'a word) j \<Longrightarrow> j < 8 * length cs" for cs j
  proof (induction cs arbitrary: j)
    case (Cons c cs)
    show ?case
    proof (cases "j < 8")
      case False
      then have "bit (le_word cs :: 'a word) (j - 8)"
        using Cons.prems bit_imp_le_length [of c j] by (auto simp: bit_simps)
      then show ?thesis using Cons.IH [of "j - 8"] by simp
    qed simp
  qed simp
  show "bit (drop_bit 8 (le_word (b # bs) :: 'a word)) k = bit (le_word bs :: 'a word) k"
    using bound [of bs k] len bit_imp_le_length [of b "8 + k"] by (auto simp: bit_simps)
qed

lemma le_bytes_word: "8 * length bs \<le> LENGTH('a::len) \<Longrightarrow> le_bytes (length bs) (le_word bs :: 'a word) = bs"
proof (induction bs)
  case (Cons b bs)
  then show ?case
    by (simp del: le_word.simps add: ucast_le_word_Cons drop_le_word_Cons)
qed simp

lemma le_word_replicate_0 [simp]: "le_word (replicate n 0) = 0"
  by (induction n) simp_all

text \<open>The fields of a packed structure.\<close>

definition le16 :: "bytes \<Rightarrow> nat \<Rightarrow> u16" where "le16 bs i = le_word (take 2 (drop i bs))"
definition le32 :: "bytes \<Rightarrow> nat \<Rightarrow> u32" where "le32 bs i = le_word (take 4 (drop i bs))"
definition le64 :: "bytes \<Rightarrow> nat \<Rightarrow> u64" where "le64 bs i = le_word (take 8 (drop i bs))"

text \<open>Storing bytes over a part of a buffer.\<close>

definition splice :: "bytes \<Rightarrow> nat \<Rightarrow> bytes \<Rightarrow> bytes" where
  "splice bs i vs = take i bs @ vs @ drop (i + length vs) bs"

definition put32 :: "bytes \<Rightarrow> nat \<Rightarrow> u32 \<Rightarrow> bytes" where
  "put32 bs i v = splice bs i (le_bytes 4 v)"

lemma length_splice [simp]: "i + length vs \<le> length bs \<Longrightarrow> length (splice bs i vs) = length bs"
  by (simp add: splice_def)

lemma splice_same: "i + length vs \<le> length bs \<Longrightarrow> take (length vs) (drop i (splice bs i vs)) = vs"
  by (simp add: splice_def)

lemma splice_before: "j + n \<le> i \<Longrightarrow> i \<le> length bs \<Longrightarrow> take n (drop j (splice bs i vs)) = take n (drop j bs)"
  by (simp add: splice_def take_drop min_def)

lemma splice_after:
  "i + length vs \<le> j \<Longrightarrow> i + length vs \<le> length bs \<Longrightarrow> drop j (splice bs i vs) = drop j bs"
  by (simp add: splice_def)

lemma length_put32 [simp]: "i + 4 \<le> length bs \<Longrightarrow> length (put32 bs i v) = length bs"
  by (simp add: put32_def)

lemma le32_put32: "i + 4 \<le> length bs \<Longrightarrow> le32 (put32 bs i v) i = v"
  using splice_same [of i "le_bytes 4 v" bs] by (simp add: le32_def put32_def le_word_bytes)

lemma le32_put32_other:
  "i + 4 \<le> length bs \<Longrightarrow> j + 4 \<le> i \<or> i + 4 \<le> j \<Longrightarrow> le32 (put32 bs i v) j = le32 bs j"
  using splice_before [of j 4 i bs "le_bytes 4 v"] splice_after [of i "le_bytes 4 v" j bs]
  by (auto simp: le32_def put32_def)

section \<open>C strings\<close>

definition str :: "string \<Rightarrow> bytes" where
  "str s = map (\<lambda>c. of_nat (of_char c)) s"

abbreviation ch_slash :: u8 where "ch_slash \<equiv> 0x2F"
abbreviation ch_dot :: u8 where "ch_dot \<equiv> 0x2E"
abbreviation ch_space :: u8 where "ch_space \<equiv> 0x20"

definition cut :: "bytes \<Rightarrow> bytes" where
  "cut bs = takeWhile (\<lambda>b. b \<noteq> 0) bs"

fun str_starts_with :: "bytes \<Rightarrow> bytes \<Rightarrow> bool" where
  "str_starts_with s [] = True"
| "str_starts_with [] (p # ps) = False"
| "str_starts_with (c # cs) (p # ps) = (c = p \<and> str_starts_with cs ps)"

fun str_skip_char :: "bytes \<Rightarrow> u8 \<Rightarrow> bytes" where
  "str_skip_char [] ch = []"
| "str_skip_char (c # cs) ch = (if c = ch then str_skip_char cs ch else c # cs)"

text \<open>\<^verbatim>\<open>strncpy\<close> into a buffer of \<open>n\<close> bytes whose last byte is then set to zero.\<close>

definition strncpy_cut :: "nat \<Rightarrow> bytes \<Rightarrow> bytes" where
  "strncpy_cut n s = take (n - 1) s"

lemma str_starts_with_append: "str_starts_with s p \<longleftrightarrow> (\<exists>t. s = p @ t)"
  by (induction s p rule: str_starts_with.induct) auto

lemma str_skip_char_dropWhile: "str_skip_char s ch = dropWhile (\<lambda>c. c = ch) s"
  by (induction s ch rule: str_skip_char.induct) auto

section \<open>Methods that change a state and may fail\<close>

type_synonym ('s, 'a) op = "'s \<Rightarrow> (error + 'a) \<times> 's"

definition op_ok :: "'a \<Rightarrow> ('s, 'a) op" where
  "op_ok a s = (Inr a, s)"

definition op_fail :: "error \<Rightarrow> ('s, 'a) op" where
  "op_fail e s = (Inl e, s)"

definition op_try :: "('s, 'a) op \<Rightarrow> ('a \<Rightarrow> ('s, 'b) op) \<Rightarrow> ('s, 'b) op" where
  "op_try m k s = (case m s of (Inl e, s') \<Rightarrow> (Inl e, s') | (Inr a, s') \<Rightarrow> k a s')"

definition op_ensure :: "bool \<Rightarrow> error \<Rightarrow> ('s, 'a) op \<Rightarrow> ('s, 'a) op" where
  "op_ensure c e k s = (if c then k s else (Inl e, s))"

definition op_catch :: "('s, 'a) op \<Rightarrow> (error \<Rightarrow> ('s, 'b) op) \<Rightarrow> ('a \<Rightarrow> ('s, 'b) op) \<Rightarrow> ('s, 'b) op" where
  "op_catch m h k s = (case m s of (Inl e, s') \<Rightarrow> h e s' | (Inr a, s') \<Rightarrow> k a s')"

lemma op_simps [simp]:
  "op_ok a s = (Inr a, s)"
  "op_fail e s = (Inl e, s)"
  "op_ensure True e k = k"
  "op_ensure False e k s = (Inl e, s)"
  by (simp_all add: op_ok_def op_fail_def op_ensure_def fun_eq_iff)

lemma op_try_Inr: "m s = (Inr a, s') \<Longrightarrow> op_try m k s = k a s'"
  by (simp add: op_try_def)

lemma op_try_Inl: "m s = (Inl e, s') \<Longrightarrow> op_try m k s = (Inl e, s')"
  by (simp add: op_try_def)

lemma op_try_cases:
  assumes "op_try m k s = (r, s')"
  obtains (fail) e where "m s = (Inl e, s')" "r = Inl e"
  | (step) a s1 where "m s = (Inr a, s1)" "k a s1 = (r, s')"
  using assms by (auto simp: op_try_def split: prod.splits sum.splits)

lemma op_ensure_cases:
  assumes "op_ensure c e k s = (r, s')"
  obtains (fail) "\<not> c" "r = Inl e" "s' = s" | (step) "c" "k s = (r, s')"
  using assms by (auto simp: op_ensure_def split: if_splits)

text \<open>A call repeated for each element of a list, stopping at the first error.\<close>

fun op_each :: "('a \<Rightarrow> ('s, unit) op) \<Rightarrow> 'a list \<Rightarrow> ('s, unit) op" where
  "op_each f [] = op_ok ()"
| "op_each f (x # xs) = op_try (f x) (\<lambda>_. op_each f xs)"

section \<open>Operations that may not end\<close>

type_synonym ('s, 'a) xop = "'s \<Rightarrow> ((error + 'a) \<times> 's) option"

definition x_of :: "('s, 'a) op \<Rightarrow> ('s, 'a) xop" where
  "x_of m s = Some (m s)"

definition x_ok :: "'a \<Rightarrow> ('s, 'a) xop" where
  "x_ok a s = Some (Inr a, s)"

definition x_fail :: "error \<Rightarrow> ('s, 'a) xop" where
  "x_fail e s = Some (Inl e, s)"

definition x_catch :: "('s, 'a) xop \<Rightarrow> (error \<Rightarrow> ('s, 'b) xop) \<Rightarrow> ('a \<Rightarrow> ('s, 'b) xop) \<Rightarrow> ('s, 'b) xop" where
  "x_catch m h k s =
     (case m s of None \<Rightarrow> None | Some (Inl e, s') \<Rightarrow> h e s' | Some (Inr a, s') \<Rightarrow> k a s')"

definition x_try :: "('s, 'a) xop \<Rightarrow> ('a \<Rightarrow> ('s, 'b) xop) \<Rightarrow> ('s, 'b) xop" where
  "x_try m k = x_catch m x_fail k"

definition x_ensure :: "bool \<Rightarrow> error \<Rightarrow> ('s, 'a) xop \<Rightarrow> ('s, 'a) xop" where
  "x_ensure c e k = (if c then k else x_fail e)"

lemma x_simps [simp]:
  "x_of m s = Some (m s)" "x_ok a s = Some (Inr a, s)" "x_fail e s = Some (Inl e, s)"
  "x_ensure True e k = k" "x_ensure False e k = x_fail e"
  by (simp_all add: x_of_def x_ok_def x_fail_def x_ensure_def)

lemma x_try_Inr: "m s = Some (Inr a, s') \<Longrightarrow> x_try m k s = k a s'"
  by (simp add: x_try_def x_catch_def)

lemma x_try_Inl: "m s = Some (Inl e, s') \<Longrightarrow> x_try m k s = Some (Inl e, s')"
  by (simp add: x_try_def x_catch_def)

lemma x_catch_Inr: "m s = Some (Inr a, s') \<Longrightarrow> x_catch m h k s = k a s'"
  by (simp add: x_catch_def)

section \<open>Operations that may also fail an assertion\<close>

type_synonym ('s, 'a) kop = "'s \<Rightarrow> ((error + 'a) \<times> 's) exec"

definition k_ret :: "error + 'a \<Rightarrow> ('s, 'a) kop" where
  "k_ret r s = Some (Inr (r, s))"

definition k_of :: "('s, 'a) op \<Rightarrow> ('s, 'a) kop" where
  "k_of m s = Some (Inr (m s))"

definition k_bind :: "('s, 'a) kop \<Rightarrow> (error + 'a \<Rightarrow> ('s, 'b) kop) \<Rightarrow> ('s, 'b) kop" where
  "k_bind m k s =
     (case m s of None \<Rightarrow> None | Some (Inl f) \<Rightarrow> Some (Inl f) | Some (Inr (r, s')) \<Rightarrow> k r s')"

definition k_try :: "('s, 'a) kop \<Rightarrow> ('a \<Rightarrow> ('s, 'b) kop) \<Rightarrow> ('s, 'b) kop" where
  "k_try m k = k_bind m (\<lambda>r. case r of Inl e \<Rightarrow> k_ret (Inl e) | Inr a \<Rightarrow> k a)"

definition k_ensure :: "bool \<Rightarrow> error \<Rightarrow> ('s, 'a) kop \<Rightarrow> ('s, 'a) kop" where
  "k_ensure c e k = (if c then k else k_ret (Inl e))"

text \<open>\<^verbatim>\<open>assert(c)\<close> before the rest.\<close>

definition k_assert :: "('s \<Rightarrow> bool) \<Rightarrow> ('s, 'a) kop \<Rightarrow> ('s, 'a) kop" where
  "k_assert c k s = (if c s then k s else Some (Inl Panicked))"

lemma k_simps [simp]:
  "k_ret r s = Some (Inr (r, s))" "k_of m s = Some (Inr (m s))"
  "k_ensure True e k = k" "k_ensure False e k = k_ret (Inl e)"
  by (simp_all add: k_ret_def k_of_def k_ensure_def)

text \<open>
  What a call leaves behind: it passes every assertion, and whenever it returns its result and
  state are related to the state before it.
\<close>

definition k_holds :: "('s, 'a) kop \<Rightarrow> 's \<Rightarrow> (error + 'a \<Rightarrow> 's \<Rightarrow> bool) \<Rightarrow> bool" where
  "k_holds m s Q = (case m s of None \<Rightarrow> True | Some (Inl f) \<Rightarrow> False | Some (Inr (r, s')) \<Rightarrow> Q r s')"

lemma k_holds_bind:
  assumes "k_holds m s P" and "\<And>r s'. P r s' \<Longrightarrow> k_holds (k r) s' Q"
  shows "k_holds (k_bind m k) s Q"
proof (cases "m s")
  case (Some x)
  show ?thesis
  proof (cases x)
    case (Inr p)
    with Some assms(1) have "P (fst p) (snd p)" by (simp add: k_holds_def case_prod_beta)
    from assms(2) [OF this] Some Inr show ?thesis by (simp add: k_holds_def k_bind_def case_prod_beta)
  qed (use assms(1) Some in \<open>simp add: k_holds_def\<close>)
qed (simp add: k_holds_def k_bind_def)

lemma k_holds_ret [simp]: "k_holds (k_ret r) s Q = Q r s"
  by (simp add: k_holds_def)

lemma k_holds_mono:
  assumes "k_holds m s P" and "\<And>r s'. P r s' \<Longrightarrow> Q r s'"
  shows "k_holds m s Q"
  using assms by (auto simp: k_holds_def split: option.splits sum.splits)

lemma k_holds_try:
  assumes "k_holds m s P" and "\<And>e s'. P (Inl e) s' \<Longrightarrow> Q (Inl e) s'"
    and "\<And>a s'. P (Inr a) s' \<Longrightarrow> k_holds (k a) s' Q"
  shows "k_holds (k_try m k) s Q"
  unfolding k_try_def
  by (rule k_holds_bind [OF assms(1)]) (auto split: sum.splits intro: assms(2,3))

lemma k_holds_of: "k_holds (k_of m) s Q = (case m s of (r, s') \<Rightarrow> Q r s')"
  by (simp add: k_holds_def split: prod.splits)

end
