(* ===== verification/Block_Layer.thy ===== *)
theory Block_Layer
  imports Byte_Codec
begin

text \<open>
  The block layer of \<^verbatim>\<open>kernel/block\<close>. A block device is an object with virtual methods
  \<^verbatim>\<open>read\<close> and \<^verbatim>\<open>write\<close>; its clients see the record of these operations. The locale
  \<open>block_store\<close> is the contract that a working device offers: a successful transfer reads or
  replaces exactly the addressed sectors. The second part is the registry of devices.
\<close>

section \<open>Devices\<close>

datatype device_type = Type_None | Disk | Swap

datatype device_state = Offline | Initializing | Ready | Quarantined

definition BLOCK_SIZE_BYTES :: nat where "BLOCK_SIZE_BYTES = 512"

text \<open>
  \<open>dev_read d lba n\<close> returns the status, the bytes that the transfer stored at the start of the
  caller's buffer (all \<open>512 * n\<close> of them on success) and the device after the call.
\<close>

record 'd block_ops =
  dev_read :: "'d \<Rightarrow> u32 \<Rightarrow> nat \<Rightarrow> error \<times> bytes \<times> 'd"
  dev_write :: "'d \<Rightarrow> u32 \<Rightarrow> bytes \<Rightarrow> nat \<Rightarrow> error \<times> 'd"
  dev_blocks :: "'d \<Rightarrow> u32"

definition sectors_from :: "(nat \<Rightarrow> bytes) \<Rightarrow> nat \<Rightarrow> nat \<Rightarrow> bytes" where
  "sectors_from f a n = concat (map f [a..<a + n])"

definition write_sectors :: "(nat \<Rightarrow> bytes) \<Rightarrow> nat \<Rightarrow> nat \<Rightarrow> bytes \<Rightarrow> nat \<Rightarrow> bytes" where
  "write_sectors f a n bs =
     (\<lambda>i. if a \<le> i \<and> i < a + n then take 512 (drop (512 * (i - a)) bs) else f i)"

text \<open>Two states of a device with the same size and, as seen through \<open>sector\<close>, given contents.\<close>

definition holds :: "'d block_ops \<Rightarrow> ('d \<Rightarrow> nat \<Rightarrow> bytes) \<Rightarrow> ('d \<Rightarrow> bool) \<Rightarrow> 'd \<Rightarrow> 'd \<Rightarrow> (nat \<Rightarrow> bytes) \<Rightarrow> bool" where
  "holds io sector ready d d' f \<longleftrightarrow>
     ready d' \<and> dev_blocks io d' = dev_blocks io d \<and> sector d' = f"

locale block_store =
  fixes io :: "'d block_ops" and sector :: "'d \<Rightarrow> nat \<Rightarrow> bytes" and ready :: "'d \<Rightarrow> bool"
  assumes read_ok: "ready d \<Longrightarrow> unat lba + n \<le> unat (dev_blocks io d) \<Longrightarrow>
      \<exists>d'. dev_read io d lba n = (Err_None, sectors_from (sector d) (unat lba) n, d') \<and>
           holds io sector ready d d' (sector d)"
    and write_ok: "ready d \<Longrightarrow> unat lba + n \<le> unat (dev_blocks io d) \<Longrightarrow> length bs = 512 * n \<Longrightarrow>
      \<exists>d'. dev_write io d lba bs n = (Err_None, d') \<and>
           holds io sector ready d d' (write_sectors (sector d) (unat lba) n bs)"
    and read_any: "ready d \<Longrightarrow> dev_read io d lba n = (err, bs, d') \<Longrightarrow> holds io sector ready d d' (sector d)"
    and sector_length: "ready d \<Longrightarrow> i < unat (dev_blocks io d) \<Longrightarrow> length (sector d i) = 512"
begin

text \<open>Reading back what was written, and what other sectors hold.\<close>

lemma write_then_read:
  assumes "ready d" and "unat lba + n \<le> unat (dev_blocks io d)" and "length bs = 512 * n"
  shows "\<exists>d1 d2. dev_write io d lba bs n = (Err_None, d1) \<and>
    dev_read io d1 lba n = (Err_None, sectors_from (write_sectors (sector d) (unat lba) n bs) (unat lba) n, d2)"
proof -
  from write_ok [OF assms] obtain d1 where d1: "dev_write io d lba bs n = (Err_None, d1)"
    "holds io sector ready d d1 (write_sectors (sector d) (unat lba) n bs)" by blast
  then have "ready d1" "unat lba + n \<le> unat (dev_blocks io d1)"
    "sector d1 = write_sectors (sector d) (unat lba) n bs"
    using assms(2) by (simp_all add: holds_def)
  with read_ok [of d1 lba n] d1(1) show ?thesis by auto
qed

end

lemma length_concat_const: "(\<And>x. x \<in> set xs \<Longrightarrow> length (f x) = k) \<Longrightarrow> length (concat (map f xs)) = k * length xs"
  by (induction xs) auto

lemma sectors_from_Suc: "sectors_from f a (Suc n) = f a @ sectors_from f (Suc a) n"
  proof -
  have "[a..<a + Suc n] = a # [Suc a..<Suc a + n]" by (simp add: upt_conv_Cons del: upt_Suc)
  then show ?thesis by (simp add: sectors_from_def del: upt_Suc)
qed

lemma sectors_from_0 [simp]: "sectors_from f a 0 = []"
  by (simp add: sectors_from_def)

lemma sectors_from_1 [simp]: "sectors_from f a (Suc 0) = f a"
  by (simp add: sectors_from_Suc)

lemma sectors_from_cong:
  "(\<And>i. a \<le> i \<Longrightarrow> i < a + n \<Longrightarrow> f i = g i) \<Longrightarrow> sectors_from f a n = sectors_from g a n"
  by (induction n arbitrary: a) (auto simp: sectors_from_Suc)

text \<open>The sectors just written are the written bytes.\<close>

lemma sectors_from_written: "length bs = 512 * n \<Longrightarrow> sectors_from (write_sectors f a n bs) a n = bs"
proof (induction n arbitrary: a bs f)
  case (Suc n)
  have "write_sectors f a (Suc n) bs a = take 512 bs" by (simp add: write_sectors_def)
  moreover have "sectors_from (write_sectors f a (Suc n) bs) (Suc a) n =
      sectors_from (write_sectors f (Suc a) n (drop 512 bs)) (Suc a) n"
  proof (rule sectors_from_cong)
    fix i assume "Suc a \<le> i" "i < Suc a + n"
    moreover from this obtain k where "i = Suc a + k" by (metis le_Suc_ex)
    ultimately show "write_sectors f a (Suc n) bs i = write_sectors f (Suc a) n (drop 512 bs) i"
      by (simp add: write_sectors_def add.commute)
  qed
  ultimately show ?case using Suc by (simp add: sectors_from_Suc)
qed simp

section \<open>A disk image in memory\<close>

text \<open>
  The memory-backed device \<^verbatim>\<open>FatImage\<close> of \<^verbatim>\<open>kernel/test/unit/fs/fat_validation_test.cpp\<close>
  without injected failures, a provider of the contract on which the file-system theorems are applied.
\<close>

record disk_image =
  img :: "nat \<Rightarrow> bytes"
  img_blocks :: u32

definition image_read :: "disk_image \<Rightarrow> u32 \<Rightarrow> nat \<Rightarrow> error \<times> bytes \<times> disk_image" where
  "image_read im lba n =
     (if img_blocks im < lba \<or> unat (img_blocks im - lba) < n then (Io, [], im)
      else (Err_None, sectors_from (img im) (unat lba) n, im))"

definition image_write :: "disk_image \<Rightarrow> u32 \<Rightarrow> bytes \<Rightarrow> nat \<Rightarrow> error \<times> disk_image" where
  "image_write im lba bs n =
     (if img_blocks im < lba \<or> unat (img_blocks im - lba) < n then (Io, im)
      else (Err_None, im\<lparr>img := write_sectors (img im) (unat lba) n bs\<rparr>))"

definition image_ops :: "disk_image block_ops" where
  "image_ops = \<lparr>dev_read = image_read, dev_write = image_write, dev_blocks = img_blocks\<rparr>"

definition image_ready :: "disk_image \<Rightarrow> bool" where
  "image_ready im \<longleftrightarrow> (\<forall>i. length (img im i) = 512)"

lemma image_in_range:
  assumes "unat lba + n \<le> unat (b :: u32)"
  shows "\<not> (b < lba \<or> unat (b - lba) < n)"
proof -
  have "unat (b - lba) = unat b - unat lba" using assms by (intro unat_sub) (simp add: word_le_nat_alt)
  then show ?thesis using assms by (auto simp: word_less_nat_alt)
qed

interpretation image: block_store image_ops img image_ready
proof
  fix d and lba :: u32 and n
  assume "image_ready d" and "unat lba + n \<le> unat (dev_blocks image_ops d)"
  then show "\<exists>d'. dev_read image_ops d lba n = (Err_None, sectors_from (img d) (unat lba) n, d') \<and>
      holds image_ops img image_ready d d' (img d)"
    using image_in_range [of lba n "img_blocks d"] by (simp add: image_ops_def image_read_def holds_def)
next
  fix d and lba :: u32 and n and bs :: bytes
  assume r: "image_ready d" and fit: "unat lba + n \<le> unat (dev_blocks image_ops d)" and len: "length bs = 512 * n"
  have "length (write_sectors (img d) (unat lba) n bs i) = 512" for i
  proof (cases "unat lba \<le> i \<and> i < unat lba + n")
    case True
    then have "512 * (i - unat lba) + 512 \<le> 512 * n" by linarith
    with True len show ?thesis by (simp add: write_sectors_def)
  next
    case False
    then show ?thesis using r by (auto simp: write_sectors_def image_ready_def)
  qed
  then show "\<exists>d'. dev_write image_ops d lba bs n = (Err_None, d') \<and>
      holds image_ops img image_ready d d' (write_sectors (img d) (unat lba) n bs)"
    using image_in_range [of lba n "img_blocks d"] fit
    by (simp add: image_ops_def image_write_def holds_def image_ready_def)
qed (auto simp: image_ready_def image_ops_def image_read_def holds_def split: if_splits)

section \<open>The registry\<close>

text \<open>
  A registered device is named by the address of its object; \<open>bdev\<close> gives the fields of the object.
  \<^verbatim>\<open>try_push_back\<close> of a fixed-capacity vector appends unless the vector is full.
\<close>

record block_dev =
  bd_type :: device_type
  bd_count :: u32
  bd_name :: bytes

definition MAX_DEVICES :: nat where "MAX_DEVICES = 4"

definition try_push_back :: "nat \<Rightarrow> 'a list \<Rightarrow> 'a \<Rightarrow> 'a list option" where
  "try_push_back cap xs x = (if length xs < cap then Some (xs @ [x]) else None)"

fun check_devices :: "nat list \<Rightarrow> nat option list \<Rightarrow> nat option list \<Rightarrow> error + unit" where
  "check_devices registered before [] = Inr ()"
| "check_devices registered before (None # ds) = Inl Invalid"
| "check_devices registered before (Some d # ds) =
     (if d \<in> set registered then Inl Exists
      else if Some d \<in> set before then Inl Exists
      else check_devices registered (before @ [Some d]) ds)"

fun push_devices :: "nat list \<Rightarrow> nat option list \<Rightarrow> fault + nat list" where
  "push_devices registered [] = Inr registered"
| "push_devices registered (d # ds) =
     (case d of None \<Rightarrow> Inl Panicked
      | Some a \<Rightarrow>
        (case try_push_back MAX_DEVICES registered a of
           None \<Rightarrow> Inl Panicked
         | Some registered' \<Rightarrow> push_devices registered' ds))"

text \<open>\<open>None\<close> is a null array.\<close>

definition register_devices :: "nat list \<Rightarrow> nat option list option \<Rightarrow> nat \<Rightarrow> fault + (error \<times> nat list)" where
  "register_devices registered devices count =
     (if devices = None \<and> count \<noteq> 0 then Inr (Invalid, registered)
      else if \<not> count \<le> MAX_DEVICES - length registered then Inr (Full, registered)
      else let ds = take count (case devices of None \<Rightarrow> [] | Some ds \<Rightarrow> ds)
           in case check_devices registered [] ds of
                Inl e \<Rightarrow> Inr (e, registered)
              | Inr _ \<Rightarrow> map_sum id (\<lambda>r. (Err_None, r)) (push_devices registered ds))"

definition register_device :: "nat list \<Rightarrow> nat option \<Rightarrow> fault + (error \<times> nat list)" where
  "register_device registered d = register_devices registered (Some [d]) 1"

definition find_device_name :: "(nat \<Rightarrow> block_dev) \<Rightarrow> nat list \<Rightarrow> bytes option \<Rightarrow> nat option" where
  "find_device_name bdev registered name =
     (case name of None \<Rightarrow> None | Some n \<Rightarrow> find (\<lambda>d. bd_name (bdev d) = n) registered)"

definition find_device_index :: "nat list \<Rightarrow> int \<Rightarrow> nat option" where
  "find_device_index registered index =
     (if index < 0 \<or> int (length registered) \<le> index then None else Some (registered ! nat index))"

definition find_device_type :: "(nat \<Rightarrow> block_dev) \<Rightarrow> nat list \<Rightarrow> device_type \<Rightarrow> nat option" where
  "find_device_type bdev registered ty = find (\<lambda>d. bd_type (bdev d) = ty) registered"

definition device_count :: "nat list \<Rightarrow> int" where
  "device_count registered = int (length registered)"

lemma check_devices_ok:
  "check_devices registered before ds = Inr () \<longleftrightarrow>
     (\<exists>as. ds = map Some as \<and> distinct as \<and> set as \<inter> set registered = {} \<and>
       (\<forall>a \<in> set as. Some a \<notin> set before))"
proof (induction registered before ds rule: check_devices.induct)
  case (3 registered before d ds)
  show ?case
  proof (cases "d \<in> set registered \<or> Some d \<in> set before")
    case False
    then show ?thesis
      using 3 by (auto simp: Cons_eq_map_conv)
  qed (auto simp: Cons_eq_map_conv)
qed auto

lemma push_devices_ok:
  "length registered + length as \<le> MAX_DEVICES \<Longrightarrow> push_devices registered (map Some as) = Inr (registered @ as)"
  by (induction as arbitrary: registered) (simp_all add: try_push_back_def)

text \<open>The device at index \<open>i\<close> is refused: it is null, registered already, or listed before.\<close>

definition refused :: "nat list \<Rightarrow> nat option list \<Rightarrow> nat \<Rightarrow> bool" where
  "refused registered ds i \<longleftrightarrow>
     ds ! i = None \<or> ds ! i \<in> Some ` set registered \<or> ds ! i \<in> set (take i ds)"

lemma check_devices_first:
  "check_devices registered before ds =
     (case find (refused registered (before @ ds)) [length before..<length before + length ds] of
        None \<Rightarrow> Inr ()
      | Some i \<Rightarrow> Inl (if (before @ ds) ! i = None then Invalid else Exists))"
proof (induction registered before ds rule: check_devices.induct)
  case (2 registered before ds)
  then show ?case by (simp add: upt_rec refused_def)
next
  case (3 registered before d ds)
  have "[length before..<length before + length (Some d # ds)] =
      length before # [length (before @ [Some d])..<length (before @ [Some d]) + length ds]"
    by (simp add: upt_rec)
  moreover have "refused registered (before @ Some d # ds) (length before) \<longleftrightarrow>
      d \<in> set registered \<or> Some d \<in> set before"
    by (auto simp: refused_def)
  moreover have app: "(before @ [Some d]) @ ds = before @ Some d # ds" by simp
  ultimately show ?case using 3 [unfolded app] by (simp del: upt_Suc)
qed simp

lemma check_devices_error:
  assumes "i < length ds" and "refused registered ds i" and "\<forall>j<i. \<not> refused registered ds j"
  shows "check_devices registered [] ds = Inl (if ds ! i = None then Invalid else Exists)"
proof -
  have "find (refused registered ds) [0..<length ds] = Some i"
    unfolding find_Some_iff using assms by (intro exI [of _ i]) simp
  then show ?thesis using check_devices_first [of registered "[]" ds] by simp
qed

lemma check_devices_accept:
  assumes "\<forall>i<length ds. \<not> refused registered ds i"
  shows "\<exists>as. ds = map Some as \<and> distinct as \<and> set as \<inter> set registered = {} \<and>
    check_devices registered [] ds = Inr ()"
proof -
  have "find (refused registered ds) [0..<length ds] = None" using assms by (simp add: find_None_iff)
  then have "check_devices registered [] ds = Inr ()" using check_devices_first [of registered "[]" ds] by simp
  then show ?thesis using check_devices_ok [of registered "[]" ds] by blast
qed

text \<open>C32. Registration is atomic and reports the first violated check: \<^verbatim>\<open>register_devices\<close> never trips
  its assertion. A null array with a positive count is Invalid, and more devices than free places are
  Full. Otherwise the first device that is null, registered already or repeated decides: Invalid for a
  null device and Exists for the others. In all these cases the registry is unchanged. When no check is
  violated the whole batch is appended in order, and the registry stays free of duplicates and within
  its capacity.\<close>

theorem register_devices_atomic:
  assumes "length registered \<le> MAX_DEVICES" and "distinct registered"
    and "ds = take count (case devices of None \<Rightarrow> [] | Some a \<Rightarrow> a)"
  shows "\<exists>e r. register_devices registered devices count = Inr (e, r) \<and>
    (if devices = None \<and> count \<noteq> 0 then e = Invalid \<and> r = registered
     else if MAX_DEVICES < length registered + count then e = Full \<and> r = registered
     else if \<exists>i<length ds. refused registered ds i
       then r = registered \<and> (\<exists>i<length ds. refused registered ds i \<and> (\<forall>j<i. \<not> refused registered ds j) \<and>
              e = (if ds ! i = None then Invalid else Exists))
     else e = Err_None \<and> map Some r = map Some registered @ ds \<and> distinct r \<and> length r \<le> MAX_DEVICES)"
proof (cases "devices = None \<and> count \<noteq> 0 \<or> MAX_DEVICES < length registered + count")
  case True
  then show ?thesis using assms(1) by (auto simp: register_devices_def)
next
  case fits: False
  then have run: "register_devices registered devices count =
      (case check_devices registered [] ds of
         Inl e \<Rightarrow> Inr (e, registered)
       | Inr _ \<Rightarrow> map_sum id (\<lambda>r. (Err_None, r)) (push_devices registered ds))"
    unfolding register_devices_def Let_def assms(3) [symmetric] using assms(1) by auto
  show ?thesis
  proof (cases "\<exists>i<length ds. refused registered ds i")
    case True
    then obtain i where i: "i < length ds" "refused registered ds i" "\<forall>j<i. \<not> refused registered ds j"
      using exists_least_iff [of "\<lambda>i. i < length ds \<and> refused registered ds i"] by (metis order.strict_trans)
    from check_devices_error [OF i] run i True fits show ?thesis by auto
  next
    case False
    then obtain as where as: "ds = map Some as" "distinct as" "set as \<inter> set registered = {}"
        "check_devices registered [] ds = Inr ()"
      using check_devices_accept by blast
    have "length as \<le> count" using as(1) assms(3) by (metis length_map length_take min.cobounded2)
    then have fit: "length registered + length as \<le> MAX_DEVICES" using fits by linarith
    then have "register_devices registered devices count = Inr (Err_None, registered @ as)"
      using run as(1,4) push_devices_ok [OF fit] by simp
    then show ?thesis using False fits fit as assms(2) by auto
  qed
qed

theorem register_devices_atomic_witness:
  "register_devices [7] (Some [Some 3, Some 5]) 2 = Inr (Err_None, [7, 3, 5])"
proof -
  have "\<not> (\<exists>i<length [Some 3, Some (5 :: nat)]. refused [7] [Some 3, Some 5] i)"
    by (auto simp: refused_def less_Suc_eq)
  then obtain e r where "register_devices [7] (Some [Some 3, Some 5]) 2 = Inr (e, r)" "e = Err_None"
    "map Some r = map Some [7] @ [Some 3, Some 5]"
    using register_devices_atomic [of "[7]" "[Some 3, Some 5]" 2 "Some [Some 3, Some 5]"]
    by (auto simp: MAX_DEVICES_def)
  moreover from this(3) have "r = [7, 3, 5]" by (auto simp: Cons_eq_map_conv)
  ultimately show ?thesis by simp
qed

end
