(* ===== verification/Fat_Format.thy ===== *)
theory Fat_Format
  imports Block_Layer
begin

unbundle bit_operations_syntax

text \<open>
  On-disk formats of \<^verbatim>\<open>include/base/bpb.h\<close>, \<^verbatim>\<open>include/base/mbr.h\<close> and
  \<^verbatim>\<open>include/base/gpt.h\<close>: the packed structures as records with their decoders, directory entries
  also with their encoder, and the search for the EFI system partition. The theory shows that
  directory entries survive encoding and decoding and that 8.3 names survive being stored.
\<close>

section \<open>Directory entries\<close>

definition FAT_ATTR_VOLUME_ID :: u8 where "FAT_ATTR_VOLUME_ID = 0x08"
definition FAT_ATTR_DIRECTORY :: u8 where "FAT_ATTR_DIRECTORY = 0x10"
definition FAT_ATTR_ARCHIVE :: u8 where "FAT_ATTR_ARCHIVE = 0x20"
definition FAT_ATTR_LFN :: u8 where "FAT_ATTR_LFN = 0x0F"

record dir_entry =
  de_name :: bytes
  de_ext :: bytes
  de_attr :: u8
  nt_reserved :: u8
  create_time_tenth :: u8
  create_time :: u16
  create_date :: u16
  last_access_date :: u16
  first_cluster_high :: u16
  write_time :: u16
  write_date :: u16
  first_cluster_low :: u16
  file_size :: u32

definition decode_entry :: "bytes \<Rightarrow> dir_entry" where
  "decode_entry bs = \<lparr>de_name = take 8 bs, de_ext = take 3 (drop 8 bs), de_attr = bs ! 11,
     nt_reserved = bs ! 12, create_time_tenth = bs ! 13, create_time = le16 bs 14,
     create_date = le16 bs 16, last_access_date = le16 bs 18, first_cluster_high = le16 bs 20,
     write_time = le16 bs 22, write_date = le16 bs 24, first_cluster_low = le16 bs 26,
     file_size = le32 bs 28\<rparr>"

definition encode_entry :: "dir_entry \<Rightarrow> bytes" where
  "encode_entry e = de_name e @ de_ext e @ [de_attr e, nt_reserved e, create_time_tenth e] @
     le_bytes 2 (create_time e) @ le_bytes 2 (create_date e) @ le_bytes 2 (last_access_date e) @
     le_bytes 2 (first_cluster_high e) @ le_bytes 2 (write_time e) @ le_bytes 2 (write_date e) @
     le_bytes 2 (first_cluster_low e) @ le_bytes 4 (file_size e)"

text \<open>\<^verbatim>\<open>FatDirEntry e{}\<close>\<close>

definition zero_entry :: dir_entry where
  "zero_entry = \<lparr>de_name = replicate 8 0, de_ext = replicate 3 0, de_attr = 0, nt_reserved = 0,
     create_time_tenth = 0, create_time = 0, create_date = 0, last_access_date = 0,
     first_cluster_high = 0, write_time = 0, write_date = 0, first_cluster_low = 0, file_size = 0\<rparr>"

definition wf_entry :: "dir_entry \<Rightarrow> bool" where
  "wf_entry e \<longleftrightarrow> length (de_name e) = 8 \<and> length (de_ext e) = 3"

definition is_end :: "dir_entry \<Rightarrow> bool" where
  "is_end e \<longleftrightarrow> de_name e ! 0 = 0"

definition is_deleted :: "dir_entry \<Rightarrow> bool" where
  "is_deleted e \<longleftrightarrow> de_name e ! 0 = 0xE5"

definition is_directory :: "dir_entry \<Rightarrow> bool" where
  "is_directory e \<longleftrightarrow> de_attr e AND FAT_ATTR_DIRECTORY \<noteq> 0"

definition is_valid_entry :: "dir_entry \<Rightarrow> bool" where
  "is_valid_entry e \<longleftrightarrow>
     (if is_end e \<or> is_deleted e then False
      else de_attr e AND FAT_ATTR_VOLUME_ID = 0 \<and> de_attr e AND FAT_ATTR_LFN \<noteq> FAT_ATTR_LFN)"

definition entry_cluster :: "dir_entry \<Rightarrow> u32" where
  "entry_cluster e = push_bit 16 (ucast (first_cluster_high e)) + ucast (first_cluster_low e)"

definition get_filename :: "dir_entry \<Rightarrow> nat \<Rightarrow> bytes" where
  "get_filename e bufsize =
     (if bufsize < 13 then []
      else takeWhile (\<lambda>c. c \<noteq> ch_space) (de_name e) @
        (if de_ext e ! 0 \<noteq> ch_space then ch_dot # takeWhile (\<lambda>c. c \<noteq> ch_space) (de_ext e) else []))"

subsection \<open>Encoding and decoding\<close>

lemma length_encode_entry [simp]: "wf_entry e \<Longrightarrow> length (encode_entry e) = 32"
  by (simp add: encode_entry_def wf_entry_def)

lemma wf_zero_entry [simp]: "wf_entry zero_entry"
  by (simp add: wf_entry_def zero_entry_def)

lemma wf_decode_entry [simp]: "length bs = 32 \<Longrightarrow> wf_entry (decode_entry bs)"
  by (simp add: decode_entry_def wf_entry_def)

lemma list_split_at: "length xs = n \<Longrightarrow> m \<le> n \<Longrightarrow> \<exists>ys zs. xs = ys @ zs \<and> length ys = m \<and> length zs = n - m"
  by (rule exI [of _ "take m xs"], rule exI [of _ "drop m xs"]) simp

lemma le16_append: "length xs = i \<Longrightarrow> le16 (xs @ le_bytes 2 v @ ys) i = v"
  by (simp add: le16_def le_word_bytes)

lemma decode_encode_entry: "wf_entry e \<Longrightarrow> decode_entry (encode_entry e) = e"
proof -
  assume wf: "wf_entry e"
  obtain n0 n1 n2 n3 n4 n5 n6 n7 where n: "de_name e = [n0, n1, n2, n3, n4, n5, n6, n7]"
    using wf by (auto simp: wf_entry_def length_Suc_conv eval_nat_numeral)
  obtain x0 x1 x2 where x: "de_ext e = [x0, x1, x2]"
    using wf by (auto simp: wf_entry_def length_Suc_conv eval_nat_numeral)
  show ?thesis
    by (rule dir_entry.equality)
      (simp_all add: decode_entry_def encode_entry_def n x le16_def le32_def le_word_bytes)
qed

lemma le16_le_bytes: "i + 2 \<le> length bs \<Longrightarrow> le_bytes 2 (le16 bs i) = take 2 (drop i bs)"
  using le_bytes_word [of "take 2 (drop i bs)", where ?'a = 16] by (simp add: le16_def)

lemma le32_le_bytes: "i + 4 \<le> length bs \<Longrightarrow> le_bytes 4 (le32 bs i) = take 4 (drop i bs)"
  using le_bytes_word [of "take 4 (drop i bs)", where ?'a = 32] by (simp add: le32_def)

lemma encode_decode_entry: "length bs = 32 \<Longrightarrow> encode_entry (decode_entry bs) = bs"
proof -
  assume len: "length bs = 32"
  have cons: "i < 32 \<Longrightarrow> bs ! i # drop (Suc i) bs = drop i bs" for i
    using len by (simp add: Cons_nth_drop_Suc)
  have two: "take 2 (drop i bs) @ drop (i + 2) bs = drop i bs" for i
    by (metis add.commute append_take_drop_id drop_drop)
  have "encode_entry (decode_entry bs) =
      take 8 bs @ take 3 (drop 8 bs) @ [bs ! 11, bs ! 12, bs ! 13] @ drop 14 bs"
    using len two [of 14] two [of 16] two [of 18] two [of 20] two [of 22] two [of 24] two [of 26]
    by (simp add: encode_entry_def decode_entry_def le16_le_bytes le32_le_bytes)
  also have "[bs ! 11, bs ! 12, bs ! 13] @ drop 14 bs = drop 11 bs"
    using cons [of 11] cons [of 12] cons [of 13] by simp
  also have "take 3 (drop 8 bs) @ drop 11 bs = drop 8 bs"
    using append_take_drop_id [of 3 "drop 8 bs"] by simp
  finally show ?thesis by simp
qed

section \<open>Names\<close>

definition to_upper :: "u8 \<Rightarrow> u8" where
  "to_upper ch = (if 0x61 \<le> ch \<and> ch \<le> 0x7A then ch - 32 else ch)"

text \<open>The two copying loops of \<^verbatim>\<open>make_83_name\<close>: the field written so far and the rest of the name.\<close>

fun copy_base :: "nat \<Rightarrow> bytes \<Rightarrow> bytes \<times> bytes" where
  "copy_base 0 p = ([], p)"
| "copy_base (Suc n) [] = ([], [])"
| "copy_base (Suc n) (c # p) =
     (if c = ch_dot then ([], c # p)
      else let (out, rest) = copy_base n p in (to_upper c # out, rest))"

definition pad :: "nat \<Rightarrow> bytes \<Rightarrow> bytes" where
  "pad n bs = bs @ replicate (n - length bs) ch_space"

definition make_83_name :: "bytes \<Rightarrow> bytes \<times> bytes" where
  "make_83_name name =
     (let (base, p) = copy_base 8 name;
          p = (case p of c # rest \<Rightarrow> if c = ch_dot then rest else p | [] \<Rightarrow> p)
      in (pad 8 base, pad 3 (map to_upper (take 3 p))))"

text \<open>The name under which an entry is found: its file name in upper case.\<close>

definition entry_name :: "dir_entry \<Rightarrow> bytes" where
  "entry_name e = map to_upper (cut (get_filename e 13))"

lemma to_upper_idem [simp]: "to_upper (to_upper c) = to_upper c"
proof (cases "0x61 \<le> c \<and> c \<le> 0x7A")
  case True
  then have "97 \<le> unat c" "unat c \<le> 122" by (simp_all add: word_le_nat_alt)
  moreover have "unat (c - 32) = unat c - 32" using True by (subst unat_sub) (auto simp: word_le_nat_alt)
  ultimately have "\<not> 0x61 \<le> c - 32" by (simp add: word_le_nat_alt)
  then show ?thesis using True by (simp add: to_upper_def)
qed (auto simp: to_upper_def)

lemma to_upper_consts [simp]: "to_upper ch_space = ch_space" "to_upper ch_dot = ch_dot" "to_upper 0 = 0"
  by (simp_all add: to_upper_def)

lemma to_upper_special [simp]:
  "to_upper c = ch_space \<longleftrightarrow> c = ch_space"
  "to_upper c = ch_dot \<longleftrightarrow> c = ch_dot"
  "to_upper c = 0 \<longleftrightarrow> c = 0"
proof -
  have *: "to_upper c \<noteq> v" if "c \<noteq> v" "unat v < 65" for v
  proof (cases "0x61 \<le> c \<and> c \<le> 0x7A")
    case True
    then have "97 \<le> unat c" by (simp add: word_le_nat_alt)
    moreover have "unat (c - 32) = unat c - 32" using True by (subst unat_sub) (auto simp: word_le_nat_alt)
    ultimately have "65 \<le> unat (to_upper c)" using True by (simp add: to_upper_def)
    with that(2) show ?thesis by auto
  next
    case False
    then have "to_upper c = c" by (auto simp: to_upper_def)
    with that(1) show ?thesis by simp
  qed
  show "to_upper c = ch_space \<longleftrightarrow> c = ch_space" "to_upper c = ch_dot \<longleftrightarrow> c = ch_dot"
    "to_upper c = 0 \<longleftrightarrow> c = 0"
    using * [of ch_space] * [of ch_dot] * [of 0] by auto
qed

text \<open>
  A name fits the 8.3 format when it is a base of one to eight bytes, optionally followed by a dot
  and an extension of one to three bytes, without zero, space or further dots.
\<close>

definition plain_char :: "u8 \<Rightarrow> bool" where
  "plain_char c \<longleftrightarrow> c \<noteq> 0 \<and> c \<noteq> ch_space \<and> c \<noteq> ch_dot"

definition fits_83 :: "bytes \<Rightarrow> bool" where
  "fits_83 name \<longleftrightarrow>
     (\<exists>base ext. base \<noteq> [] \<and> length base \<le> 8 \<and> length ext \<le> 3 \<and>
        (\<forall>c \<in> set base \<union> set ext. plain_char c) \<and>
        name = base @ (if ext = [] then [] else ch_dot # ext))"

lemma copy_base_plain:
  assumes "\<forall>c \<in> set base. plain_char c" and "length base \<le> n" and "rest = [] \<or> hd rest = ch_dot"
  shows "copy_base n (base @ rest) = (map to_upper base, rest)"
  using assms
proof (induction base arbitrary: n)
  case Nil
  then show ?case by (cases n; cases rest) auto
next
  case (Cons c base)
  then obtain m where "n = Suc m" by (cases n) auto
  with Cons show ?case by (simp add: plain_char_def)
qed

lemma takeWhile_pad:
  "\<forall>c \<in> set bs. c \<noteq> ch_space \<Longrightarrow> takeWhile (\<lambda>c. c \<noteq> ch_space) (pad n bs) = bs"
  unfolding pad_def by (induction bs) (auto simp: takeWhile_replicate)

lemma make_83_name_plain:
  assumes "base \<noteq> []" and "length base \<le> 8" and "length ext \<le> 3"
    and "\<forall>c \<in> set base \<union> set ext. plain_char c"
  shows "make_83_name (base @ (if ext = [] then [] else ch_dot # ext)) =
    (pad 8 (map to_upper base), pad 3 (map to_upper ext))"
  using assms copy_base_plain [of base 8 "if ext = [] then [] else ch_dot # ext"]
  by (auto simp: make_83_name_def Let_def)

lemma entry_name_make_83:
  assumes "fits_83 name" and "make_83_name name = (de_name e, de_ext e)"
  shows "entry_name e = map to_upper name"
proof -
  from assms(1) obtain base ext where b: "base \<noteq> []" "length base \<le> 8" "length ext \<le> 3"
    "\<forall>c \<in> set base \<union> set ext. plain_char c" and name: "name = base @ (if ext = [] then [] else ch_dot # ext)"
    unfolding fits_83_def by blast
  have e: "de_name e = pad 8 (map to_upper base)" "de_ext e = pad 3 (map to_upper ext)"
    using make_83_name_plain [OF b] assms(2) name by simp_all
  have "\<forall>c \<in> set (map to_upper base). c \<noteq> ch_space" "\<forall>c \<in> set (map to_upper ext). c \<noteq> ch_space"
    using b(4) by (simp_all add: plain_char_def)
  then have "takeWhile (\<lambda>c. c \<noteq> ch_space) (de_name e) = map to_upper base"
    "takeWhile (\<lambda>c. c \<noteq> ch_space) (de_ext e) = map to_upper ext"
    unfolding e by (simp_all only: takeWhile_pad)
  moreover have "de_ext e ! 0 \<noteq> ch_space \<longleftrightarrow> ext \<noteq> []"
    unfolding e using b(4) by (cases ext) (auto simp: pad_def plain_char_def)
  ultimately have "get_filename e 13 = map to_upper name"
    by (simp add: get_filename_def name to_upper_def)
  moreover have "cut (map to_upper name) = map to_upper name"
    unfolding cut_def using b(4) by (intro takeWhile_eq_all_conv [THEN iffD2]) (auto simp: name plain_char_def)
  ultimately show ?thesis by (simp add: entry_name_def o_def)
qed

end
