(* ===== verification/Partition_Table.thy ===== *)
theory Partition_Table
  imports Fat_Format
begin

unbundle bit_operations_syntax

text \<open>
  Partition tables of \<^verbatim>\<open>include/base/mbr.h\<close> and \<^verbatim>\<open>include/base/gpt.h\<close>, the FAT32 boot
  sector of \<^verbatim>\<open>include/base/bpb.h\<close>, and \<^verbatim>\<open>find_partition_start\<close> of
  \<^verbatim>\<open>kernel/fs/fat/fat_core.cpp\<close>. The theory shows which partition is found.
\<close>

section \<open>Master boot record\<close>

definition MBR_SIGNATURE :: u16 where "MBR_SIGNATURE = 0xAA55"
definition PART_TYPE_FAT32 :: u8 where "PART_TYPE_FAT32 = 0x0B"
definition PART_TYPE_FAT32_LBA :: u8 where "PART_TYPE_FAT32_LBA = 0x0C"
definition GPT_PROTECTIVE_MBR_TYPE :: u8 where "GPT_PROTECTIVE_MBR_TYPE = 0xEE"

record mbr_partition =
  boot_flag :: u8
  start_chs :: bytes
  part_type :: u8
  end_chs :: bytes
  start_lba :: u32
  part_size :: u32

definition decode_partition :: "bytes \<Rightarrow> mbr_partition" where
  "decode_partition bs = \<lparr>boot_flag = bs ! 0, start_chs = take 3 (drop 1 bs), part_type = bs ! 4,
     end_chs = take 3 (drop 5 bs), start_lba = le32 bs 8, part_size = le32 bs 12\<rparr>"

definition part_is_gpt :: "mbr_partition \<Rightarrow> bool" where
  "part_is_gpt p \<longleftrightarrow> part_type p = GPT_PROTECTIVE_MBR_TYPE"

definition part_is_fat32 :: "mbr_partition \<Rightarrow> bool" where
  "part_is_fat32 p \<longleftrightarrow> part_type p = PART_TYPE_FAT32 \<or> part_type p = PART_TYPE_FAT32_LBA"

record mbr_header =
  mbr_boot_code :: bytes
  partitions :: "mbr_partition list"
  mbr_signature :: u16

definition decode_mbr :: "bytes \<Rightarrow> mbr_header" where
  "decode_mbr bs = \<lparr>mbr_boot_code = take 446 bs,
     partitions = map (\<lambda>i. decode_partition (take 16 (drop (446 + 16 * i) bs))) [0, 1, 2, 3],
     mbr_signature = le16 bs 510\<rparr>"

definition mbr_is_valid :: "mbr_header \<Rightarrow> bool" where
  "mbr_is_valid m \<longleftrightarrow> mbr_signature m = MBR_SIGNATURE"

section \<open>GUID partition table\<close>

definition GPT_HEADER_SIGNATURE :: u64 where "GPT_HEADER_SIGNATURE = 0x5452415020494645"

record gpt_guid =
  data1 :: u32
  data2 :: u16
  data3 :: u16
  data4 :: bytes

definition decode_guid :: "bytes \<Rightarrow> nat \<Rightarrow> gpt_guid" where
  "decode_guid bs i = \<lparr>data1 = le32 bs i, data2 = le16 bs (i + 4), data3 = le16 bs (i + 6),
     data4 = take 8 (drop (i + 8) bs)\<rparr>"

definition ESP_GUID :: gpt_guid where
  "ESP_GUID = \<lparr>data1 = 0xC12A7328, data2 = 0xF81F, data3 = 0x11D2,
     data4 = [0xBA, 0x4B, 0x00, 0xA0, 0xC9, 0x3E, 0xC9, 0x3B]\<rparr>"

record gpt_entry =
  type_guid :: gpt_guid
  unique_guid :: gpt_guid
  starting_lba :: u64
  ending_lba :: u64
  gpt_attributes :: u64
  gpt_name :: "u16 list"

definition decode_gpt_entry :: "bytes \<Rightarrow> gpt_entry" where
  "decode_gpt_entry bs = \<lparr>type_guid = decode_guid bs 0, unique_guid = decode_guid bs 16,
     starting_lba = le64 bs 32, ending_lba = le64 bs 40, gpt_attributes = le64 bs 48,
     gpt_name = map (\<lambda>i. le16 bs (56 + 2 * i)) [0..<36]\<rparr>"

definition gpt_is_empty :: "gpt_entry \<Rightarrow> bool" where
  "gpt_is_empty e \<longleftrightarrow> data1 (type_guid e) = 0 \<and> data2 (type_guid e) = 0 \<and> data3 (type_guid e) = 0 \<and>
     data4 (type_guid e) = replicate 8 0"

definition is_esp :: "gpt_entry \<Rightarrow> bool" where
  "is_esp e \<longleftrightarrow> type_guid e = ESP_GUID"

record gpt_header =
  gpt_signature :: u64
  gpt_revision :: u32
  gpt_header_size :: u32
  header_crc32 :: u32
  my_lba :: u64
  alternate_lba :: u64
  first_usable_lba :: u64
  last_usable_lba :: u64
  disk_guid :: gpt_guid
  partition_entry_lba :: u64
  num_partition_entries :: u32
  partition_entry_size :: u32
  partition_array_crc32 :: u32

definition decode_gpt_header :: "bytes \<Rightarrow> gpt_header" where
  "decode_gpt_header bs = \<lparr>gpt_signature = le64 bs 0, gpt_revision = le32 bs 8, gpt_header_size = le32 bs 12,
     header_crc32 = le32 bs 16, my_lba = le64 bs 24, alternate_lba = le64 bs 32,
     first_usable_lba = le64 bs 40, last_usable_lba = le64 bs 48, disk_guid = decode_guid bs 56,
     partition_entry_lba = le64 bs 72, num_partition_entries = le32 bs 80,
     partition_entry_size = le32 bs 84, partition_array_crc32 = le32 bs 88\<rparr>"

definition gpt_is_valid :: "gpt_header \<Rightarrow> bool" where
  "gpt_is_valid h \<longleftrightarrow> gpt_signature h = GPT_HEADER_SIGNATURE"

definition gpt_entries :: "bytes \<Rightarrow> gpt_entry list" where
  "gpt_entries bs = map (\<lambda>k. decode_gpt_entry (take 128 (drop (128 * k) bs))) [0, 1, 2, 3]"

text \<open>
  The inner loop of \<^verbatim>\<open>find_esp_lba\<close> over the entries of one sector: the system partition, or the
  index of the next entry.
\<close>

fun scan_gpt :: "nat \<Rightarrow> gpt_entry list \<Rightarrow> nat \<Rightarrow> u64 option \<times> nat" where
  "scan_gpt num [] i = (None, i)"
| "scan_gpt num (e # es) i =
     (if i < num then
        if gpt_is_empty e then scan_gpt num es (Suc i)
        else if is_esp e then (Some (starting_lba e), i)
        else scan_gpt num es (Suc i)
      else (None, i))"

definition entry_lba :: "gpt_header \<Rightarrow> nat \<Rightarrow> u32" where
  "entry_lba h i = ucast (partition_entry_lba h) + of_nat (i div 4)"

lemma scan_gpt_advance: "scan_gpt num es i = (None, j) \<Longrightarrow> i < num \<Longrightarrow> es \<noteq> [] \<Longrightarrow> i < j"
proof (induction es arbitrary: i)
  case (Cons e es)
  have mono: "scan_gpt num fs k = (None, j) \<Longrightarrow> k \<le> j" for fs k
    by (induction fs arbitrary: k) (auto split: if_splits dest: Suc_leD)
  from Cons.prems have "scan_gpt num es (Suc i) = (None, j)" by (auto split: if_splits)
  from mono [OF this] show ?case by simp
qed simp

text \<open>
  The outer loop. The result is a 32-bit signed integer, \<open>-1\<close> when there is no system partition or
  a read fails.
\<close>

function find_esp_from :: "'d block_ops \<Rightarrow> gpt_header \<Rightarrow> nat \<Rightarrow> 'd \<Rightarrow> int \<times> 'd" where
  "find_esp_from io h i d =
     (if i < unat (num_partition_entries h) then
        (case dev_read io d (entry_lba h i) 1 of (err, bs, d') \<Rightarrow>
           if err \<noteq> Err_None then (-1, d')
           else (case scan_gpt (unat (num_partition_entries h)) (gpt_entries bs) i of
                   (Some lba, _) \<Rightarrow> (sint (ucast lba :: u32), d')
                 | (None, j) \<Rightarrow> find_esp_from io h j d'))
      else (-1, d))"
  by pat_completeness auto
termination
proof (relation "measure (\<lambda>(io, h, i, d). unat (num_partition_entries h) - i)")
  fix io :: "'d block_ops" and h i d x err y bs d' x' z j
  assume "i < unat (num_partition_entries h)" and "(z, j) = scan_gpt (unat (num_partition_entries h)) (gpt_entries bs) i"
    and "z = None"
  then have "i < j"
    using scan_gpt_advance [of "unat (num_partition_entries h)" "gpt_entries bs" i j] by (simp add: gpt_entries_def)
  then show "((io, h, j, d'), io, h, i, d) \<in> measure (\<lambda>(io, h, i, d). unat (num_partition_entries h) - i)"
    using \<open>i < unat (num_partition_entries h)\<close> by simp
qed simp

declare find_esp_from.simps [simp del]

definition find_esp_lba :: "'d block_ops \<Rightarrow> gpt_header \<Rightarrow> 'd \<Rightarrow> int \<times> 'd" where
  "find_esp_lba io h d = find_esp_from io h 0 d"

section \<open>The start of the FAT partition\<close>

definition read_block :: "'d block_ops \<Rightarrow> u32 \<Rightarrow> ('d, bytes) op" where
  "read_block io lba d =
     (case dev_read io d lba 1 of (err, bs, d') \<Rightarrow> (if err = Err_None then Inr bs else Inl err, d'))"

definition find_partition_start :: "'d block_ops \<Rightarrow> ('d, u32) op" where
  "find_partition_start io =
     op_try (read_block io 0) (\<lambda>sector0.
       let mbr = decode_mbr sector0; part = partitions mbr ! 0
       in op_ensure (mbr_is_valid mbr) BadFs
            (if part_is_gpt part then
               op_try (read_block io 1) (\<lambda>sector1.
                 let gpt = decode_gpt_header sector1
                 in op_ensure (gpt_is_valid gpt) BadFs (\<lambda>d.
                      case find_esp_lba io gpt d of
                        (esp, d') \<Rightarrow> op_ensure (0 \<le> esp) NotFound (op_ok (of_int esp)) d'))
             else if part_is_fat32 part then op_ok (start_lba part)
             else op_ok 0))"

section \<open>The boot sector\<close>

definition BOOT_SIGNATURE :: u16 where "BOOT_SIGNATURE = 0xAA55"
definition BPB_BOOT_SIGNATURE :: u8 where "BPB_BOOT_SIGNATURE = 0x29"

record boot_sector =
  bs_oem :: bytes
  bs_bytes_per_sector :: u16
  bs_sectors_per_cluster :: u8
  bs_reserved_sectors :: u16
  bs_num_fats :: u8
  bs_root_entries :: u16
  bs_total_sectors_16 :: u16
  bs_media_type :: u8
  bs_fat_size_16 :: u16
  bs_sectors_per_track :: u16
  bs_num_heads :: u16
  bs_hidden_sectors :: u32
  bs_total_sectors_32 :: u32
  bs_fat_size_32 :: u32
  bs_ext_flags :: u16
  bs_fs_version :: u16
  bs_root_cluster :: u32
  bs_fs_info :: u16
  bs_backup_boot_sector :: u16
  bs_drive_number :: u8
  bs_boot_signature :: u8
  bs_volume_id :: u32
  bs_volume_label :: bytes
  bs_fs_type :: bytes
  bs_boot_signature_word :: u16

definition decode_boot_sector :: "bytes \<Rightarrow> boot_sector" where
  "decode_boot_sector bs = \<lparr>bs_oem = take 8 (drop 3 bs), bs_bytes_per_sector = le16 bs 0x0B,
     bs_sectors_per_cluster = bs ! 0x0D, bs_reserved_sectors = le16 bs 0x0E, bs_num_fats = bs ! 0x10,
     bs_root_entries = le16 bs 0x11, bs_total_sectors_16 = le16 bs 0x13, bs_media_type = bs ! 0x15,
     bs_fat_size_16 = le16 bs 0x16, bs_sectors_per_track = le16 bs 0x18, bs_num_heads = le16 bs 0x1A,
     bs_hidden_sectors = le32 bs 0x1C, bs_total_sectors_32 = le32 bs 0x20, bs_fat_size_32 = le32 bs 0x24,
     bs_ext_flags = le16 bs 0x28, bs_fs_version = le16 bs 0x2A, bs_root_cluster = le32 bs 0x2C,
     bs_fs_info = le16 bs 0x30, bs_backup_boot_sector = le16 bs 0x32, bs_drive_number = bs ! 0x40,
     bs_boot_signature = bs ! 0x42, bs_volume_id = le32 bs 0x43, bs_volume_label = take 11 (drop 0x47 bs),
     bs_fs_type = take 8 (drop 0x52 bs), bs_boot_signature_word = le16 bs 0x1FE\<rparr>"

definition bs_is_valid :: "boot_sector \<Rightarrow> bool" where
  "bs_is_valid b \<longleftrightarrow> bs_boot_signature_word b = BOOT_SIGNATURE \<and> bs_boot_signature b = BPB_BOOT_SIGNATURE"

definition bs_is_fat32 :: "boot_sector \<Rightarrow> bool" where
  "bs_is_fat32 b \<longleftrightarrow> bs_is_valid b \<and> bs_total_sectors_32 b \<noteq> 0"

section \<open>Which partition is found\<close>

text \<open>The entries of the array, sector by sector, starting with the one at index \<open>4 * k\<close>.\<close>

definition gpt_array :: "(nat \<Rightarrow> bytes) \<Rightarrow> gpt_header \<Rightarrow> nat \<Rightarrow> gpt_entry list" where
  "gpt_array f h n = concat (map (\<lambda>k. gpt_entries (f (unat (ucast (partition_entry_lba h) :: u32) + k))) [0..<n])"

lemma not_empty_esp: "is_esp e \<Longrightarrow> \<not> gpt_is_empty e"
  by (simp add: is_esp_def gpt_is_empty_def ESP_GUID_def)

lemma scan_gpt_find:
  "scan_gpt num es i =
     (case find is_esp (take (num - i) es) of
        Some e \<Rightarrow> (Some (starting_lba e), i + length (takeWhile (\<lambda>e. \<not> is_esp e) (take (num - i) es)))
      | None \<Rightarrow> (None, i + length (take (num - i) es)))"
proof (induction es arbitrary: i)
  case (Cons e es)
  show ?case
  proof (cases "i < num")
    case True
    then have "num - i = Suc (num - Suc i)" by simp
    with Cons [of "Suc i"] True not_empty_esp [of e] show ?thesis
      by (auto split: option.splits)
  qed simp
qed simp

text \<open>The value of the search: the low half of the first address, as a signed integer.\<close>

definition esp_value :: "gpt_entry option \<Rightarrow> int" where
  "esp_value r = (case r of Some e \<Rightarrow> sint (ucast (starting_lba e) :: u32) | None \<Rightarrow> -1)"

lemma find_append_none: "find P (take m xs) = None \<Longrightarrow> find P (take m (xs @ ys)) = find P (take (m - length xs) ys)"
  by (induction xs arbitrary: m) (auto simp: take_Cons split: nat.splits if_splits)

lemma esp_value_simps [simp]:
  "esp_value None = -1" "esp_value (Some e) = sint (ucast (starting_lba e) :: u32)"
  by (simp_all add: esp_value_def)

lemma length_gpt_entries [simp]: "length (gpt_entries bs) = 4"
  by (simp add: gpt_entries_def)

lemma unat_add_of_nat: "unat (b :: u32) + k < 4294967296 \<Longrightarrow> unat (b + of_nat k) = unat b + k"
  by (simp add: unat_word_ariths unsigned_of_nat take_bit_eq_mod)

lemma sint_sign: "0 \<le> sint (w :: u32) \<longleftrightarrow> \<not> bit w 31"
  using bit_last_iff [of w] by auto

lemma bit_ucast_31: "bit (ucast (v :: u64) :: u32) 31 \<longleftrightarrow> bit v 31"
  by (simp add: bit_simps)

context block_store
begin

lemma read_block_ok:
  assumes "ready d" and "unat lba < unat (dev_blocks io d)"
  shows "\<exists>d'. read_block io lba d = (Inr (sector d (unat lba)), d') \<and> holds io sector ready d d' (sector d)"
  using read_ok [of d lba 1] assms by (auto simp: read_block_def)

lemma find_esp_from_sectors:
  fixes h :: gpt_header
  defines "num \<equiv> unat (num_partition_entries h)"
    and "base \<equiv> unat (ucast (partition_entry_lba h) :: u32)"
  assumes "ready d" and "base + n \<le> unat (dev_blocks io d)" and "num \<le> 4 * n"
  shows "\<exists>d'. find_esp_from io h (4 * k) d =
      (esp_value (find is_esp (take (num - 4 * k) (concat (map (\<lambda>j. gpt_entries (sector d (base + j))) [k..<n])))), d') \<and>
    holds io sector ready d d' (sector d)"
  using assms(3,4)
proof (induction "n - k" arbitrary: k d)
  case 0
  then have "\<not> 4 * k < num" using assms(5) by simp
  then show ?case using 0 by (subst find_esp_from.simps) (simp add: holds_def num_def)
next
  case (Suc m)
  show ?case
  proof (cases "4 * k < num")
    case False
    then show ?thesis using Suc.prems by (subst find_esp_from.simps) (simp add: holds_def num_def)
  next
    case True
    then have k: "k < n" using assms(5) by simp
    have "base + k < 4294967296" using Suc.prems(2) k unat_lt_u32 [of "dev_blocks io d"] by linarith
    then have lba: "unat (entry_lba h (4 * k)) = base + k"
      unfolding entry_lba_def base_def by (subst unat_add_of_nat) simp_all
    have "unat (entry_lba h (4 * k)) + 1 \<le> unat (dev_blocks io d)" using lba k Suc.prems(2) by simp
    from read_ok [OF Suc.prems(1) this] obtain d' where
      rd: "dev_read io d (entry_lba h (4 * k)) 1 = (Err_None, sector d (base + k), d')"
        "holds io sector ready d d' (sector d)" by (auto simp: lba)
    let ?es = "gpt_entries (sector d (base + k))"
    let ?rest = "concat (map (\<lambda>j. gpt_entries (sector d (base + j))) [Suc k..<n])"
    have split: "concat (map (\<lambda>j. gpt_entries (sector d (base + j))) [k..<n]) = ?es @ ?rest"
      using k by (simp add: upt_conv_Cons)
    have step: "find_esp_from io h (4 * k) d =
        (case scan_gpt num ?es (4 * k) of (Some lba, _) \<Rightarrow> (sint (ucast lba :: u32), d')
         | (None, j) \<Rightarrow> find_esp_from io h j d')"
      using True rd(1) by (subst find_esp_from.simps) (simp add: num_def)
    show ?thesis
    proof (cases "find is_esp (take (num - 4 * k) ?es)")
      case (Some e)
      then have "find is_esp (take (num - 4 * k) (?es @ ?rest)) = Some e"
        by (auto simp: find_split) (metis append.assoc append_Cons)
      with Some step rd(2) show ?thesis by (simp add: scan_gpt_find split)
    next
      case None
      then have none: "find is_esp (take (num - 4 * k) (?es @ ?rest)) = find is_esp (take (num - 4 * k - 4) ?rest)"
        using find_append_none [OF None, of ?rest] by (simp del: take_append)
      show ?thesis
      proof (cases "4 \<le> num - 4 * k")
        case True
        have "ready d'" "base + n \<le> unat (dev_blocks io d')" "sector d' = sector d"
          using rd(2) Suc.prems(2) by (simp_all add: holds_def)
        moreover have "m = n - Suc k" using Suc.hyps(2) by simp
        moreover have four: "4 * Suc k = 4 * k + 4" by simp
        ultimately obtain d'' where
          "find_esp_from io h (4 * k + 4) d' = (esp_value (find is_esp (take (num - (4 * k + 4)) ?rest)), d'')"
          "holds io sector ready d' d'' (sector d)" using Suc.hyps(1) [of "Suc k" d', unfolded four] by auto
        moreover have "4 * k + length (take (num - 4 * k) ?es) = 4 * k + 4" using True by simp
        ultimately show ?thesis
          using None step rd(2) none by (simp add: scan_gpt_find split holds_def)
      next
        case False
        have "find_esp_from io h num d' = (-1, d')" by (subst find_esp_from.simps) (simp add: num_def)
        then show ?thesis
          using None step rd(2) none False \<open>4 * k < num\<close> by (simp add: scan_gpt_find split)
      qed
    qed
  qed
qed

end

text \<open>C31. On a GPT disk \<^verbatim>\<open>find_partition_start\<close> returns the low 32 bits of the first sector of the
  first EFI system partition among the declared entries, and \<^verbatim>\<open>NotFound\<close> when there is none or
  when bit 31 of that address is set.\<close>

theorem find_partition_start_gpt:
  fixes io :: "'d block_ops" and d :: 'd
  defines "gpt h \<equiv> decode_gpt_header (h :: bytes)"
  assumes "block_store io sector ready" and "ready d"
    and "mbr_is_valid (decode_mbr (sector d 0))"
    and "part_is_gpt (partitions (decode_mbr (sector d 0)) ! 0)"
    and "gpt_is_valid (gpt (sector d 1))" and "2 \<le> unat (dev_blocks io d)"
    and "unat (ucast (partition_entry_lba (gpt (sector d 1))) :: u32) + n \<le> unat (dev_blocks io d)"
    and "unat (num_partition_entries (gpt (sector d 1))) \<le> 4 * n"
  shows "fst (find_partition_start io d) =
    (case find is_esp (take (unat (num_partition_entries (gpt (sector d 1)))) (gpt_array (sector d) (gpt (sector d 1)) n)) of
       None \<Rightarrow> Inl NotFound
     | Some e \<Rightarrow> if bit (starting_lba e) 31 then Inl NotFound else Inr (ucast (starting_lba e)))"
proof -
  let ?h = "gpt (sector d 1)"
  let ?r = "find is_esp (take (unat (num_partition_entries ?h)) (gpt_array (sector d) ?h n))"
  have "unat (0 :: u32) < unat (dev_blocks io d)" "unat (1 :: u32) < unat (dev_blocks io d)"
    using assms(7) by simp_all
  from block_store.read_block_ok [OF assms(2,3) this(1)] obtain d1 where
    1: "read_block io 0 d = (Inr (sector d 0), d1)" "holds io sector ready d d1 (sector d)" by auto
  then have d1: "ready d1" "unat (1 :: u32) < unat (dev_blocks io d1)" "sector d1 = sector d"
    "dev_blocks io d1 = dev_blocks io d" using assms(7) by (simp_all add: holds_def)
  from block_store.read_block_ok [OF assms(2) d1(1,2)] obtain d2 where
    2: "read_block io 1 d1 = (Inr (sector d 1), d2)" "holds io sector ready d1 d2 (sector d)"
    using d1(3) by auto
  then have d2: "ready d2" "sector d2 = sector d" "dev_blocks io d2 = dev_blocks io d"
    using d1(4) by (simp_all add: holds_def)
  obtain d3 where 3: "find_esp_lba io ?h d2 = (esp_value ?r, d3)"
    using block_store.find_esp_from_sectors [OF assms(2) d2(1), of ?h n 0] assms(8,9) d2(2,3)
    by (auto simp: find_esp_lba_def gpt_array_def atLeast0LessThan)
  have "fst (find_partition_start io d) =
      fst (op_ensure (0 \<le> esp_value ?r) NotFound (op_ok (of_int (esp_value ?r))) d3)"
    using assms(4,5,6) 3
    by (simp add: find_partition_start_def op_try_Inr [of "read_block io 0" d, OF 1(1)]
        op_try_Inr [of "read_block io 1" d1, OF 2(1)] Let_def gpt_def)
  then show ?thesis
    by (auto simp: op_ensure_def sint_sign bit_ucast_31 split: option.splits)
qed

definition demo_gpt :: "nat \<Rightarrow> bytes" where
  "demo_gpt i =
     (if i = 0 then replicate 450 0 @ [0xEE] @ replicate 59 0 @ [0x55, 0xAA]
      else if i = 1 then le_bytes 8 GPT_HEADER_SIGNATURE @ replicate 64 0 @ le_bytes 8 (2 :: u64) @
        le_bytes 4 (2 :: u32) @ le_bytes 4 (128 :: u32) @ replicate 424 0
      else if i = 2 then replicate 128 0 @ le_bytes 4 (data1 ESP_GUID) @ le_bytes 2 (data2 ESP_GUID) @
        le_bytes 2 (data3 ESP_GUID) @ data4 ESP_GUID @ replicate 16 0 @ le_bytes 8 (2048 :: u64) @ replicate 344 0
      else replicate 512 0)"

lemma demo_gpt_mbr:
  "mbr_is_valid (decode_mbr (demo_gpt 0))" "part_is_gpt (partitions (decode_mbr (demo_gpt 0)) ! 0)"
  by (simp_all add: demo_gpt_def mbr_is_valid_def decode_mbr_def le16_def MBR_SIGNATURE_def
      part_is_gpt_def decode_partition_def GPT_PROTECTIVE_MBR_TYPE_def nth_append)

lemma demo_gpt_header:
  "gpt_is_valid (decode_gpt_header (demo_gpt 1))"
  "partition_entry_lba (decode_gpt_header (demo_gpt 1)) = 2"
  "num_partition_entries (decode_gpt_header (demo_gpt 1)) = 2"
  by (simp_all add: demo_gpt_def gpt_is_valid_def decode_gpt_header_def le64_def le32_def le_word_bytes)

lemma demo_gpt_esp:
  "is_esp (decode_gpt_entry (take 128 (drop 128 (demo_gpt 2))))"
  "starting_lba (decode_gpt_entry (take 128 (drop 128 (demo_gpt 2)))) = 2048"
  by (simp_all add: demo_gpt_def decode_gpt_entry_def is_esp_def decode_guid_def le64_def le32_def
      le16_def le_word_bytes) (simp_all add: ESP_GUID_def le_word_bytes)

lemma demo_gpt_other: "\<not> is_esp (decode_gpt_entry (take 128 (demo_gpt 2)))"
  by (simp add: demo_gpt_def decode_gpt_entry_def is_esp_def decode_guid_def le32_def ESP_GUID_def)

theorem find_partition_start_gpt_witness:
  "fst (find_partition_start image_ops \<lparr>img = demo_gpt, img_blocks = 4096\<rparr>) = Inr 2048"
proof -
  let ?d = "\<lparr>img = demo_gpt, img_blocks = 4096\<rparr>"
  have "image_ready ?d" by (simp add: image_ready_def demo_gpt_def ESP_GUID_def)
  moreover have "gpt_array demo_gpt (decode_gpt_header (demo_gpt 1)) 1 = gpt_entries (demo_gpt 2)"
    unfolding gpt_array_def demo_gpt_header(2) by (simp flip: numeral_2_eq_2)
  moreover have "find is_esp (take 2 (gpt_entries (demo_gpt 2))) =
      Some (decode_gpt_entry (take 128 (drop 128 (demo_gpt 2))))"
    using demo_gpt_esp demo_gpt_other by (simp add: gpt_entries_def)
  ultimately show ?thesis
    using find_partition_start_gpt [OF image.block_store_axioms, of ?d 1] demo_gpt_mbr demo_gpt_header demo_gpt_esp
    by (simp add: image_ops_def bit_iff_odd)
qed

end
