(* ===== verification/Fat_Core.thy ===== *)
theory Fat_Core
  imports Partition_Table
begin

unbundle bit_operations_syntax

text \<open>
  The FAT32 volume of \<^verbatim>\<open>kernel/fs/fat/fat_core.cpp\<close>: mounting, the allocation table behind its
  one-sector cache, and walks along cluster chains with Brent's cycle detection. The fields of
  \<^verbatim>\<open>FatInfo\<close> that only \<^verbatim>\<open>mount\<close> writes are the geometry, an argument of every operation; the
  device and the cache are the state. Operations other than \<^verbatim>\<open>read_entry\<close> dereference
  \<^verbatim>\<open>dev_\<close> without a check and are called between \<^verbatim>\<open>mount\<close> and \<^verbatim>\<open>unmount\<close> only.
\<close>

section \<open>The volume\<close>

definition FAT32_FREE :: u32 where "FAT32_FREE = 0"
definition FAT32_RESERVED_MIN :: u32 where "FAT32_RESERVED_MIN = 0x0FFFFFF0"
definition FAT32_EOC_MIN :: u32 where "FAT32_EOC_MIN = 0x0FFFFFF8"
definition FAT32_EOC_MAX :: u32 where "FAT32_EOC_MAX = 0x0FFFFFFF"
definition FAT32_CLUSTER_MASK :: u32 where "FAT32_CLUSTER_MASK = 0x0FFFFFFF"
definition FAT_INVALID_SECTOR :: u32 where "FAT_INVALID_SECTOR = 0xFFFFFFFF"

record fat_geom =
  partition_start_lba :: u32
  fat_type :: u8
  bytes_per_sector :: u32
  sectors_per_cluster :: u32
  bytes_per_cluster :: u32
  reserved_sector_count :: u32
  fat_count :: u32
  fat_start_sector :: u32
  fat_sector_count :: u32
  root_cluster :: u32
  data_start_sector :: u32
  cluster_count :: u32
  total_sector_count :: u32

record 'd fat_state =
  fdev :: 'd
  dev_set :: bool
  buffer :: bytes
  buffer_sector :: u32
  buffer_dirty :: bool

definition on_dev :: "('d, 'a) op \<Rightarrow> ('d fat_state, 'a) op" where
  "on_dev m st = (case m (fdev st) of (r, d) \<Rightarrow> (r, st\<lparr>fdev := d\<rparr>))"

definition read_blocks :: "'d block_ops \<Rightarrow> u32 \<Rightarrow> nat \<Rightarrow> ('d, bytes) op" where
  "read_blocks io lba n d =
     (case dev_read io d lba n of (err, bs, d') \<Rightarrow> (if err = Err_None then Inr bs else Inl err, d'))"

definition write_blocks :: "'d block_ops \<Rightarrow> u32 \<Rightarrow> bytes \<Rightarrow> nat \<Rightarrow> ('d, unit) op" where
  "write_blocks io lba bs n d =
     (case dev_write io d lba bs n of (err, d') \<Rightarrow> (if err = Err_None then Inr () else Inl err, d'))"

section \<open>Mounting\<close>

definition do_init_state :: "u32 \<Rightarrow> boot_sector \<Rightarrow> fat_geom" where
  "do_init_state part_start bs =
     (let bps = ucast (bs_bytes_per_sector bs); spc = ucast (bs_sectors_per_cluster bs);
          reserved = ucast (bs_reserved_sectors bs); fats = ucast (bs_num_fats bs);
          data_start = reserved + fats * bs_fat_size_32 bs
      in \<lparr>partition_start_lba = part_start, fat_type = 32, bytes_per_sector = bps,
          sectors_per_cluster = spc, bytes_per_cluster = bps * spc, reserved_sector_count = reserved,
          fat_count = fats, fat_start_sector = reserved, fat_sector_count = bs_fat_size_32 bs,
          root_cluster = bs_root_cluster bs, data_start_sector = data_start,
          cluster_count = (bs_total_sectors_32 bs - data_start) div spc,
          total_sector_count = bs_total_sectors_32 bs\<rparr>)"

text \<open>The checks of \<^verbatim>\<open>mount\<close> on the boot sector, in their order, with its 64-bit arithmetic.\<close>

definition boot_clusters :: "boot_sector \<Rightarrow> u64" where
  "boot_clusters bs =
     (ucast (bs_total_sectors_32 bs) - (ucast (bs_reserved_sectors bs) + ucast (bs_num_fats bs) * ucast (bs_fat_size_32 bs)))
       div ucast (bs_sectors_per_cluster bs)"

definition check_boot_sector :: "u32 \<Rightarrow> u32 \<Rightarrow> boot_sector \<Rightarrow> error + unit" where
  "check_boot_sector part_start blocks bs =
     (let bps = bs_bytes_per_sector bs; spc = bs_sectors_per_cluster bs;
          total = ucast (bs_total_sectors_32 bs) :: u64;
          data_start = ucast (bs_reserved_sectors bs) + ucast (bs_num_fats bs) * ucast (bs_fat_size_32 bs) :: u64;
          clusters = boot_clusters bs
      in ensure (bs_is_fat32 bs) BadFs (
         ensure (bps \<noteq> 0) BadFs (
         ensure (bps = 512 \<or> bps = 1024 \<or> bps = 2048 \<or> bps = 4096) BadFs (
         ensure (unat bps = BLOCK_SIZE_BYTES) NotSupported (
         ensure (spc \<noteq> 0 \<and> spc \<le> 128 \<and> spc AND (spc - 1) = 0) BadFs (
         ensure (bs_reserved_sectors bs \<noteq> 0 \<and> bs_num_fats bs \<noteq> 0 \<and> bs_num_fats bs \<le> 2 \<and> bs_fat_size_32 bs \<noteq> 0 \<and>
                 bs_root_entries bs = 0 \<and> bs_fat_size_16 bs = 0) BadFs (
         ensure (bs_fs_version bs = 0 \<and> bs_ext_flags bs AND 0x80 = 0) NotSupported (
         ensure (data_start < total) BadFs (
         ensure (ucast part_start + total \<le> ucast blocks) BadFs (
         ensure (clusters \<noteq> 0 \<and> clusters + 2 \<le> ucast FAT32_RESERVED_MIN) BadFs (
         ensure ((clusters + 2) * 4 \<le> ucast (bs_fat_size_32 bs) * ucast bps) BadFs (
         ensure (2 \<le> bs_root_cluster bs \<and> ucast (bs_root_cluster bs) < clusters + 2) BadFs (
           Inr ())))))))))))))"

text \<open>\<open>have_dev\<close> tells whether the argument is not null; the state holds the device.\<close>

definition fat_mount :: "'d block_ops \<Rightarrow> bool \<Rightarrow> ('d fat_state, fat_geom) op" where
  "fat_mount io have_dev =
     op_ensure have_dev Invalid
       (op_try (on_dev (find_partition_start io)) (\<lambda>part_start.
        op_try (on_dev (read_blocks io part_start 1)) (\<lambda>sec st.
          let bs = decode_boot_sector sec
          in case check_boot_sector part_start (dev_blocks io (fdev st)) bs of
               Inl e \<Rightarrow> (Inl e, st)
             | Inr _ \<Rightarrow> (Inr (do_init_state part_start bs), st\<lparr>dev_set := True, buffer_sector := FAT_INVALID_SECTOR\<rparr>))))"

definition flush_copy :: "fat_geom \<Rightarrow> 'd block_ops \<Rightarrow> nat \<Rightarrow> 'd fat_state \<Rightarrow> 'd fat_state" where
  "flush_copy g io i st =
     (let fat_sector = fat_start_sector g + of_nat i * fat_sector_count g + (buffer_sector st - fat_start_sector g)
      in snd (on_dev (write_blocks io (partition_start_lba g + fat_sector) (buffer st) 1) st))"

definition fat_unmount :: "fat_geom \<Rightarrow> 'd block_ops \<Rightarrow> 'd fat_state \<Rightarrow> 'd fat_state" where
  "fat_unmount g io st =
     (let st = (if buffer_dirty st \<and> buffer_sector st \<noteq> FAT_INVALID_SECTOR
                then fold (flush_copy g io) [0..<unat (fat_count g)] st else st)
      in st\<lparr>dev_set := False, buffer_sector := FAT_INVALID_SECTOR, buffer_dirty := False\<rparr>)"

section \<open>Entries of the allocation table\<close>

definition valid_cluster :: "fat_geom \<Rightarrow> u32 \<Rightarrow> bool" where
  "valid_cluster g c \<longleftrightarrow> 2 \<le> c \<and> c < cluster_count g + 2"

definition cluster_to_sector :: "fat_geom \<Rightarrow> u32 \<Rightarrow> u32" where
  "cluster_to_sector g c = (if c < 2 then 0 else data_start_sector g + (c - 2) * sectors_per_cluster g)"

text \<open>Reading a sector into the cache; the bytes of a failed transfer stay in the buffer.\<close>

definition load_buffer :: "fat_geom \<Rightarrow> 'd block_ops \<Rightarrow> u32 \<Rightarrow> ('d fat_state, unit) op" where
  "load_buffer g io fat_sector st =
     (case dev_read io (fdev st) (partition_start_lba g + fat_sector) 1 of (err, bs, d) \<Rightarrow>
        let st = st\<lparr>fdev := d, buffer := bs @ drop (length bs) (buffer st)\<rparr>
        in if err = Err_None then (Inr (), st\<lparr>buffer_sector := fat_sector\<rparr>) else (Inl err, st))"

definition read_entry :: "fat_geom \<Rightarrow> 'd block_ops \<Rightarrow> u32 \<Rightarrow> ('d fat_state, u32) op" where
  "read_entry g io cluster st =
     (let fat_offset = push_bit 2 cluster;
          fat_sector = fat_start_sector g + fat_offset div bytes_per_sector g;
          ent_offset = fat_offset mod bytes_per_sector g
      in op_ensure (dev_set st \<and> valid_cluster g cluster) BadFs
           (op_try (if fat_sector \<noteq> buffer_sector st then load_buffer g io fat_sector else op_ok ()) (\<lambda>_ st.
              (Inr (le32 (buffer st) (unat ent_offset) AND FAT32_CLUSTER_MASK), st))) st)"

definition write_copies :: "fat_geom \<Rightarrow> 'd block_ops \<Rightarrow> u32 \<Rightarrow> ('d fat_state, unit) op" where
  "write_copies g io fat_sector =
     op_each (\<lambda>i st. on_dev (write_blocks io (partition_start_lba g + fat_sector + of_nat i * fat_sector_count g)
                        (buffer st) 1) st)
       [0..<unat (fat_count g)]"

definition set_dirty :: "bool \<Rightarrow> ('d fat_state, unit) op" where
  "set_dirty b st = (Inr (), st\<lparr>buffer_dirty := b\<rparr>)"

definition write_entry :: "fat_geom \<Rightarrow> 'd block_ops \<Rightarrow> u32 \<Rightarrow> u32 \<Rightarrow> ('d fat_state, unit) op" where
  "write_entry g io cluster v st =
     (let fat_offset = push_bit 2 cluster;
          fat_sector = fat_start_sector g + fat_offset div bytes_per_sector g;
          ent_offset = unat (fat_offset mod bytes_per_sector g)
      in op_ensure (2 \<le> cluster \<and> cluster < cluster_count g + 2) Invalid
           (op_try
             (if fat_sector \<noteq> buffer_sector st then
                op_try (if buffer_dirty st \<and> buffer_sector st \<noteq> FAT_INVALID_SECTOR
                        then op_try (write_copies g io (buffer_sector st)) (\<lambda>_. set_dirty False)
                        else op_ok ()) (\<lambda>_. load_buffer g io fat_sector)
              else op_ok ()) (\<lambda>_ st.
            let old = le32 (buffer st) ent_offset;
                st = st\<lparr>buffer := put32 (buffer st) ent_offset (old AND 0xF0000000 OR v AND FAT32_CLUSTER_MASK),
                        buffer_dirty := True\<rparr>
            in op_try (write_copies g io fat_sector) (\<lambda>_. set_dirty False) st)) st)"

section \<open>Cluster chains\<close>

record cluster_chain =
  ch_current :: u32
  ch_checkpoint :: u32
  ch_power :: u32
  ch_distance :: u32
  ch_visited :: u32
  ch_started :: bool
  ch_finished :: bool

definition new_chain :: "u32 \<Rightarrow> cluster_chain" where
  "new_chain start = \<lparr>ch_current = start, ch_checkpoint = start, ch_power = 1, ch_distance = 0,
     ch_visited = 0, ch_started = False, ch_finished = False\<rparr>"

text \<open>Following the link of the current cluster; \<open>None\<close> at the end of the chain.\<close>

definition follow_link :: "fat_geom \<Rightarrow> 'd block_ops \<Rightarrow> cluster_chain \<Rightarrow> ('d fat_state, cluster_chain option) op" where
  "follow_link g io ch =
     op_try (read_entry g io (ch_current ch)) (\<lambda>nxt.
       if FAT32_EOC_MIN \<le> nxt then op_ok None
       else op_ensure (valid_cluster g nxt) BadFs
         (let ch = ch\<lparr>ch_distance := ch_distance ch + 1\<rparr>
          in op_ensure (nxt \<noteq> ch_checkpoint ch) BadFs
               (let ch = (if ch_distance ch = ch_power ch
                          then ch\<lparr>ch_checkpoint := nxt, ch_power := ch_power ch * 2, ch_distance := 0\<rparr>
                          else ch)
                in op_ok (Some (ch\<lparr>ch_current := nxt\<rparr>)))))"

definition chain_next :: "fat_geom \<Rightarrow> 'd block_ops \<Rightarrow> cluster_chain \<Rightarrow> ('d fat_state, u32 \<times> cluster_chain) op" where
  "chain_next g io ch =
     (if ch_finished ch then op_ok (0, ch)
      else op_try (if ch_started ch then follow_link g io ch else op_ok (Some ch)) (\<lambda>r.
        case r of
          None \<Rightarrow> op_ok (0, ch\<lparr>ch_finished := True\<rparr>)
        | Some ch \<Rightarrow>
            op_ensure (valid_cluster g (ch_current ch) \<and> ch_visited ch < cluster_count g) BadFs
              (op_ok (ch_current ch, ch\<lparr>ch_visited := ch_visited ch + 1, ch_started := True\<rparr>))))"

lemma follow_link_visited:
  "follow_link g io ch st = (Inr (Some ch'), st') \<Longrightarrow> ch_visited ch' = ch_visited ch"
  unfolding follow_link_def
  by (auto simp: Let_def elim!: op_try_cases op_ensure_cases split: if_splits)

lemma chain_next_visited:
  assumes "chain_next g io ch st = (Inr (c, ch'), st')" and "c \<noteq> 0"
  shows "ch_visited ch < cluster_count g" and "ch_visited ch' = ch_visited ch + 1"
  using assms unfolding chain_next_def
  by (auto simp: op_try_def op_ensure_def dest!: follow_link_visited
      split: if_splits option.splits prod.splits sum.splits)

text \<open>
  \<^verbatim>\<open>while (guard && (cluster = TRY(chain.next())) != 0) body\<close>. The body continues with \<open>Inl s\<close> and
  returns from the function with \<open>Inr r\<close>. The loop ends because every step visits one more cluster
  and no walk visits more than \<^verbatim>\<open>cluster_count_\<close>.
\<close>

function chain_each ::
  "fat_geom \<Rightarrow> 'd block_ops \<Rightarrow> ('s \<Rightarrow> bool) \<Rightarrow> ('s \<Rightarrow> u32 \<Rightarrow> ('d fat_state, 's + 'r) op) \<Rightarrow> cluster_chain \<Rightarrow> 's \<Rightarrow>
     ('d fat_state, 's + 'r) op"
where
  "chain_each g io guard body ch s st =
     (if guard s then
        (case chain_next g io ch st of
           (Inl e, st1) \<Rightarrow> (Inl e, st1)
         | (Inr (c, ch1), st1) \<Rightarrow>
             if c = 0 then (Inr (Inl s), st1)
             else (case body s c st1 of
                     (Inl e, st2) \<Rightarrow> (Inl e, st2)
                   | (Inr (Inr r), st2) \<Rightarrow> (Inr (Inr r), st2)
                   | (Inr (Inl s1), st2) \<Rightarrow> chain_each g io guard body ch1 s1 st2))
      else (Inr (Inl s), st))"
  by pat_completeness auto
termination
proof (relation "measure (\<lambda>(g, io, guard, body, ch, s, st). unat (cluster_count g) - unat (ch_visited ch))")
  fix g :: fat_geom and io :: "'d block_ops" and guard :: "'s \<Rightarrow> bool"
    and body :: "'s \<Rightarrow> u32 \<Rightarrow> ('d fat_state, 's + 'r) op" and ch s st x1 st1 x2 c ch1 y1 st2 y2 s1
  assume "(x1, st1) = chain_next g io ch st" and "x1 = Inr x2" and "(c, ch1) = x2" and "c \<noteq> 0"
  then have "chain_next g io ch st = (Inr (c, ch1), st1)" by simp
  from chain_next_visited [OF this \<open>c \<noteq> 0\<close>]
  have lt: "unat (ch_visited ch) < unat (cluster_count g)" and eq: "ch_visited ch1 = ch_visited ch + 1"
    by (simp_all add: word_less_nat_alt)
  have "unat (ch_visited ch + 1) = unat (ch_visited ch) + 1"
    using lt by (rule unat_plus_one)
  with lt eq show "((g, io, guard, body, ch1, s1, st2), g, io, guard, body, ch, s, st)
      \<in> measure (\<lambda>(g, io, guard, body, ch, s, st). unat (cluster_count g) - unat (ch_visited ch))"
    by simp
qed simp

declare chain_each.simps [simp del]

end
