(* ===== verification/Fat_Table.thy ===== *)
theory Fat_Table
  imports Fat_Core
begin

unbundle bit_operations_syntax

text \<open>
  Correctness of the allocation table of \<^verbatim>\<open>kernel/fs/fat/fat_core.cpp\<close> over a working block
  device: \<^verbatim>\<open>mount\<close> accepts only sane geometries, the cache never disagrees with the disk, and
  \<^verbatim>\<open>read_entry\<close> and \<^verbatim>\<open>write_entry\<close> are lookup and update of a map from clusters to links that
  is stored in all copies of the table.
\<close>

section \<open>Sane geometries\<close>

definition geom_ok :: "fat_geom \<Rightarrow> nat \<Rightarrow> bool" where
  "geom_ok g blocks \<longleftrightarrow>
     bytes_per_sector g = 512 \<and> 0 < unat (sectors_per_cluster g) \<and> unat (sectors_per_cluster g) \<le> 128 \<and>
     unat (bytes_per_cluster g) = 512 * unat (sectors_per_cluster g) \<and>
     0 < unat (fat_start_sector g) \<and> 0 < unat (fat_count g) \<and> unat (fat_count g) \<le> 2 \<and>
     0 < unat (fat_sector_count g) \<and>
     unat (data_start_sector g) = unat (fat_start_sector g) + unat (fat_count g) * unat (fat_sector_count g) \<and>
     unat (data_start_sector g) < unat (total_sector_count g) \<and>
     unat (partition_start_lba g) + unat (total_sector_count g) \<le> blocks \<and>
     unat (cluster_count g) = (unat (total_sector_count g) - unat (data_start_sector g)) div unat (sectors_per_cluster g) \<and>
     0 < unat (cluster_count g) \<and> unat (cluster_count g) + 2 \<le> 0x0FFFFFF0 \<and>
     (unat (cluster_count g) + 2) * 4 \<le> unat (fat_sector_count g) * 512 \<and>
     2 \<le> unat (root_cluster g) \<and> unat (root_cluster g) < unat (cluster_count g) + 2"

lemma geom_okD:
  assumes "geom_ok g blocks"
  shows "bytes_per_sector g = 512" and "0 < unat (sectors_per_cluster g)" and "unat (sectors_per_cluster g) \<le> 128"
    and "unat (bytes_per_cluster g) = 512 * unat (sectors_per_cluster g)"
    and "0 < unat (fat_count g)"
    and "unat (data_start_sector g) = unat (fat_start_sector g) + unat (fat_count g) * unat (fat_sector_count g)"
    and "unat (data_start_sector g) < unat (total_sector_count g)"
    and "unat (partition_start_lba g) + unat (total_sector_count g) \<le> blocks"
    and "unat (cluster_count g) = (unat (total_sector_count g) - unat (data_start_sector g)) div unat (sectors_per_cluster g)"
    and "unat (cluster_count g) + 2 \<le> 0x0FFFFFF0"
    and "(unat (cluster_count g) + 2) * 4 \<le> unat (fat_sector_count g) * 512"
    and "2 \<le> unat (root_cluster g)" and "unat (root_cluster g) < unat (cluster_count g) + 2"
    and "0 < unat (fat_sector_count g)"
  using assms unfolding geom_ok_def by blast+

lemma unat_ucast_up: "LENGTH('b) \<le> LENGTH('a) \<Longrightarrow> unat (ucast (x :: 'b::len word) :: 'a::len word) = unat x"
  by (simp add: unsigned_ucast_eq take_bit_nat_eq_self order.strict_trans2 [OF unsigned_less])

lemma unat_add_small: "unat (a :: 'a::len word) + unat b < 2 ^ LENGTH('a) \<Longrightarrow> unat (a + b) = unat a + unat b"
  by (simp add: unat_word_ariths)

lemma unat_mult_small: "unat (a :: 'a::len word) * unat b < 2 ^ LENGTH('a) \<Longrightarrow> unat (a * b) = unat a * unat b"
  by (simp add: unat_word_ariths)

lemma unat_le_two: "unat (x :: u8) \<le> 2 \<Longrightarrow> unat x * unat (y :: u32) < 8589934592"
proof -
  assume "unat x \<le> 2"
  then have "unat x * unat y \<le> 2 * unat y" by simp
  then show ?thesis using unat_lt_u32 [of y] by linarith
qed

lemma boot_data_start:
  assumes "bs_num_fats bs \<le> 2"
  shows "unat (ucast (bs_reserved_sectors bs) + ucast (bs_num_fats bs) * ucast (bs_fat_size_32 bs) :: u64) =
    unat (bs_reserved_sectors bs) + unat (bs_num_fats bs) * unat (bs_fat_size_32 bs)"
proof -
  have *: "unat (bs_num_fats bs) * unat (bs_fat_size_32 bs) < 8589934592"
    using assms by (intro unat_le_two) (simp add: word_le_nat_alt)
  have r: "unat (bs_reserved_sectors bs) < 65536" using unsigned_less [of "bs_reserved_sectors bs", where ?'a = nat] by simp
  have m: "unat (ucast (bs_num_fats bs) * ucast (bs_fat_size_32 bs) :: u64) = unat (bs_num_fats bs) * unat (bs_fat_size_32 bs)"
    using * by (subst unat_mult_small) (simp_all add: unat_ucast_up)
  have "unat (bs_reserved_sectors bs) + unat (bs_num_fats bs) * unat (bs_fat_size_32 bs) < 18446744073709551616"
    using * r by linarith
  then show ?thesis by (subst unat_add_small) (simp_all add: m unat_ucast_up)
qed

lemma init_data_start:
  assumes "unat (bs_reserved_sectors bs) + unat (bs_num_fats bs) * unat (bs_fat_size_32 bs) < 4294967296"
  shows "unat (ucast (bs_reserved_sectors bs) + ucast (bs_num_fats bs) * bs_fat_size_32 bs :: u32) =
    unat (bs_reserved_sectors bs) + unat (bs_num_fats bs) * unat (bs_fat_size_32 bs)"
proof -
  have m: "unat (ucast (bs_num_fats bs) * bs_fat_size_32 bs :: u32) = unat (bs_num_fats bs) * unat (bs_fat_size_32 bs)"
    using assms by (subst unat_mult_small) (simp_all add: unat_ucast_up)
  show ?thesis using assms by (subst unat_add_small) (simp_all add: m unat_ucast_up)
qed

lemma check_boot_sector_sane:
  assumes "check_boot_sector part blocks bs = Inr ()"
  shows "geom_ok (do_init_state part bs) (unat blocks)"
proof -
  define spc where "spc = unat (bs_sectors_per_cluster bs)"
  define total where "total = unat (bs_total_sectors_32 bs)"
  define start where "start = unat (bs_reserved_sectors bs) + unat (bs_num_fats bs) * unat (bs_fat_size_32 bs)"
  note chk = assms [unfolded check_boot_sector_def Let_def ensure_eq_Inr]
  have fats: "bs_num_fats bs \<le> 2" "bs_num_fats bs \<noteq> 0" using chk by simp_all
  have st64: "unat (ucast (bs_reserved_sectors bs) + ucast (bs_num_fats bs) * ucast (bs_fat_size_32 bs) :: u64) = start"
    unfolding start_def by (rule boot_data_start [OF fats(1)])
  have "ucast (bs_reserved_sectors bs) + ucast (bs_num_fats bs) * ucast (bs_fat_size_32 bs) < (ucast (bs_total_sectors_32 bs) :: u64)"
    using chk by simp
  then have lt: "start < total" using st64 by (simp add: word_less_nat_alt total_def unat_ucast_up)
  have tot: "total < 4294967296" by (simp add: total_def)
  have spc: "0 < spc" "spc \<le> 128"
    using chk by (simp_all add: spc_def word_le_nat_alt word_neq_0_conv word_less_nat_alt)
  have cl: "unat (boot_clusters bs) = (total - start) div spc"
    unfolding boot_clusters_def using lt st64
    by (simp add: unat_div_distrib unat_sub word_le_nat_alt unat_ucast_up total_def spc_def)
  have st32: "unat (ucast (bs_reserved_sectors bs) + ucast (bs_num_fats bs) * bs_fat_size_32 bs :: u32) = start"
    unfolding start_def using lt tot by (intro init_data_start) (simp add: start_def)
  have cc: "unat ((bs_total_sectors_32 bs - (ucast (bs_reserved_sectors bs) + ucast (bs_num_fats bs) * bs_fat_size_32 bs))
      div ucast (bs_sectors_per_cluster bs)) = (total - start) div spc"
    using lt st32 by (simp add: unat_div_distrib unat_sub word_le_nat_alt unat_ucast_up total_def spc_def)
  have small: "(total - start) div spc < 4294967296" using tot div_le_dividend [of "total - start" spc] by linarith
  have c2: "unat (boot_clusters bs + 2) = (total - start) div spc + 2"
    using cl small by (subst unat_add_small) simp_all
  have "boot_clusters bs \<noteq> 0" "boot_clusters bs + 2 \<le> ucast FAT32_RESERVED_MIN" using chk by simp_all
  then have c: "0 < (total - start) div spc" "(total - start) div spc + 2 \<le> 0x0FFFFFF0"
    using cl c2 by (simp_all add: word_le_nat_alt FAT32_RESERVED_MIN_def unat_gt_0 [symmetric] del: unat_gt_0)
  have bps16: "unat (bs_bytes_per_sector bs) = 512" using chk by (simp add: BLOCK_SIZE_BYTES_def)
  have fs: "unat (bs_fat_size_32 bs) < 36028797018963968" using unat_lt_u32 [of "bs_fat_size_32 bs"] by linarith
  have "unat ((boot_clusters bs + 2) * 4) = ((total - start) div spc + 2) * 4"
    using c2 small by (subst unat_mult_small) simp_all
  moreover have "unat (ucast (bs_fat_size_32 bs) * ucast (bs_bytes_per_sector bs) :: u64) =
      unat (bs_fat_size_32 bs) * 512"
    using bps16 fs by (subst unat_mult_small) (simp_all add: unat_ucast_up)
  moreover have "(boot_clusters bs + 2) * 4 \<le> ucast (bs_fat_size_32 bs) * ucast (bs_bytes_per_sector bs)"
    using chk by (elim conjE)
  ultimately have fatsz: "((total - start) div spc + 2) * 4 \<le> unat (bs_fat_size_32 bs) * 512"
    by (simp only: word_le_nat_alt)
  have part: "unat part + total \<le> unat blocks"
  proof -
    have "unat part + total < 18446744073709551616" using unat_lt_u32 [of part] tot by linarith
    then have "unat (ucast part + ucast (bs_total_sectors_32 bs) :: u64) = unat part + total"
      by (subst unat_add_small) (simp_all add: unat_ucast_up total_def)
    then show ?thesis using chk by (simp add: word_le_nat_alt unat_ucast_up)
  qed
  have root: "2 \<le> unat (bs_root_cluster bs)" "unat (bs_root_cluster bs) < (total - start) div spc + 2"
    using chk c2 by (simp_all add: word_le_nat_alt word_less_nat_alt unat_ucast_up)
  have bps: "ucast (bs_bytes_per_sector bs) = (512 :: u32)"
    using bps16 by (simp add: word_unat_eq_iff unat_ucast_up)
  have bpc: "unat (512 * ucast (bs_sectors_per_cluster bs) :: u32) = 512 * unat (bs_sectors_per_cluster bs)"
    using spc(2) by (subst unat_mult_small) (simp_all add: unat_ucast_up spc_def)
  show ?thesis
    unfolding geom_ok_def do_init_state_def Let_def
    using bpc spc fats chk lt part cc c fatsz root bps st32
    by (simp add: unat_ucast_up word_le_nat_alt total_def spc_def start_def unat_gt_0)
qed

section \<open>The table on disk\<close>

text \<open>The sector of the first copy that holds the link of a cluster, the link, and its update in all copies.\<close>

definition fat_lba :: "fat_geom \<Rightarrow> nat \<Rightarrow> nat" where
  "fat_lba g c = unat (partition_start_lba g) + unat (fat_start_sector g) + (4 * c) div 512"

definition fat_val :: "fat_geom \<Rightarrow> (nat \<Rightarrow> bytes) \<Rightarrow> nat \<Rightarrow> u32" where
  "fat_val g f c = le32 (f (fat_lba g c)) ((4 * c) mod 512) AND FAT32_CLUSTER_MASK"

definition on_copies :: "fat_geom \<Rightarrow> (nat \<Rightarrow> bytes) \<Rightarrow> nat \<Rightarrow> bytes \<Rightarrow> nat \<Rightarrow> bytes" where
  "on_copies g f s b = (\<lambda>i. if \<exists>k < unat (fat_count g). i = s + k * unat (fat_sector_count g) then b else f i)"

definition fat_put :: "fat_geom \<Rightarrow> (nat \<Rightarrow> bytes) \<Rightarrow> nat \<Rightarrow> u32 \<Rightarrow> nat \<Rightarrow> bytes" where
  "fat_put g f c v =
     (let s = fat_lba g c; i = (4 * c) mod 512
      in on_copies g f s (put32 (f s) i (le32 (f s) i AND 0xF0000000 OR v AND FAT32_CLUSTER_MASK)))"

text \<open>The invariant: a sane geometry, a working device and a clean cache that agrees with the disk.\<close>

definition fat_ok :: "'d block_ops \<Rightarrow> ('d \<Rightarrow> nat \<Rightarrow> bytes) \<Rightarrow> ('d \<Rightarrow> bool) \<Rightarrow> fat_geom \<Rightarrow> 'd fat_state \<Rightarrow> bool" where
  "fat_ok io sector ready g st \<longleftrightarrow>
     ready (fdev st) \<and> dev_set st \<and> geom_ok g (unat (dev_blocks io (fdev st))) \<and> \<not> buffer_dirty st \<and>
     length (buffer st) = 512 \<and>
     (buffer_sector st \<noteq> FAT_INVALID_SECTOR \<longrightarrow>
        buffer st = sector (fdev st) (unat (partition_start_lba g) + unat (buffer_sector st)) \<and>
        unat (buffer_sector st) < unat (data_start_sector g))"

definition volume :: "'d block_ops \<Rightarrow> ('d \<Rightarrow> nat \<Rightarrow> bytes) \<Rightarrow> ('d \<Rightarrow> bool) \<Rightarrow> fat_geom \<Rightarrow> 'd fat_state \<Rightarrow> 'd fat_state \<Rightarrow>
    (nat \<Rightarrow> bytes) \<Rightarrow> bool" where
  "volume io sector ready g st st' f \<longleftrightarrow>
     fat_ok io sector ready g st' \<and> dev_blocks io (fdev st') = dev_blocks io (fdev st) \<and> sector (fdev st') = f"

lemma valid_cluster_nat:
  assumes "geom_ok g blocks"
  shows "valid_cluster g c \<longleftrightarrow> 2 \<le> unat c \<and> unat c < unat (cluster_count g) + 2"
proof -
  have "unat (cluster_count g + 2) = unat (cluster_count g) + 2"
    using geom_okD(10) [OF assms] by (subst unat_add_small) simp_all
  then show ?thesis by (simp add: valid_cluster_def word_le_nat_alt word_less_nat_alt)
qed

lemma entry_position:
  assumes "geom_ok g blocks" and "blocks < 4294967296" and "valid_cluster g c"
  shows "4 * unat c div 512 < unat (fat_sector_count g)"
    and "unat (fat_start_sector g + push_bit 2 c div bytes_per_sector g) = unat (fat_start_sector g) + 4 * unat c div 512"
    and "unat (push_bit 2 c mod bytes_per_sector g) = 4 * unat c mod 512"
    and "fat_lba g (unat c) < blocks"
    and "unat (fat_start_sector g) + 4 * unat c div 512 < unat (data_start_sector g)"
    and "unat (partition_start_lba g + (fat_start_sector g + push_bit 2 c div bytes_per_sector g)) = fat_lba g (unat c)"
proof -
  have c: "unat c < unat (cluster_count g) + 2" using assms valid_cluster_nat by blast
  have g: "(unat (cluster_count g) + 2) * 4 \<le> unat (fat_sector_count g) * 512" "unat (cluster_count g) + 2 \<le> 0x0FFFFFF0"
    "bytes_per_sector g = 512" "0 < unat (fat_count g)"
    "unat (data_start_sector g) = unat (fat_start_sector g) + unat (fat_count g) * unat (fat_sector_count g)"
    "unat (data_start_sector g) < unat (total_sector_count g)"
    "unat (partition_start_lba g) + unat (total_sector_count g) \<le> blocks"
    by (rule geom_okD [OF assms(1)])+
  show 1: "4 * unat c div 512 < unat (fat_sector_count g)" using c g(1) by (simp add: less_mult_imp_div_less)
  have off: "unat (push_bit 2 c) = 4 * unat c"
    using c g(2) by (simp add: push_bit_eq_mult unat_word_ariths)
  have "unat (fat_sector_count g) \<le> unat (fat_count g) * unat (fat_sector_count g)" using g(4) by simp
  then show in_fat: "unat (fat_start_sector g) + 4 * unat c div 512 < unat (data_start_sector g)"
    using 1 g(5) by linarith
  then have 2: "unat (fat_start_sector g) + 4 * unat c div 512 < unat (total_sector_count g)" using g(6) by linarith
  have lt: "unat (fat_start_sector g) + 4 * unat c div 512 < 4294967296"
    using 2 unat_lt_u32 [of "total_sector_count g"] by linarith
  show 3: "unat (fat_start_sector g + push_bit 2 c div bytes_per_sector g) = unat (fat_start_sector g) + 4 * unat c div 512"
    using lt by (subst unat_add_small) (simp_all add: unat_div_distrib off g(3))
  show "unat (push_bit 2 c mod bytes_per_sector g) = 4 * unat c mod 512"
    by (simp add: unat_mod_distrib off g(3))
  show 4: "fat_lba g (unat c) < blocks" using 2 g(7) by (simp add: fat_lba_def)
  show "unat (partition_start_lba g + (fat_start_sector g + push_bit 2 c div bytes_per_sector g)) = fat_lba g (unat c)"
    using 4 assms(2) by (subst unat_add_small) (simp_all add: 3 fat_lba_def)
qed

lemma copy_position:
  assumes "geom_ok g blocks" and "blocks < 4294967296" and "valid_cluster g c" and "k < unat (fat_count g)"
  shows "fat_lba g (unat c) + k * unat (fat_sector_count g) < unat (partition_start_lba g) + unat (data_start_sector g)"
    and "fat_lba g (unat c) + k * unat (fat_sector_count g) < blocks"
    and "unat (partition_start_lba g + (fat_start_sector g + push_bit 2 c div bytes_per_sector g) +
          of_nat k * fat_sector_count g) = fat_lba g (unat c) + k * unat (fat_sector_count g)"
proof -
  have "Suc k * unat (fat_sector_count g) \<le> unat (fat_count g) * unat (fat_sector_count g)"
    using assms(4) by (intro mult_le_mono1) simp
  then show 1: "fat_lba g (unat c) + k * unat (fat_sector_count g) < unat (partition_start_lba g) + unat (data_start_sector g)"
    using entry_position(1) [OF assms(1,2,3)] geom_okD(6) [OF assms(1)] by (simp add: fat_lba_def)
  then show 2: "fat_lba g (unat c) + k * unat (fat_sector_count g) < blocks"
    using geom_okD(7,8) [OF assms(1)] by linarith
  have k: "k < 4294967296" using assms(4) unat_lt_u32 [of "fat_count g"] by linarith
  have kk: "unat (of_nat k :: u32) = k" using k by (simp add: unsigned_of_nat take_bit_nat_eq_self)
  have m: "k * unat (fat_sector_count g) < 4294967296" using 2 assms(2) by linarith
  have "unat (of_nat k * fat_sector_count g :: u32) = k * unat (fat_sector_count g)"
    using m kk by (subst unat_mult_small) simp_all
  then show "unat (partition_start_lba g + (fat_start_sector g + push_bit 2 c div bytes_per_sector g) +
      of_nat k * fat_sector_count g) = fat_lba g (unat c) + k * unat (fat_sector_count g)"
    using 2 assms(2) entry_position(6) [OF assms(1,2,3)] by (subst unat_add_small) simp_all
qed

lemma four_mod: "4 * (a :: nat) mod 512 = 4 * (a mod 128)"
  using mod_mult_mult1 [of 4 a 128] by simp

lemma four_apart:
  assumes "4 * (a :: nat) div 512 = 4 * b div 512" and "a \<noteq> b"
  shows "4 * a mod 512 + 4 \<le> 4 * b mod 512 \<or> 4 * b mod 512 + 4 \<le> 4 * a mod 512"
proof -
  have "a div 128 = b div 128" using assms(1) by simp
  then have "a mod 128 \<noteq> b mod 128" using assms(2) by (metis div_mult_mod_eq)
  then show ?thesis unfolding four_mod by linarith
qed

lemma four_fits: "4 * (a :: nat) mod 512 + 4 \<le> 512"
proof -
  have "a mod 128 < 128" by simp
  then show ?thesis unfolding four_mod by linarith
qed

lemma fat_lba_eq_copy:
  assumes "geom_ok g blocks" and "blocks < 4294967296" and "valid_cluster g c" and "valid_cluster g c'"
    and "fat_lba g (unat c') = fat_lba g (unat c) + k * unat (fat_sector_count g)"
  shows "k = 0"
proof (rule ccontr)
  assume "k \<noteq> 0"
  then have "unat (fat_sector_count g) \<le> k * unat (fat_sector_count g)" by simp
  then show False
    using assms(5) [unfolded fat_lba_def] entry_position(1) [OF assms(1,2,4)] by linarith
qed

lemma masked_entry: "(old AND 0xF0000000 OR v AND FAT32_CLUSTER_MASK) AND FAT32_CLUSTER_MASK = v AND FAT32_CLUSTER_MASK"
  for old v :: u32
proof -
  have "(0xF0000000 :: u32) AND FAT32_CLUSTER_MASK = 0" by (simp add: FAT32_CLUSTER_MASK_def)
  then show ?thesis by (simp add: bit.conj_disj_distrib2 and.assoc)
qed

text \<open>Lookup after update.\<close>

lemma fat_val_put:
  assumes "geom_ok g blocks" and "blocks < 4294967296" and "valid_cluster g c" and "valid_cluster g c'"
    and "length (f (fat_lba g (unat c))) = 512"
  shows "fat_val g (fat_put g f (unat c) v) (unat c') =
    (if c' = c then v AND FAT32_CLUSTER_MASK else fat_val g f (unat c'))"
proof -
  let ?s = "fat_lba g (unat c)" let ?i = "4 * unat c mod 512" let ?j = "4 * unat c' mod 512"
  have i: "?i + 4 \<le> 512" by (rule four_fits)
  define b where "b = put32 (f ?s) ?i (le32 (f ?s) ?i AND 0xF0000000 OR v AND FAT32_CLUSTER_MASK)"
  have put: "fat_put g f (unat c) v = on_copies g f ?s b" by (simp add: fat_put_def Let_def b_def)
  have first: "0 < unat (fat_count g)" by (rule geom_okD [OF assms(1)])
  show ?thesis
  proof (cases "fat_lba g (unat c') = ?s")
    case False
    then have "\<not> (\<exists>k < unat (fat_count g). fat_lba g (unat c') = ?s + k * unat (fat_sector_count g))"
      using fat_lba_eq_copy [OF assms(1-4)] by (metis add_0_right mult_0)
    then show ?thesis using False by (auto simp: fat_val_def put on_copies_def)
  next
    case True
    then have sec: "on_copies g f ?s b (fat_lba g (unat c')) = b" using first by (auto simp: on_copies_def)
    show ?thesis
    proof (cases "c' = c")
      case same: True
      then show ?thesis
        using sec i assms(5) by (simp add: fat_val_def put b_def le32_put32 masked_entry)
    next
      case False
      then have "unat c' \<noteq> unat c" by (simp add: word_unat_eq_iff)
      moreover have "4 * unat c' div 512 = 4 * unat c div 512" using True by (simp add: fat_lba_def)
      ultimately have "?j + 4 \<le> ?i \<or> ?i + 4 \<le> ?j"
        by (rule four_apart [rotated])
      then show ?thesis
        using sec i assms(5) True False by (simp add: fat_val_def put b_def le32_put32_other)
    qed
  qed
qed

lemma fat_put_outside:
  assumes "geom_ok g blocks" and "blocks < 4294967296" and "valid_cluster g c"
    and "i < unat (partition_start_lba g) + unat (fat_start_sector g) \<or>
         unat (partition_start_lba g) + unat (data_start_sector g) \<le> i"
  shows "fat_put g f (unat c) v i = f i"
proof -
  have "i \<noteq> fat_lba g (unat c) + k * unat (fat_sector_count g)" if "k < unat (fat_count g)" for k
    using assms(4) copy_position(1) [OF assms(1-3) that] by (auto simp: fat_lba_def)
  then show ?thesis by (auto simp: fat_put_def on_copies_def Let_def)
qed

section \<open>The cached table implements the map\<close>

lemma fat_okD:
  assumes "fat_ok io sector ready g st"
  shows "ready (fdev st)" and "dev_set st" and "geom_ok g (unat (dev_blocks io (fdev st)))" and "\<not> buffer_dirty st"
    and "buffer_sector st \<noteq> FAT_INVALID_SECTOR \<Longrightarrow>
      buffer st = sector (fdev st) (unat (partition_start_lba g) + unat (buffer_sector st))"
    and "length (buffer st) = 512"
    and "buffer_sector st \<noteq> FAT_INVALID_SECTOR \<Longrightarrow> unat (buffer_sector st) < unat (data_start_sector g)"
  using assms by (simp_all add: fat_ok_def)

lemma not_invalid_sector: "unat (x :: u32) < unat (y :: u32) \<Longrightarrow> x \<noteq> FAT_INVALID_SECTOR"
proof
  assume "unat x < unat y" and "x = FAT_INVALID_SECTOR"
  then have "4294967295 < unat y" by (simp add: FAT_INVALID_SECTOR_def)
  then show False using unat_lt_u32 [of y] by linarith
qed

context block_store
begin

abbreviation "fat_ok_here \<equiv> fat_ok io sector ready"
abbreviation "volume_here \<equiv> volume io sector ready"

lemma volume_fdev:
  assumes "fat_ok_here g st" and "holds io sector ready (fdev st) d' (sector (fdev st))"
  shows "volume_here g st (st\<lparr>fdev := d'\<rparr>) (sector (fdev st))"
  using assms by (auto simp: fat_ok_def volume_def holds_def)

lemma on_dev_read:
  assumes "fat_ok_here g st" and "unat lba + n \<le> unat (dev_blocks io (fdev st))"
  shows "\<exists>st'. on_dev (read_blocks io lba n) st = (Inr (sectors_from (sector (fdev st)) (unat lba) n), st') \<and>
    volume_here g st st' (sector (fdev st))"
proof -
  from read_ok [OF fat_okD(1) [OF assms(1)] assms(2)] obtain d' where
    "dev_read io (fdev st) lba n = (Err_None, sectors_from (sector (fdev st)) (unat lba) n, d')"
    "holds io sector ready (fdev st) d' (sector (fdev st))" by blast
  then show ?thesis using volume_fdev [OF assms(1)] by (simp add: on_dev_def read_blocks_def)
qed

lemma load_buffer_ok:
  assumes "fat_ok_here g st" and "unat fs < unat (data_start_sector g)"
  shows "\<exists>st'. load_buffer g io fs st = (Inr (), st') \<and> volume_here g st st' (sector (fdev st)) \<and>
    buffer_sector st' = fs"
proof -
  let ?d = "fdev st" let ?lba = "partition_start_lba g + fs"
  have g: "unat (partition_start_lba g) + unat (data_start_sector g) \<le> unat (dev_blocks io ?d)"
    using geom_okD(7,8) [OF fat_okD(3) [OF assms(1)]] by linarith
  have lt: "unat (partition_start_lba g) + unat fs < 4294967296"
    using g assms(2) unat_lt_u32 [of "dev_blocks io ?d"] by linarith
  then have lba: "unat ?lba = unat (partition_start_lba g) + unat fs" by (subst unat_add_small) simp_all
  have "unat ?lba + 1 \<le> unat (dev_blocks io ?d)" using lba g assms(2) by simp
  from read_ok [OF fat_okD(1) [OF assms(1)] this] obtain d' where
    rd: "dev_read io ?d ?lba 1 = (Err_None, sector ?d (unat ?lba), d')" "holds io sector ready ?d d' (sector ?d)"
    by auto
  have "unat ?lba < unat (dev_blocks io ?d)" using lba g assms(2) by simp
  then have len: "length (sector ?d (unat ?lba)) = 512" by (rule sector_length [OF fat_okD(1) [OF assms(1)]])
  have "volume_here g st (st\<lparr>fdev := d', buffer := sector ?d (unat ?lba), buffer_sector := fs\<rparr>) (sector ?d)"
    using rd(2) assms lba len by (auto simp: fat_ok_def volume_def holds_def)
  then show ?thesis
    using rd(1) len fat_okD(6) [OF assms(1)] by (simp add: load_buffer_def)
qed

lemma read_entry_ok:
  assumes "fat_ok_here g st" and "valid_cluster g c"
  shows "\<exists>st'. read_entry g io c st = (Inr (fat_val g (sector (fdev st)) (unat c)), st') \<and>
    volume_here g st st' (sector (fdev st))"
proof -
  note pos = entry_position [OF fat_okD(3) [OF assms(1)] unat_lt_u32 assms(2)]
  define fs where "fs = fat_start_sector g + push_bit 2 c div bytes_per_sector g"
  let ?m = "if fs \<noteq> buffer_sector st then load_buffer g io fs else op_ok ()"
  have fs: "unat fs < unat (data_start_sector g)" using pos(2,5) by (simp add: fs_def)
  obtain st' where st': "?m st = (Inr (), st')" "volume_here g st st' (sector (fdev st))" "buffer_sector st' = fs"
  proof (cases "fs = buffer_sector st")
    case True
    have "volume_here g st st (sector (fdev st))" using assms(1) by (simp add: volume_def)
    then show ?thesis by (intro that [of st]) (simp_all add: True)
  next
    case False
    obtain st' where "load_buffer g io fs st = (Inr (), st')" "volume_here g st st' (sector (fdev st))"
      "buffer_sector st' = fs" using load_buffer_ok [OF assms(1) fs] by blast
    then show ?thesis by (intro that [of st']) (simp_all add: False)
  qed
  have ok: "fat_ok_here g st'" "sector (fdev st') = sector (fdev st)" using st'(2) by (simp_all add: volume_def)
  have "buffer st' = sector (fdev st') (unat (partition_start_lba g) + unat fs)"
    using fat_okD(5) [OF ok(1)] st'(3) not_invalid_sector [OF fs] by simp
  then have "buffer st' = sector (fdev st) (fat_lba g (unat c))" using ok(2) pos(2) by (simp add: fat_lba_def fs_def add.assoc)
  moreover have "read_entry g io c st =
      op_try ?m (\<lambda>_ st. (Inr (le32 (buffer st) (unat (push_bit 2 c mod bytes_per_sector g)) AND FAT32_CLUSTER_MASK), st)) st"
    by (simp only: fs_def read_entry_def Let_def assms(2) fat_okD(2) [OF assms(1)] op_ensure_def simp_thms if_True)
  ultimately have "read_entry g io c st = (Inr (fat_val g (sector (fdev st)) (unat c)), st')"
    by (simp only: op_try_Inr [of ?m st, OF st'(1)] pos(3) fat_val_def)
  then show ?thesis using st'(2) by blast
qed

text \<open>Writing one buffer to every copy of the table.\<close>

lemma write_copies_ok:
  assumes "ready (fdev st)" and "length (buffer st) = 512"
    and "\<And>k. k \<in> set ks \<Longrightarrow> unat (partition_start_lba g + fs + of_nat k * fat_sector_count g) = s + k * n"
    and "\<And>k. k \<in> set ks \<Longrightarrow> s + k * n < unat (dev_blocks io (fdev st))"
  shows "\<exists>d'. op_each (\<lambda>i st. on_dev (write_blocks io (partition_start_lba g + fs + of_nat i * fat_sector_count g)
        (buffer st) 1) st) ks st = (Inr (), st\<lparr>fdev := d'\<rparr>) \<and>
    holds io sector ready (fdev st) d' (\<lambda>i. if \<exists>k \<in> set ks. i = s + k * n then buffer st else sector (fdev st) i)"
  using assms
proof (induction ks arbitrary: st)
  case Nil
  then show ?case by (intro exI [of _ "fdev st"]) (simp add: holds_def)
next
  case (Cons k ks)
  let ?lba = "partition_start_lba g + fs + of_nat k * fat_sector_count g"
  have lba: "unat ?lba = s + k * n" using Cons.prems(3) by simp
  have "unat ?lba + 1 \<le> unat (dev_blocks io (fdev st))" using lba Cons.prems(4) [of k] by simp
  from write_ok [OF Cons.prems(1) this, of "buffer st"] obtain d1 where
    d1: "dev_write io (fdev st) ?lba (buffer st) 1 = (Err_None, d1)"
      "holds io sector ready (fdev st) d1 (write_sectors (sector (fdev st)) (s + k * n) 1 (buffer st))"
    using Cons.prems(2) lba by auto
  let ?st1 = "st\<lparr>fdev := d1\<rparr>"
  have first: "on_dev (write_blocks io ?lba (buffer st) 1) st = (Inr (), ?st1)"
    using d1(1) by (simp add: on_dev_def write_blocks_def)
  have sec1: "sector d1 = (sector (fdev st))(s + k * n := buffer st)"
    using d1(2) Cons.prems(2) by (auto simp: holds_def write_sectors_def fun_eq_iff)
  have "ready d1" "dev_blocks io d1 = dev_blocks io (fdev st)" using d1(2) by (simp_all add: holds_def)
  moreover have b1: "buffer ?st1 = buffer st" and f1: "fdev ?st1 = d1" and u1: "\<And>d. ?st1\<lparr>fdev := d\<rparr> = st\<lparr>fdev := d\<rparr>"
    by simp_all
  ultimately obtain d2 where d2: "op_each (\<lambda>i st. on_dev (write_blocks io (partition_start_lba g + fs + of_nat i * fat_sector_count g)
        (buffer st) 1) st) ks ?st1 = (Inr (), st\<lparr>fdev := d2\<rparr>)"
    "holds io sector ready d1 d2 (\<lambda>i. if \<exists>k \<in> set ks. i = s + k * n then buffer st else sector d1 i)"
    using Cons.IH [of ?st1, unfolded b1 f1 u1] Cons.prems by auto
  have "holds io sector ready (fdev st) d2
      (\<lambda>i. if \<exists>k' \<in> set (k # ks). i = s + k' * n then buffer st else sector (fdev st) i)"
    using d2(2) d1(2) by (auto simp: holds_def sec1 fun_eq_iff)
  then show ?case using first d2(1) by (intro exI [of _ d2]) (simp add: op_try_def)
qed

lemma write_copies_on:
  assumes "ready (fdev st)" and "length (buffer st) = 512"
    and "\<And>k. k < unat (fat_count g) \<Longrightarrow>
      unat (partition_start_lba g + fs + of_nat k * fat_sector_count g) = s + k * unat (fat_sector_count g)"
    and "\<And>k. k < unat (fat_count g) \<Longrightarrow> s + k * unat (fat_sector_count g) < unat (dev_blocks io (fdev st))"
  shows "\<exists>d'. write_copies g io fs st = (Inr (), st\<lparr>fdev := d'\<rparr>) \<and>
    holds io sector ready (fdev st) d' (on_copies g (sector (fdev st)) s (buffer st))"
proof -
  have "on_copies g (sector (fdev st)) s (buffer st) =
      (\<lambda>i. if \<exists>k \<in> set [0..<unat (fat_count g)]. i = s + k * unat (fat_sector_count g) then buffer st else sector (fdev st) i)"
    by (simp add: on_copies_def Bex_def)
  then show ?thesis
    unfolding write_copies_def
    using write_copies_ok [OF assms(1,2), of "[0..<unat (fat_count g)]" g fs s "unat (fat_sector_count g)"] assms(3,4)
    by simp
qed

lemma write_entry_ok:
  assumes "fat_ok_here g st" and "valid_cluster g c"
  shows "\<exists>st'. write_entry g io c v st = (Inr (), st') \<and>
    volume_here g st st' (fat_put g (sector (fdev st)) (unat c) v)"
proof -
  note ok = fat_okD [OF assms(1)]
  note pos = entry_position [OF ok(3) unat_lt_u32 assms(2)]
  note cpos = copy_position [OF ok(3) unat_lt_u32 assms(2)]
  define fs where "fs = fat_start_sector g + push_bit 2 c div bytes_per_sector g"
  define off where "off = 4 * unat c mod 512"
  let ?m = "if fs \<noteq> buffer_sector st then
      op_try (if buffer_dirty st \<and> buffer_sector st \<noteq> FAT_INVALID_SECTOR
              then op_try (write_copies g io (buffer_sector st)) (\<lambda>_. set_dirty False) else op_ok ())
        (\<lambda>_. load_buffer g io fs) else op_ok ()"
  have fs: "unat fs < unat (data_start_sector g)" using pos(2,5) by (simp add: fs_def)
  obtain st1 where st1: "?m st = (Inr (), st1)" "volume_here g st st1 (sector (fdev st))" "buffer_sector st1 = fs"
  proof (cases "fs = buffer_sector st")
    case True
    have "volume_here g st st (sector (fdev st))" using assms(1) by (simp add: volume_def)
    then show ?thesis by (intro that [of st]) (simp_all add: True)
  next
    case False
    obtain st' where "load_buffer g io fs st = (Inr (), st')" "volume_here g st st' (sector (fdev st))"
      "buffer_sector st' = fs" using load_buffer_ok [OF assms(1) fs] by blast
    then show ?thesis by (intro that [of st']) (simp_all add: False ok(4) op_try_def)
  qed
  have ok1: "fat_ok_here g st1" and same: "sector (fdev st1) = sector (fdev st)"
    "dev_blocks io (fdev st1) = dev_blocks io (fdev st)" using st1(2) by (simp_all add: volume_def)
  have "buffer st1 = sector (fdev st1) (unat (partition_start_lba g) + unat fs)"
    using fat_okD(5) [OF ok1] st1(3) not_invalid_sector [OF fs] by simp
  then have buf: "buffer st1 = sector (fdev st) (fat_lba g (unat c))"
    using same(1) pos(2) by (simp add: fat_lba_def fs_def add.assoc)
  define b where "b = put32 (buffer st1) off (le32 (buffer st1) off AND 0xF0000000 OR v AND FAT32_CLUSTER_MASK)"
  have lenb: "length b = 512" using fat_okD(6) [OF ok1] four_fits [of "unat c"] by (simp add: b_def off_def)
  let ?st2 = "st1\<lparr>buffer := b, buffer_dirty := True\<rparr>"
  have "\<exists>d'. write_copies g io fs ?st2 = (Inr (), ?st2\<lparr>fdev := d'\<rparr>) \<and>
      holds io sector ready (fdev ?st2) d' (on_copies g (sector (fdev ?st2)) (fat_lba g (unat c)) (buffer ?st2))"
    using cpos(2,3) fat_okD(1) [OF ok1] lenb same(2) by (intro write_copies_on) (simp_all add: fs_def)
  moreover have "on_copies g (sector (fdev st1)) (fat_lba g (unat c)) b = fat_put g (sector (fdev st)) (unat c) v"
    by (simp add: fat_put_def Let_def b_def buf off_def same)
  ultimately obtain d' where d': "write_copies g io fs ?st2 = (Inr (), ?st2\<lparr>fdev := d'\<rparr>)"
    "holds io sector ready (fdev st1) d' (fat_put g (sector (fdev st)) (unat c) v)" by auto
  let ?st3 = "st1\<lparr>buffer := b, buffer_dirty := False, fdev := d'\<rparr>"
  have bnew: "b = sector d' (unat (partition_start_lba g) + unat fs)"
  proof -
    have "fat_lba g (unat c) = unat (partition_start_lba g) + unat fs"
      using pos(2) by (simp add: fat_lba_def fs_def add.assoc)
    moreover have "fat_put g (sector (fdev st)) (unat c) v (fat_lba g (unat c)) = b"
      using geom_okD(5) [OF ok(3)] by (auto simp: fat_put_def on_copies_def Let_def b_def buf off_def)
    ultimately show ?thesis using d'(2) by (simp add: holds_def)
  qed
  have vol: "volume_here g st ?st3 (fat_put g (sector (fdev st)) (unat c) v)"
    using d'(2) ok1 same(2) bnew lenb st1(3) fs by (simp add: volume_def holds_def fat_ok_def)
  have "write_entry g io c v st =
      op_try ?m (\<lambda>_ st. op_try (write_copies g io fs) (\<lambda>_. set_dirty False)
        (st\<lparr>buffer := put32 (buffer st) off (le32 (buffer st) off AND 0xF0000000 OR v AND FAT32_CLUSTER_MASK),
            buffer_dirty := True\<rparr>)) st"
    using assms(2) by (simp only: fs_def off_def write_entry_def Let_def pos(3) valid_cluster_def op_ensure_def simp_thms if_True)
  also have "\<dots> = op_try (write_copies g io fs) (\<lambda>_. set_dirty False) ?st2"
    by (simp only: op_try_Inr [of ?m st, OF st1(1)] b_def)
  also have "\<dots> = (Inr (), ?st3)"
    by (simp add: op_try_Inr [of "write_copies g io fs" ?st2, OF d'(1)] set_dirty_def)
  finally show ?thesis using vol by blast
qed

end

end
