(* ===== verification/Fat_Chain.thy ===== *)
theory Fat_Chain
  imports Fat_Table
begin

unbundle bit_operations_syntax

text \<open>
  Walks along cluster chains (\<^verbatim>\<open>FatInfo::ClusterChain\<close>). A proper chain is a list of valid
  clusters, each linked to the next and the last to an end marker. The theory shows that a walk
  visits exactly the proper chain of its start, that it reports \<^verbatim>\<open>BadFs\<close> on every other table,
  and that Brent's method reports a cycle after a number of reads linear in its length. The rule
  \<open>chain_each_rule\<close> carries the proofs about the loops over chains in the directory code.
\<close>

section \<open>Proper chains\<close>

fun links_to :: "(u32 \<Rightarrow> u32) \<Rightarrow> u32 list \<Rightarrow> bool" where
  "links_to L [] = False"
| "links_to L [c] = (FAT32_EOC_MIN \<le> L c)"
| "links_to L (c # d # cs) = (L c = d \<and> links_to L (d # cs))"

definition link :: "fat_geom \<Rightarrow> (nat \<Rightarrow> bytes) \<Rightarrow> u32 \<Rightarrow> u32" where
  "link g f c = fat_val g f (unat c)"

definition chain_of :: "fat_geom \<Rightarrow> (nat \<Rightarrow> bytes) \<Rightarrow> u32 \<Rightarrow> u32 list \<Rightarrow> bool" where
  "chain_of g f start cs \<longleftrightarrow>
     links_to (link g f) cs \<and> hd cs = start \<and> (\<forall>c \<in> set cs. valid_cluster g c)"

lemma links_to_nonempty: "links_to L cs \<Longrightarrow> cs \<noteq> []"
  by auto

lemma links_to_suffix: "links_to L (as @ c # bs) \<Longrightarrow> links_to L (c # bs)"
proof (induction as)
  case (Cons a as)
  then show ?case by (cases as) (auto split: list.splits)
qed simp

lemma links_to_nth: "links_to L cs \<Longrightarrow> Suc k < length cs \<Longrightarrow> L (cs ! k) = cs ! Suc k"
proof (induction L cs arbitrary: k rule: links_to.induct)
  case (3 L c d cs)
  then show ?case by (cases k) auto
qed auto

lemma links_to_last: "links_to L cs \<Longrightarrow> FAT32_EOC_MIN \<le> L (last cs)"
  by (induction L cs rule: links_to.induct) auto

lemma links_to_unique:
  assumes "links_to L (c # xs)" and "links_to L (c # ys)"
    and "\<forall>x \<in> set xs \<union> set ys. \<not> FAT32_EOC_MIN \<le> x"
  shows "xs = ys"
  using assms
proof (induction xs arbitrary: c ys)
  case Nil
  then show ?case by (cases ys) auto
next
  case (Cons x xs)
  then show ?case by (cases ys) auto
qed

lemma links_to_distinct:
  assumes "links_to L cs" and "\<forall>c \<in> set cs. \<not> FAT32_EOC_MIN \<le> c"
  shows "distinct cs"
  using assms
proof (induction cs)
  case (Cons c cs)
  have "c \<notin> set cs"
  proof
    assume "c \<in> set cs"
    then obtain as bs where cs: "cs = as @ c # bs" by (meson split_list)
    have "links_to L (c # bs)" using links_to_suffix [of L "c # as" c bs] Cons.prems(1) cs by simp
    then have "bs = cs"
      using Cons.prems cs by (intro links_to_unique [of L c]) auto
    then have "length bs = length cs" by simp
    then show False using cs by simp
  qed
  moreover have "distinct cs"
    using Cons by (cases cs) auto
  ultimately show ?case by simp
qed simp

lemma valid_not_eoc: "geom_ok g blocks \<Longrightarrow> valid_cluster g c \<Longrightarrow> \<not> FAT32_EOC_MIN \<le> c"
  using valid_cluster_nat [of g blocks c] geom_okD(10) [of g blocks]
  by (auto simp: FAT32_EOC_MIN_def word_le_nat_alt)

lemma valid_not_zero: "valid_cluster g c \<Longrightarrow> c \<noteq> 0"
  by (auto simp: valid_cluster_def)

lemma chain_ofD:
  assumes "geom_ok g blocks" and "chain_of g f start cs"
  shows "cs \<noteq> []" and "cs ! 0 = start" and "distinct cs" and "\<And>k. k < length cs \<Longrightarrow> valid_cluster g (cs ! k)"
    and "\<And>k. Suc k < length cs \<Longrightarrow> link g f (cs ! k) = cs ! Suc k"
    and "FAT32_EOC_MIN \<le> link g f (cs ! (length cs - 1))"
    and "length cs \<le> unat (cluster_count g)"
proof -
  note c = assms(2) [unfolded chain_of_def]
  show ne: "cs \<noteq> []" using c links_to_nonempty by blast
  show "cs ! 0 = start" using c ne by (simp add: hd_conv_nth)
  show d: "distinct cs" using c valid_not_eoc [OF assms(1)] by (intro links_to_distinct) auto
  show "valid_cluster g (cs ! k)" if "k < length cs" for k using c that by simp
  show "link g f (cs ! k) = cs ! Suc k" if "Suc k < length cs" for k using c that links_to_nth by blast
  show "FAT32_EOC_MIN \<le> link g f (cs ! (length cs - 1))"
    using c ne links_to_last [of "link g f" cs] by (simp add: last_conv_nth)
  have "unat ` set cs \<subseteq> {2..<unat (cluster_count g) + 2}"
    using c valid_cluster_nat [OF assms(1)] by auto
  then have "card (unat ` set cs) \<le> card {2..<unat (cluster_count g) + 2}"
    by (intro card_mono) auto
  moreover have "card (unat ` set cs) = length cs"
    using d by (simp add: card_image inj_on_def word_unat_eq_iff distinct_card)
  ultimately show "length cs \<le> unat (cluster_count g)" by simp
qed

lemma chain_of_unique:
  assumes "geom_ok g blocks" and "chain_of g f start cs" and "chain_of g f start ds"
  shows "cs = ds"
proof -
  obtain xs ys where x: "cs = start # xs" "ds = start # ys"
    using chain_ofD(1,2) [OF assms(1,2)] chain_ofD(1,2) [OF assms(1,3)] by (metis hd_Cons_tl hd_conv_nth)
  then have "xs = ys"
    using assms(2,3) valid_not_eoc [OF assms(1)]
    by (intro links_to_unique [of "link g f" start]) (auto simp: chain_of_def)
  with x show ?thesis by simp
qed

section \<open>One step of a walk\<close>

text \<open>
  The object before its \<open>k\<close>-th step on the sequence of clusters \<open>c\<close>: it stands on \<open>c (k - 1)\<close> and its
  checkpoint is the cluster at the largest position \<open>2 ^ m - 1\<close> visited so far.
\<close>

definition chain_before :: "(nat \<Rightarrow> u32) \<Rightarrow> nat \<Rightarrow> cluster_chain \<Rightarrow> bool" where
  "chain_before c k ch \<longleftrightarrow>
     \<not> ch_finished ch \<and> unat (ch_visited ch) = k \<and>
     (if k = 0 then \<not> ch_started ch \<and> ch_current ch = c 0 \<and> ch_checkpoint ch = c 0 \<and> ch_power ch = 1 \<and> ch_distance ch = 0
      else ch_started ch \<and> ch_current ch = c (k - 1) \<and>
        (\<exists>m. unat (ch_power ch) = 2 ^ m \<and> 2 ^ m \<le> k \<and> k < 2 * 2 ^ m \<and>
           ch_checkpoint ch = c (2 ^ m - 1) \<and> unat (ch_distance ch) = k - 2 ^ m))"

lemma chain_before_start: "chain_before c 0 (new_chain (c 0))"
  by (simp add: chain_before_def new_chain_def)

text \<open>What following a valid link that is not the checkpoint does to the object.\<close>

definition advance :: "cluster_chain \<Rightarrow> u32 \<Rightarrow> cluster_chain" where
  "advance ch nxt =
     (let ch = ch\<lparr>ch_distance := ch_distance ch + 1\<rparr>;
          ch = (if ch_distance ch = ch_power ch
                then ch\<lparr>ch_checkpoint := nxt, ch_power := ch_power ch * 2, ch_distance := 0\<rparr> else ch)
      in ch\<lparr>ch_current := nxt\<rparr>)"

definition visit :: "cluster_chain \<Rightarrow> cluster_chain" where
  "visit ch = ch\<lparr>ch_visited := ch_visited ch + 1, ch_started := True\<rparr>"

lemma advance_before:
  assumes "chain_before c k ch" and "0 < k" and "k < 0x40000000"
  shows "chain_before c (Suc k) (visit (advance ch (c k)))"
proof -
  from assms(1,2) obtain m where m: "unat (ch_power ch) = 2 ^ m" "2 ^ m \<le> k" "k < 2 * 2 ^ m"
    "ch_checkpoint ch = c (2 ^ m - 1)" "unat (ch_distance ch) = k - 2 ^ m" "unat (ch_visited ch) = k"
    "\<not> ch_finished ch"
    by (auto simp: chain_before_def)
  have d1: "unat (ch_distance ch + 1) = k - 2 ^ m + 1"
    using m(3,5) assms(3) by (subst unat_add_small) simp_all
  have v1: "unat (ch_visited ch + 1) = Suc k"
    using m(6) assms(3) by (subst unat_add_small) simp_all
  have eq: "ch_distance ch + 1 = ch_power ch \<longleftrightarrow> k - 2 ^ m + 1 = 2 ^ m"
    using d1 m(1) by (simp add: word_unat_eq_iff)
  show ?thesis
  proof (cases "k - 2 ^ m + 1 = 2 ^ m")
    case True
    have "unat (ch_power ch * 2) = 2 ^ Suc m"
      using m(1,2) assms(3) by (subst unat_mult_small) simp_all
    moreover have "Suc k = 2 ^ Suc m" using True m(2) by simp
    moreover have "k = 2 ^ Suc m - 1" using True m(2) by simp
    ultimately show ?thesis
      using True eq v1 m(7) by (auto simp: chain_before_def advance_def visit_def Let_def intro!: exI [of _ "Suc m"])
  next
    case False
    then have "Suc k < 2 * 2 ^ m" using m(2,3) by simp
    moreover have "Suc (k - 2 ^ m) = Suc k - 2 ^ m" using m(2) by simp
    ultimately show ?thesis
      using False eq v1 d1 m by (auto simp: chain_before_def advance_def visit_def Let_def intro!: exI [of _ m])
  qed
qed

definition step_value :: "fat_geom \<Rightarrow> (nat \<Rightarrow> bytes) \<Rightarrow> cluster_chain \<Rightarrow> error + (u32 \<times> cluster_chain)" where
  "step_value g f ch =
     (let nxt = link g f (ch_current ch)
      in if FAT32_EOC_MIN \<le> nxt then Inr (0, ch\<lparr>ch_finished := True\<rparr>)
         else if valid_cluster g nxt \<and> nxt \<noteq> ch_checkpoint ch \<and> ch_visited ch < cluster_count g
         then Inr (nxt, visit (advance ch nxt)) else Inl BadFs)"

lemma volume_trans:
  "volume io sector ready g st st1 f \<Longrightarrow> volume io sector ready g st1 st2 h \<Longrightarrow> volume io sector ready g st st2 h"
  by (auto simp: volume_def)

context block_store
begin

lemma volume_refl: "fat_ok_here g st \<Longrightarrow> volume_here g st st (sector (fdev st))"
  by (simp add: volume_def)

lemma chain_next_started:
  assumes "fat_ok_here g st" and "valid_cluster g (ch_current ch)" and "ch_started ch" and "\<not> ch_finished ch"
  shows "\<exists>st'. chain_next g io ch st = (step_value g (sector (fdev st)) ch, st') \<and>
    volume_here g st st' (sector (fdev st))"
proof -
  from read_entry_ok [OF assms(1,2)] obtain st' where
    rd: "read_entry g io (ch_current ch) st = (Inr (link g (sector (fdev st)) (ch_current ch)), st')"
    "volume_here g st st' (sector (fdev st))" by (auto simp: link_def)
  have "chain_next g io ch st = (step_value g (sector (fdev st)) ch, st')"
    using assms(3,4)
    by (auto simp: chain_next_def follow_link_def op_try_def rd(1) step_value_def Let_def op_ensure_def
        advance_def visit_def)
  with rd(2) show ?thesis by blast
qed

lemma chain_next_first:
  assumes "\<not> ch_started ch" and "\<not> ch_finished ch"
  shows "chain_next g io ch st =
    (if valid_cluster g (ch_current ch) \<and> ch_visited ch < cluster_count g then Inr (ch_current ch, visit ch)
     else Inl BadFs, st)"
  using assms by (simp add: chain_next_def op_try_def op_ensure_def visit_def)

text \<open>
  A walk over a proper chain: \<open>P k\<close> holds before the cluster with index \<open>k\<close> is handled, and the
  outcome of the loop satisfies \<open>Q\<close>.
\<close>

lemma chain_each_rule_from:
  assumes "chain_of g f start cs"
    and ok: "\<And>k s st. P k s st \<Longrightarrow> fat_ok_here g st \<and> (\<forall>c \<in> set cs. link g (sector (fdev st)) c = link g f c)"
    and stable: "\<And>k s st st'. P k s st \<Longrightarrow> volume_here g st st' (sector (fdev st)) \<Longrightarrow> P k s st'"
    and body: "\<And>k s st. k < length cs \<Longrightarrow> P k s st \<Longrightarrow> guard s \<Longrightarrow>
      case body s (cs ! k) st of (Inr (Inl s'), st') \<Rightarrow> P (Suc k) s' st' | (r, st') \<Rightarrow> Q r st'"
    and stop: "\<And>k s st. P k s st \<Longrightarrow> \<not> guard s \<Longrightarrow> Q (Inr (Inl s)) st"
    and finish: "\<And>s st. P (length cs) s st \<Longrightarrow> Q (Inr (Inl s)) st"
    and start: "P k s st" "k \<le> length cs" "chain_before (\<lambda>i. cs ! i) k ch"
  shows "\<exists>r st'. chain_each g io guard body ch s st = (r, st') \<and> Q r st'"
  using start
proof (induction "length cs - k" arbitrary: k s st ch)
  case (0 k s st ch)
  then have k: "k = length cs" by simp
  show ?case
  proof (cases "guard s")
    case False
    then show ?thesis using 0 stop by (subst chain_each.simps) simp
  next
    case True
    have o: "fat_ok_here g st" and same: "\<forall>c \<in> set cs. link g (sector (fdev st)) c = link g f c"
      using ok [OF 0(2)] by simp_all
    note c = chain_ofD [OF fat_okD(3) [OF o] assms(1)]
    have cur: "ch_current ch = cs ! (k - 1)" "ch_started ch" "\<not> ch_finished ch"
      using 0(4) c(1) k by (auto simp: chain_before_def)
    have "valid_cluster g (ch_current ch)" using cur(1) c(1,4) k by simp
    from chain_next_started [OF o this cur(2,3)] obtain st' where
      nx: "chain_next g io ch st = (step_value g (sector (fdev st)) ch, st')" "volume_here g st st' (sector (fdev st))"
      by blast
    have "link g (sector (fdev st)) (ch_current ch) = link g f (ch_current ch)"
      using same cur(1) c(1) k by simp
    then have "step_value g (sector (fdev st)) ch = Inr (0, ch\<lparr>ch_finished := True\<rparr>)"
      using c(6) cur(1) k by (simp add: step_value_def)
    then show ?thesis
      using nx True finish stable [OF 0(2) nx(2)] k by (subst chain_each.simps) simp
  qed
next
  case (Suc n k s st ch)
  then have k: "k < length cs" by simp
  show ?case
  proof (cases "guard s")
    case False
    then show ?thesis using Suc stop by (subst chain_each.simps) simp
  next
    case True
    have o: "fat_ok_here g st" and same: "\<forall>c \<in> set cs. link g (sector (fdev st)) c = link g f c"
      using ok [OF Suc(3)] by simp_all
    note g = fat_okD(3) [OF o]
    note c = chain_ofD [OF g assms(1)]
    have vis: "unat (ch_visited ch) = k" using Suc(5) by (simp add: chain_before_def)
    have room: "ch_visited ch < cluster_count g" using vis c(7) k by (simp add: word_less_nat_alt)
    have small: "k < 0x40000000" using c(7) k geom_okD(10) [OF g] by simp
    obtain ch' st' where nx: "chain_next g io ch st = (Inr (cs ! k, ch'), st')" "volume_here g st st' (sector (fdev st))"
      "chain_before (\<lambda>i. cs ! i) (Suc k) ch'"
    proof (cases "k = 0")
      case True
      have "valid_cluster g (ch_current ch)" "\<not> ch_started ch" "\<not> ch_finished ch" "ch_current ch = cs ! 0"
        using Suc(5) True c(4) [OF k] by (simp_all add: chain_before_def)
      then have "chain_next g io ch st = (Inr (cs ! k, visit ch), st)"
        using chain_next_first room True by simp
      moreover have "chain_before (\<lambda>i. cs ! i) (Suc k) (visit ch)"
        using Suc(5) True unat_plus_one [of "ch_visited ch" "cluster_count g"] room
        by (auto simp: chain_before_def visit_def word_less_nat_alt intro!: exI [of _ 0])
      ultimately show ?thesis using that volume_refl [OF o] by blast
    next
      case False
      then obtain j where j: "k = Suc j" by (cases k) auto
      have cur: "ch_current ch = cs ! j" "ch_started ch" "\<not> ch_finished ch"
        using Suc(5) j by (auto simp: chain_before_def)
      have "valid_cluster g (ch_current ch)" using cur(1) c(4) j k by simp
      from chain_next_started [OF o this cur(2,3)] obtain st' where
        nx: "chain_next g io ch st = (step_value g (sector (fdev st)) ch, st')" "volume_here g st st' (sector (fdev st))"
        by blast
      have nxt: "link g (sector (fdev st)) (ch_current ch) = cs ! k"
        using same cur(1) c(5) j k by simp
      obtain m where m: "ch_checkpoint ch = cs ! (2 ^ m - 1)" "2 ^ m \<le> k"
        using Suc(5) False by (auto simp: chain_before_def)
      have "(0::nat) < 2 ^ m" by simp
      then have "2 ^ m - 1 \<noteq> k" "2 ^ m - 1 < length cs" using m(2) k by linarith+
      then have "cs ! k \<noteq> ch_checkpoint ch" using m(1) c(3) k by (simp add: nth_eq_iff_index_eq)
      then have "step_value g (sector (fdev st)) ch = Inr (cs ! k, visit (advance ch (cs ! k)))"
        using nxt c(4) [OF k] valid_not_eoc [OF g] room by (simp add: step_value_def Let_def)
      with nx advance_before [OF Suc(5) _ small] False show ?thesis using that by auto
    qed
    have P': "P k s st'" using stable Suc(3) nx(2) by blast
    have nz: "cs ! k \<noteq> 0" using valid_not_zero c(4) [OF k] by blast
    show ?thesis
    proof (cases "\<exists>s1 st2. body s (cs ! k) st' = (Inr (Inl s1), st2)")
      case True
      then obtain s1 st2 where b: "body s (cs ! k) st' = (Inr (Inl s1), st2)" by blast
      have "P (Suc k) s1 st2" using body [OF k P' \<open>guard s\<close>] b by simp
      then show ?thesis
        using Suc(1) [of "Suc k" s1 st2 ch'] Suc(2) k nx(1,3) nz b \<open>guard s\<close> by (subst chain_each.simps) simp
    next
      case False
      then obtain r st2 where b: "body s (cs ! k) st' = (r, st2)" "\<nexists>s1. r = Inr (Inl s1)"
        by (cases "body s (cs ! k) st'") auto
      then have "Q r st2" using body [OF k P' \<open>guard s\<close>] by (auto split: sum.splits)
      then show ?thesis
        using b nx(1) nz \<open>guard s\<close> by (subst chain_each.simps) (auto split: sum.splits)
    qed
  qed
qed

lemmas chain_each_rule = chain_each_rule_from [where k = 0]

end

section \<open>Walks on arbitrary tables\<close>

text \<open>The clusters handed out by \<^verbatim>\<open>next\<close> until it returns zero.\<close>

definition walk_chain :: "fat_geom \<Rightarrow> 'd block_ops \<Rightarrow> u32 \<Rightarrow> ('d fat_state, u32 list) op" where
  "walk_chain g io start =
     op_try (chain_each g io (\<lambda>_. True) (\<lambda>cs c. op_ok (Inl (cs @ [c]) :: u32 list + unit)) (new_chain start) [])
       (\<lambda>r. case r of Inl cs \<Rightarrow> op_ok cs | Inr _ \<Rightarrow> op_ok [])"

lemma step_value_visited:
  "step_value g f ch = Inr (c, ch') \<Longrightarrow> c \<noteq> 0 \<Longrightarrow>
     ch_visited ch < cluster_count g \<and> ch_visited ch' = ch_visited ch + 1 \<and> ch_started ch' \<and>
     ch_finished ch' = ch_finished ch \<and> ch_current ch' = c \<and> valid_cluster g c \<and> c = link g f (ch_current ch) \<and>
     \<not> FAT32_EOC_MIN \<le> link g f (ch_current ch)"
  by (auto simp: step_value_def Let_def visit_def advance_def split: if_splits)

context block_store
begin

lemma walk_sound_from:
  assumes "fat_ok_here g st" and "ch_started ch" and "\<not> ch_finished ch" and "valid_cluster g (ch_current ch)"
  shows "\<exists>r st'. chain_each g io (\<lambda>_. True) (\<lambda>cs c. op_ok (Inl (cs @ [c]) :: u32 list + unit)) ch s st = (r, st') \<and>
    volume_here g st st' (sector (fdev st)) \<and>
    (r = Inl BadFs \<or> (\<exists>t. r = Inr (Inl (s @ t)) \<and> links_to (link g (sector (fdev st))) (ch_current ch # t) \<and>
       (\<forall>c \<in> set t. valid_cluster g c)))"
  using assms
proof (induction "unat (cluster_count g) - unat (ch_visited ch)" arbitrary: ch s st rule: less_induct)
  case less
  let ?f = "sector (fdev st)"
  from chain_next_started [OF less.prems(1,4,2,3)] obtain st1 where
    nx: "chain_next g io ch st = (step_value g ?f ch, st1)" "volume_here g st st1 ?f" by blast
  show ?case
  proof (cases "step_value g ?f ch")
    case (Inl e)
    then have "e = BadFs" by (auto simp: step_value_def Let_def split: if_splits)
    then show ?thesis using nx Inl by (subst chain_each.simps) simp
  next
    case (Inr p)
    obtain c ch1 where p: "p = (c, ch1)" by (cases p)
    show ?thesis
    proof (cases "c = 0")
      case True
      then have "FAT32_EOC_MIN \<le> link g ?f (ch_current ch)"
        using Inr p valid_not_zero by (auto simp: step_value_def Let_def split: if_splits)
      then show ?thesis using nx Inr p True by (subst chain_each.simps) simp
    next
      case False
      note sv = step_value_visited [OF Inr [unfolded p] False]
      have ok1: "fat_ok_here g st1" and same: "sector (fdev st1) = ?f" using nx(2) by (simp_all add: volume_def)
      have "unat (ch_visited ch1) = unat (ch_visited ch) + 1" "unat (ch_visited ch) < unat (cluster_count g)"
        using sv unat_plus_one [of "ch_visited ch" "cluster_count g"] by (simp_all add: word_less_nat_alt)
      then have "unat (cluster_count g) - unat (ch_visited ch1) < unat (cluster_count g) - unat (ch_visited ch)" by simp
      from less.hyps [OF this ok1, of "s @ [c]"] sv less.prems(3) obtain r st2 where
        ih: "chain_each g io (\<lambda>_. True) (\<lambda>cs c. op_ok (Inl (cs @ [c]) :: u32 list + unit)) ch1 (s @ [c]) st1 = (r, st2)"
          "volume_here g st1 st2 ?f"
          "r = Inl BadFs \<or> (\<exists>t. r = Inr (Inl ((s @ [c]) @ t)) \<and> links_to (link g ?f) (c # t) \<and> (\<forall>c \<in> set t. valid_cluster g c))"
        by (auto simp: same)
      have "r = Inl BadFs \<or> (\<exists>t. r = Inr (Inl (s @ t)) \<and> links_to (link g ?f) (ch_current ch # t) \<and> (\<forall>c \<in> set t. valid_cluster g c))"
        using ih(3)
      proof
        assume "\<exists>t. r = Inr (Inl ((s @ [c]) @ t)) \<and> links_to (link g ?f) (c # t) \<and> (\<forall>c \<in> set t. valid_cluster g c)"
        then obtain t where "r = Inr (Inl (s @ (c # t)))" "links_to (link g ?f) (c # t)" "\<forall>c \<in> set t. valid_cluster g c"
          by auto
        then show ?thesis using sv by (intro disjI2 exI [of _ "c # t"]) auto
      qed simp
      then show ?thesis
        using nx Inr p False ih(1) volume_trans [OF nx(2) ih(2)] by (subst chain_each.simps) simp
    qed
  qed
qed

lemma walk_chain_proper:
  assumes "fat_ok_here g st" and "chain_of g (sector (fdev st)) start cs"
  shows "\<exists>st'. walk_chain g io start st = (Inr cs, st') \<and> volume_here g st st' (sector (fdev st))"
proof -
  let ?f = "sector (fdev st)"
  have "\<exists>r st'. chain_each g io (\<lambda>_. True) (\<lambda>cs c. op_ok (Inl (cs @ [c]) :: u32 list + unit)) (new_chain start) [] st = (r, st') \<and>
      (r = Inr (Inl cs) \<and> volume_here g st st' ?f)"
  proof (rule chain_each_rule [OF assms(2), where P = "\<lambda>k s st'. s = take k cs \<and> volume_here g st st' ?f"
        and Q = "\<lambda>r st'. r = Inr (Inl cs) \<and> volume_here g st st' ?f"])
    show "chain_before ((!) cs) 0 (new_chain start)"
      using chain_before_start [of "(!) cs"] chain_ofD(2) [OF fat_okD(3) [OF assms(1)] assms(2)] by simp
  qed (use volume_refl [OF assms(1)] in \<open>auto simp: volume_def take_Suc_conv_app_nth\<close>)
  then show ?thesis by (auto simp: walk_chain_def op_try_def)
qed

lemma walk_chain_sound:
  assumes "fat_ok_here g st"
  shows "\<exists>r st'. walk_chain g io start st = (r, st') \<and> volume_here g st st' (sector (fdev st)) \<and>
    (r = Inl BadFs \<or> (\<exists>cs. r = Inr cs \<and> chain_of g (sector (fdev st)) start cs))"
proof (cases "valid_cluster g start \<and> ch_visited (new_chain start) < cluster_count g")
  case True
  let ?ch = "visit (new_chain start)"
  have "ch_started ?ch" "\<not> ch_finished ?ch" "valid_cluster g (ch_current ?ch)" "ch_current ?ch = start"
    using True by (simp_all add: visit_def new_chain_def)
  with walk_sound_from [OF assms, of ?ch "[start]"] obtain r st' where
    w: "chain_each g io (\<lambda>_. True) (\<lambda>cs c. op_ok (Inl (cs @ [c]) :: u32 list + unit)) ?ch [start] st = (r, st')"
      "volume_here g st st' (sector (fdev st))"
      "r = Inl BadFs \<or> (\<exists>t. r = Inr (Inl ([start] @ t)) \<and> links_to (link g (sector (fdev st))) (start # t) \<and> (\<forall>c \<in> set t. valid_cluster g c))"
    by auto
  have "chain_next g io (new_chain start) st = (Inr (start, ?ch), st)"
    using True chain_next_first [of "new_chain start"] by (simp add: new_chain_def)
  then have "chain_each g io (\<lambda>_. True) (\<lambda>cs c. op_ok (Inl (cs @ [c]) :: u32 list + unit)) (new_chain start) [] st = (r, st')"
    using w(1) valid_not_zero True by (subst chain_each.simps) auto
  then show ?thesis
    using w(2,3) True by (auto simp: walk_chain_def op_try_def chain_of_def)
next
  case False
  then have "chain_next g io (new_chain start) st = (Inl BadFs, st)"
    using chain_next_first [of "new_chain start"] by (auto simp: new_chain_def)
  then have "chain_each g io (\<lambda>_. True) (\<lambda>cs c. op_ok (Inl (cs @ [c]) :: u32 list + unit)) (new_chain start) [] st = (Inl BadFs, st)"
    by (subst chain_each.simps) simp
  then show ?thesis using volume_refl [OF assms] by (simp add: walk_chain_def op_try_def)
qed

end

section \<open>Brent's bound\<close>

text \<open>A loop that counts the clusters it is handed and gives up at a bound.\<close>

definition count_chain :: "fat_geom \<Rightarrow> 'd block_ops \<Rightarrow> nat \<Rightarrow> u32 \<Rightarrow> ('d fat_state, nat + unit) op" where
  "count_chain g io bound start =
     chain_each g io (\<lambda>n. n < bound) (\<lambda>n _. op_ok (Inl (Suc n) :: nat + unit)) (new_chain start) 0"

lemma power_interval_unique:
  assumes "(2::nat) ^ m \<le> k" and "k < 2 * 2 ^ m" and "2 ^ n \<le> k" and "k < 2 * 2 ^ n"
  shows "m = n"
proof (rule antisym)
  show "m \<le> n"
  proof (rule ccontr)
    assume "\<not> m \<le> n"
    then have "(2::nat) ^ Suc n \<le> 2 ^ m" by (intro power_increasing) simp_all
    then show False using assms(1,4) by simp
  qed
  show "n \<le> m"
  proof (rule ccontr)
    assume "\<not> n \<le> m"
    then have "(2::nat) ^ Suc m \<le> 2 ^ n" by (intro power_increasing) simp_all
    then show False using assms(2,3) by simp
  qed
qed

context block_store
begin

lemma count_cycle_from:
  fixes c :: "nat \<Rightarrow> u32"
  assumes ok: "fat_ok_here g st" and valid: "\<And>i. valid_cluster g (c i)"
    and lnk: "\<And>i. link g (sector (fdev st)) (c i) = c (Suc i)"
    and hit: "c (2 ^ m - 1 + lam) = c (2 ^ m - 1)" "0 < lam" "lam \<le> 2 ^ m"
    and k: "chain_before c k ch" "k \<le> 2 ^ m - 1 + lam" "2 ^ m - 1 + lam < bound"
  shows "\<exists>st'. chain_each g io (\<lambda>n. n < bound) (\<lambda>n _. op_ok (Inl (Suc n) :: nat + unit)) ch k st = (Inl BadFs, st')"
  using assms(1,3) k(1,2)
proof (induction "2 ^ m - 1 + lam - k" arbitrary: k ch st)
  case (0 k ch st)
  let ?f = "sector (fdev st)"
  have k0: "k = 2 ^ m - 1 + lam" using 0 by simp
  have one: "(1::nat) \<le> 2 ^ m" by simp
  have kpos: "0 < k" using k0 hit(2) one by linarith
  obtain n where n: "2 ^ n \<le> k" "k < 2 * 2 ^ n" "ch_checkpoint ch = c (2 ^ n - 1)"
    and cur: "ch_current ch = c (k - 1)" "ch_started ch" "\<not> ch_finished ch"
    using 0(4) kpos by (auto simp: chain_before_def)
  have "n = m" using n(1,2) k0 hit(2,3) one by (intro power_interval_unique [of n k m]) linarith+
  have nxt: "link g ?f (ch_current ch) = c k" using cur(1) 0(3) kpos by (metis Suc_diff_1)
  have "c k = ch_checkpoint ch" using n(3) \<open>n = m\<close> k0 hit(1) by simp
  then have "step_value g ?f ch = Inl BadFs"
    using nxt valid_not_eoc [OF fat_okD(3) [OF 0(2)] valid, of k] by (simp add: step_value_def Let_def)
  moreover obtain st' where "chain_next g io ch st = (step_value g ?f ch, st')"
    using chain_next_started [OF 0(2) _ cur(2,3)] valid cur(1) by metis
  ultimately show ?case using k0 k(3) by (subst chain_each.simps) simp
next
  case (Suc x k ch st)
  let ?f = "sector (fdev st)"
  have lt: "k < bound" using Suc(2) k(3) Suc(6) by linarith
  show ?case
  proof (cases "\<exists>st'. chain_next g io ch st = (Inl BadFs, st')")
    case True
    then show ?thesis using lt by (subst chain_each.simps) auto
  next
    case False
    have "\<exists>st1. chain_next g io ch st = (Inr (c k, visit (if k = 0 then ch else advance ch (c k))), st1) \<and>
        volume_here g st st1 ?f \<and> k < unat (cluster_count g)"
    proof (cases "k = 0")
      case True
      have "\<not> ch_started ch" "\<not> ch_finished ch" "ch_current ch = c 0" "unat (ch_visited ch) = 0"
        using Suc(5) True by (simp_all add: chain_before_def)
      then show ?thesis
        using chain_next_first [of ch g st] False True volume_refl [OF Suc(3)] by (auto simp: word_less_nat_alt split: if_splits)
    next
      case pos: False
      have cur: "ch_current ch = c (k - 1)" "ch_started ch" "\<not> ch_finished ch" "unat (ch_visited ch) = k"
        using Suc(5) pos by (auto simp: chain_before_def)
      then have "link g ?f (ch_current ch) = c k" using Suc(4) pos by (metis Suc_diff_1 not_gr_zero)
      moreover obtain st' where st': "chain_next g io ch st = (step_value g ?f ch, st')" "volume_here g st st' ?f"
        using chain_next_started [OF Suc(3) _ cur(2,3)] valid cur(1) by metis
      ultimately show ?thesis
        using False pos cur(4) valid_not_eoc [OF fat_okD(3) [OF Suc(3)] valid] valid
        by (auto simp: step_value_def Let_def word_less_nat_alt split: if_splits)
    qed
    then obtain st1 where st1: "chain_next g io ch st = (Inr (c k, visit (if k = 0 then ch else advance ch (c k))), st1)"
      "volume_here g st st1 ?f" and room: "k < unat (cluster_count g)" by blast
    let ?ch = "visit (if k = 0 then ch else advance ch (c k))"
    have small: "k < 0x40000000" using room geom_okD(10) [OF fat_okD(3) [OF Suc(3)]] by simp
    have "chain_before c (Suc k) ?ch"
    proof (cases "k = 0")
      case True
      then have "unat (ch_visited ch + 1) = 1"
        using Suc(5) room unat_plus_one [of "ch_visited ch" "cluster_count g"] by (simp add: chain_before_def)
      then show ?thesis using Suc(5) True by (auto simp: chain_before_def visit_def intro!: exI [of _ 0])
    next
      case False
      then show ?thesis using advance_before [OF Suc(5) _ small] by simp
    qed
    moreover have "fat_ok_here g st1" "sector (fdev st1) = ?f" using st1(2) by (simp_all add: volume_def)
    ultimately have "\<exists>st'. chain_each g io (\<lambda>n. n < bound) (\<lambda>n _. op_ok (Inl (Suc n) :: nat + unit)) ?ch (Suc k) st1 = (Inl BadFs, st')"
      using Suc(1) [of "Suc k" st1 ?ch] Suc(2,4) by simp
    then show ?thesis
      using st1(1) lt valid_not_zero [OF valid] by (subst chain_each.simps) simp
  qed
qed

lemma count_cycle:
  fixes c :: "nat \<Rightarrow> u32"
  assumes "fat_ok_here g st" and "\<And>i. valid_cluster g (c i)"
    and "\<And>i. link g (sector (fdev st)) (c i) = c (Suc i)"
    and "\<And>i. mu \<le> i \<Longrightarrow> c (i + lam) = c i" and "0 < lam"
  shows "\<exists>st'. count_chain g io (2 * max (mu + 1) lam + lam) (c 0) st = (Inl BadFs, st')"
proof -
  let ?x = "max (mu + 1) lam"
  have "\<exists>m. ?x \<le> 2 ^ m \<and> (2::nat) ^ m < 2 * ?x"
  proof -
    obtain m where m: "?x \<le> 2 ^ m" "\<And>n. ?x \<le> 2 ^ n \<Longrightarrow> m \<le> n"
      using exists_least_iff [of "\<lambda>m. ?x \<le> (2::nat) ^ m"] by (metis less_exp nat_less_le not_le order_less_imp_le)
    have "(2::nat) ^ m < 2 * ?x"
    proof (cases m)
      case (Suc n)
      then have "\<not> ?x \<le> 2 ^ n" using m(2) [of n] by auto
      then have "2 ^ n < ?x" by (simp only: not_le)
      then show ?thesis unfolding Suc power_Suc by simp
    qed (simp add: max_def)
    with m(1) show ?thesis by blast
  qed
  then obtain m where m: "?x \<le> 2 ^ m" "(2::nat) ^ m < 2 * ?x" by blast
  have "mu + 1 \<le> 2 ^ m" using m(1) by simp
  then have "c (2 ^ m - 1 + lam) = c (2 ^ m - 1)" by (intro assms(4)) linarith
  moreover have "lam \<le> 2 ^ m" "2 ^ m - 1 + lam < 2 * ?x + lam" using m by simp_all
  ultimately show ?thesis
    unfolding count_chain_def
    by (intro count_cycle_from [of g st c m lam 0 "new_chain (c 0)"] assms(1-3,5) chain_before_start) simp_all
qed

end

end
