(* ===== verification/Fat_Alloc.thy ===== *)
theory Fat_Alloc
  imports Fat_Chain
begin

unbundle bit_operations_syntax

text \<open>
  Allocation and release of clusters (\<^verbatim>\<open>alloc_cluster\<close>, \<^verbatim>\<open>free_chain\<close>,
  \<^verbatim>\<open>rollback_new_chain\<close>). The loop that clears the links of a chain ends only because the walk
  before it accepted the chain; operations that contain it return \<open>None\<close> when it does not end. The
  theory shows that \<^verbatim>\<open>free_chain\<close> returns and clears exactly the links of its chain, changes
  nothing on a damaged chain, and that \<^verbatim>\<open>alloc_cluster\<close> takes the first free cluster.
\<close>

section \<open>Releasing a chain\<close>

partial_function (option) free_links ::
  "fat_geom \<Rightarrow> 'd block_ops \<Rightarrow> u32 \<Rightarrow> 'd fat_state \<Rightarrow> ((error + unit) \<times> 'd fat_state) option"
where
  "free_links g io cluster st =
     (if cluster < FAT32_EOC_MIN then
        (case read_entry g io cluster st of
           (Inl e, st1) \<Rightarrow> Some (Inl e, st1)
         | (Inr nxt, st1) \<Rightarrow>
             (case write_entry g io cluster FAT32_FREE st1 of
                (Inl e, st2) \<Rightarrow> Some (Inl e, st2)
              | (Inr u, st2) \<Rightarrow> free_links g io nxt st2))
      else Some (Inr (), st))"

definition free_chain :: "fat_geom \<Rightarrow> 'd block_ops \<Rightarrow> u32 \<Rightarrow> ('d fat_state, unit) xop" where
  "free_chain g io start = x_try (x_of (walk_chain g io start)) (\<lambda>_. free_links g io start)"

definition rollback_new_chain :: "fat_geom \<Rightarrow> 'd block_ops \<Rightarrow> u32 \<Rightarrow> ('d fat_state, unit) xop" where
  "rollback_new_chain g io start = x_catch (free_chain g io start) (\<lambda>_. x_ok ()) (\<lambda>_. x_ok ())"

section \<open>Allocating a cluster\<close>

definition fail_after_rollback :: "fat_geom \<Rightarrow> 'd block_ops \<Rightarrow> u32 \<Rightarrow> error \<Rightarrow> ('d fat_state, 'a) xop" where
  "fail_after_rollback g io c e = x_try (rollback_new_chain g io c) (\<lambda>_. x_fail e)"

fun zero_sectors :: "fat_geom \<Rightarrow> 'd block_ops \<Rightarrow> u32 \<Rightarrow> nat list \<Rightarrow> ('d fat_state, u32) xop" where
  "zero_sectors g io c [] = x_ok c"
| "zero_sectors g io c (s # ss) =
     x_catch (x_of (on_dev (write_blocks io (partition_start_lba g + cluster_to_sector g c + of_nat s)
                (replicate 512 0) 1)))
       (fail_after_rollback g io c) (\<lambda>_. zero_sectors g io c ss)"

fun alloc_from :: "fat_geom \<Rightarrow> 'd block_ops \<Rightarrow> nat list \<Rightarrow> ('d fat_state, u32) xop" where
  "alloc_from g io [] = x_fail Full"
| "alloc_from g io (n # ns) =
     (let c = of_nat n in
      x_try (x_of (read_entry g io c)) (\<lambda>v.
        if v = FAT32_FREE then
          x_catch (x_of (write_entry g io c FAT32_EOC_MAX)) (fail_after_rollback g io c)
            (\<lambda>_. zero_sectors g io c [0..<unat (sectors_per_cluster g)])
        else alloc_from g io ns))"

definition alloc_cluster :: "fat_geom \<Rightarrow> 'd block_ops \<Rightarrow> ('d fat_state, u32) xop" where
  "alloc_cluster g io = alloc_from g io [2..<unat (cluster_count g + 2)]"

section \<open>What release does\<close>

definition clear_links :: "fat_geom \<Rightarrow> (nat \<Rightarrow> bytes) \<Rightarrow> u32 list \<Rightarrow> nat \<Rightarrow> bytes" where
  "clear_links g f cs = fold (\<lambda>c f. fat_put g f (unat c) FAT32_FREE) cs f"

lemma clear_links_simps [simp]:
  "clear_links g f [] = f" "clear_links g f (c # cs) = clear_links g (fat_put g f (unat c) FAT32_FREE) cs"
  by (simp_all add: clear_links_def)

definition sectors_ok :: "nat \<Rightarrow> (nat \<Rightarrow> bytes) \<Rightarrow> bool" where
  "sectors_ok blocks f \<longleftrightarrow> (\<forall>i < blocks. length (f i) = 512)"

lemma sectors_ok_put:
  assumes "geom_ok g blocks" and "blocks < 4294967296" and "valid_cluster g c" and "sectors_ok blocks f"
  shows "sectors_ok blocks (fat_put g f (unat c) v)"
proof -
  have "length (f (fat_lba g (unat c))) = 512"
    using assms(4) entry_position(4) [OF assms(1-3)] by (simp add: sectors_ok_def)
  then show ?thesis
    using assms(4) four_fits [of "unat c"] by (auto simp: sectors_ok_def fat_put_def on_copies_def Let_def)
qed

lemma link_put:
  assumes "geom_ok g blocks" and "blocks < 4294967296" and "valid_cluster g c" and "valid_cluster g c'"
    and "sectors_ok blocks f"
  shows "link g (fat_put g f (unat c) v) c' = (if c' = c then v AND FAT32_CLUSTER_MASK else link g f c')"
  using fat_val_put [OF assms(1-4)] assms(5) entry_position(4) [OF assms(1-3)]
  by (simp add: link_def sectors_ok_def)

lemma link_clear:
  assumes "geom_ok g blocks" and "blocks < 4294967296" and "sectors_ok blocks f"
    and "\<forall>c \<in> set cs. valid_cluster g c" and "valid_cluster g c'"
  shows "link g (clear_links g f cs) c' = (if c' \<in> set cs then 0 else link g f c')"
  using assms(3,4)
proof (induction cs arbitrary: f)
  case (Cons c cs)
  have v: "valid_cluster g c" using Cons.prems by simp
  have "sectors_ok blocks (fat_put g f (unat c) FAT32_FREE)" by (rule sectors_ok_put [OF assms(1,2) v Cons.prems(1)])
  then show ?case
    using Cons link_put [OF assms(1,2) v assms(5) Cons.prems(1)] by (auto simp: FAT32_FREE_def)
qed simp

lemma clear_outside:
  assumes "geom_ok g blocks" and "blocks < 4294967296" and "\<forall>c \<in> set cs. valid_cluster g c"
    and "i < unat (partition_start_lba g) + unat (fat_start_sector g) \<or>
         unat (partition_start_lba g) + unat (data_start_sector g) \<le> i"
  shows "clear_links g f cs i = f i"
  using assms(3) by (induction cs arbitrary: f) (simp_all add: fat_put_outside [OF assms(1,2) _ assms(4)])

context block_store
begin

lemma fat_ok_sectors: "fat_ok_here g st \<Longrightarrow> sectors_ok (unat (dev_blocks io (fdev st))) (sector (fdev st))"
  using sector_length fat_okD(1) [of io sector ready g st] by (simp add: sectors_ok_def)

lemma free_links_ok:
  assumes "fat_ok_here g st" and "links_to (link g (sector (fdev st))) cs" and "hd cs = c"
    and "distinct cs" and "\<forall>x \<in> set cs. valid_cluster g x"
  shows "\<exists>st'. free_links g io c st = Some (Inr (), st') \<and> volume_here g st st' (clear_links g (sector (fdev st)) cs)"
  using assms
proof (induction cs arbitrary: c st)
  case (Cons x cs)
  let ?f = "sector (fdev st)" and ?b = "unat (dev_blocks io (fdev st))"
  have x: "x = c" and v: "valid_cluster g c" using Cons.prems by simp_all
  note g = fat_okD(3) [OF Cons.prems(1)]
  have lt: "c < FAT32_EOC_MIN" using valid_not_eoc [OF g v] by simp
  from read_entry_ok [OF Cons.prems(1) v] obtain st1 where
    1: "read_entry g io c st = (Inr (link g ?f c), st1)" "volume_here g st st1 ?f" by (auto simp: link_def)
  then have ok1: "fat_ok_here g st1" "sector (fdev st1) = ?f" "dev_blocks io (fdev st1) = dev_blocks io (fdev st)"
    by (simp_all add: volume_def)
  from write_entry_ok [OF ok1(1) v, of FAT32_FREE] obtain st2 where
    2: "write_entry g io c FAT32_FREE st1 = (Inr (), st2)"
      "volume_here g st st2 (fat_put g ?f (unat c) FAT32_FREE)"
    using ok1 by (auto simp: volume_def)
  then have ok2: "fat_ok_here g st2" "sector (fdev st2) = fat_put g ?f (unat c) FAT32_FREE" by (simp_all add: volume_def)
  have step: "free_links g io c st = free_links g io (link g ?f c) st2"
    using lt 1(1) 2(1) by (subst free_links.simps) simp
  show ?case
  proof (cases cs)
    case Nil
    then have "\<not> link g ?f c < FAT32_EOC_MIN" using Cons.prems(2) x by simp
    then have "free_links g io (link g ?f c) st2 = Some (Inr (), st2)" by (subst free_links.simps) simp
    then show ?thesis using step 2(2) Nil x by simp
  next
    case (Cons d ds)
    have lnk: "link g ?f c = d" "links_to (link g ?f) cs" using Cons.prems(2) x Cons by simp_all
    have same: "link g (sector (fdev st2)) y = link g ?f y" if "y \<in> set cs" for y
      using that link_put [OF g unat_lt_u32 v _ fat_ok_sectors [OF Cons.prems(1)], of y FAT32_FREE] Cons.prems(4,5) x
      by (auto simp: ok2(2))
    have "links_to (link g (sector (fdev st2))) ys = links_to (link g ?f) ys" if "set ys \<subseteq> set cs" for ys
      using that same by (induction "link g ?f" ys rule: links_to.induct) auto
    then have "links_to (link g (sector (fdev st2))) cs" using lnk(2) by simp
    then obtain st' where "free_links g io d st2 = Some (Inr (), st')"
      "volume_here g st2 st' (clear_links g (sector (fdev st2)) cs)"
      using Cons.IH [of st2 d] ok2(1) Cons.prems(4,5) Cons by auto
    then show ?thesis
      using step lnk(1) volume_trans [OF 2(2)] x by (auto simp: ok2(2))
  qed
qed simp

text \<open>Releasing a proper chain, and refusing any other.\<close>

lemma free_chain_ok:
  assumes "fat_ok_here g st" and "chain_of g (sector (fdev st)) start cs"
  shows "\<exists>st'. free_chain g io start st = Some (Inr (), st') \<and> volume_here g st st' (clear_links g (sector (fdev st)) cs)"
proof -
  let ?f = "sector (fdev st)"
  from walk_chain_proper [OF assms] obtain st1 where
    1: "walk_chain g io start st = (Inr cs, st1)" "volume_here g st st1 ?f" by blast
  have ok1: "fat_ok_here g st1" "sector (fdev st1) = ?f" using 1(2) by (simp_all add: volume_def)
  have "distinct cs" by (rule chain_ofD(3) [OF fat_okD(3) [OF assms(1)] assms(2)])
  then obtain st2 where 2: "free_links g io start st1 = Some (Inr (), st2)" "volume_here g st1 st2 (clear_links g ?f cs)"
    using free_links_ok [OF ok1(1), of cs start] assms(2) ok1(2) by (auto simp: chain_of_def)
  have "free_chain g io start st = Some (Inr (), st2)"
    by (simp add: free_chain_def x_try_def x_catch_def 1(1) 2(1))
  then show ?thesis using volume_trans [OF 1(2) 2(2)] by blast
qed

lemma free_chain_bad:
  assumes "fat_ok_here g st" and "\<nexists>cs. chain_of g (sector (fdev st)) start cs"
  shows "\<exists>st'. free_chain g io start st = Some (Inl BadFs, st') \<and> volume_here g st st' (sector (fdev st))"
proof -
  from walk_chain_sound [OF assms(1), of start] obtain r st' where
    w: "walk_chain g io start st = (r, st')" "volume_here g st st' (sector (fdev st))"
      "r = Inl BadFs \<or> (\<exists>cs. r = Inr cs \<and> chain_of g (sector (fdev st)) start cs)" by blast
  then have "r = Inl BadFs" using assms(2) by blast
  then show ?thesis
    using w(1,2) by (simp add: free_chain_def x_try_def x_catch_def)
qed

end

section \<open>What allocation does\<close>

text \<open>The sectors of a cluster.\<close>

definition cluster_lba :: "fat_geom \<Rightarrow> u32 \<Rightarrow> nat" where
  "cluster_lba g c =
     unat (partition_start_lba g) + unat (data_start_sector g) + (unat c - 2) * unat (sectors_per_cluster g)"

lemma cluster_position:
  assumes "geom_ok g blocks" and "blocks < 4294967296" and "valid_cluster g c" and "s < unat (sectors_per_cluster g)"
  shows "cluster_lba g c + s < unat (partition_start_lba g) + unat (total_sector_count g)"
    and "cluster_lba g c + unat (sectors_per_cluster g) \<le> blocks"
    and "unat (partition_start_lba g + cluster_to_sector g c) = cluster_lba g c"
    and "unat (partition_start_lba g + cluster_to_sector g c + of_nat s) = cluster_lba g c + s"
    and "unat (partition_start_lba g + (cluster_to_sector g c + of_nat s)) = cluster_lba g c + s"
proof -
  let ?spc = "unat (sectors_per_cluster g)" and ?cc = "unat (cluster_count g)"
  have c: "2 \<le> unat c" "unat c < ?cc + 2" using valid_cluster_nat [OF assms(1)] assms(3) by auto
  then have "Suc (unat c - 2) * ?spc \<le> ?cc * ?spc" by (intro mult_le_mono1) simp
  also have "?cc * ?spc \<le> unat (total_sector_count g) - unat (data_start_sector g)"
    unfolding geom_okD(9) [OF assms(1)] by simp
  finally have top: "(unat c - 2) * ?spc + ?spc \<le> unat (total_sector_count g) - unat (data_start_sector g)" by simp
  note lt = geom_okD(7,8) [OF assms(1)]
  show 1: "cluster_lba g c + s < unat (partition_start_lba g) + unat (total_sector_count g)"
    using top assms(4) lt(1) unfolding cluster_lba_def by linarith
  show 2: "cluster_lba g c + ?spc \<le> blocks" using top lt unfolding cluster_lba_def by linarith
  have c2: "unat (c - 2) = unat c - 2" using c(1) by (subst unat_sub) (simp_all add: word_le_nat_alt)
  have m: "unat ((c - 2) * sectors_per_cluster g) = (unat c - 2) * ?spc"
    using top lt assms(2) c2 by (subst unat_mult_small) simp_all
  have "unat (data_start_sector g) + (unat c - 2) * ?spc < 4294967296"
    using 2 assms(2) unfolding cluster_lba_def by linarith
  then have "unat (data_start_sector g + (c - 2) * sectors_per_cluster g) = unat (data_start_sector g) + (unat c - 2) * ?spc"
    using m by (subst unat_add_small) simp_all
  then have cs: "unat (cluster_to_sector g c) = unat (data_start_sector g) + (unat c - 2) * ?spc"
    using c(1) by (simp add: cluster_to_sector_def word_less_nat_alt)
  have b: "cluster_lba g c + s < 4294967296" using 2 assms(2,4) by linarith
  show 3: "unat (partition_start_lba g + cluster_to_sector g c) = cluster_lba g c"
    using b cs by (subst unat_add_small) (simp_all add: cluster_lba_def)
  have "unat (of_nat s :: u32) = s" using b by (simp add: unsigned_of_nat take_bit_nat_eq_self)
  then show 4: "unat (partition_start_lba g + cluster_to_sector g c + of_nat s) = cluster_lba g c + s"
    using b 3 by (subst unat_add_small) simp_all
  then show "unat (partition_start_lba g + (cluster_to_sector g c + of_nat s)) = cluster_lba g c + s"
    by (simp add: add.assoc)
qed

definition zero_cluster :: "fat_geom \<Rightarrow> (nat \<Rightarrow> bytes) \<Rightarrow> u32 \<Rightarrow> nat list \<Rightarrow> nat \<Rightarrow> bytes" where
  "zero_cluster g f c ss = (\<lambda>i. if \<exists>s \<in> set ss. i = cluster_lba g c + s then replicate 512 0 else f i)"

lemma link_data:
  assumes "geom_ok g blocks" and "blocks < 4294967296" and "valid_cluster g c"
    and "\<And>i. i < unat (partition_start_lba g) + unat (data_start_sector g) \<Longrightarrow> f' i = f i"
  shows "link g f' c = link g f c"
  using copy_position(1) [OF assms(1-3), of 0] geom_okD(5) [OF assms(1)] assms(4)
  by (simp add: link_def fat_val_def)

text \<open>The cluster after allocation: its link ends a chain, its sectors are zero, nothing else changed.\<close>

definition allocated :: "fat_geom \<Rightarrow> (nat \<Rightarrow> bytes) \<Rightarrow> (nat \<Rightarrow> bytes) \<Rightarrow> u32 \<Rightarrow> bool" where
  "allocated g f f' c \<longleftrightarrow>
     valid_cluster g c \<and> link g f c = 0 \<and> (\<forall>c'. valid_cluster g c' \<and> c' < c \<longrightarrow> link g f c' \<noteq> 0) \<and>
     (\<forall>c'. valid_cluster g c' \<longrightarrow> link g f' c' = (if c' = c then FAT32_EOC_MAX else link g f c')) \<and>
     (\<forall>s < unat (sectors_per_cluster g). f' (cluster_lba g c + s) = replicate 512 0) \<and>
     (\<forall>i. (i < unat (partition_start_lba g) + unat (fat_start_sector g) \<or>
           unat (partition_start_lba g) + unat (data_start_sector g) \<le> i) \<and>
          \<not> (cluster_lba g c \<le> i \<and> i < cluster_lba g c + unat (sectors_per_cluster g)) \<longrightarrow> f' i = f i)"

lemma allocatedI:
  assumes "geom_ok g blocks" and "blocks < 4294967296" and "sectors_ok blocks f" and "valid_cluster g c"
    and "link g f c = 0" and "\<And>c'. valid_cluster g c' \<Longrightarrow> c' < c \<Longrightarrow> link g f c' \<noteq> 0"
  shows "allocated g f (zero_cluster g (fat_put g f (unat c) FAT32_EOC_MAX) c [0..<unat (sectors_per_cluster g)]) c"
proof -
  let ?h = "fat_put g f (unat c) FAT32_EOC_MAX" and ?spc = "unat (sectors_per_cluster g)"
  let ?f' = "zero_cluster g ?h c [0..<?spc]"
  have low: "?f' i = ?h i" if "i < unat (partition_start_lba g) + unat (data_start_sector g)" for i
    using that by (auto simp: zero_cluster_def cluster_lba_def)
  have "link g ?f' c' = (if c' = c then FAT32_EOC_MAX else link g f c')" if "valid_cluster g c'" for c'
    using link_data [OF assms(1,2) that, of ?f' ?h] low link_put [OF assms(1,2,4) that assms(3), of FAT32_EOC_MAX]
    by (simp add: FAT32_EOC_MAX_def FAT32_CLUSTER_MASK_def)
  moreover have "?f' (cluster_lba g c + s) = replicate 512 0" if "s < ?spc" for s
    using that by (auto simp: zero_cluster_def)
  moreover have "?f' i = f i"
    if "i < unat (partition_start_lba g) + unat (fat_start_sector g) \<or> unat (partition_start_lba g) + unat (data_start_sector g) \<le> i"
      and "\<not> (cluster_lba g c \<le> i \<and> i < cluster_lba g c + ?spc)" for i
    using that(2) fat_put_outside [OF assms(1,2,4) that(1), of f FAT32_EOC_MAX] by (auto simp: zero_cluster_def)
  ultimately show ?thesis unfolding allocated_def using assms(4-6) by blast
qed

context block_store
begin

text \<open>Writing sectors of the data area keeps the invariant: the cache holds table sectors only.\<close>

lemma on_dev_write_data:
  assumes "fat_ok_here g st" and "unat (partition_start_lba g) + unat (data_start_sector g) \<le> unat lba"
    and "unat lba + n \<le> unat (dev_blocks io (fdev st))" and "length bs = 512 * n"
  shows "\<exists>st'. on_dev (write_blocks io lba bs n) st = (Inr (), st') \<and>
    volume_here g st st' (write_sectors (sector (fdev st)) (unat lba) n bs)"
proof -
  from write_ok [OF fat_okD(1) [OF assms(1)] assms(3,4)] obtain d' where
    d': "dev_write io (fdev st) lba bs n = (Err_None, d')"
      "holds io sector ready (fdev st) d' (write_sectors (sector (fdev st)) (unat lba) n bs)" by blast
  have "buffer st = write_sectors (sector (fdev st)) (unat lba) n bs (unat (partition_start_lba g) + unat (buffer_sector st))"
    if "buffer_sector st \<noteq> FAT_INVALID_SECTOR"
  proof -
    have "\<not> unat lba \<le> unat (partition_start_lba g) + unat (buffer_sector st)" using assms(2) fat_okD(7) [OF assms(1) that] by linarith
    then show ?thesis using fat_okD(5) [OF assms(1) that] by (simp add: write_sectors_def)
  qed
  then have "volume_here g st (st\<lparr>fdev := d'\<rparr>) (write_sectors (sector (fdev st)) (unat lba) n bs)"
    using d'(2) assms(1) by (auto simp: volume_def fat_ok_def holds_def)
  then show ?thesis using d'(1) by (intro exI [of _ "st\<lparr>fdev := d'\<rparr>"]) (simp add: on_dev_def write_blocks_def)
qed

lemma zero_sectors_ok:
  assumes "fat_ok_here g st" and "valid_cluster g c" and "\<forall>s \<in> set ss. s < unat (sectors_per_cluster g)"
  shows "\<exists>st'. zero_sectors g io c ss st = Some (Inr c, st') \<and> volume_here g st st' (zero_cluster g (sector (fdev st)) c ss)"
  using assms(1,3)
proof (induction ss arbitrary: st)
  case Nil
  then show ?case using volume_refl by (simp add: zero_cluster_def)
next
  case (Cons s ss)
  let ?f = "sector (fdev st)" and ?lba = "partition_start_lba g + cluster_to_sector g c + of_nat s"
  have s: "s < unat (sectors_per_cluster g)" using Cons.prems(2) by simp
  note g = fat_okD(3) [OF Cons.prems(1)]
  note pos = cluster_position [OF g unat_lt_u32 assms(2) s]
  have "unat (partition_start_lba g) + unat (data_start_sector g) \<le> unat ?lba" unfolding pos(4) by (simp add: cluster_lba_def)
  moreover have "unat ?lba + 1 \<le> unat (dev_blocks io (fdev st))" unfolding pos(4) using pos(2) s by linarith
  ultimately obtain st1 where 1: "on_dev (write_blocks io ?lba (replicate 512 0) 1) st = (Inr (), st1)"
    "volume_here g st st1 (write_sectors ?f (cluster_lba g c + s) 1 (replicate 512 0))"
    using on_dev_write_data [OF Cons.prems(1), of ?lba 1 "replicate 512 0"] pos(4) by auto
  then have ok1: "fat_ok_here g st1" "sector (fdev st1) = ?f(cluster_lba g c + s := replicate 512 0)"
    by (auto simp: volume_def write_sectors_def fun_eq_iff)
  from Cons.IH [OF ok1(1)] Cons.prems(2) obtain st2 where
    2: "zero_sectors g io c ss st1 = Some (Inr c, st2)" "volume_here g st1 st2 (zero_cluster g (sector (fdev st1)) c ss)"
    by auto
  have "zero_cluster g (sector (fdev st1)) c ss = zero_cluster g ?f c (s # ss)"
    by (auto simp: zero_cluster_def ok1(2) fun_eq_iff)
  then show ?case
    using 2 volume_trans [OF 1(2)] by (simp add: x_catch_def 1(1) del: One_nat_def)
qed

lemma alloc_from_ok:
  assumes "fat_ok_here g st" and "\<forall>n \<in> set ns. 2 \<le> n \<and> n < unat (cluster_count g) + 2"
  shows "\<exists>st'. case find (\<lambda>n. link g (sector (fdev st)) (of_nat n) = 0) ns of
      None \<Rightarrow> alloc_from g io ns st = Some (Inl Full, st') \<and> volume_here g st st' (sector (fdev st))
    | Some n \<Rightarrow> alloc_from g io ns st = Some (Inr (of_nat n), st') \<and>
        volume_here g st st' (zero_cluster g (fat_put g (sector (fdev st)) n FAT32_EOC_MAX) (of_nat n)
          [0..<unat (sectors_per_cluster g)])"
  using assms
proof (induction ns arbitrary: st)
  case Nil
  then show ?case using volume_refl by simp
next
  case (Cons n ns)
  let ?f = "sector (fdev st)" and ?c = "of_nat n :: u32"
  note g = fat_okD(3) [OF Cons.prems(1)]
  have n: "unat ?c = n"
    using Cons.prems(2) geom_okD(10) [OF g] by (simp add: unsigned_of_nat take_bit_nat_eq_self)
  have v: "valid_cluster g ?c" using Cons.prems(2) valid_cluster_nat [OF g] n by simp
  from read_entry_ok [OF Cons.prems(1) v] obtain st1 where
    1: "read_entry g io ?c st = (Inr (link g ?f ?c), st1)" "volume_here g st st1 ?f" by (auto simp: link_def)
  then have ok1: "fat_ok_here g st1" "sector (fdev st1) = ?f" by (simp_all add: volume_def)
  show ?case
  proof (cases "link g ?f ?c = 0")
    case False
    then have "alloc_from g io (n # ns) st = alloc_from g io ns st1"
      by (simp add: Let_def x_try_def x_catch_def 1(1) FAT32_FREE_def)
    moreover obtain st2 where "case find (\<lambda>n. link g ?f (of_nat n) = 0) ns of
        None \<Rightarrow> alloc_from g io ns st1 = Some (Inl Full, st2) \<and> volume_here g st1 st2 ?f
      | Some n \<Rightarrow> alloc_from g io ns st1 = Some (Inr (of_nat n), st2) \<and>
          volume_here g st1 st2 (zero_cluster g (fat_put g ?f n FAT32_EOC_MAX) (of_nat n) [0..<unat (sectors_per_cluster g)])"
      using Cons.IH [OF ok1(1)] Cons.prems(2) unfolding ok1(2) by auto
    ultimately show ?thesis
      using False volume_trans [OF 1(2)] by (auto split: option.splits)
  next
    case True
    from write_entry_ok [OF ok1(1) v, of FAT32_EOC_MAX] obtain st2 where
      2: "write_entry g io ?c FAT32_EOC_MAX st1 = (Inr (), st2)" "volume_here g st1 st2 (fat_put g ?f n FAT32_EOC_MAX)"
      using ok1(2) n by auto
    then have ok2: "fat_ok_here g st2" "sector (fdev st2) = fat_put g ?f n FAT32_EOC_MAX" by (simp_all add: volume_def)
    from zero_sectors_ok [OF ok2(1) v, of "[0..<unat (sectors_per_cluster g)]"] obtain st3 where
      3: "zero_sectors g io ?c [0..<unat (sectors_per_cluster g)] st2 = Some (Inr ?c, st3)"
        "volume_here g st2 st3 (zero_cluster g (fat_put g ?f n FAT32_EOC_MAX) ?c [0..<unat (sectors_per_cluster g)])"
      unfolding ok2(2) by auto
    have "alloc_from g io (n # ns) st = Some (Inr ?c, st3)"
      using True 3(1) by (simp add: Let_def x_try_def x_catch_def 1(1) 2(1) FAT32_FREE_def)
    then show ?thesis using True volume_trans [OF volume_trans [OF 1(2) 2(2)] 3(2)] by auto
  qed
qed

lemma alloc_cluster_ok:
  assumes "fat_ok_here g st"
  shows "\<exists>r st'. alloc_cluster g io st = Some (r, st') \<and> fat_ok_here g st' \<and>
      dev_blocks io (fdev st') = dev_blocks io (fdev st) \<and>
    (case r of
       Inl e \<Rightarrow> e = Full \<and> (\<forall>c. valid_cluster g c \<longrightarrow> link g (sector (fdev st)) c \<noteq> 0) \<and> sector (fdev st') = sector (fdev st)
     | Inr c \<Rightarrow> allocated g (sector (fdev st)) (sector (fdev st')) c)"
proof -
  let ?f = "sector (fdev st)"
  define ns where "ns = [2..<unat (cluster_count g) + 2]"
  note g = fat_okD(3) [OF assms]
  have top: "unat (cluster_count g + 2) = unat (cluster_count g) + 2"
    using geom_okD(10) [OF g] by (subst unat_add_small) simp_all
  have range: "\<forall>n \<in> set ns. 2 \<le> n \<and> n < unat (cluster_count g) + 2" by (simp add: ns_def del: upt_Suc)
  obtain st' where a: "case find (\<lambda>n. link g ?f (of_nat n) = 0) ns of
      None \<Rightarrow> alloc_from g io ns st = Some (Inl Full, st') \<and> volume_here g st st' ?f
    | Some n \<Rightarrow> alloc_from g io ns st = Some (Inr (of_nat n), st') \<and>
        volume_here g st st' (zero_cluster g (fat_put g ?f n FAT32_EOC_MAX) (of_nat n) [0..<unat (sectors_per_cluster g)])"
    using alloc_from_ok [OF assms range] by blast
  have al: "alloc_cluster g io st = alloc_from g io ns st" by (simp only: alloc_cluster_def top ns_def)
  have nsi: "ns ! i = i + 2" if "i < length ns" for i using that by (simp add: ns_def del: upt_Suc)
  have len: "length ns = unat (cluster_count g)" by (simp add: ns_def del: upt_Suc)
  show ?thesis
  proof (cases "find (\<lambda>n. link g ?f (of_nat n) = 0) ns")
    case None
    then have *: "\<forall>n \<in> set ns. link g ?f (of_nat n) \<noteq> 0" by (simp add: find_None_iff)
    have "link g ?f c \<noteq> 0" if "valid_cluster g c" for c
    proof -
      have "unat c \<in> set ns" using that valid_cluster_nat [OF g] by (simp add: ns_def del: upt_Suc)
      with * have "link g ?f (of_nat (unat c)) \<noteq> 0" by blast
      then show ?thesis by simp
    qed
    then show ?thesis using a None by (simp add: al volume_def)
  next
    case (Some n)
    let ?c = "of_nat n :: u32"
    from Some obtain k where k: "k < length ns" "link g ?f (of_nat (ns ! k)) = 0" "n = ns ! k"
      "\<forall>j < k. link g ?f (of_nat (ns ! j)) \<noteq> 0" by (auto simp: find_Some_iff)
    have nk: "n = k + 2" using k(1,3) nsi by simp
    have "n < 4294967296" using nk k(1) len geom_okD(10) [OF g] by simp
    then have n: "unat ?c = n" by (simp only: unsigned_of_nat) (simp add: take_bit_nat_eq_self)
    have v: "valid_cluster g ?c" using valid_cluster_nat [OF g, of ?c] n nk k(1) len by linarith
    have "link g ?f c' \<noteq> 0" if "valid_cluster g c'" "c' < ?c" for c'
    proof -
      have "2 \<le> unat c'" "unat c' < n" using that valid_cluster_nat [OF g] n by (auto simp: word_less_nat_alt)
      then have "unat c' - 2 < k" "ns ! (unat c' - 2) = unat c'" using k(1,3) nsi by simp_all
      with k(4) have "link g ?f (of_nat (unat c')) \<noteq> 0" by metis
      then show ?thesis by simp
    qed
    with allocatedI [OF g unat_lt_u32 fat_ok_sectors [OF assms] v] k(2,3) n
    have "allocated g ?f (zero_cluster g (fat_put g ?f n FAT32_EOC_MAX) ?c [0..<unat (sectors_per_cluster g)]) ?c" by simp
    then show ?thesis using a Some by (simp add: al volume_def)
  qed
qed

end

end
