(* ===== verification/Fat_Dir.thy ===== *)
theory Fat_Dir
  imports Fat_Alloc
begin

unbundle bit_operations_syntax

text \<open>
  Files and directories of \<^verbatim>\<open>kernel/fs/fat/fat_dir.cpp\<close>. Each loop over the clusters of a chain is
  an instance of \<open>chain_each\<close>; the loops over the sectors of a cluster and over the entries of a
  sector are recursions on their indices. The scratch allocation of \<^verbatim>\<open>do_file_io\<close> and the calls of
  the directory visitor are arguments.
\<close>

section \<open>Paths\<close>

definition MAX_PART_LEN :: nat where "MAX_PART_LEN = 13"
definition MAX_DEPTH :: nat where "MAX_DEPTH = 16"

fun part_chars :: "nat \<Rightarrow> bytes \<Rightarrow> (bytes \<times> bytes) option" where
  "part_chars len [] = Some ([], [])"
| "part_chars len (c # p) =
     (if c = ch_slash then Some ([], c # p)
      else if MAX_PART_LEN \<le> len + 1 then None
      else case part_chars (len + 1) p of
             None \<Rightarrow> None
           | Some (part, rest) \<Rightarrow> Some (to_upper c # part, rest))"

definition next_part :: "bytes \<Rightarrow> (bytes \<times> bytes) option" where
  "next_part p =
     (case part_chars 0 p of None \<Rightarrow> None | Some (part, rest) \<Rightarrow> Some (part, str_skip_char rest ch_slash))"

lemma part_chars_rest:
  "part_chars len p = Some (part, rest) \<Longrightarrow> length part + length rest = length p \<and> (p \<noteq> [] \<longrightarrow> part = [] \<longrightarrow> rest = p \<and> hd p = ch_slash)"
proof (induction len p arbitrary: part rest rule: part_chars.induct)
  case (2 len c p)
  show ?case
  proof (cases "c = ch_slash \<or> MAX_PART_LEN \<le> len + 1")
    case False
    then obtain q r where "part_chars (len + 1) p = Some (q, r)" "part = to_upper c # q" "rest = r"
      using 2(2) by (auto split: option.splits)
    then show ?thesis using 2(1) False by fastforce
  qed (use 2(2) in \<open>auto split: if_splits\<close>)
qed simp

lemma length_skip: "length (str_skip_char p c) \<le> length p"
  by (induction p c rule: str_skip_char.induct) auto

lemma next_part_shorter: "next_part p = Some (part, rest) \<Longrightarrow> p \<noteq> [] \<Longrightarrow> length rest < length p"
proof -
  assume n: "next_part p = Some (part, rest)" and "p \<noteq> []"
  then obtain r where r: "part_chars 0 p = Some (part, r)" "rest = str_skip_char r ch_slash"
    by (auto simp: next_part_def split: option.splits)
  show ?thesis
  proof (cases "part = []")
    case True
    then have "r = p" "hd p = ch_slash" using part_chars_rest [OF r(1)] \<open>p \<noteq> []\<close> by auto
    then obtain q where "r = ch_slash # q" "length q < length p" using \<open>p \<noteq> []\<close> by (cases p) auto
    then show ?thesis using r(2) length_skip [of q ch_slash] by simp
  next
    case False
    then have "length r < length p" using part_chars_rest [OF r(1)] by (cases part) auto
    then show ?thesis using r(2) length_skip [of r ch_slash] by simp
  qed
qed

text \<open>The loop that collects the components of a path, resolving \<^verbatim>\<open>.\<close> and \<^verbatim>\<open>..\<close> by name.\<close>

function split_path :: "bytes list \<Rightarrow> bytes \<Rightarrow> error + bytes list" where
  "split_path parts path =
     (if path = [] then Inr parts
      else case next_part path of
             None \<Rightarrow> Inl Invalid
           | Some (part, rest) \<Rightarrow>
               if part = str ''.'' then split_path parts rest
               else if part = str ''..'' then split_path (if parts \<noteq> [] then butlast parts else parts) rest
               else case try_push_back MAX_DEPTH parts part of
                      None \<Rightarrow> Inl Invalid
                    | Some parts' \<Rightarrow> split_path parts' rest)"
  by pat_completeness auto
termination
  by (relation "measure (\<lambda>(parts, path). length path)") (auto dest: next_part_shorter)

declare split_path.simps [simp del]

definition path_parts :: "bytes \<Rightarrow> error + bytes list" where
  "path_parts relpath =
     (let path = str_skip_char relpath ch_slash
      in ensure (path \<noteq> []) Invalid
           (try_bind (split_path [] path) (\<lambda>parts. ensure (parts \<noteq> []) Invalid (Inr parts))))"

section \<open>Looking up entries\<close>

definition entries_of :: "bytes \<Rightarrow> dir_entry list" where
  "entries_of bs = map (\<lambda>k. decode_entry (take 32 (drop (32 * k) bs))) [0..<16]"

definition sector_of :: "dir_entry list \<Rightarrow> bytes" where
  "sector_of es = concat (map encode_entry es)"

text \<open>The scan of one sector: \<open>None\<close> when the search goes on in the next one.\<close>

fun find_in :: "bytes \<Rightarrow> dir_entry list \<Rightarrow> (error + dir_entry) option" where
  "find_in name [] = None"
| "find_in name (e # es) =
     (if is_end e then Some (Inl NotFound)
      else if \<not> is_valid_entry e then find_in name es
      else if entry_name e = name then Some (Inr e)
      else find_in name es)"

definition read_sector :: "fat_geom \<Rightarrow> 'd block_ops \<Rightarrow> u32 \<Rightarrow> nat \<Rightarrow> ('d fat_state, bytes) op" where
  "read_sector g io c i =
     on_dev (read_blocks io (partition_start_lba g + cluster_to_sector g c + of_nat i) 1)"

definition write_sector :: "fat_geom \<Rightarrow> 'd block_ops \<Rightarrow> u32 \<Rightarrow> nat \<Rightarrow> bytes \<Rightarrow> ('d fat_state, unit) op" where
  "write_sector g io c i bs =
     on_dev (write_blocks io (partition_start_lba g + cluster_to_sector g c + of_nat i) bs 1)"

fun find_sectors :: "fat_geom \<Rightarrow> 'd block_ops \<Rightarrow> bytes \<Rightarrow> u32 \<Rightarrow> nat list \<Rightarrow> ('d fat_state, unit + dir_entry) op" where
  "find_sectors g io name c [] = op_ok (Inl ())"
| "find_sectors g io name c (i # is) =
     op_try (read_sector g io c i) (\<lambda>bs.
       case find_in name (entries_of bs) of
         None \<Rightarrow> find_sectors g io name c is
       | Some (Inl e) \<Rightarrow> op_fail e
       | Some (Inr e) \<Rightarrow> op_ok (Inr e))"

abbreviation cluster_sectors :: "fat_geom \<Rightarrow> nat list" where
  "cluster_sectors g \<equiv> [0..<unat (sectors_per_cluster g)]"

definition find_entry :: "fat_geom \<Rightarrow> 'd block_ops \<Rightarrow> u32 \<Rightarrow> bytes \<Rightarrow> ('d fat_state, dir_entry) op" where
  "find_entry g io start name =
     op_try (chain_each g io (\<lambda>_. True) (\<lambda>_ c. find_sectors g io name c (cluster_sectors g)) (new_chain start) ())
       (\<lambda>r. case r of Inl _ \<Rightarrow> op_fail NotFound | Inr e \<Rightarrow> op_ok e)"

fun find_parts :: "fat_geom \<Rightarrow> 'd block_ops \<Rightarrow> u32 \<Rightarrow> bytes list \<Rightarrow> ('d fat_state, dir_entry) op" where
  "find_parts g io cluster [] = op_fail Invalid"
| "find_parts g io cluster [part] = find_entry g io cluster part"
| "find_parts g io cluster (part # parts) =
     op_try (find_entry g io cluster part) (\<lambda>e.
       if is_directory e then find_parts g io (entry_cluster e) parts else op_fail NotFound)"

definition find_file :: "fat_geom \<Rightarrow> 'd block_ops \<Rightarrow> bytes \<Rightarrow> ('d fat_state, dir_entry) op" where
  "find_file g io filename =
     (case path_parts filename of Inl e \<Rightarrow> op_fail e | Inr parts \<Rightarrow> find_parts g io (root_cluster g) parts)"

fun parent_of :: "fat_geom \<Rightarrow> 'd block_ops \<Rightarrow> u32 \<Rightarrow> bytes list \<Rightarrow> ('d fat_state, u32) op" where
  "parent_of g io cluster [] = op_ok cluster"
| "parent_of g io cluster [part] = op_ok cluster"
| "parent_of g io cluster (part # parts) =
     op_try (find_entry g io cluster part) (\<lambda>e.
       op_ensure (is_directory e) NotFound (parent_of g io (entry_cluster e) parts))"

definition resolve_parent :: "fat_geom \<Rightarrow> 'd block_ops \<Rightarrow> bytes \<Rightarrow> nat \<Rightarrow> ('d fat_state, u32 \<times> bytes) op" where
  "resolve_parent g io relpath name_size =
     op_ensure (0 < name_size) Invalid
       (case path_parts relpath of
          Inl e \<Rightarrow> op_fail e
        | Inr parts \<Rightarrow>
            op_try (parent_of g io (root_cluster g) parts) (\<lambda>c. op_ok (c, strncpy_cut name_size (last parts))))"

section \<open>Listing a directory\<close>

fun visit_entries :: "('v \<Rightarrow> dir_entry \<Rightarrow> bool \<times> 'v) \<Rightarrow> dir_entry list \<Rightarrow> int \<times> 'v \<Rightarrow> (int \<times> 'v) + (int \<times> 'v)" where
  "visit_entries vis [] s = Inl s"
| "visit_entries vis (e # es) (count, v) =
     (if is_end e then Inr (count, v)
      else if \<not> is_valid_entry e then visit_entries vis es (count, v)
      else case vis v e of
             (True, v') \<Rightarrow> Inr (count, v')
           | (False, v') \<Rightarrow> visit_entries vis es (count + 1, v'))"

fun visit_sectors :: "fat_geom \<Rightarrow> 'd block_ops \<Rightarrow> ('v \<Rightarrow> dir_entry \<Rightarrow> bool \<times> 'v) \<Rightarrow> u32 \<Rightarrow> nat list \<Rightarrow> int \<times> 'v \<Rightarrow>
    ('d fat_state, (int \<times> 'v) + (int \<times> 'v)) op" where
  "visit_sectors g io vis c [] s = op_ok (Inl s)"
| "visit_sectors g io vis c (i # is) s =
     op_try (read_sector g io c i) (\<lambda>bs.
       case visit_entries vis (entries_of bs) s of
         Inr s' \<Rightarrow> op_ok (Inr s')
       | Inl s' \<Rightarrow> visit_sectors g io vis c is s')"

definition read_dir_cluster :: "fat_geom \<Rightarrow> 'd block_ops \<Rightarrow> ('v \<Rightarrow> dir_entry \<Rightarrow> bool \<times> 'v) \<Rightarrow> u32 \<Rightarrow> 'v \<Rightarrow>
    ('d fat_state, int \<times> 'v) op" where
  "read_dir_cluster g io vis start v =
     op_try (chain_each g io (\<lambda>_. True) (\<lambda>s c. visit_sectors g io vis c (cluster_sectors g) s) (new_chain start) (0, v))
       (\<lambda>r. case r of Inl s \<Rightarrow> op_ok s | Inr s \<Rightarrow> op_ok s)"

definition read_dir :: "fat_geom \<Rightarrow> 'd block_ops \<Rightarrow> ('v \<Rightarrow> dir_entry \<Rightarrow> bool \<times> 'v) \<Rightarrow> bytes \<Rightarrow> 'v \<Rightarrow>
    ('d fat_state, int \<times> 'v) op" where
  "read_dir g io vis relpath v =
     (if relpath = [] then read_dir_cluster g io vis (root_cluster g) v
      else op_try (find_file g io relpath) (\<lambda>dir.
        op_ensure (is_directory dir) Invalid (read_dir_cluster g io vis (entry_cluster dir) v)))"

section \<open>Reading and writing a file\<close>

text \<open>The state of the loop: the offset still to skip, the bytes done and the caller's buffer.\<close>

definition file_cluster :: "fat_geom \<Rightarrow> 'd block_ops \<Rightarrow> u32 \<Rightarrow> bool \<Rightarrow> u32 \<times> u32 \<times> bytes \<Rightarrow> u32 \<Rightarrow>
    ('d fat_state, (u32 \<times> u32 \<times> bytes) + unit) op" where
  "file_cluster g io len writeback s c =
     (case s of (offset, solved, io_buf) \<Rightarrow>
        let lba = partition_start_lba g + cluster_to_sector g c; n = unat (sectors_per_cluster g)
        in op_try (on_dev (read_blocks io lba n)) (\<lambda>cluster_buf.
             if bytes_per_cluster g \<le> offset then op_ok (Inl (offset - bytes_per_cluster g, solved, io_buf))
             else
               let count = min (bytes_per_cluster g - offset) (len - solved)
               in if writeback
                  then op_try (on_dev (write_blocks io lba
                         (splice cluster_buf (unat offset) (take (unat count) (drop (unat solved) io_buf))) n))
                       (\<lambda>_. op_ok (Inl (0, solved + count, io_buf)))
                  else op_ok (Inl (0, solved + count,
                         splice io_buf (unat solved) (take (unat count) (drop (unat offset) cluster_buf))))))"

definition do_file_io :: "fat_geom \<Rightarrow> 'd block_ops \<Rightarrow> bool \<Rightarrow> dir_entry \<Rightarrow> bytes \<Rightarrow> u32 \<Rightarrow> u32 \<Rightarrow> bool \<Rightarrow>
    ('d fat_state, int \<times> bytes) op" where
  "do_file_io g io scratch entry io_buf offset len writeback =
     op_ensure (\<not> is_directory entry) Invalid
       (op_ensure (offset \<le> file_size entry) Invalid
         (if offset = file_size entry \<or> len = 0 then op_ok (0, io_buf)
          else
            let len = min len (file_size entry - offset); cluster = entry_cluster entry
            in op_ensure (valid_cluster g cluster) Invalid
                 (op_ensure scratch NoMem
                   (op_try (chain_each g io (\<lambda>(_, solved, _). solved < len) (file_cluster g io len writeback)
                             (new_chain cluster) (offset, 0, io_buf)) (\<lambda>r.
                     case r of
                       Inl (_, solved, buf) \<Rightarrow> op_ensure (solved = len) BadFs (op_ok (sint solved, buf))
                     | Inr _ \<Rightarrow> op_fail BadFs)))))"

definition read_file :: "fat_geom \<Rightarrow> 'd block_ops \<Rightarrow> bool \<Rightarrow> dir_entry \<Rightarrow> bytes \<Rightarrow> u32 \<Rightarrow> u32 \<Rightarrow> ('d fat_state, int \<times> bytes) op" where
  "read_file g io scratch entry buf offset len = do_file_io g io scratch entry buf offset len False"

definition write_file :: "fat_geom \<Rightarrow> 'd block_ops \<Rightarrow> bool \<Rightarrow> dir_entry \<Rightarrow> bytes \<Rightarrow> u32 \<Rightarrow> u32 \<Rightarrow> ('d fat_state, int \<times> bytes) op" where
  "write_file g io scratch entry buf offset len = do_file_io g io scratch entry buf offset len True"

section \<open>Changing directories\<close>

definition set_cluster :: "u32 \<Rightarrow> dir_entry \<Rightarrow> dir_entry" where
  "set_cluster c e = e\<lparr>first_cluster_high := ucast (drop_bit 16 c), first_cluster_low := ucast (c AND 0xFFFF)\<rparr>"

fun free_slot :: "dir_entry list \<Rightarrow> nat option" where
  "free_slot [] = None"
| "free_slot (e # es) = (if is_end e \<or> is_deleted e then Some 0 else map_option Suc (free_slot es))"

definition put_entry :: "dir_entry list \<Rightarrow> nat \<Rightarrow> dir_entry \<Rightarrow> dir_entry list" where
  "put_entry es j new =
     (let was_end = is_end (es ! j); es' = es[j := new]
      in if was_end \<and> j + 1 < 16 then es'[j + 1 := zero_entry] else es')"

text \<open>
  The loop of \<^verbatim>\<open>add_dir_entry\<close> leaves in two ways: with the outcome of the write into a free slot,
  or with the tail of the chain and its end marker when the directory is to be extended.
\<close>

datatype add_exit = Slot_written "error + unit" | Extend_tail u32 u32

fun add_sectors :: "fat_geom \<Rightarrow> 'd block_ops \<Rightarrow> dir_entry \<Rightarrow> u32 \<Rightarrow> nat list \<Rightarrow> ('d fat_state, unit + add_exit) op" where
  "add_sectors g io new c [] =
     op_try (read_entry g io c) (\<lambda>nxt.
       op_ok (if FAT32_EOC_MIN \<le> nxt then Inr (Extend_tail c nxt) else Inl ()))"
| "add_sectors g io new c (i # is) =
     op_try (read_sector g io c i) (\<lambda>bs.
       case free_slot (entries_of bs) of
         None \<Rightarrow> add_sectors g io new c is
       | Some j \<Rightarrow>
           op_catch (write_sector g io c i (sector_of (put_entry (entries_of bs) j new)))
             (\<lambda>e. op_ok (Inr (Slot_written (Inl e)))) (\<lambda>_. op_ok (Inr (Slot_written (Inr ())))))"

fun init_sectors :: "fat_geom \<Rightarrow> 'd block_ops \<Rightarrow> dir_entry \<Rightarrow> u32 \<Rightarrow> nat list \<Rightarrow> ('d fat_state, unit) xop" where
  "init_sectors g io new c [] = x_ok ()"
| "init_sectors g io new c (s # ss) =
     x_catch (x_of (write_sector g io c s (if s = 0 then sector_of (new # replicate 15 zero_entry) else replicate 512 0)))
       (fail_after_rollback g io c) (\<lambda>_. init_sectors g io new c ss)"

text \<open>
  \<^verbatim>\<open>*entry_may_exist\<close> is the first component of the outcome; it is meaningful with an error and
  without one.
\<close>

definition extend_dir :: "fat_geom \<Rightarrow> 'd block_ops \<Rightarrow> dir_entry \<Rightarrow> u32 \<Rightarrow> u32 \<Rightarrow> ('d fat_state, bool \<times> (error + unit)) xop" where
  "extend_dir g io new cluster nxt =
     x_catch (x_try (alloc_cluster g io) (\<lambda>n. x_try (init_sectors g io new n (cluster_sectors g)) (\<lambda>_. x_ok n)))
       (\<lambda>e. x_ok (False, Inl e))
       (\<lambda>n. x_catch (x_of (write_entry g io cluster n))
              (\<lambda>e. x_catch (x_of (write_entry g io cluster nxt)) (\<lambda>_. x_ok (True, Inl e))
                     (\<lambda>_. x_try (rollback_new_chain g io n) (\<lambda>_. x_ok (False, Inl e))))
              (\<lambda>_. x_ok (False, Inr ())))"

definition add_dir_entry :: "fat_geom \<Rightarrow> 'd block_ops \<Rightarrow> u32 \<Rightarrow> dir_entry \<Rightarrow> ('d fat_state, bool \<times> (error + unit)) xop" where
  "add_dir_entry g io dir_cluster new =
     x_catch (x_of (chain_each g io (\<lambda>_. True) (\<lambda>_ c. add_sectors g io new c (cluster_sectors g)) (new_chain dir_cluster) ()))
       (\<lambda>e. x_ok (False, Inl e))
       (\<lambda>r. case r of
              Inl _ \<Rightarrow> x_ok (False, Inl Full)
            | Inr (Slot_written res) \<Rightarrow> x_ok (True, res)
            | Inr (Extend_tail cluster nxt) \<Rightarrow> extend_dir g io new cluster nxt)"

fun remove_in :: "bytes \<Rightarrow> dir_entry list \<Rightarrow> (error + nat) option" where
  "remove_in name [] = None"
| "remove_in name (e # es) =
     (if is_end e then Some (Inl NotFound)
      else if is_valid_entry e \<and> entry_name e = name then Some (Inr 0)
      else map_option (map_sum id Suc) (remove_in name es))"

definition mark_deleted :: "dir_entry \<Rightarrow> dir_entry" where
  "mark_deleted e = e\<lparr>de_name := (de_name e)[0 := 0xE5]\<rparr>"

fun remove_sectors :: "fat_geom \<Rightarrow> 'd block_ops \<Rightarrow> bytes \<Rightarrow> u32 \<Rightarrow> nat list \<Rightarrow> ('d fat_state, unit + unit) op" where
  "remove_sectors g io name c [] = op_ok (Inl ())"
| "remove_sectors g io name c (i # is) =
     op_try (read_sector g io c i) (\<lambda>bs.
       let entries = entries_of bs in
       case remove_in name entries of
         None \<Rightarrow> remove_sectors g io name c is
       | Some (Inl e) \<Rightarrow> op_fail e
       | Some (Inr j) \<Rightarrow>
           op_try (write_sector g io c i (sector_of (entries[j := mark_deleted (entries ! j)]))) (\<lambda>_. op_ok (Inr ())))"

definition remove_dir_entry :: "fat_geom \<Rightarrow> 'd block_ops \<Rightarrow> u32 \<Rightarrow> bytes \<Rightarrow> ('d fat_state, unit) op" where
  "remove_dir_entry g io dir_cluster name =
     op_try (chain_each g io (\<lambda>_. True) (\<lambda>_ c. remove_sectors g io name c (cluster_sectors g)) (new_chain dir_cluster) ())
       (\<lambda>r. case r of Inl _ \<Rightarrow> op_fail NotFound | Inr _ \<Rightarrow> op_ok ())"

section \<open>The operations on paths\<close>

text \<open>The check of \<^verbatim>\<open>mkdir\<close> and \<^verbatim>\<open>create_file\<close> that the name is not taken.\<close>

definition vacant :: "fat_geom \<Rightarrow> 'd block_ops \<Rightarrow> u32 \<Rightarrow> bytes \<Rightarrow> ('d fat_state, unit) op" where
  "vacant g io parent child =
     op_catch (find_entry g io parent child)
       (\<lambda>e. if e = NotFound then op_ok () else op_fail e) (\<lambda>_. op_fail Exists)"

definition named_entry :: "bytes \<Rightarrow> u8 \<Rightarrow> dir_entry" where
  "named_entry child attr =
     (case make_83_name child of (name, ext) \<Rightarrow> zero_entry\<lparr>de_name := name, de_ext := ext, de_attr := attr\<rparr>)"

definition dot_entry :: "bytes \<Rightarrow> u32 \<Rightarrow> dir_entry" where
  "dot_entry dots c =
     set_cluster c (zero_entry\<lparr>de_name := pad 8 dots, de_ext := pad 3 [], de_attr := FAT_ATTR_DIRECTORY\<rparr>)"

definition mkdir :: "fat_geom \<Rightarrow> 'd block_ops \<Rightarrow> bytes \<Rightarrow> ('d fat_state, unit) xop" where
  "mkdir g io relpath =
     x_try (x_of (resolve_parent g io relpath MAX_PART_LEN)) (\<lambda>(parent, child).
       x_try (x_of (vacant g io parent child)) (\<lambda>_.
         x_try (alloc_cluster g io) (\<lambda>n.
           let parent_val = (if parent = root_cluster g then 0 else parent)
           in x_catch (x_of (write_sector g io n 0
                        (sector_of (dot_entry (str ''.'') n # dot_entry (str ''..'') parent_val # replicate 14 zero_entry))))
                (fail_after_rollback g io n) (\<lambda>_.
                x_try (add_dir_entry g io parent (set_cluster n (named_entry child FAT_ATTR_DIRECTORY))) (\<lambda>(may_exist, res).
                  case res of
                    Inl e \<Rightarrow> if may_exist then x_fail e else fail_after_rollback g io n e
                  | Inr _ \<Rightarrow> x_ok ())))))"

definition create_file :: "fat_geom \<Rightarrow> 'd block_ops \<Rightarrow> bytes \<Rightarrow> ('d fat_state, unit) xop" where
  "create_file g io relpath =
     x_try (x_of (resolve_parent g io relpath MAX_PART_LEN)) (\<lambda>(parent, child).
       x_try (x_of (vacant g io parent child)) (\<lambda>_.
         x_try (add_dir_entry g io parent (named_entry child FAT_ATTR_ARCHIVE)) (\<lambda>(_, res).
           case res of Inl e \<Rightarrow> x_fail e | Inr _ \<Rightarrow> x_ok ())))"

definition fat_unlink :: "fat_geom \<Rightarrow> 'd block_ops \<Rightarrow> bytes \<Rightarrow> ('d fat_state, unit) xop" where
  "fat_unlink g io relpath =
     x_try (x_of (resolve_parent g io relpath MAX_PART_LEN)) (\<lambda>(parent, child).
       x_try (x_of (find_entry g io parent child)) (\<lambda>entry.
         x_ensure (\<not> is_directory entry) Invalid
           (x_try (if 2 \<le> entry_cluster entry then free_chain g io (entry_cluster entry) else x_ok ()) (\<lambda>_.
             x_of (remove_dir_entry g io parent child)))))"

text \<open>The end marker only leaves the loop over the entries of its sector; the walk goes on.\<close>

fun only_dots :: "dir_entry list \<Rightarrow> bool" where
  "only_dots [] = True"
| "only_dots (e # es) =
     (if is_end e then True
      else if \<not> is_valid_entry e then only_dots es
      else if de_name e ! 0 = ch_dot \<and> de_name e ! 1 = ch_space then only_dots es
      else if de_name e ! 0 = ch_dot \<and> de_name e ! 1 = ch_dot \<and> de_name e ! 2 = ch_space then only_dots es
      else False)"

fun empty_sectors :: "fat_geom \<Rightarrow> 'd block_ops \<Rightarrow> u32 \<Rightarrow> nat list \<Rightarrow> ('d fat_state, bool) op" where
  "empty_sectors g io c [] = op_ok True"
| "empty_sectors g io c (i # is) =
     op_try (read_sector g io c i) (\<lambda>bs.
       if only_dots (take (unat (bytes_per_sector g) div 32) (entries_of bs)) then empty_sectors g io c is else op_ok False)"

definition dir_empty :: "fat_geom \<Rightarrow> 'd block_ops \<Rightarrow> u32 \<Rightarrow> ('d fat_state, bool) op" where
  "dir_empty g io dir_cluster =
     op_try (chain_each g io (\<lambda>empty. empty)
              (\<lambda>_ c. op_try (empty_sectors g io c (cluster_sectors g)) (\<lambda>b. op_ok (Inl b :: bool + unit)))
              (new_chain dir_cluster) True)
       (\<lambda>r. case r of Inl b \<Rightarrow> op_ok b | Inr _ \<Rightarrow> op_ok True)"

definition rmdir :: "fat_geom \<Rightarrow> 'd block_ops \<Rightarrow> bytes \<Rightarrow> ('d fat_state, unit) xop" where
  "rmdir g io relpath =
     x_try (x_of (resolve_parent g io relpath MAX_PART_LEN)) (\<lambda>(parent, child).
       x_try (x_of (find_entry g io parent child)) (\<lambda>entry.
         x_ensure (is_directory entry) Invalid
           (x_try (x_of (dir_empty g io (entry_cluster entry))) (\<lambda>empty.
             x_ensure empty NotEmpty
               (x_try (free_chain g io (entry_cluster entry)) (\<lambda>_.
                 x_of (remove_dir_entry g io parent child)))))))"

end
