(* ===== verification/Fat_Files.thy ===== *)
theory Fat_Files
  imports Fat_Dir
begin

unbundle bit_operations_syntax

text \<open>
  Correctness of the file and directory operations over a working block device. The contents of a
  file are the bytes of the clusters of its chain, a directory is the list of the entries in its
  sectors. The theory shows that \<^verbatim>\<open>read_file\<close> and \<^verbatim>\<open>write_file\<close> read and replace a slice of
  the contents, that \<^verbatim>\<open>find_entry\<close> is the search of the list, and that a created file is found
  again under its name.
\<close>

section \<open>Concatenations of equal blocks\<close>

lemma drop_concat_blocks:
  assumes "\<And>x. x \<in> set xs \<Longrightarrow> length (h x) = b" and "k \<le> length xs"
  shows "drop (k * b) (concat (map h xs)) = concat (map h (drop k xs))"
  using assms
proof (induction xs arbitrary: k)
  case (Cons x xs)
  then show ?case by (cases k) auto
qed simp

lemma slice_concat_blocks:
  assumes "\<And>x. x \<in> set xs \<Longrightarrow> length (h x) = b" and "k < length xs" and "off + n \<le> b"
  shows "take n (drop (k * b + off) (concat (map h xs))) = take n (drop off (h (xs ! k)))"
proof -
  have "drop (k * b + off) (concat (map h xs)) = drop off (concat (map h (drop k xs)))"
    using drop_concat_blocks [of xs h b k] assms by (metis add.commute drop_drop less_imp_le_nat)
  also have "drop k xs = xs ! k # drop (Suc k) xs" using assms(2) by (simp add: Cons_nth_drop_Suc)
  finally show ?thesis using assms by simp
qed

lemma splice_concat_blocks:
  assumes "\<And>x. x \<in> set xs \<Longrightarrow> length (h x) = b" and "k < length xs" and "off + length vs \<le> b"
  shows "splice (concat (map h xs)) (k * b + off) vs = concat ((map h xs)[k := splice (h (xs ! k)) off vs])"
  using assms
proof (induction xs arbitrary: k)
  case (Cons x xs)
  show ?case
  proof (cases k)
    case 0
    have "length (h x) = b" using Cons.prems(1) by simp
    then show ?thesis using 0 Cons.prems(3) by (simp add: splice_def)
  next
    case (Suc j)
    have l: "length (h x) = b" using Cons.prems(1) by simp
    have "splice (h x @ concat (map h xs)) (b + (j * b + off)) vs = h x @ splice (concat (map h xs)) (j * b + off) vs"
      using l by (simp add: splice_def add.assoc)
    then show ?thesis using Suc Cons by (simp add: add.assoc)
  qed
qed simp

lemma splice_append:
  "i + length xs + length ys \<le> length bs \<Longrightarrow> splice (splice bs i xs) (i + length xs) ys = splice bs i (xs @ ys)"
  by (simp add: splice_def add.commute add.left_commute)

lemma splice_extend:
  assumes "s + c \<le> length d" and "i + s + c \<le> length bs"
  shows "splice (splice bs i (take s d)) (i + s) (take c (drop s d)) = splice bs i (take (s + c) d)"
  using splice_append [of i "take s d" "take c (drop s d)" bs] assms by (simp add: take_add)

lemma splice_empty [simp]: "splice bs i [] = bs"
  by (simp add: splice_def)

section \<open>The contents of a chain\<close>

definition cluster_bytes :: "fat_geom \<Rightarrow> (nat \<Rightarrow> bytes) \<Rightarrow> u32 \<Rightarrow> bytes" where
  "cluster_bytes g f c = sectors_from f (cluster_lba g c) (unat (sectors_per_cluster g))"

definition contents :: "fat_geom \<Rightarrow> (nat \<Rightarrow> bytes) \<Rightarrow> u32 list \<Rightarrow> bytes" where
  "contents g f cs = concat (map (cluster_bytes g f) cs)"

lemma length_sectors_from: "(\<And>i. a \<le> i \<Longrightarrow> i < a + n \<Longrightarrow> length (f i) = 512) \<Longrightarrow> length (sectors_from f a n) = 512 * n"
  by (induction n arbitrary: a) (auto simp: sectors_from_Suc)

text \<open>Different clusters have different sectors.\<close>

lemma clusters_apart:
  assumes "geom_ok g blocks" and "valid_cluster g c" and "valid_cluster g d" and "c \<noteq> d"
    and "cluster_lba g c \<le> i" and "i < cluster_lba g c + unat (sectors_per_cluster g)"
  shows "\<not> (cluster_lba g d \<le> i \<and> i < cluster_lba g d + unat (sectors_per_cluster g))"
proof -
  let ?b = "unat (sectors_per_cluster g)"
  have v: "2 \<le> unat c" "2 \<le> unat d" using assms(2,3) valid_cluster_nat [OF assms(1)] by auto
  have "unat c \<noteq> unat d" using assms(4) by (simp add: word_unat_eq_iff)
  then consider "unat c - 2 + 1 \<le> unat d - 2" | "unat d - 2 + 1 \<le> unat c - 2" using v by linarith
  then show ?thesis
  proof cases
    case 1
    then have "(unat c - 2 + 1) * ?b \<le> (unat d - 2) * ?b" by (rule mult_le_mono1)
    then show ?thesis using assms(6) by (simp add: cluster_lba_def algebra_simps)
  next
    case 2
    then have "(unat d - 2 + 1) * ?b \<le> (unat c - 2) * ?b" by (rule mult_le_mono1)
    then show ?thesis using assms(5) by (simp add: cluster_lba_def algebra_simps)
  qed
qed

lemma cluster_bytes_other:
  assumes "geom_ok g blocks" and "valid_cluster g c" and "valid_cluster g d" and "c \<noteq> d"
    and "\<And>i. \<not> (cluster_lba g c \<le> i \<and> i < cluster_lba g c + unat (sectors_per_cluster g)) \<Longrightarrow> f' i = f i"
  shows "cluster_bytes g f' d = cluster_bytes g f d"
  unfolding cluster_bytes_def
proof (rule sectors_from_cong)
  fix i assume "cluster_lba g d \<le> i" "i < cluster_lba g d + unat (sectors_per_cluster g)"
  with clusters_apart [OF assms(1,3,2) assms(4) [symmetric]] assms(5) show "f' i = f i" by blast
qed

lemma contents_written:
  assumes "geom_ok g blocks" and "\<forall>c \<in> set cs. valid_cluster g c" and "distinct cs" and "k < length cs"
    and "length bs = 512 * unat (sectors_per_cluster g)"
  shows "contents g (write_sectors f (cluster_lba g (cs ! k)) (unat (sectors_per_cluster g)) bs) cs =
    concat ((map (cluster_bytes g f) cs)[k := bs])"
proof -
  let ?f' = "write_sectors f (cluster_lba g (cs ! k)) (unat (sectors_per_cluster g)) bs"
  have "map (cluster_bytes g ?f') cs = (map (cluster_bytes g f) cs)[k := bs]"
  proof (rule nth_equalityI)
    fix i assume i: "i < length (map (cluster_bytes g ?f') cs)"
    show "map (cluster_bytes g ?f') cs ! i = (map (cluster_bytes g f) cs)[k := bs] ! i"
    proof (cases "i = k")
      case True
      then show ?thesis using assms(4,5) by (simp add: cluster_bytes_def sectors_from_written)
    next
      case False
      then have "cs ! k \<noteq> cs ! i" using assms(3,4) i by (simp add: nth_eq_iff_index_eq)
      then have "cluster_bytes g ?f' (cs ! i) = cluster_bytes g f (cs ! i)"
        using assms(2,4) i by (intro cluster_bytes_other [OF assms(1), of "cs ! k"]) (auto simp: write_sectors_def)
      then show ?thesis using False i by simp
    qed
  qed simp
  then show ?thesis by (simp add: contents_def)
qed

section \<open>The loop over a file\<close>

text \<open>
  The position before the cluster with index \<open>k\<close> of a transfer of \<open>n\<close> bytes from \<open>offset\<close> on, with
  clusters of \<open>b\<close> bytes: what is left to skip and what is done.
\<close>

definition io_pos :: "nat \<Rightarrow> nat \<Rightarrow> nat \<Rightarrow> nat \<Rightarrow> u32 \<Rightarrow> u32 \<Rightarrow> bool" where
  "io_pos b offset n k off solved \<longleftrightarrow> unat off = offset - k * b \<and> unat solved = min n (k * b - offset)"

lemma io_pos_start: "unat off = offset \<Longrightarrow> io_pos b offset n 0 off 0"
  by (simp add: io_pos_def)

lemma io_pos_skip:
  assumes "io_pos (unat b) offset n k off solved" and "b \<le> off" and "b \<noteq> 0"
  shows "io_pos (unat b) offset n (Suc k) (off - b) solved"
proof -
  have "unat (off - b) = unat off - unat b" using assms(2) by (intro unat_sub)
  moreover have "unat b \<le> unat off" "0 < unat b" using assms(2,3) by (simp_all add: word_le_nat_alt unat_gt_0)
  ultimately show ?thesis using assms(1) by (simp add: io_pos_def)
qed

lemma io_pos_step:
  assumes "io_pos (unat b) offset (unat n) k off solved" and "\<not> b \<le> off" and "solved < n"
  defines "count \<equiv> min (b - off) (n - solved)"
  shows "io_pos (unat b) offset (unat n) (Suc k) 0 (solved + count)"
    and "offset + unat solved = k * unat b + unat off"
    and "unat off + unat count \<le> unat b" and "unat solved + unat count \<le> unat n"
    and "unat (solved + count) = unat solved + unat count"
proof -
  have lt: "unat off < unat b" "unat solved < unat n" using assms(2,3) by (simp_all add: word_le_nat_alt word_less_nat_alt)
  have sub: "unat (b - off) = unat b - unat off" "unat (n - solved) = unat n - unat solved"
    using lt by (simp_all add: unat_sub word_le_nat_alt)
  have c: "unat count = min (unat b - unat off) (unat n - unat solved)"
    using sub by (auto simp: count_def min_def word_le_nat_alt)
  define kb where "kb = k * unat b"
  have pos: "unat off = offset - kb" "unat solved = min (unat n) (kb - offset)"
    using assms(1) by (simp_all add: io_pos_def kb_def)
  show "unat off + unat count \<le> unat b" and le: "unat solved + unat count \<le> unat n" using c lt by linarith+
  show sum: "unat (solved + count) = unat solved + unat count"
  proof (rule unat_add_small)
    have "unat solved + unat count < 4294967296" using le unat_lt_u32 [of n] by (rule le_less_trans)
    then show "unat solved + unat count < 2 ^ LENGTH(32)" by simp
  qed
  show "offset + unat solved = k * unat b + unat off" using pos lt unfolding kb_def [symmetric] by linarith
  have "Suc k * unat b = kb + unat b" by (simp add: kb_def)
  moreover have "unat solved + unat count = min (unat n) (kb + unat b - offset)"
    using c pos lt by linarith
  ultimately show "io_pos (unat b) offset (unat n) (Suc k) 0 (solved + count)"
    unfolding io_pos_def using sum pos(1) lt(1) by (simp add: add.commute)
qed

lemma io_pos_finish:
  "io_pos b offset (unat n) k off solved \<Longrightarrow> \<not> solved < n \<Longrightarrow> solved = n"
  "io_pos b offset (unat n) k off solved \<Longrightarrow> solved = n \<longleftrightarrow> unat n = 0 \<or> offset + unat n \<le> k * b"
  by (auto simp: io_pos_def word_unat_eq_iff word_less_nat_alt min_def split: if_splits)

context block_store
begin

lemma read_cluster_ok:
  assumes "fat_ok_here g st" and "valid_cluster g c"
  shows "\<exists>st'. on_dev (read_blocks io (partition_start_lba g + cluster_to_sector g c) (unat (sectors_per_cluster g))) st =
      (Inr (cluster_bytes g (sector (fdev st)) c), st') \<and> volume_here g st st' (sector (fdev st))"
  using on_dev_read [OF assms(1)] cluster_position(2,3) [OF fat_okD(3) [OF assms(1)] unat_lt_u32 assms(2)]
    geom_okD(2) [OF fat_okD(3) [OF assms(1)]]
  by (metis cluster_bytes_def)

lemma write_cluster_ok:
  assumes "fat_ok_here g st" and "valid_cluster g c" and "length bs = 512 * unat (sectors_per_cluster g)"
  shows "\<exists>st'. on_dev (write_blocks io (partition_start_lba g + cluster_to_sector g c) bs (unat (sectors_per_cluster g))) st =
      (Inr (), st') \<and> volume_here g st st' (write_sectors (sector (fdev st)) (cluster_lba g c) (unat (sectors_per_cluster g)) bs)"
proof -
  note pos = cluster_position(2,3) [OF fat_okD(3) [OF assms(1)] unat_lt_u32 assms(2) geom_okD(2) [OF fat_okD(3) [OF assms(1)]]]
  have "unat (partition_start_lba g) + unat (data_start_sector g) \<le> cluster_lba g c" by (simp add: cluster_lba_def)
  then show ?thesis
    using on_dev_write_data [OF assms(1) _ _ assms(3), of "partition_start_lba g + cluster_to_sector g c"] pos by simp
qed

lemma length_cluster_bytes:
  assumes "fat_ok_here g st" and "valid_cluster g c"
  shows "length (cluster_bytes g (sector (fdev st)) c) = unat (bytes_per_cluster g)"
proof -
  note pos = cluster_position(2) [OF fat_okD(3) [OF assms(1)] unat_lt_u32 assms(2) geom_okD(2) [OF fat_okD(3) [OF assms(1)]]]
  have "length (sectors_from (sector (fdev st)) (cluster_lba g c) (unat (sectors_per_cluster g))) = 512 * unat (sectors_per_cluster g)"
    using pos fat_ok_sectors [OF assms(1)] by (intro length_sectors_from) (simp add: sectors_ok_def)
  then show ?thesis using geom_okD(4) [OF fat_okD(3) [OF assms(1)]] by (simp add: cluster_bytes_def)
qed

end

section \<open>Reading and writing files\<close>

lemma do_file_io_unfold:
  assumes "\<not> is_directory e" and "offset \<le> file_size e" and "valid_cluster g (entry_cluster e)"
    and "n = min len (file_size e - offset)" and "n \<noteq> 0"
  shows "do_file_io g io True e buf offset len wb =
    op_try (chain_each g io (\<lambda>(_, solved, _). solved < n) (file_cluster g io n wb) (new_chain (entry_cluster e)) (offset, 0, buf))
      (\<lambda>r. case r of
         Inl (_, solved, buf) \<Rightarrow> op_ensure (solved = n) BadFs (op_ok (sint solved, buf))
       | Inr _ \<Rightarrow> op_fail BadFs)"
proof -
  have "offset \<noteq> file_size e" "len \<noteq> 0" using assms(4,5) by auto
  moreover have "min len (file_size e - offset) = n" using assms(4) by simp
  ultimately show ?thesis using assms(1-3) unfolding do_file_io_def Let_def op_ensure_def by simp
qed

lemma do_file_io_nothing:
  assumes "\<not> is_directory e" and "offset \<le> file_size e" and "0 = min len (file_size e - offset)"
  shows "do_file_io g io scratch e buf offset len wb st = (Inr (0, buf), st)"
proof -
  have "len = 0 \<or> file_size e - offset = 0" using assms(3) by (auto simp: min_def split: if_splits)
  then have "offset = file_size e \<or> len = 0" by auto
  then show ?thesis using assms(1,2) by (auto simp: do_file_io_def op_ensure_def op_ok_def)
qed

text \<open>The sectors of the clusters of a chain.\<close>

definition in_clusters :: "fat_geom \<Rightarrow> u32 list \<Rightarrow> nat \<Rightarrow> bool" where
  "in_clusters g cs i \<longleftrightarrow> (\<exists>c \<in> set cs. cluster_lba g c \<le> i \<and> i < cluster_lba g c + unat (sectors_per_cluster g))"

definition file_fits :: "fat_geom \<Rightarrow> u32 list \<Rightarrow> u32 \<Rightarrow> u32 \<Rightarrow> bool" where
  "file_fits g cs offset n \<longleftrightarrow> n = 0 \<or> unat offset + unat n \<le> length cs * unat (bytes_per_cluster g)"

context block_store
begin

lemma length_contents:
  assumes "fat_ok_here g st" and "\<forall>c \<in> set cs. valid_cluster g c"
  shows "length (contents g (sector (fdev st)) cs) = length cs * unat (bytes_per_cluster g)"
  using length_concat_const [of cs "cluster_bytes g (sector (fdev st))"] length_cluster_bytes [OF assms(1)] assms(2)
  by (simp add: contents_def)

lemma read_step:
  assumes "fat_ok_here g st" and c: "chain_of g (sector (fdev st)) start cs" and k: "k < length cs"
    and pos: "io_pos (unat (bytes_per_cluster g)) offset (unat n) k off solved" and lt: "solved < n"
    and room: "unat n \<le> length buf"
    and b: "b = splice buf 0 (take (unat solved) (drop offset (contents g (sector (fdev st)) cs)))"
  shows "\<exists>off' solved' st'. file_cluster g io n False (off, solved, b) (cs ! k) st =
      (Inr (Inl (off', solved', splice buf 0 (take (unat solved') (drop offset (contents g (sector (fdev st)) cs))))), st') \<and>
    volume_here g st st' (sector (fdev st)) \<and> io_pos (unat (bytes_per_cluster g)) offset (unat n) (Suc k) off' solved'"
proof -
  let ?f = "sector (fdev st)" and ?b = "bytes_per_cluster g"
  let ?D = "drop offset (contents g ?f cs)"
  have v: "\<forall>c \<in> set cs. valid_cluster g c" using c by (simp add: chain_of_def)
  note lb = length_cluster_bytes [OF assms(1)]
  have b0: "?b \<noteq> 0" using geom_okD(2,4) [OF fat_okD(3) [OF assms(1)]] by auto
  from read_cluster_ok [OF assms(1), of "cs ! k"] v k obtain st' where
    r: "on_dev (read_blocks io (partition_start_lba g + cluster_to_sector g (cs ! k)) (unat (sectors_per_cluster g))) st =
      (Inr (cluster_bytes g ?f (cs ! k)), st')" "volume_here g st st' ?f" by auto
  show ?thesis
  proof (cases "?b \<le> off")
    case True
    then show ?thesis using r io_pos_skip [OF pos True b0] b
      by (auto simp: file_cluster_def op_try_def op_ok_def Let_def)
  next
    case False
    define count where "count = min (?b - off) (n - solved)"
    note st = io_pos_step [OF pos False lt, folded count_def]
    have "Suc k * unat ?b \<le> length cs * unat ?b" using k by (intro mult_le_mono1) simp
    then have "unat solved + unat count \<le> length ?D"
      using st(2,3) length_contents [OF assms(1) v] by simp
    moreover have "take (unat count) (drop (unat off) (cluster_bytes g ?f (cs ! k))) = take (unat count) (drop (unat solved) ?D)"
      using slice_concat_blocks [of cs "cluster_bytes g ?f" "unat ?b" k "unat off" "unat count"] lb v k st(2,3)
      by (simp add: contents_def add.commute)
    ultimately have "splice b (unat solved) (take (unat count) (drop (unat off) (cluster_bytes g ?f (cs ! k)))) =
        splice buf 0 (take (unat (solved + count)) ?D)"
      using splice_extend [of "unat solved" "unat count" ?D 0 buf] b st(4,5) room by simp
    then show ?thesis using r st(1) False
      by (auto simp: file_cluster_def op_try_def op_ok_def Let_def count_def)
  qed
qed

lemma read_file_ok:
  assumes "fat_ok_here g st" and "chain_of g (sector (fdev st)) (entry_cluster e) cs"
    and "\<not> is_directory e" and "offset \<le> file_size e" and "n = min len (file_size e - offset)" and "unat n \<le> length buf"
  shows "\<exists>st'. read_file g io True e buf offset len st =
      (if file_fits g cs offset n
       then Inr (sint n, splice buf 0 (take (unat n) (drop (unat offset) (contents g (sector (fdev st)) cs))))
       else Inl BadFs, st') \<and>
    volume_here g st st' (sector (fdev st))"
proof (cases "n = 0")
  case True
  then show ?thesis
    using do_file_io_nothing [OF assms(3,4), of len] assms(5) volume_refl [OF assms(1)]
    by (intro exI [of _ st]) (simp add: read_file_def file_fits_def)
next
  case False
  let ?f = "sector (fdev st)" and ?b = "bytes_per_cluster g"
  let ?D = "drop (unat offset) (contents g ?f cs)"
  let ?P = "\<lambda>k (off, solved, b) st'. k \<le> length cs \<and> volume_here g st st' ?f \<and> io_pos (unat ?b) (unat offset) (unat n) k off solved \<and>
    b = splice buf 0 (take (unat solved) ?D)"
  let ?Q = "\<lambda>r st'. \<exists>off solved. r = Inr (Inl (off, solved, splice buf 0 (take (unat solved) ?D))) \<and>
    (solved = n \<longleftrightarrow> file_fits g cs offset n) \<and> volume_here g st st' ?f"
  note c = chain_ofD [OF fat_okD(3) [OF assms(1)] assms(2)]
  have "\<exists>r st'. chain_each g io (\<lambda>(_, solved, _). solved < n) (file_cluster g io n False) (new_chain (entry_cluster e)) (offset, 0, buf) st = (r, st') \<and> ?Q r st'"
  proof (rule chain_each_rule [OF assms(2), where P = ?P and Q = ?Q])
    show "chain_before ((!) cs) 0 (new_chain (entry_cluster e))"
      using chain_before_start [of "(!) cs"] c(2) by simp
    show "?P 0 (offset, 0, buf) st" using volume_refl [OF assms(1)] by (simp add: io_pos_start)
  next
    fix k s st1 assume k: "k < length cs" and P: "?P k s st1" and gd: "(case s of (_, solved, _) \<Rightarrow> solved < n)"
    obtain off solved b where s: "s = (off, solved, b)" by (cases s) auto
    have st1: "fat_ok_here g st1" "sector (fdev st1) = ?f" using P s by (simp_all add: volume_def)
    from read_step [OF st1(1), of "entry_cluster e" cs k "unat offset" n off solved buf b] P gd s st1(2) assms(2,6) k
    obtain off' solved' st' where
      "file_cluster g io n False (off, solved, b) (cs ! k) st1 = (Inr (Inl (off', solved', splice buf 0 (take (unat solved') ?D))), st')"
      "volume_here g st1 st' ?f" "io_pos (unat ?b) (unat offset) (unat n) (Suc k) off' solved'" by auto
    then show "case file_cluster g io n False s (cs ! k) st1 of (Inr (Inl s'), st') \<Rightarrow> ?P (Suc k) s' st' | (r, st') \<Rightarrow> ?Q r st'"
      using P s k volume_trans [of io sector ready g st st1 ?f st'] by simp
  next
    fix k s st1 assume P: "?P k s st1" and "\<not> (case s of (_, solved, _) \<Rightarrow> solved < n)" 
    then obtain off solved b where s: "s = (off, solved, b)" "\<not> solved < n" by (cases s) auto
    have p: "io_pos (unat ?b) (unat offset) (unat n) k off solved" using P s by simp
    have n: "solved = n" using io_pos_finish(1) [OF p s(2)] .
    then have "unat offset + unat n \<le> k * unat ?b" using io_pos_finish(2) [OF p] False by (simp add: unat_eq_0)
    also have "k * unat ?b \<le> length cs * unat ?b" using P s by (intro mult_le_mono1) simp
    finally show "?Q (Inr (Inl s)) st1" using P s n by (simp add: file_fits_def)
  next
    fix s st1 assume P: "?P (length cs) s st1"
    obtain off solved b where s: "s = (off, solved, b)" by (cases s) auto
    then show "?Q (Inr (Inl s)) st1" using io_pos_finish(2) [of "unat ?b" "unat offset" n "length cs" off solved] P False
      by (auto simp: file_fits_def unat_eq_0)
  qed (auto simp: volume_def split: prod.splits)
  then obtain off solved st' where
    ch: "chain_each g io (\<lambda>(_, solved, _). solved < n) (file_cluster g io n False) (new_chain (entry_cluster e)) (offset, 0, buf) st =
      (Inr (Inl (off, solved, splice buf 0 (take (unat solved) ?D))), st')"
      "solved = n \<longleftrightarrow> file_fits g cs offset n" "volume_here g st st' ?f" by blast
  have "valid_cluster g (entry_cluster e)" using c(1,2) c(4) [of 0] by simp
  note uf = do_file_io_unfold [OF assms(3,4) this assms(5) False]
  show ?thesis
    using ch by (intro exI [of _ st']) (auto simp: read_file_def uf op_try_def op_ensure_def op_ok_def op_fail_def)
qed

lemma write_step:
  assumes "fat_ok_here g st" and v: "\<forall>c \<in> set cs. valid_cluster g c" and d: "distinct cs" and k: "k < length cs"
    and pos: "io_pos (unat (bytes_per_cluster g)) offset (unat n) k off solved" and lt: "solved < n"
    and room: "unat n \<le> length buf" and fit: "offset + unat n \<le> length cs * unat (bytes_per_cluster g)"
    and C: "contents g (sector (fdev st)) cs = splice C offset (take (unat solved) buf)"
    and len: "length C = length cs * unat (bytes_per_cluster g)"
  shows "\<exists>off' solved' st'. file_cluster g io n True (off, solved, buf) (cs ! k) st = (Inr (Inl (off', solved', buf)), st') \<and>
    fat_ok_here g st' \<and> dev_blocks io (fdev st') = dev_blocks io (fdev st) \<and>
    io_pos (unat (bytes_per_cluster g)) offset (unat n) (Suc k) off' solved' \<and>
    contents g (sector (fdev st')) cs = splice C offset (take (unat solved') buf) \<and>
    (\<forall>i. \<not> in_clusters g cs i \<longrightarrow> sector (fdev st') i = sector (fdev st) i)"
proof -
  let ?f = "sector (fdev st)" and ?b = "bytes_per_cluster g" and ?spc = "unat (sectors_per_cluster g)"
  note g = fat_okD(3) [OF assms(1)] and lb = length_cluster_bytes [OF assms(1)]
  have vk: "valid_cluster g (cs ! k)" using v k by simp
  have b0: "?b \<noteq> 0" using geom_okD(2,4) [OF g] by auto
  from read_cluster_ok [OF assms(1) vk] obtain st1 where
    r: "on_dev (read_blocks io (partition_start_lba g + cluster_to_sector g (cs ! k)) ?spc) st =
      (Inr (cluster_bytes g ?f (cs ! k)), st1)" "volume_here g st st1 ?f" by auto
  have st1: "fat_ok_here g st1" "sector (fdev st1) = ?f" "dev_blocks io (fdev st1) = dev_blocks io (fdev st)"
    using r(2) by (simp_all add: volume_def)
  show ?thesis
  proof (cases "?b \<le> off")
    case True
    then show ?thesis using r st1 io_pos_skip [OF pos True b0] C
      by (auto simp: file_cluster_def op_try_def op_ok_def Let_def)
  next
    case False
    define count where "count = min (?b - off) (n - solved)"
    note st = io_pos_step [OF pos False lt, folded count_def]
    define new where "new = splice (cluster_bytes g ?f (cs ! k)) (unat off) (take (unat count) (drop (unat solved) buf))"
    have tl: "length (take (unat count) (drop (unat solved) buf)) = unat count" using room st(4) by simp
    have new: "length new = 512 * ?spc"
      using tl st(3) lb [OF vk] geom_okD(4) [OF g] by (simp add: new_def)
    from write_cluster_ok [OF st1(1) vk new] obtain st2 where
      w: "on_dev (write_blocks io (partition_start_lba g + cluster_to_sector g (cs ! k)) new ?spc) st1 = (Inr (), st2)"
        "volume_here g st1 st2 (write_sectors ?f (cluster_lba g (cs ! k)) ?spc new)" using st1(2) by auto
    have st2: "fat_ok_here g st2" "sector (fdev st2) = write_sectors ?f (cluster_lba g (cs ! k)) ?spc new"
      "dev_blocks io (fdev st2) = dev_blocks io (fdev st)" using w(2) st1(3) by (simp_all add: volume_def)
    have "contents g (sector (fdev st2)) cs = concat ((map (cluster_bytes g ?f) cs)[k := new])"
      unfolding st2(2) by (rule contents_written [OF g v d k new])
    also have "\<dots> = splice (contents g ?f cs) (k * unat ?b + unat off) (take (unat count) (drop (unat solved) buf))"
      unfolding contents_def new_def
      using splice_concat_blocks [of cs "cluster_bytes g ?f" "unat ?b" k "unat off"] lb v k st(3) tl by simp
    also have "\<dots> = splice C offset (take (unat solved + unat count) buf)"
      unfolding C st(2) [symmetric] using st(4) room fit len by (intro splice_extend) linarith+
    finally have "contents g (sector (fdev st2)) cs = splice C offset (take (unat (solved + count)) buf)" using st(5) by simp
    moreover have "sector (fdev st2) i = ?f i" if "\<not> in_clusters g cs i" for i
      using that k unfolding st2(2) in_clusters_def write_sectors_def by (metis nth_mem)
    ultimately show ?thesis using r(1) w(1) st(1) st2 False
      by (auto simp: file_cluster_def op_try_def op_ok_def Let_def count_def [symmetric] new_def)
  qed
qed

lemma write_file_ok:
  assumes "fat_ok_here g st" and "chain_of g (sector (fdev st)) (entry_cluster e) cs"
    and "\<not> is_directory e" and "offset \<le> file_size e" and "n = min len (file_size e - offset)" and "unat n \<le> length buf"
    and fit: "file_fits g cs offset n"
  shows "\<exists>st'. write_file g io True e buf offset len st = (Inr (sint n, buf), st') \<and>
    fat_ok_here g st' \<and> dev_blocks io (fdev st') = dev_blocks io (fdev st) \<and>
    contents g (sector (fdev st')) cs = splice (contents g (sector (fdev st)) cs) (unat offset) (take (unat n) buf) \<and>
    (\<forall>i. \<not> in_clusters g cs i \<longrightarrow> sector (fdev st') i = sector (fdev st) i)"
proof (cases "n = 0")
  case True
  then show ?thesis
    using do_file_io_nothing [OF assms(3,4), of len] assms(1,5)
    by (intro exI [of _ st]) (simp add: write_file_def file_fits_def)
next
  case False
  let ?f = "sector (fdev st)" and ?b = "bytes_per_cluster g"
  let ?C = "contents g ?f cs"
  let ?R = "\<lambda>solved st'. fat_ok_here g st' \<and> dev_blocks io (fdev st') = dev_blocks io (fdev st) \<and>
    contents g (sector (fdev st')) cs = splice ?C (unat offset) (take (unat solved) buf) \<and>
    (\<forall>i. \<not> in_clusters g cs i \<longrightarrow> sector (fdev st') i = ?f i)"
  let ?P = "\<lambda>k (off, solved, b) st'. io_pos (unat ?b) (unat offset) (unat n) k off solved \<and> b = buf \<and> ?R solved st'"
  let ?Q = "\<lambda>r st'. \<exists>off. r = Inr (Inl (off, n, buf)) \<and> ?R n st'"
  note g = fat_okD(3) [OF assms(1)]
  note c = chain_ofD [OF g assms(2)]
  have v: "\<forall>c \<in> set cs. valid_cluster g c" using assms(2) by (simp add: chain_of_def)
  have room: "unat offset + unat n \<le> length cs * unat ?b" using fit False by (simp add: file_fits_def)
  have low: "link g f' c = link g ?f c" if "\<forall>i. \<not> in_clusters g cs i \<longrightarrow> f' i = ?f i" "c \<in> set cs" for f' c
  proof (rule link_data [OF g unat_lt_u32])
    show "valid_cluster g c" using v that(2) by blast
    fix i assume "i < unat (partition_start_lba g) + unat (data_start_sector g)"
    then have "\<not> in_clusters g cs i" by (auto simp: in_clusters_def cluster_lba_def)
    then show "f' i = ?f i" using that(1) by blast
  qed
  have "\<exists>r st'. chain_each g io (\<lambda>(_, solved, _). solved < n) (file_cluster g io n True) (new_chain (entry_cluster e)) (offset, 0, buf) st = (r, st') \<and> ?Q r st'"
  proof (rule chain_each_rule [OF assms(2), where P = ?P and Q = ?Q])
    show "chain_before ((!) cs) 0 (new_chain (entry_cluster e))"
      using chain_before_start [of "(!) cs"] c(2) by simp
    show "?P 0 (offset, 0, buf) st" using assms(1) by (simp add: io_pos_start)
  next
    fix k s st1 assume "?P k s st1"
    then show "fat_ok_here g st1 \<and> (\<forall>c \<in> set cs. link g (sector (fdev st1)) c = link g ?f c)"
      using low [of "sector (fdev st1)"] by (cases s) auto
  next
    fix k s st1 assume k: "k < length cs" and P: "?P k s st1" and gd: "(case s of (_, solved, _) \<Rightarrow> solved < n)"
    obtain off solved where s: "s = (off, solved, buf)" "solved < n" using P gd by (cases s) auto
    from write_step [of g st1 cs k "unat offset" n off solved buf ?C] P s assms(6) k v c(3) room length_contents [OF assms(1) v]
    obtain off' solved' st' where
      st': "file_cluster g io n True (off, solved, buf) (cs ! k) st1 = (Inr (Inl (off', solved', buf)), st')"
      "io_pos (unat ?b) (unat offset) (unat n) (Suc k) off' solved'" "fat_ok_here g st'"
      "dev_blocks io (fdev st') = dev_blocks io (fdev st1)"
      "contents g (sector (fdev st')) cs = splice ?C (unat offset) (take (unat solved') buf)"
      "\<forall>i. \<not> in_clusters g cs i \<longrightarrow> sector (fdev st') i = sector (fdev st1) i" by auto
    then have "?P (Suc k) (off', solved', buf) st'" using P s by simp
    then show "case file_cluster g io n True s (cs ! k) st1 of (Inr (Inl s'), st') \<Rightarrow> ?P (Suc k) s' st' | (r, st') \<Rightarrow> ?Q r st'"
      using st'(1) s by simp
  next
    fix k s st1 assume P: "?P k s st1" and "\<not> (case s of (_, solved, _) \<Rightarrow> solved < n)" 
    then obtain off solved where s: "s = (off, solved, buf)" "\<not> solved < n" by (cases s) auto
    have "solved = n" using io_pos_finish(1) [OF _ s(2)] P s by auto
    then show "?Q (Inr (Inl s)) st1" using P s by simp
  next
    fix s st1 assume P: "?P (length cs) s st1"
    then obtain off solved where s: "s = (off, solved, buf)" by (cases s) auto
    have "solved = n" using io_pos_finish(2) [of "unat ?b" "unat offset" n "length cs" off solved] P s room by simp
    then show "?Q (Inr (Inl s)) st1" using P s by simp
  qed (auto simp: volume_def split: prod.splits)
  then obtain off st' where
    ch: "chain_each g io (\<lambda>(_, solved, _). solved < n) (file_cluster g io n True) (new_chain (entry_cluster e)) (offset, 0, buf) st =
      (Inr (Inl (off, n, buf)), st')" "?R n st'" by blast
  have "valid_cluster g (entry_cluster e)" using c(1,2) c(4) [of 0] by simp
  note uf = do_file_io_unfold [OF assms(3,4) this assms(5) False]
  show ?thesis
    using ch by (intro exI [of _ st']) (simp add: write_file_def uf op_try_def op_ensure_def op_ok_def op_fail_def)
qed

end

end
