(* ===== verification/Fat_Entries.thy ===== *)
theory Fat_Entries
  imports Fat_Files
begin

unbundle bit_operations_syntax

text \<open>
  Correctness of the directory operations over a working block device. A directory is the list of
  the entries in the sectors of its chain; the theory shows that \<^verbatim>\<open>find_entry\<close> searches this list,
  that searches change nothing on any disk, and that a created file is found under its name while
  the lookups of all other names stay as they were.
\<close>

section \<open>Sectors of entries\<close>

lemma entries_of_sector_of:
  assumes "length es = 16" and "\<forall>e \<in> set es. wf_entry e"
  shows "entries_of (sector_of es) = es"
proof (rule nth_equalityI)
  show "length (entries_of (sector_of es)) = length es" using assms(1) by (simp add: entries_of_def)
  fix k assume "k < length (entries_of (sector_of es))"
  then have k: "k < 16" by (simp add: entries_of_def)
  have len: "\<And>e. e \<in> set es \<Longrightarrow> length (encode_entry e) = 32" using assms(2) by simp
  have "take 32 (drop (32 * k) (sector_of es)) = encode_entry (es ! k)"
    using slice_concat_blocks [of es encode_entry 32 k 0 32] len k assms(1)
    by (simp add: sector_of_def mult.commute)
  then show "entries_of (sector_of es) ! k = es ! k"
    using k assms by (simp add: entries_of_def decode_encode_entry)
qed

lemma wf_entries_of: "length bs = 512 \<Longrightarrow> e \<in> set (entries_of bs) \<Longrightarrow> wf_entry e"
  by (auto simp: entries_of_def)

lemma length_entries_of [simp]: "length (entries_of bs) = 16"
  by (simp add: entries_of_def)

lemma length_sector_of: "\<forall>e \<in> set es. wf_entry e \<Longrightarrow> length (sector_of es) = 32 * length es"
  unfolding sector_of_def by (subst length_concat_const [where k = 32]) auto

section \<open>Searching a list of entries\<close>

lemma find_in_append:
  "find_in n (xs @ ys) = (case find_in n xs of None \<Rightarrow> find_in n ys | Some r \<Rightarrow> Some r)"
  by (induction n xs rule: find_in.induct) auto

lemma find_in_error: "find_in n es = Some (Inl e) \<Longrightarrow> e = NotFound"
  by (induction n es rule: find_in.induct) (auto split: if_splits)

lemma find_in_no_end: "\<forall>e \<in> set es. \<not> is_end e \<Longrightarrow> find_in n es \<noteq> Some (Inl x)"
  by (induction n es rule: find_in.induct) auto

text \<open>What \<^verbatim>\<open>find_entry\<close> reports.\<close>

definition lookup :: "bytes \<Rightarrow> dir_entry list \<Rightarrow> error + dir_entry" where
  "lookup n es = (case find_in n es of None \<Rightarrow> Inl NotFound | Some r \<Rightarrow> r)"

lemma lookup_append:
  "\<forall>e \<in> set xs. \<not> is_end e \<Longrightarrow> lookup n (xs @ ys) = (case find_in n xs of None \<Rightarrow> lookup n ys | Some r \<Rightarrow> r)"
  by (simp add: lookup_def find_in_append split: option.splits)

lemma lookup_error: "lookup n es = Inl e \<Longrightarrow> e = NotFound"
  by (auto simp: lookup_def split: option.splits dest: find_in_error)

text \<open>Nothing but end markers after an end marker.\<close>

definition tidy :: "dir_entry list \<Rightarrow> bool" where
  "tidy es \<longleftrightarrow> (\<forall>e \<in> set (dropWhile (\<lambda>e. \<not> is_end e) es). is_end e)"

lemma tidy_append: "\<forall>e \<in> set xs. \<not> is_end e \<Longrightarrow> tidy (xs @ ys) = tidy ys"
  by (simp add: tidy_def)

lemma tidy_ends: "tidy (x # xs) \<Longrightarrow> is_end x \<Longrightarrow> \<forall>e \<in> set xs. is_end e"
  by (simp add: tidy_def)

lemma ends_tidy: "\<forall>e \<in> set es. is_end e \<Longrightarrow> tidy es"
  by (cases es) (auto simp: tidy_def)

lemma ends_lookup: "\<forall>e \<in> set es. is_end e \<Longrightarrow> lookup n es = Inl NotFound"
  by (cases es) (auto simp: lookup_def)

text \<open>Replacing the first free entry, with an end marker kept behind it.\<close>

lemma lookup_insert:
  assumes old: "es = pre @ x # post" and new: "es' = pre @ new # post'"
    and pre: "\<forall>e \<in> set pre. \<not> is_end e \<and> \<not> is_deleted e" and x: "is_end x \<or> is_deleted x"
    and post: "post' = post \<or> is_end x \<and> (\<forall>e \<in> set post. is_end e) \<and> (\<forall>e \<in> set post'. is_end e)"
    and tidy: "tidy es" and valid: "is_valid_entry new"
  shows "tidy es'" and "lookup (entry_name new) es = Inl NotFound \<Longrightarrow> lookup (entry_name new) es' = Inr new"
    and "m \<noteq> entry_name new \<Longrightarrow> lookup m es' = lookup m es"
proof -
  have ne: "\<forall>e \<in> set pre. \<not> is_end e" using pre by blast
  have new_end: "\<not> is_end new" using valid by (auto simp: is_valid_entry_def)
  have tp: "tidy (x # post)" using tidy tidy_append [OF ne] old by simp
  have p: "tidy post' \<and> (is_end x \<longrightarrow> (\<forall>e \<in> set post'. is_end e)) \<and> (\<not> is_end x \<longrightarrow> post' = post)"
  proof (cases "is_end x")
    case True
    then have e: "\<forall>e \<in> set post'. is_end e" using post tidy_ends [OF tp] by metis
    have t: "tidy post'" by (rule ends_tidy) (rule e)
    show ?thesis by (intro conjI impI) (use True t e in simp_all)
  next
    case False
    then have "tidy post" using tp tidy_append [of "[x]" post] by simp
    then show ?thesis using False post by blast
  qed
  then have "tidy (new # post')" using new_end tidy_append [of "[new]" post'] by simp
  then show "tidy es'" using tidy_append [OF ne] new by simp
  show "lookup (entry_name new) es' = Inr new" if "lookup (entry_name new) es = Inl NotFound"
  proof -
    have "find_in (entry_name new) pre = None"
      using that lookup_append [OF ne, of "entry_name new" "x # post"] old find_in_no_end [OF ne]
      by (auto split: option.splits)
    then show ?thesis using lookup_append [OF ne, of "entry_name new" "new # post'"] new valid new_end
      by (simp add: lookup_def)
  qed
  show "lookup m es' = lookup m es" if "m \<noteq> entry_name new"
  proof -
    have "lookup m (new # post') = lookup m post'" using that new_end by (simp add: lookup_def)
    also have "\<dots> = lookup m (x # post)"
    proof (cases "is_end x")
      case True
      then show ?thesis using p ends_lookup [of post' m] ends_lookup [of "[x]" m] by (simp add: lookup_def)
    next
      case False
      then show ?thesis using p x by (simp add: lookup_def is_valid_entry_def)
    qed
    finally show ?thesis using old new lookup_append [OF ne] by (simp split: option.splits)
  qed
qed

section \<open>Directories on disk\<close>

definition dir_sectors :: "fat_geom \<Rightarrow> u32 list \<Rightarrow> nat list" where
  "dir_sectors g cs = concat (map (\<lambda>c. map (\<lambda>i. cluster_lba g c + i) (cluster_sectors g)) cs)"

definition dir_entries :: "fat_geom \<Rightarrow> (nat \<Rightarrow> bytes) \<Rightarrow> u32 list \<Rightarrow> dir_entry list" where
  "dir_entries g f cs = concat (map (\<lambda>s. entries_of (f s)) (dir_sectors g cs))"

lemma dir_sectors_simps [simp]:
  "dir_sectors g [] = []"
  "dir_sectors g (c # cs) = map (\<lambda>i. cluster_lba g c + i) (cluster_sectors g) @ dir_sectors g cs"
  "dir_sectors g (cs @ ds) = dir_sectors g cs @ dir_sectors g ds"
  by (simp_all add: dir_sectors_def)

lemma dir_entries_simps [simp]:
  "dir_entries g f [] = []"
  "dir_entries g f (cs @ ds) = dir_entries g f cs @ dir_entries g f ds"
  by (simp_all add: dir_entries_def)

lemma set_dir_sectors: "set (dir_sectors g cs) = Collect (in_clusters g cs)"
proof -
  have "i \<in> set (dir_sectors g cs) \<longleftrightarrow> in_clusters g cs i" for i
  proof (induction cs)
    case (Cons c cs)
    have "i \<in> (\<lambda>i. cluster_lba g c + i) ` {0..<unat (sectors_per_cluster g)} \<longleftrightarrow>
        cluster_lba g c \<le> i \<and> i < cluster_lba g c + unat (sectors_per_cluster g)"
      unfolding image_iff by (auto intro!: bexI [of _ "i - cluster_lba g c"])
    then show ?case using Cons by (auto simp: in_clusters_def)
  qed (simp add: in_clusters_def)
  then show ?thesis by blast
qed

lemma distinct_dir_sectors:
  assumes "geom_ok g blocks" and "\<forall>c \<in> set cs. valid_cluster g c" and "distinct cs"
  shows "distinct (dir_sectors g cs)"
  using assms(2,3)
proof (induction cs)
  case (Cons c cs)
  have "\<not> in_clusters g cs i" if "cluster_lba g c \<le> i" "i < cluster_lba g c + unat (sectors_per_cluster g)" for i
    using that Cons.prems clusters_apart [OF assms(1), of c] unfolding in_clusters_def by auto
  then show ?case using Cons by (auto simp: distinct_map inj_on_def set_dir_sectors)
qed simp

lemma dir_entries_cong:
  "(\<And>i. in_clusters g cs i \<Longrightarrow> f' i = f i) \<Longrightarrow> dir_entries g f' cs = dir_entries g f cs"
  unfolding dir_entries_def by (intro arg_cong [where f = concat] map_cong) (auto simp: set_dir_sectors)

lemma write_one: "length bs = 512 \<Longrightarrow> write_sectors f a 1 bs = f(a := bs)"
  by (auto simp: write_sectors_def)

context block_store
begin

lemma read_sector_ok:
  assumes "fat_ok_here g st" and "valid_cluster g c" and "i < unat (sectors_per_cluster g)"
  shows "\<exists>st'. read_sector g io c i st = (Inr (sector (fdev st) (cluster_lba g c + i)), st') \<and>
    volume_here g st st' (sector (fdev st))"
proof -
  note pos = cluster_position [OF fat_okD(3) [OF assms(1)] unat_lt_u32 assms(2,3)]
  have "cluster_lba g c + i + 1 \<le> unat (dev_blocks io (fdev st))" using pos(2) assms(3) by linarith
  with on_dev_read [OF assms(1), of "partition_start_lba g + cluster_to_sector g c + of_nat i" 1] pos(4)
  show ?thesis by (simp add: read_sector_def)
qed

lemma write_sector_ok:
  assumes "fat_ok_here g st" and "valid_cluster g c" and "i < unat (sectors_per_cluster g)" and "length bs = 512"
  shows "\<exists>st'. write_sector g io c i bs st = (Inr (), st') \<and>
    volume_here g st st' ((sector (fdev st))(cluster_lba g c + i := bs))"
proof -
  note pos = cluster_position [OF fat_okD(3) [OF assms(1)] unat_lt_u32 assms(2,3)]
  have "cluster_lba g c + i + 1 \<le> unat (dev_blocks io (fdev st))" using pos(2) assms(3) by linarith
  moreover have "unat (partition_start_lba g) + unat (data_start_sector g) \<le> cluster_lba g c + i" by (simp add: cluster_lba_def)
  ultimately show ?thesis
    using on_dev_write_data [OF assms(1), of "partition_start_lba g + cluster_to_sector g c + of_nat i" 1 bs] pos(4) assms(4)
      write_one [OF assms(4)] by (simp add: write_sector_def)
qed

lemma find_sectors_ok:
  assumes "fat_ok_here g st" and "valid_cluster g c" and "\<forall>i \<in> set is. i < unat (sectors_per_cluster g)"
  shows "\<exists>st'. find_sectors g io name c is st =
      ((case find_in name (concat (map (\<lambda>i. entries_of (sector (fdev st) (cluster_lba g c + i))) is)) of
         None \<Rightarrow> Inr (Inl ()) | Some (Inl e) \<Rightarrow> Inl e | Some (Inr e) \<Rightarrow> Inr (Inr e)), st') \<and>
    volume_here g st st' (sector (fdev st))"
  using assms(1,3)
proof (induction "is" arbitrary: st)
  case Nil
  then show ?case using volume_refl by (auto simp: op_ok_def)
next
  case (Cons i "is")
  let ?f = "sector (fdev st)"
  from read_sector_ok [OF Cons.prems(1) assms(2), of i] Cons.prems(2) obtain st1 where
    r: "read_sector g io c i st = (Inr (?f (cluster_lba g c + i)), st1)" "volume_here g st st1 ?f" by auto
  have st1: "fat_ok_here g st1" "sector (fdev st1) = ?f" using r(2) by (simp_all add: volume_def)
  show ?case
  proof (cases "find_in name (entries_of (?f (cluster_lba g c + i)))")
    case None
    from Cons.IH [OF st1(1)] Cons.prems(2) st1(2) obtain st2 where
      "find_sectors g io name c is st1 =
        ((case find_in name (concat (map (\<lambda>i. entries_of (?f (cluster_lba g c + i))) is)) of
           None \<Rightarrow> Inr (Inl ()) | Some (Inl e) \<Rightarrow> Inl e | Some (Inr e) \<Rightarrow> Inr (Inr e)), st2)"
      "volume_here g st1 st2 ?f" by auto
    then show ?thesis using r None volume_trans [OF r(2)]
      by (intro exI [of _ st2]) (simp add: op_try_def find_in_append)
  next
    case (Some q)
    then show ?thesis using r by (cases q) (auto simp: op_try_def find_in_append op_fail_def op_ok_def)
  qed
qed

lemma find_entry_ok:
  assumes "fat_ok_here g st" and "chain_of g (sector (fdev st)) start cs"
  shows "\<exists>st'. find_entry g io start name st = (lookup name (dir_entries g (sector (fdev st)) cs), st') \<and>
    volume_here g st st' (sector (fdev st))"
proof -
  let ?f = "sector (fdev st)"
  let ?P = "\<lambda>k (_ :: unit) st'. volume_here g st st' ?f \<and> find_in name (dir_entries g ?f (take k cs)) = None"
  let ?Q = "\<lambda>r st'. volume_here g st st' ?f \<and>
    (case r of Inr (Inl _) \<Rightarrow> find_in name (dir_entries g ?f cs) = None
     | Inr (Inr e) \<Rightarrow> find_in name (dir_entries g ?f cs) = Some (Inr e)
     | Inl e \<Rightarrow> find_in name (dir_entries g ?f cs) = Some (Inl e))"
  note c = chain_ofD [OF fat_okD(3) [OF assms(1)] assms(2)]
  have "\<exists>r st'. chain_each g io (\<lambda>_. True) (\<lambda>_ c. find_sectors g io name c (cluster_sectors g)) (new_chain start) () st = (r, st') \<and> ?Q r st'"
  proof (rule chain_each_rule [OF assms(2), where P = ?P and Q = ?Q])
    show "chain_before ((!) cs) 0 (new_chain start)" using chain_before_start [of "(!) cs"] c(2) by simp
    show "?P 0 () st" using volume_refl [OF assms(1)] by simp
  next
    fix k s st1 assume k: "k < length cs" and P: "?P k s st1"
    have st1: "fat_ok_here g st1" "sector (fdev st1) = ?f" using P by (simp_all add: volume_def)
    let ?here = "concat (map (\<lambda>i. entries_of (?f (cluster_lba g (cs ! k) + i))) (cluster_sectors g))"
    from find_sectors_ok [OF st1(1) c(4) [OF k], of "cluster_sectors g" name] st1(2) obtain st2 where
      r: "find_sectors g io name (cs ! k) (cluster_sectors g) st1 =
        ((case find_in name ?here of None \<Rightarrow> Inr (Inl ()) | Some (Inl e) \<Rightarrow> Inl e | Some (Inr e) \<Rightarrow> Inr (Inr e)), st2)"
      "volume_here g st1 st2 ?f" by auto
    have v2: "volume_here g st st2 ?f" using volume_trans [OF _ r(2)] P by blast
    have here: "dir_entries g ?f [cs ! k] = ?here" by (simp add: dir_entries_def o_def)
    have next_k: "dir_entries g ?f (take (Suc k) cs) = dir_entries g ?f (take k cs) @ ?here"
      using k here by (simp add: take_Suc_conv_app_nth)
    have all: "dir_entries g ?f cs = dir_entries g ?f (take k cs) @ ?here @ dir_entries g ?f (drop (Suc k) cs)"
      using next_k by (metis append.assoc append_take_drop_id dir_entries_simps(2))
    show "case find_sectors g io name (cs ! k) (cluster_sectors g) st1 of (Inr (Inl s'), st') \<Rightarrow> ?P (Suc k) s' st' | (r, st') \<Rightarrow> ?Q r st'"
      using r(1) v2 P unfolding all next_k by (auto simp: find_in_append split: option.splits sum.splits)
  next
    fix s st1 assume "?P (length cs) s st1"
    then show "?Q (Inr (Inl s)) st1" by simp
  qed (auto simp: volume_def)
  then obtain r st' where r: "chain_each g io (\<lambda>_. True) (\<lambda>_ c. find_sectors g io name c (cluster_sectors g)) (new_chain start) () st = (r, st')"
    and Q: "?Q r st'" by blast
  show ?thesis
  proof (cases r)
    case (Inr x)
    then show ?thesis using r Q by (cases x) (simp_all add: find_entry_def op_try_def lookup_def)
  qed (use r Q in \<open>simp add: find_entry_def op_try_def lookup_def\<close>)
qed

text \<open>Searches change nothing on any disk, whatever the table holds.\<close>

lemma read_entry_volume:
  assumes "fat_ok_here g st"
  shows "volume_here g st (snd (read_entry g io c st)) (sector (fdev st))"
proof (cases "valid_cluster g c")
  case True
  then show ?thesis using read_entry_ok [OF assms] by fastforce
next
  case False
  then have "read_entry g io c st = (Inl BadFs, st)" by (simp add: read_entry_def op_ensure_def Let_def)
  then show ?thesis using volume_refl [OF assms] by simp
qed

lemma follow_link_state: "snd (follow_link g io ch st) = snd (read_entry g io (ch_current ch) st)"
  by (auto simp: follow_link_def op_try_def op_ensure_def Let_def split: prod.splits sum.splits)

lemma chain_next_volume:
  assumes "fat_ok_here g st" and "chain_next g io ch st = (r, st')"
  shows "volume_here g st st' (sector (fdev st))" and "r = Inr (c, ch') \<Longrightarrow> c \<noteq> 0 \<Longrightarrow> valid_cluster g c"
proof -
  have "st' = st \<or> st' = snd (follow_link g io ch st)"
    using assms(2) by (auto simp: chain_next_def op_try_def op_ensure_def split: if_splits prod.splits sum.splits option.splits)
  then show "volume_here g st st' (sector (fdev st))"
    using volume_refl [OF assms(1)] read_entry_volume [OF assms(1)] follow_link_state by metis
  assume "r = Inr (c, ch')" "c \<noteq> 0"
  then show "valid_cluster g c"
    using assms(2) by (auto simp: chain_next_def op_try_def op_ensure_def split: if_splits prod.splits sum.splits option.splits)
qed

lemma chain_each_volume:
  assumes "fat_ok_here g st"
    and body: "\<And>s c st. fat_ok_here g st \<Longrightarrow> valid_cluster g c \<Longrightarrow> volume_here g st (snd (body s c st)) (sector (fdev st))"
  shows "volume_here g st (snd (chain_each g io guard body ch s st)) (sector (fdev st))"
  using assms(1)
proof (induction "unat (cluster_count g) - unat (ch_visited ch)" arbitrary: ch s st rule: less_induct)
  case less
  show ?case
  proof (cases "guard s")
    case False
    then show ?thesis using volume_refl [OF less.prems] by (subst chain_each.simps) simp
  next
    case True
    obtain r st1 where n: "chain_next g io ch st = (r, st1)" by fastforce
    note v1 = chain_next_volume [OF less.prems n]
    have st1: "fat_ok_here g st1" "sector (fdev st1) = sector (fdev st)" using v1(1) by (simp_all add: volume_def)
    show ?thesis
    proof (cases "\<exists>c ch1. r = Inr (c, ch1) \<and> c \<noteq> 0")
      case False
      then show ?thesis using True n v1(1) by (subst chain_each.simps) (auto split: sum.splits)
    next
      case T: True
      then obtain c ch1 where c: "r = Inr (c, ch1)" "c \<noteq> 0" by blast
      obtain q st2 where b: "body s c st1 = (q, st2)" by fastforce
      have v2: "volume_here g st st2 (sector (fdev st))"
        using body [OF st1(1) v1(2) [OF c], of s] b st1(2) volume_trans [OF v1(1)] by simp
      show ?thesis
      proof (cases "\<exists>s1. q = Inr (Inl s1)")
        case False
        then show ?thesis using True n c b v2 by (subst chain_each.simps) (auto split: sum.splits)
      next
        case inl: True
        then obtain s1 where q: "q = Inr (Inl s1)" by blast
        have eq: "chain_each g io guard body ch s st = chain_each g io guard body ch1 s1 st2"
          using True n c b q by (subst chain_each.simps) simp
        note vis = chain_next_visited [OF n [unfolded c(1)] c(2)]
        have "unat (ch_visited ch1) = unat (ch_visited ch) + 1"
          using vis unat_plus_one [of "ch_visited ch" "cluster_count g"] by (simp add: word_less_nat_alt)
        then have "unat (cluster_count g) - unat (ch_visited ch1) < unat (cluster_count g) - unat (ch_visited ch)"
          using vis(1) by (simp add: word_less_nat_alt)
        from less.hyps [OF this, of st2 s1] v2 volume_trans [OF v2] show ?thesis
          unfolding eq by (simp add: volume_def)
      qed
    qed
  qed
qed

lemma find_sectors_volume:
  assumes "fat_ok_here g st" and "valid_cluster g c"
  shows "volume_here g st (snd (find_sectors g io name c (cluster_sectors g) st)) (sector (fdev st))"
proof -
  from find_sectors_ok [OF assms, of "cluster_sectors g" name] obtain r st' where
    "find_sectors g io name c (cluster_sectors g) st = (r, st')" "volume_here g st st' (sector (fdev st))" by auto
  then show ?thesis by simp
qed

lemma find_entry_volume:
  assumes "fat_ok_here g st" and "find_entry g io start name st = (r, st')"
  shows "volume_here g st st' (sector (fdev st))"
proof -
  have "snd (find_entry g io start name st) =
      snd (chain_each g io (\<lambda>_. True) (\<lambda>_ c. find_sectors g io name c (cluster_sectors g)) (new_chain start) () st)"
    by (auto simp: find_entry_def op_try_def split: prod.splits sum.splits)
  then show ?thesis
    using chain_each_volume [OF assms(1), of "\<lambda>_ c. find_sectors g io name c (cluster_sectors g)"] find_sectors_volume assms(2)
    by (metis snd_conv)
qed

lemma parent_of_volume:
  assumes "fat_ok_here g st" and "parent_of g io cluster parts st = (r, st')"
  shows "volume_here g st st' (sector (fdev st))"
  using assms
proof (induction parts arbitrary: cluster st)
  case (Cons part parts)
  show ?case
  proof (cases parts)
    case Nil
    then show ?thesis using Cons.prems volume_refl by auto
  next
    case (Cons p ps)
    obtain q st1 where f: "find_entry g io cluster part st = (q, st1)" by fastforce
    note v1 = find_entry_volume [OF Cons.prems(1) f]
    show ?thesis
    proof (cases "\<exists>e. q = Inr e \<and> is_directory e")
      case False
      then have "st' = st1"
        using Cons.prems(2) f Cons by (auto simp: op_try_def op_ensure_def split: sum.splits if_splits)
      then show ?thesis using v1 by simp
    next
      case True
      then obtain e where "parent_of g io (entry_cluster e) parts st1 = (r, st')"
        using Cons.prems(2) f Cons by (auto simp: op_try_def op_ensure_def)
      then show ?thesis using Cons.IH [of st1] v1 volume_trans [OF v1] by (simp add: volume_def)
    qed
  qed
qed (use volume_refl in auto)

lemma resolve_parent_volume:
  assumes "fat_ok_here g st" and "resolve_parent g io path n st = (r, st')"
  shows "volume_here g st st' (sector (fdev st))"
  using assms parent_of_volume [OF assms(1)] volume_refl [OF assms(1)]
  by (auto simp: resolve_parent_def op_try_def op_ensure_def split: if_splits sum.splits prod.splits)

end

section \<open>Adding an entry\<close>

lemma free_slot_Some:
  "free_slot es = Some j \<Longrightarrow> j < length es \<and> (is_end (es ! j) \<or> is_deleted (es ! j)) \<and>
     (\<forall>e \<in> set (take j es). \<not> is_end e \<and> \<not> is_deleted e)"
  by (induction es arbitrary: j) (auto split: if_splits)

lemma free_slot_None: "free_slot es = None \<Longrightarrow> \<forall>e \<in> set es. \<not> is_end e \<and> \<not> is_deleted e"
  by (induction es) (auto split: if_splits)

lemma zero_entry_end [simp]: "is_end zero_entry"
  by (simp add: is_end_def zero_entry_def)

lemma put_entry_split:
  assumes "length es = 16" and "j < 16"
  shows "\<exists>post'. put_entry es j new = take j es @ new # post' \<and> length post' = 15 - j \<and>
    (post' = drop (Suc j) es \<or> is_end (es ! j) \<and> set post' \<subseteq> set (drop (Suc j) es) \<union> {zero_entry})"
proof (cases "is_end (es ! j) \<and> j + 1 < 16")
  case False
  then show ?thesis using assms
    by (intro exI [of _ "drop (Suc j) es"]) (auto simp: put_entry_def Let_def upd_conv_take_nth_drop)
next
  case True
  have "take (Suc j) (es[j := new]) = take j es @ [new]" using assms by (simp add: take_Suc_conv_app_nth)
  moreover have "es[j := new, j + 1 := zero_entry] = take (Suc j) (es[j := new]) @ zero_entry # drop (j + 2) (es[j := new])"
    using assms True by (subst upd_conv_take_nth_drop) auto
  ultimately have "put_entry es j new = take j es @ new # zero_entry # drop (j + 2) es"
    using True by (simp add: put_entry_def Let_def)
  moreover have "set (drop (j + 2) es) \<subseteq> set (drop (Suc j) es)" by (intro set_drop_subset_set_drop) simp
  ultimately show ?thesis using True assms by (intro exI [of _ "zero_entry # drop (j + 2) es"]) auto
qed

definition adds :: "dir_entry list \<Rightarrow> dir_entry list \<Rightarrow> dir_entry \<Rightarrow> bool" where
  "adds es es' new \<longleftrightarrow> tidy es' \<and>
     (lookup (entry_name new) es = Inl NotFound \<longrightarrow> lookup (entry_name new) es' = Inr new) \<and>
     (\<forall>m. m \<noteq> entry_name new \<longrightarrow> lookup m es' = lookup m es)"

lemma adds_slot:
  assumes "dir_sectors g cs = S1 @ s # S2" and "distinct (dir_sectors g cs)" and "length (f s) = 512"
    and "\<forall>t \<in> set S1. free_slot (entries_of (f t)) = None" and "free_slot (entries_of (f s)) = Some j"
    and "wf_entry new" and "is_valid_entry new" and "tidy (dir_entries g f cs)"
  shows "adds (dir_entries g f cs) (dir_entries g (f(s := sector_of (put_entry (entries_of (f s)) j new))) cs) new"
proof -
  let ?es = "entries_of (f s)" and ?f' = "f(s := sector_of (put_entry (entries_of (f s)) j new))"
  let ?A = "concat (map (\<lambda>t. entries_of (f t)) S1)" and ?B = "concat (map (\<lambda>t. entries_of (f t)) S2)"
  note j = free_slot_Some [OF assms(5)]
  from put_entry_split [of ?es j new] j obtain post' where
    p: "put_entry ?es j new = take j ?es @ new # post'" "length post' = 15 - j"
      "post' = drop (Suc j) ?es \<or> is_end (?es ! j) \<and> set post' \<subseteq> set (drop (Suc j) ?es) \<union> {zero_entry}" by auto
  have wf: "\<forall>e \<in> set ?es. wf_entry e" using wf_entries_of [OF assms(3)] by blast
  have sub: "set (take j ?es) \<subseteq> set ?es" "set (drop (Suc j) ?es) \<subseteq> set ?es" by (auto dest: in_set_takeD in_set_dropD)
  have "set post' \<subseteq> set ?es \<union> {zero_entry}" using p(3) sub(2) by blast
  then have "\<forall>e \<in> set (put_entry ?es j new). wf_entry e" using wf sub(1) assms(6) unfolding p(1) by auto
  moreover have "length (put_entry ?es j new) = 16" using p(1,2) j by simp
  ultimately have here: "entries_of (?f' s) = put_entry ?es j new" by (simp add: entries_of_sector_of)
  have "s \<notin> set S1" "s \<notin> set S2" using assms(1,2) by auto
  then have same: "map (\<lambda>t. entries_of (?f' t)) S1 = map (\<lambda>t. entries_of (f t)) S1"
    "map (\<lambda>t. entries_of (?f' t)) S2 = map (\<lambda>t. entries_of (f t)) S2" by auto
  have new: "dir_entries g ?f' cs = (?A @ take j ?es) @ new # (post' @ ?B)"
    unfolding dir_entries_def assms(1) map_append list.map concat_append concat.simps same here
    by (simp add: p(1))
  have "?es = take j ?es @ ?es ! j # drop (Suc j) ?es" using j by (simp add: id_take_nth_drop)
  then have old: "dir_entries g f cs = (?A @ take j ?es) @ ?es ! j # (drop (Suc j) ?es @ ?B)"
    using assms(1) by (simp add: dir_entries_def)
  have pre: "\<forall>e \<in> set (?A @ take j ?es). \<not> is_end e \<and> \<not> is_deleted e"
    using j assms(4) free_slot_None by fastforce
  have "post' @ ?B = drop (Suc j) ?es @ ?B \<or>
      is_end (?es ! j) \<and> (\<forall>e \<in> set (drop (Suc j) ?es @ ?B). is_end e) \<and> (\<forall>e \<in> set (post' @ ?B). is_end e)"
  proof (cases "is_end (?es ! j)")
    case True
    have "tidy (?es ! j # (drop (Suc j) ?es @ ?B))"
      using assms(8) pre unfolding old by (subst (asm) tidy_append) blast+
    from tidy_ends [OF this True] True p(3) show ?thesis by auto
  qed (use p(3) in simp)
  from lookup_insert [OF old new pre _ this assms(8,7)] j show ?thesis by (simp add: adds_def)
qed

lemma adds_extension:
  assumes "\<forall>e \<in> set es. \<not> is_end e \<and> \<not> is_deleted e" and "\<forall>e \<in> set post. is_end e" and "is_valid_entry new"
  shows "adds es (es @ new # post) new"
proof -
  have ne: "\<forall>e \<in> set es. \<not> is_end e" using assms(1) by blast
  have "tidy (es @ zero_entry # [])" using tidy_append [OF ne] ends_tidy [of "[zero_entry]"] by simp
  moreover have "lookup m (es @ zero_entry # []) = lookup m es" for m
    using lookup_append [OF ne, of m "[zero_entry]"] by (simp add: lookup_def split: option.splits)
  ultimately show ?thesis
    using lookup_insert [OF refl refl assms(1), of zero_entry post "[]" new] assms(2,3) by (simp add: adds_def)
qed

end
