(* ===== verification/Fat_Create.thy ===== *)
theory Fat_Create
  imports Fat_Entries
begin

unbundle bit_operations_syntax

text \<open>
  Adding entries to directories over a working block device: \<^verbatim>\<open>add_dir_entry\<close> puts the entry into
  the first free slot or extends the chain by a cleared cluster, and \<^verbatim>\<open>create_file\<close> makes a new file
  visible under its name and changes the lookup of no other name.
\<close>

section \<open>The search for a slot\<close>

lemma length_put_entry [simp]: "length (put_entry es j new) = length es"
  by (simp add: put_entry_def Let_def)

lemma sector_of_put_length:
  assumes "length bs = 512" and "wf_entry new" and "j < 16"
  shows "length (sector_of (put_entry (entries_of bs) j new)) = 512"
proof -
  have "set (put_entry (entries_of bs) j new) \<subseteq> set (entries_of bs) \<union> {new, zero_entry}"
    by (auto simp: put_entry_def Let_def dest!: set_update_subset_insert [THEN subsetD])
  then have "\<forall>e \<in> set (put_entry (entries_of bs) j new). wf_entry e"
    using wf_entries_of [OF assms(1)] assms(2) by auto
  then show ?thesis using length_sector_of by fastforce
qed

text \<open>The outcome of the loop on the directory that occupies the given sectors.\<close>

definition slot_written :: "(nat \<Rightarrow> bytes) \<Rightarrow> (nat \<Rightarrow> bytes) \<Rightarrow> nat list \<Rightarrow> dir_entry \<Rightarrow> bool" where
  "slot_written f f' ss new \<longleftrightarrow>
     (\<exists>S1 s S2 j. ss = S1 @ s # S2 \<and> (\<forall>t \<in> set S1. free_slot (entries_of (f t)) = None) \<and>
        free_slot (entries_of (f s)) = Some j \<and> f' = f(s := sector_of (put_entry (entries_of (f s)) j new)))"

definition no_slot :: "(nat \<Rightarrow> bytes) \<Rightarrow> nat list \<Rightarrow> bool" where
  "no_slot f ss \<longleftrightarrow> (\<forall>t \<in> set ss. free_slot (entries_of (f t)) = None)"

lemma slot_written_cons:
  "free_slot (entries_of (f t)) = None \<Longrightarrow> slot_written f f' ss new \<Longrightarrow> slot_written f f' (t # ss) new"
  unfolding slot_written_def by (metis append_Cons set_ConsD)

lemma slot_written_after: "no_slot f ss \<Longrightarrow> slot_written f f' ts new \<Longrightarrow> slot_written f f' (ss @ ts) new"
  by (induction ss) (simp_all add: no_slot_def slot_written_cons)

lemma slot_written_append: "slot_written f f' ss new \<Longrightarrow> slot_written f f' (ss @ ts) new"
  unfolding slot_written_def by (metis append_Cons append_assoc)

lemma slot_written_outside: "slot_written f f' ss new \<Longrightarrow> i \<notin> set ss \<Longrightarrow> f' i = f i"
  by (auto simp: slot_written_def)

context block_store
begin

lemma add_sectors_ok:
  assumes "fat_ok_here g st" and "valid_cluster g c" and "\<forall>i \<in> set is. i < unat (sectors_per_cluster g)" and "wf_entry new"
  defines "f \<equiv> sector (fdev st)" and "ss \<equiv> map (\<lambda>i. cluster_lba g c + i) is"
  shows "\<exists>r st' f'. add_sectors g io new c is st = (Inr r, st') \<and> volume_here g st st' f' \<and>
    (r = Inr (Slot_written (Inr ())) \<and> slot_written f f' ss new \<or>
     no_slot f ss \<and> f' = f \<and> r = (if FAT32_EOC_MIN \<le> link g f c then Inr (Extend_tail c (link g f c)) else Inl ()))"
  using assms(1,3) unfolding f_def ss_def
proof (induction "is" arbitrary: st)
  case Nil
  from read_entry_ok [OF Nil.prems(1) assms(2)] obtain st' where
    "read_entry g io c st = (Inr (link g (sector (fdev st)) c), st')" "volume_here g st st' (sector (fdev st))"
    by (auto simp: link_def)
  then show ?case by (auto simp: op_try_def no_slot_def)
next
  case (Cons i "is")
  let ?f = "sector (fdev st)" and ?s = "cluster_lba g c + i"
  have i: "i < unat (sectors_per_cluster g)" using Cons.prems(2) by simp
  from read_sector_ok [OF Cons.prems(1) assms(2) i] obtain st1 where
    r: "read_sector g io c i st = (Inr (?f ?s), st1)" "volume_here g st st1 ?f" by auto
  have st1: "fat_ok_here g st1" "sector (fdev st1) = ?f" using r(2) by (simp_all add: volume_def)
  show ?case
  proof (cases "free_slot (entries_of (?f ?s))")
    case None
    from Cons.IH [OF st1(1)] Cons.prems(2) obtain q st2 f' where
      q: "add_sectors g io new c is st1 = (Inr q, st2)" "volume_here g st1 st2 f'"
        "q = Inr (Slot_written (Inr ())) \<and> slot_written ?f f' (map (\<lambda>i. cluster_lba g c + i) is) new \<or>
         no_slot ?f (map (\<lambda>i. cluster_lba g c + i) is) \<and> f' = ?f \<and>
         q = (if FAT32_EOC_MIN \<le> link g ?f c then Inr (Extend_tail c (link g ?f c)) else Inl ())"
      using st1(2) by auto
    have "add_sectors g io new c (i # is) st = (Inr q, st2)" using r(1) None q(1) by (simp add: op_try_def)
    moreover have "volume_here g st st2 f'" using volume_trans [OF r(2) q(2)] .
    ultimately show ?thesis using q(3) slot_written_cons [of ?f ?s f'] None by (auto simp: no_slot_def)
  next
    case (Some j)
    let ?b = "sector_of (put_entry (entries_of (?f ?s)) j new)"
    have "?s < unat (dev_blocks io (fdev st))"
      using cluster_position(2) [OF fat_okD(3) [OF Cons.prems(1)] unat_lt_u32 assms(2) i] i by linarith
    then have "length (?f ?s) = 512" using fat_ok_sectors [OF Cons.prems(1)] by (simp add: sectors_ok_def)
    then have len: "length ?b = 512" using sector_of_put_length assms(4) free_slot_Some [OF Some] by simp
    from write_sector_ok [OF st1(1) assms(2) i len] st1(2) obtain st2 where
      w: "write_sector g io c i ?b st1 = (Inr (), st2)" "volume_here g st1 st2 (?f(?s := ?b))" by auto
    have "add_sectors g io new c (i # is) st = (Inr (Inr (Slot_written (Inr ()))), st2)"
      using r(1) Some w(1) by (simp add: op_try_def op_catch_def)
    moreover have "slot_written ?f (?f(?s := ?b)) (map (\<lambda>i. cluster_lba g c + i) (i # is)) new"
      unfolding slot_written_def using Some by (intro exI [of _ "[]"]) auto
    ultimately show ?thesis using volume_trans [OF r(2) w(2)] by blast
  qed
qed

lemma add_loop_ok:
  assumes "fat_ok_here g st" and "chain_of g (sector (fdev st)) start cs" and "wf_entry new"
  defines "f \<equiv> sector (fdev st)"
  shows "\<exists>r st' f'. chain_each g io (\<lambda>_. True) (\<lambda>_ c. add_sectors g io new c (cluster_sectors g)) (new_chain start) () st =
      (Inr (Inr r), st') \<and> volume_here g st st' f' \<and>
    (r = Slot_written (Inr ()) \<and> slot_written f f' (dir_sectors g cs) new \<or>
     no_slot f (dir_sectors g cs) \<and> f' = f \<and> r = Extend_tail (last cs) (link g f (last cs)))"
proof -
  let ?P = "\<lambda>k (_ :: unit) st'. k < length cs \<and> volume_here g st st' f \<and> no_slot f (dir_sectors g (take k cs))"
  let ?Q = "\<lambda>q st'. \<exists>r f'. q = Inr (Inr r) \<and> volume_here g st st' f' \<and>
    (r = Slot_written (Inr ()) \<and> slot_written f f' (dir_sectors g cs) new \<or>
     no_slot f (dir_sectors g cs) \<and> f' = f \<and> r = Extend_tail (last cs) (link g f (last cs)))"
  note c = chain_ofD [OF fat_okD(3) [OF assms(1)] assms(2)]
  have "\<exists>r st'. chain_each g io (\<lambda>_. True) (\<lambda>_ c. add_sectors g io new c (cluster_sectors g)) (new_chain start) () st = (r, st') \<and> ?Q r st'"
  proof (rule chain_each_rule [OF assms(2), where P = ?P and Q = ?Q])
    show "chain_before ((!) cs) 0 (new_chain start)" using chain_before_start [of "(!) cs"] c(2) by simp
    show "?P 0 () st" using volume_refl [OF assms(1)] c(1) by (simp add: f_def no_slot_def)
  next
    fix k s st1 assume k: "k < length cs" and P: "?P k s st1"
    have st1: "fat_ok_here g st1" "sector (fdev st1) = f" using P by (simp_all add: volume_def)
    let ?ss = "map (\<lambda>i. cluster_lba g (cs ! k) + i) (cluster_sectors g)"
    from add_sectors_ok [OF st1(1) c(4) [OF k] _ assms(3), of "cluster_sectors g"] obtain q st2 f' where
      r: "add_sectors g io new (cs ! k) (cluster_sectors g) st1 = (Inr q, st2)" "volume_here g st1 st2 f'"
        "q = Inr (Slot_written (Inr ())) \<and> slot_written f f' ?ss new \<or>
         no_slot f ?ss \<and> f' = f \<and>
         q = (if FAT32_EOC_MIN \<le> link g f (cs ! k) then Inr (Extend_tail (cs ! k) (link g f (cs ! k))) else Inl ())"
      using st1(2) by auto
    have v2: "volume_here g st st2 f'" using volume_trans [OF _ r(2)] P by blast
    have split: "dir_sectors g (take (Suc k) cs) = dir_sectors g (take k cs) @ ?ss"
      using k by (simp add: take_Suc_conv_app_nth)
    then have all: "dir_sectors g cs = dir_sectors g (take k cs) @ ?ss @ dir_sectors g (drop (Suc k) cs)"
      by (metis append.assoc append_take_drop_id dir_sectors_simps(3))
    have goal: "case q of Inl s' \<Rightarrow> ?P (Suc k) s' st2 | Inr x \<Rightarrow> ?Q (Inr (Inr x)) st2"
    proof (cases "q = Inr (Slot_written (Inr ())) \<and> slot_written f f' ?ss new")
      case True
      then have "slot_written f f' (dir_sectors g cs) new"
        unfolding all using P by (intro slot_written_after slot_written_append) auto
      then show ?thesis using True v2 by auto
    next
      case False
      then have ns: "no_slot f (dir_sectors g (take (Suc k) cs))" "f' = f"
        and q: "q = (if FAT32_EOC_MIN \<le> link g f (cs ! k) then Inr (Extend_tail (cs ! k) (link g f (cs ! k))) else Inl ())"
        using r(3) P split by (auto simp: no_slot_def)
      show ?thesis
      proof (cases "Suc k < length cs")
        case True
        have "link g f (cs ! k) = cs ! Suc k" using c(5) [OF True] by (simp add: f_def)
        then have "\<not> FAT32_EOC_MIN \<le> link g f (cs ! k)"
          using valid_not_eoc [OF fat_okD(3) [OF assms(1)] c(4) [OF True]] by simp
        then show ?thesis using q True v2 ns by simp
      next
        case last: False
        then have kl: "k = length cs - 1" using k by linarith
        then have "cs ! k = last cs" "take (Suc k) cs = cs" using k c(1) by (simp_all add: last_conv_nth)
        then show ?thesis using q v2 ns c(6) kl by (simp add: f_def)
      qed
    qed
    show "case add_sectors g io new (cs ! k) (cluster_sectors g) st1 of (Inr (Inl s'), st') \<Rightarrow> ?P (Suc k) s' st' | (r, st') \<Rightarrow> ?Q r st'"
      using goal r(1) by (simp split: sum.splits)
  qed (auto simp: volume_def f_def)
  then show ?thesis by blast
qed

end

section \<open>The extension of a directory\<close>

lemma valid_mask:
  assumes "geom_ok g blocks" and "valid_cluster g c"
  shows "c AND FAT32_CLUSTER_MASK = c"
proof -
  have "unat c < 2 ^ 28" using valid_cluster_nat [OF assms(1)] assms(2) geom_okD(10) [OF assms(1)] by simp
  then have "unat (take_bit 28 c) = unat c" by (simp add: unsigned_take_bit_eq take_bit_nat_eq_self)
  then have "take_bit 28 c = c" by (simp add: word_unat_eq_iff)
  moreover have "FAT32_CLUSTER_MASK = mask 28" by (simp add: FAT32_CLUSTER_MASK_def mask_eq_exp_minus_1)
  ultimately show ?thesis by (simp add: take_bit_eq_mask)
qed

lemma links_to_extend:
  assumes "links_to L cs" and "distinct cs" and "\<forall>c \<in> set (butlast cs). L' c = L c" and "L' (last cs) = n"
    and "FAT32_EOC_MIN \<le> L' n"
  shows "links_to L' (cs @ [n])"
  using assms by (induction L cs rule: links_to.induct) auto

definition first_written :: "fat_geom \<Rightarrow> (nat \<Rightarrow> bytes) \<Rightarrow> u32 \<Rightarrow> nat list \<Rightarrow> dir_entry \<Rightarrow> nat \<Rightarrow> bytes" where
  "first_written g f n ss new =
     (\<lambda>i. if \<exists>s \<in> set ss. i = cluster_lba g n + s
          then (if i = cluster_lba g n then sector_of (new # replicate 15 zero_entry) else replicate 512 0) else f i)"

lemma first_sector_length: "wf_entry new \<Longrightarrow> length (sector_of (new # replicate 15 zero_entry)) = 512"
  by (subst length_sector_of) auto

lemma zero_sector_ends: "e \<in> set (entries_of (replicate 512 0)) \<Longrightarrow> is_end e"
  by (auto simp: entries_of_def decode_entry_def is_end_def)

lemma first_written_entries:
  assumes "wf_entry new" and "0 < unat (sectors_per_cluster g)"
  shows "\<exists>post. dir_entries g (first_written g f n (cluster_sectors g) new) [n] = new # post \<and> (\<forall>e \<in> set post. is_end e)"
proof -
  let ?f' = "first_written g f n (cluster_sectors g) new" and ?l = "cluster_lba g n"
  obtain m where m: "unat (sectors_per_cluster g) = Suc m" using assms(2) by (cases "unat (sectors_per_cluster g)") auto
  have "?f' ?l = sector_of (new # replicate 15 zero_entry)" using m by (auto simp: first_written_def)
  moreover have "entries_of (sector_of (new # replicate 15 zero_entry)) = new # replicate 15 zero_entry"
    using assms(1) by (intro entries_of_sector_of) auto
  ultimately have first: "entries_of (?f' ?l) = new # replicate 15 zero_entry" by simp
  have rest: "?f' (?l + s) = replicate 512 0" if "s \<in> set [1..<Suc m]" for s
    using that m by (auto simp: first_written_def)
  have "cluster_sectors g = 0 # [1..<Suc m]" using m upt_conv_Cons [of 0 "Suc m"] by (simp del: upt_Suc)
  then have "dir_entries g ?f' [n] = entries_of (?f' ?l) @ concat (map (\<lambda>s. entries_of (?f' (?l + s))) [1..<Suc m])"
    by (simp add: dir_entries_def o_def del: upt_Suc)
  also have "\<dots> = new # (replicate 15 zero_entry @ concat (map (\<lambda>s. entries_of (?f' (?l + s))) [1..<Suc m]))"
    by (simp add: first del: upt_Suc)
  finally have eq: "dir_entries g ?f' [n] =
      new # (replicate 15 zero_entry @ concat (map (\<lambda>s. entries_of (?f' (?l + s))) [1..<Suc m]))" .
  have "map (\<lambda>s. entries_of (?f' (?l + s))) [1..<Suc m] = map (\<lambda>s. entries_of (replicate 512 0)) [1..<Suc m]"
    using rest by (intro map_cong) (simp_all del: upt_Suc)
  then have "\<forall>e \<in> set (concat (map (\<lambda>s. entries_of (?f' (?l + s))) [1..<Suc m])). is_end e"
    using zero_sector_ends by (auto simp del: upt_Suc)
  then show ?thesis unfolding eq by auto
qed

text \<open>The chain with a new tail, and the directory in it.\<close>

lemma extension_visible:
  assumes g: "geom_ok g blocks" and lim: "blocks < 4294967296" and ok: "sectors_ok blocks f2"
    and ch: "chain_of g f start cs" and al: "allocated g f f1 n" and ns: "no_slot f (dir_sectors g cs)"
    and new: "wf_entry new" "is_valid_entry new"
    and f2: "f2 = first_written g f1 n (cluster_sectors g) new" and f3: "f3 = fat_put g f2 (unat (last cs)) n"
  shows "chain_of g f3 start (cs @ [n])" and "adds (dir_entries g f cs) (dir_entries g f3 (cs @ [n])) new"
proof -
  let ?data = "unat (partition_start_lba g) + unat (data_start_sector g)"
  note c = chain_ofD [OF g ch]
  have v: "\<forall>c \<in> set cs. valid_cluster g c" using ch by (simp add: chain_of_def)
  have vn: "valid_cluster g n" using al by (simp add: allocated_def)
  have vl: "valid_cluster g (last cs)" using v c(1) by simp
  have "link g f (cs ! k) \<noteq> 0" if "k < length cs" for k
  proof (cases "Suc k < length cs")
    case True
    then show ?thesis using c(5) [OF True] valid_not_zero [OF c(4) [OF True]] by simp
  next
    case False
    then have "k = length cs - 1" using that by linarith
    then show ?thesis using c(6) by (auto simp: FAT32_EOC_MIN_def)
  qed
  moreover have "link g f n = 0" using al by (simp add: allocated_def)
  ultimately have nin: "n \<notin> set cs" by (metis in_set_conv_nth)
  have low: "f2 i = f1 i" if "i < ?data" for i using that by (auto simp: f2 first_written_def cluster_lba_def)
  have L: "link g f3 c' = (if c' = last cs then n else if c' = n then FAT32_EOC_MAX else link g f c')"
    if "valid_cluster g c'" for c'
    using link_put [OF g lim vl that ok, of n] link_data [OF g lim that, of f2 f1] low valid_mask [OF g vn] al that
    by (simp add: f3 allocated_def)
  have nl: "n \<noteq> last cs" using nin c(1) by auto
  have "links_to (link g f3) (cs @ [n])"
  proof (rule links_to_extend [of "link g f" cs])
    show "links_to (link g f) cs" using ch by (simp add: chain_of_def)
    show "\<forall>c \<in> set (butlast cs). link g f3 c = link g f c"
    proof
      fix d assume d: "d \<in> set (butlast cs)"
      then have "d \<noteq> last cs" using c(1,3) by (metis append_butlast_last_id distinct_append disjoint_insert(1) list.set(2) not_distinct_conv_prefix)
      moreover have "d \<in> set cs" using d by (rule in_set_butlastD)
      ultimately show "link g f3 d = link g f d" using L [of d] v nin by auto
    qed
    show "link g f3 (last cs) = n" using L [OF vl] by simp
    show "FAT32_EOC_MIN \<le> link g f3 n" using L [OF vn] nl by (simp add: FAT32_EOC_MIN_def FAT32_EOC_MAX_def)
  qed (rule c(3))
  then show "chain_of g f3 start (cs @ [n])" using c(1) ch vn by (auto simp: chain_of_def)
  have data: "f3 i = f2 i" if "?data \<le> i" for i using fat_put_outside [OF g lim vl, of i f2 n] that by (simp add: f3)
  have "dir_entries g f3 cs = dir_entries g f cs"
  proof (rule dir_entries_cong)
    fix i assume i: "in_clusters g cs i"
    then have d: "?data \<le> i" by (auto simp: in_clusters_def cluster_lba_def)
    have out: "\<not> (cluster_lba g n \<le> i \<and> i < cluster_lba g n + unat (sectors_per_cluster g))"
      using i v nin clusters_apart [OF g _ vn] unfolding in_clusters_def by metis
    then have "f2 i = f1 i" by (auto simp: f2 first_written_def)
    moreover have "f1 i = f i" using al d out by (simp add: allocated_def)
    ultimately show "f3 i = f i" using data [OF d] by simp
  qed
  moreover have "dir_entries g f3 [n] = dir_entries g f2 [n]"
    by (rule dir_entries_cong) (auto simp: in_clusters_def cluster_lba_def intro!: data)
  moreover obtain post where "dir_entries g f2 [n] = new # post" "\<forall>e \<in> set post. is_end e"
    using first_written_entries [OF new(1) geom_okD(2) [OF g]] unfolding f2 by blast
  moreover have "\<forall>e \<in> set (dir_entries g f cs). \<not> is_end e \<and> \<not> is_deleted e"
    using ns free_slot_None by (fastforce simp: no_slot_def dir_entries_def)
  ultimately show "adds (dir_entries g f cs) (dir_entries g f3 (cs @ [n])) new"
    using adds_extension [OF _ _ new(2)] by simp
qed

context block_store
begin

lemma init_sectors_ok:
  assumes "fat_ok_here g st" and "valid_cluster g n" and "\<forall>s \<in> set ss. s < unat (sectors_per_cluster g)" and "wf_entry new"
  shows "\<exists>st'. init_sectors g io new n ss st = Some (Inr (), st') \<and> volume_here g st st' (first_written g (sector (fdev st)) n ss new)"
  using assms(1,3)
proof (induction ss arbitrary: st)
  case Nil
  then show ?case using volume_refl by (auto simp: first_written_def)
next
  case (Cons s ss)
  let ?f = "sector (fdev st)"
  define b where "b = (if s = 0 then sector_of (new # replicate 15 zero_entry) else replicate 512 0)"
  have s: "s < unat (sectors_per_cluster g)" "length b = 512"
    using Cons.prems(2) first_sector_length [OF assms(4)] by (simp_all add: b_def)
  from write_sector_ok [OF Cons.prems(1) assms(2) s] obtain st1 where
    w: "write_sector g io n s b st = (Inr (), st1)" "volume_here g st st1 (?f(cluster_lba g n + s := b))" by blast
  have st1: "fat_ok_here g st1" "sector (fdev st1) = ?f(cluster_lba g n + s := b)" using w(2) by (simp_all add: volume_def)
  from Cons.IH [OF st1(1)] Cons.prems(2) obtain st2 where
    i: "init_sectors g io new n ss st1 = Some (Inr (), st2)"
      "volume_here g st1 st2 (first_written g (sector (fdev st1)) n ss new)" by auto
  have "first_written g (sector (fdev st1)) n ss new = first_written g ?f n (s # ss) new"
    by (auto simp: first_written_def st1(2) b_def fun_eq_iff)
  then show ?case using i volume_trans [OF w(2)] w(1)
    by (intro exI [of _ st2]) (auto simp: x_catch_def b_def)
qed

lemma extend_dir_ok:
  assumes "fat_ok_here g st" and "chain_of g (sector (fdev st)) start cs" and "wf_entry new" and "is_valid_entry new"
    and "no_slot (sector (fdev st)) (dir_sectors g cs)"
  defines "f \<equiv> sector (fdev st)"
  shows "\<exists>r st'. extend_dir g io new (last cs) v st = Some (Inr (False, r), st') \<and> fat_ok_here g st' \<and>
    dev_blocks io (fdev st') = dev_blocks io (fdev st) \<and>
    (case r of
       Inl e \<Rightarrow> e = Full \<and> sector (fdev st') = f \<and> (\<forall>c. valid_cluster g c \<longrightarrow> link g f c \<noteq> 0)
     | Inr _ \<Rightarrow> \<exists>n. chain_of g (sector (fdev st')) start (cs @ [n]) \<and>
         adds (dir_entries g f cs) (dir_entries g (sector (fdev st')) (cs @ [n])) new)"
proof -
  note g = fat_okD(3) [OF assms(1)]
  note c = chain_ofD [OF g assms(2)]
  from alloc_cluster_ok [OF assms(1)] obtain r st1 where
    al: "alloc_cluster g io st = Some (r, st1)" "fat_ok_here g st1" "dev_blocks io (fdev st1) = dev_blocks io (fdev st)"
      "case r of Inl e \<Rightarrow> e = Full \<and> (\<forall>c. valid_cluster g c \<longrightarrow> link g f c \<noteq> 0) \<and> sector (fdev st1) = f
       | Inr c \<Rightarrow> allocated g f (sector (fdev st1)) c" unfolding f_def by blast
  show ?thesis
  proof (cases r)
    case (Inl e)
    then show ?thesis using al by (auto simp: extend_dir_def x_catch_def x_try_def)
  next
    case (Inr n)
    let ?f1 = "sector (fdev st1)"
    have a: "allocated g f ?f1 n" using al(4) Inr by simp
    then have vn: "valid_cluster g n" by (simp add: allocated_def)
    from init_sectors_ok [OF al(2) vn _ assms(3), of "cluster_sectors g"] obtain st2 where
      i: "init_sectors g io new n (cluster_sectors g) st1 = Some (Inr (), st2)"
        "volume_here g st1 st2 (first_written g ?f1 n (cluster_sectors g) new)" by auto
    let ?f2 = "first_written g ?f1 n (cluster_sectors g) new"
    have st2: "fat_ok_here g st2" "sector (fdev st2) = ?f2" "dev_blocks io (fdev st2) = dev_blocks io (fdev st)"
      using i(2) al(3) by (simp_all add: volume_def)
    have vl: "valid_cluster g (last cs)" using c(1) c(4) [of "length cs - 1"] by (simp add: last_conv_nth)
    from write_entry_ok [OF st2(1) vl, of n] st2(2) obtain st3 where
      w: "write_entry g io (last cs) n st2 = (Inr (), st3)" "volume_here g st2 st3 (fat_put g ?f2 (unat (last cs)) n)" by auto
    let ?f3 = "fat_put g ?f2 (unat (last cs)) n"
    have st3: "fat_ok_here g st3" "sector (fdev st3) = ?f3" "dev_blocks io (fdev st3) = dev_blocks io (fdev st)"
      using w(2) st2(3) by (simp_all add: volume_def)
    have run: "extend_dir g io new (last cs) v st = Some (Inr (False, Inr ()), st3)"
      using al(1) Inr i(1) w(1) by (simp add: extend_dir_def x_catch_def x_try_def)
    have ex: "chain_of g ?f3 start (cs @ [n]) \<and> adds (dir_entries g f cs) (dir_entries g ?f3 (cs @ [n])) new"
      using extension_visible [OF g unat_lt_u32 _ assms(2) a [unfolded f_def] assms(5,3,4) refl refl]
        fat_ok_sectors [OF st2(1)] st2(2,3) by (simp add: f_def)
    show ?thesis using run st3 ex by (intro exI [of _ "Inr ()"]) auto
  qed
qed

lemma add_dir_entry_ok:
  assumes "fat_ok_here g st" and "chain_of g (sector (fdev st)) start cs" and "wf_entry new" and "is_valid_entry new"
    and "tidy (dir_entries g (sector (fdev st)) cs)"
  shows "\<exists>b r st'. add_dir_entry g io start new st = Some (Inr (b, r), st') \<and> fat_ok_here g st' \<and>
    dev_blocks io (fdev st') = dev_blocks io (fdev st) \<and>
    (case r of
       Inl e \<Rightarrow> e = Full \<and> \<not> b \<and> sector (fdev st') = sector (fdev st) \<and>
         (\<forall>c. valid_cluster g c \<longrightarrow> link g (sector (fdev st)) c \<noteq> 0)
     | Inr _ \<Rightarrow> \<exists>cs'. chain_of g (sector (fdev st')) start cs' \<and>
         adds (dir_entries g (sector (fdev st)) cs) (dir_entries g (sector (fdev st')) cs') new)"
proof -
  let ?f = "sector (fdev st)"
  note g = fat_okD(3) [OF assms(1)]
  have v: "\<forall>c \<in> set cs. valid_cluster g c" using assms(2) by (simp add: chain_of_def)
  from add_loop_ok [OF assms(1-3)] obtain r st1 f' where
    l: "chain_each g io (\<lambda>_. True) (\<lambda>_ c. add_sectors g io new c (cluster_sectors g)) (new_chain start) () st = (Inr (Inr r), st1)"
      "volume_here g st st1 f'"
      "r = Slot_written (Inr ()) \<and> slot_written ?f f' (dir_sectors g cs) new \<or>
       no_slot ?f (dir_sectors g cs) \<and> f' = ?f \<and> r = Extend_tail (last cs) (link g ?f (last cs))" by blast
  have st1: "fat_ok_here g st1" "sector (fdev st1) = f'" "dev_blocks io (fdev st1) = dev_blocks io (fdev st)"
    using l(2) by (simp_all add: volume_def)
  show ?thesis
  proof (cases "r = Slot_written (Inr ()) \<and> slot_written ?f f' (dir_sectors g cs) new")
    case True
    then obtain S1 s S2 j where sw: "dir_sectors g cs = S1 @ s # S2" "\<forall>t \<in> set S1. free_slot (entries_of (?f t)) = None"
      "free_slot (entries_of (?f s)) = Some j" "f' = ?f(s := sector_of (put_entry (entries_of (?f s)) j new))"
      by (auto simp: slot_written_def)
    have "in_clusters g cs s" using sw(1) set_dir_sectors [of g cs] by auto
    then obtain c where c: "valid_cluster g c" "s < cluster_lba g c + unat (sectors_per_cluster g)" "cluster_lba g c \<le> s"
      using v by (auto simp: in_clusters_def)
    have "s < unat (dev_blocks io (fdev st))"
      using c(2) cluster_position(2) [OF g unat_lt_u32 c(1) geom_okD(2) [OF g]] by linarith
    then have len: "length (?f s) = 512" using fat_ok_sectors [OF assms(1)] by (simp add: sectors_ok_def)
    have dist: "distinct (dir_sectors g cs)"
      using distinct_dir_sectors [OF g v] chain_ofD(3) [OF g assms(2)] by blast
    have "chain_of g f' start cs"
    proof -
      have "link g f' d = link g ?f d" if "valid_cluster g d" for d
        using c(3) by (intro link_data [OF g unat_lt_u32 that]) (auto simp: sw(4) cluster_lba_def)
      then have "links_to (link g f') cs = links_to (link g ?f) cs" using v
        by (induction "link g ?f" cs rule: links_to.induct) auto
      then show ?thesis using assms(2) by (simp add: chain_of_def)
    qed
    moreover have "adds (dir_entries g ?f cs) (dir_entries g f' cs) new"
      unfolding sw(4) by (rule adds_slot [OF sw(1) dist len sw(2,3) assms(3-5)])
    moreover have "add_dir_entry g io start new st = Some (Inr (True, Inr ()), st1)"
      using l(1) True by (simp add: add_dir_entry_def x_catch_def)
    ultimately show ?thesis using st1 by (intro exI [of _ True] exI [of _ "Inr ()"] exI [of _ st1]) auto
  next
    case False
    then have e: "no_slot ?f (dir_sectors g cs)" "f' = ?f" "r = Extend_tail (last cs) (link g ?f (last cs))" using l(3) by auto
    have "add_dir_entry g io start new st = extend_dir g io new (last cs) (link g ?f (last cs)) st1"
      using l(1) e(3) by (simp add: add_dir_entry_def x_catch_def)
    moreover have sf: "sector (fdev st1) = ?f" using st1(2) e(2) by simp
    moreover from extend_dir_ok [OF st1(1) _ assms(3,4), of start cs "link g ?f (last cs)", unfolded sf] assms(2) e(1) st1(3)
    obtain q st2 where "extend_dir g io new (last cs) (link g ?f (last cs)) st1 = Some (Inr (False, q), st2)" "fat_ok_here g st2"
      "dev_blocks io (fdev st2) = dev_blocks io (fdev st)"
      "case q of Inl e \<Rightarrow> e = Full \<and> sector (fdev st2) = ?f \<and> (\<forall>c. valid_cluster g c \<longrightarrow> link g ?f c \<noteq> 0)
       | Inr _ \<Rightarrow> \<exists>n. chain_of g (sector (fdev st2)) start (cs @ [n]) \<and>
           adds (dir_entries g ?f cs) (dir_entries g (sector (fdev st2)) (cs @ [n])) new" by auto
    ultimately show ?thesis by (intro exI [of _ False] exI [of _ q] exI [of _ st2]) (auto split: sum.splits)
  qed
qed

end

section \<open>Creating a file\<close>

lemma to_upper_E5 [simp]: "to_upper c = 0xE5 \<longleftrightarrow> c = 0xE5"
proof (cases "0x61 \<le> c \<and> c \<le> 0x7A")
  case True
  then have "unat (c - 32) < 0xE5" using unat_sub [of 32 c] by (auto simp: word_le_nat_alt)
  then have "c - 32 \<noteq> 0xE5" by auto
  moreover have "c \<noteq> 0xE5" using True by auto
  ultimately show ?thesis using True by (simp add: to_upper_def)
qed (auto simp: to_upper_def)

lemma part_chars_upper: "part_chars len p = Some (part, rest) \<Longrightarrow> map to_upper part = part"
  by (induction len p arbitrary: part rest rule: part_chars.induct) (auto split: if_splits option.splits)

lemma split_path_upper:
  "split_path parts path = Inr ps \<Longrightarrow> \<forall>p \<in> set parts. map to_upper p = p \<Longrightarrow> \<forall>p \<in> set ps. map to_upper p = p"
proof (induction parts path arbitrary: ps rule: split_path.induct)
  case (1 parts path)
  show ?case
  proof (cases "path = []")
    case True
    then show ?thesis using 1(4,5) by (simp add: split_path.simps)
  next
    case False
    then obtain part rest where n: "next_part path = Some (part, rest)"
      using 1(4) by (auto simp: split_path.simps [of parts path] split: option.splits)
    then have u: "map to_upper part = part" by (auto simp: next_part_def part_chars_upper split: option.splits)
    have bl: "\<forall>p \<in> set (if parts \<noteq> [] then butlast parts else parts). map to_upper p = p"
      using 1(5) by (auto dest: in_set_butlastD)
    consider "part = str ''.''" | "part \<noteq> str ''.''" "part = str ''..''" | "part \<noteq> str ''.''" "part \<noteq> str ''..''" by blast
    then show ?thesis
    proof cases
      case 1
      then show ?thesis using "1.IH"(1) [OF False n refl] "1.prems" n False by (simp add: split_path.simps [of parts path])
    next
      case 2
      then show ?thesis using "1.IH"(2) [OF False n refl] "1.prems" n False bl by (simp add: split_path.simps [of parts path])
    next
      case 3
      then obtain parts' where p': "try_push_back MAX_DEPTH parts part = Some parts'" "split_path parts' rest = Inr ps"
        using "1.prems"(1) n False by (auto simp: split_path.simps [of parts path] split: option.splits)
      then have "\<forall>p \<in> set parts'. map to_upper p = p" using "1.prems"(2) u by (auto simp: try_push_back_def split: if_splits)
      then show ?thesis using "1.IH"(3) [OF False n refl 3 p'(1)] p'(2) by blast
    qed
  qed
qed

lemma resolve_parent_upper:
  assumes "resolve_parent g io path n st = (Inr (parent, child), st')"
  shows "map to_upper child = child"
proof -
  from assms obtain parts where p: "path_parts path = Inr parts" "child = strncpy_cut n (last parts)"
    by (auto simp: resolve_parent_def op_ensure_def op_try_def split: if_splits sum.splits prod.splits)
  then have ne: "parts \<noteq> []" and sp: "split_path [] (str_skip_char path ch_slash) = Inr parts"
    by (auto simp: path_parts_def Let_def ensure_def try_bind_def split: if_splits sum.splits)
  have "map to_upper (last parts) = last parts" using split_path_upper [OF sp] ne by simp
  then show ?thesis unfolding p(2) strncpy_cut_def by (metis take_map)
qed

lemma length_copy_base: "copy_base n p = (out, rest) \<Longrightarrow> length out \<le> n"
  by (induction n p arbitrary: out rest rule: copy_base.induct) (auto split: if_splits prod.splits)

lemma make_83_name_lengths: "make_83_name name = (n, x) \<Longrightarrow> length n = 8 \<and> length x = 3"
  using length_copy_base [of 8 name] by (auto simp: make_83_name_def pad_def Let_def split: prod.splits)

lemma named_entry_ok:
  assumes "fits_83 child" and "hd child \<noteq> 0xE5"
  shows "wf_entry (named_entry child FAT_ATTR_ARCHIVE)" and "is_valid_entry (named_entry child FAT_ATTR_ARCHIVE)"
    and "entry_name (named_entry child FAT_ATTR_ARCHIVE) = map to_upper child"
proof -
  obtain n x where m: "make_83_name child = (n, x)" by fastforce
  let ?e = "named_entry child FAT_ATTR_ARCHIVE"
  have e: "de_name ?e = n" "de_ext ?e = x" "de_attr ?e = FAT_ATTR_ARCHIVE" using m by (simp_all add: named_entry_def)
  show "wf_entry ?e" using make_83_name_lengths [OF m] e by (simp add: wf_entry_def)
  show "entry_name ?e = map to_upper child" by (rule entry_name_make_83 [OF assms(1)]) (simp add: m e)
  from assms(1) obtain base ext where b: "base \<noteq> []" "length base \<le> 8" "length ext \<le> 3"
    "\<forall>c \<in> set base \<union> set ext. plain_char c" and child: "child = base @ (if ext = [] then [] else ch_dot # ext)"
    unfolding fits_83_def by blast
  have "n = pad 8 (map to_upper base)" using make_83_name_plain [OF b] m child by simp
  then have n0: "n ! 0 = to_upper (hd child)" using b(1) child by (cases base) (simp_all add: pad_def)
  have "hd child \<noteq> 0" using b(1,4) child by (cases base) (auto simp: plain_char_def)
  then show "is_valid_entry ?e"
    using n0 e assms(2)
    by (simp add: is_valid_entry_def is_end_def is_deleted_def FAT_ATTR_ARCHIVE_def FAT_ATTR_VOLUME_ID_def FAT_ATTR_LFN_def)
qed

context block_store
begin

text \<open>Creating a file adds its entry, whatever name the entry is found under.\<close>

lemma create_file_adds:
  assumes "fat_ok_here g st" and "resolve_parent g io path MAX_PART_LEN st = (Inr (parent, child), st0)"
    and "chain_of g (sector (fdev st)) parent cs" and "tidy (dir_entries g (sector (fdev st)) cs)"
    and new: "new = named_entry child FAT_ATTR_ARCHIVE" "wf_entry new" "is_valid_entry new"
  shows "\<exists>r st'. create_file g io path st = Some (r, st') \<and> fat_ok_here g st' \<and>
    (case r of
       Inl e \<Rightarrow> sector (fdev st') = sector (fdev st) \<and>
         (e = Full \<and> (\<forall>c. valid_cluster g c \<longrightarrow> link g (sector (fdev st)) c \<noteq> 0) \<or> e = Exists \<and> (\<exists>x. fst (find_entry g io parent child st) = Inr x))
     | Inr _ \<Rightarrow> fst (find_entry g io parent child st) = Inl NotFound \<and>
         (fst (find_entry g io parent (entry_name new) st) = Inl NotFound \<longrightarrow>
            fst (find_entry g io parent (entry_name new) st') = Inr new) \<and>
         (\<forall>m. m \<noteq> entry_name new \<longrightarrow> fst (find_entry g io parent m st') = fst (find_entry g io parent m st)))"
proof -
  let ?f = "sector (fdev st)"
  have find0: "fst (find_entry g io parent m st) = lookup m (dir_entries g ?f cs)" for m
    using find_entry_ok [OF assms(1,3), of m] by auto
  have st0: "fat_ok_here g st0" "sector (fdev st0) = ?f"
    using resolve_parent_volume [OF assms(1,2)] by (simp_all add: volume_def)
  from find_entry_ok [OF st0(1), of parent cs child] assms(3) st0(2) obtain st1 where
    f: "find_entry g io parent child st0 = (lookup child (dir_entries g ?f cs), st1)" "volume_here g st0 st1 ?f" by auto
  have st1: "fat_ok_here g st1" "sector (fdev st1) = ?f" using f(2) by (simp_all add: volume_def)
  show ?thesis
  proof (cases "lookup child (dir_entries g ?f cs)")
    case (Inr x)
    then have "create_file g io path st = Some (Inl Exists, st1)"
      using assms(2) f(1) by (simp add: create_file_def x_try_def x_catch_def vacant_def op_catch_def)
    then show ?thesis using st1 find0 Inr by auto
  next
    case (Inl e)
    then have nf: "e = NotFound" by (rule lookup_error)
    have vac: "vacant g io parent child st0 = (Inr (), st1)" using f(1) Inl nf by (simp add: vacant_def op_catch_def)
    from add_dir_entry_ok [OF st1(1) _ new(2,3), of parent cs, unfolded st1(2)] assms(3,4) obtain b r st2 where
      a: "add_dir_entry g io parent new st1 = Some (Inr (b, r), st2)" "fat_ok_here g st2"
        "case r of Inl e \<Rightarrow> e = Full \<and> \<not> b \<and> sector (fdev st2) = ?f \<and> (\<forall>c. valid_cluster g c \<longrightarrow> link g ?f c \<noteq> 0)
         | Inr _ \<Rightarrow> \<exists>cs'. chain_of g (sector (fdev st2)) parent cs' \<and>
             adds (dir_entries g ?f cs) (dir_entries g (sector (fdev st2)) cs') new" by blast
    have run: "create_file g io path st = Some (case r of Inl e \<Rightarrow> Inl e | Inr _ \<Rightarrow> Inr (), st2)"
      using assms(2) vac a(1) new(1) by (simp add: create_file_def x_try_def x_catch_def split: sum.splits)
    show ?thesis
    proof (cases r)
      case (Inl e)
      then show ?thesis using run a(2,3) by simp
    next
      case (Inr u)
      then obtain cs' where cs': "chain_of g (sector (fdev st2)) parent cs'"
        "adds (dir_entries g ?f cs) (dir_entries g (sector (fdev st2)) cs') new" using a(3) by auto
      have "fst (find_entry g io parent m st2) = lookup m (dir_entries g (sector (fdev st2)) cs')" for m
        using find_entry_ok [OF a(2) cs'(1), of m] by auto
      then show ?thesis using run a(2) Inr cs'(2) find0 Inl nf by (simp add: adds_def)
    qed
  qed
qed

lemma create_file_ok:
  assumes "fat_ok_here g st" and "resolve_parent g io path MAX_PART_LEN st = (Inr (parent, child), st0)"
    and "chain_of g (sector (fdev st)) parent cs" and "fits_83 child" and "hd child \<noteq> 0xE5"
    and "tidy (dir_entries g (sector (fdev st)) cs)"
  shows "\<exists>r st'. create_file g io path st = Some (r, st') \<and> fat_ok_here g st' \<and>
    (case r of
       Inl e \<Rightarrow> sector (fdev st') = sector (fdev st) \<and>
         (e = Full \<and> (\<forall>c. valid_cluster g c \<longrightarrow> link g (sector (fdev st)) c \<noteq> 0) \<or> e = Exists \<and> (\<exists>x. fst (find_entry g io parent child st) = Inr x))
     | Inr _ \<Rightarrow> fst (find_entry g io parent child st') = Inr (named_entry child FAT_ATTR_ARCHIVE) \<and>
         (\<forall>m. m \<noteq> child \<longrightarrow> fst (find_entry g io parent m st') = fst (find_entry g io parent m st)))"
proof -
  note nm = named_entry_ok [OF assms(4,5)]
  have name: "entry_name (named_entry child FAT_ATTR_ARCHIVE) = child"
    using nm(3) resolve_parent_upper [OF assms(2)] by simp
  from create_file_adds [OF assms(1-3,6) refl nm(1,2)] obtain r st' where
    c: "create_file g io path st = Some (r, st')" "fat_ok_here g st'"
      "case r of
         Inl e \<Rightarrow> sector (fdev st') = sector (fdev st) \<and>
           (e = Full \<and> (\<forall>c. valid_cluster g c \<longrightarrow> link g (sector (fdev st)) c \<noteq> 0) \<or> e = Exists \<and> (\<exists>x. fst (find_entry g io parent child st) = Inr x))
       | Inr _ \<Rightarrow> fst (find_entry g io parent child st) = Inl NotFound \<and>
           (fst (find_entry g io parent child st) = Inl NotFound \<longrightarrow>
              fst (find_entry g io parent child st') = Inr (named_entry child FAT_ATTR_ARCHIVE)) \<and>
           (\<forall>m. m \<noteq> child \<longrightarrow> fst (find_entry g io parent m st') = fst (find_entry g io parent m st))"
    unfolding name by blast
  then show ?thesis by (cases r) auto
qed

end

end
