(* ===== verification/Fat_Properties.thy ===== *)
theory Fat_Properties
  imports Fat_Create
begin

unbundle bit_operations_syntax

text \<open>
  The properties of the FAT file system, stated for every block device that keeps the contract
  \<open>block_store\<close>, each applied to a small volume in memory: six sectors with one table of four
  clusters, the root directory in cluster 2 and a file in the clusters 3 and 4.
\<close>

section \<open>A small volume\<close>

definition demo_boot :: bytes where
  "demo_boot = replicate 11 0 @ le_bytes 2 (512 :: u16) @ [1] @ le_bytes 2 (1 :: u16) @ [1] @ replicate 15 0 @
     le_bytes 4 (6 :: u32) @ le_bytes 4 (1 :: u32) @ replicate 4 0 @ le_bytes 4 (2 :: u32) @ replicate 18 0 @
     [0x29] @ replicate 443 0 @ le_bytes 2 (0xAA55 :: u16)"

definition demo_clusters :: "u32 list" where
  "demo_clusters = [0, 0, FAT32_EOC_MAX, 4, FAT32_EOC_MAX, 0]"

definition demo_image :: "u32 list \<Rightarrow> nat \<Rightarrow> bytes" where
  "demo_image ls i =
     (if i = 0 then demo_boot
      else if i = 1 then concat (map (le_bytes 4) ls) @ replicate (512 - 4 * length ls) 0
      else if i = 3 then replicate 512 0x61 else if i = 4 then replicate 512 0x62
      else replicate 512 0)"

definition demo_geom :: fat_geom where
  "demo_geom = \<lparr>partition_start_lba = 0, fat_type = 32, bytes_per_sector = 512, sectors_per_cluster = 1,
     bytes_per_cluster = 512, reserved_sector_count = 1, fat_count = 1, fat_start_sector = 1,
     fat_sector_count = 1, root_cluster = 2, data_start_sector = 2, cluster_count = 4, total_sector_count = 6\<rparr>"

definition demo_device :: "u32 list \<Rightarrow> disk_image fat_state" where
  "demo_device ls = \<lparr>fdev = \<lparr>img = demo_image ls, img_blocks = 6\<rparr>, dev_set = True, buffer = replicate 512 0,
     buffer_sector = FAT_INVALID_SECTOR, buffer_dirty = False\<rparr>"

definition demo_state :: "disk_image fat_state" where
  "demo_state = (demo_device demo_clusters)\<lparr>dev_set := False\<rparr>"

definition demo_mounted :: "disk_image fat_state" where
  "demo_mounted = demo_device demo_clusters"

lemma length_demo: "length ls = 6 \<Longrightarrow> length (demo_image ls i) = 512"
  using length_concat_const [of ls "le_bytes 4" 4] by (simp add: demo_image_def demo_boot_def)

lemma demo_geom_ok: "geom_ok demo_geom 6"
  by (simp add: geom_ok_def demo_geom_def)

lemma demo_device_ok: "length ls = 6 \<Longrightarrow> fat_ok image_ops img image_ready demo_geom (demo_device ls)"
  using demo_geom_ok length_demo by (simp add: fat_ok_def demo_device_def image_ready_def image_ops_def)

lemma demo_ok: "fat_ok image_ops img image_ready demo_geom demo_mounted"
  unfolding demo_mounted_def by (rule demo_device_ok) (simp add: demo_clusters_def)

lemma demo_ready: "image_ready (fdev demo_state)"
  using fat_okD(1) [OF demo_ok] by (simp add: demo_state_def demo_mounted_def)

lemma demo_fdev [simp]: "img (fdev (demo_device ls)) = demo_image ls" "dev_blocks image_ops (fdev (demo_device ls)) = 6"
  by (simp_all add: demo_device_def image_ops_def)

lemma le32_list: "k < length vs \<Longrightarrow> le32 (concat (map (le_bytes 4) vs) @ r) (4 * k) = vs ! k"
proof (induction vs arbitrary: k)
  case (Cons v vs)
  then show ?case by (cases k) (simp_all add: le32_def le_word_bytes)
qed simp

lemma demo_valid: "valid_cluster demo_geom c \<longleftrightarrow> unat c \<in> {2, 3, 4, 5}"
  using valid_cluster_nat [OF demo_geom_ok, of c] by (auto simp: demo_geom_def)

lemma demo_link:
  assumes "unat c < 6" and "length ls = 6"
  shows "link demo_geom (demo_image ls) c = ls ! unat c AND FAT32_CLUSTER_MASK"
proof -
  have "4 * unat c mod 512 = 4 * unat c" "4 * unat c div 512 = 0" using assms by simp_all
  then show ?thesis
    using le32_list [of "unat c" ls] assms
    by (simp add: link_def fat_val_def fat_lba_def demo_geom_def demo_image_def)
qed

lemmas demo_consts = demo_clusters_def FAT32_EOC_MAX_def FAT32_EOC_MIN_def FAT32_CLUSTER_MASK_def

lemma demo_link_values:
  "link demo_geom (demo_image demo_clusters) 2 = FAT32_EOC_MAX" "link demo_geom (demo_image demo_clusters) 3 = 4"
  "link demo_geom (demo_image demo_clusters) 4 = FAT32_EOC_MAX" "link demo_geom (demo_image demo_clusters) 5 = 0"
  by (simp_all add: demo_link demo_consts)

lemma demo_root: "chain_of demo_geom (img (fdev demo_mounted)) 2 [2]"
  by (simp add: demo_mounted_def chain_of_def demo_link_values demo_valid FAT32_EOC_MAX_def FAT32_EOC_MIN_def)

lemma demo_file: "chain_of demo_geom (img (fdev demo_mounted)) 3 [3, 4]"
  by (simp add: demo_mounted_def chain_of_def demo_link_values demo_valid FAT32_EOC_MAX_def FAT32_EOC_MIN_def)

section \<open>Mounting\<close>

context block_store
begin

lemma holds_refl: "ready d \<Longrightarrow> holds io sector ready d d (sector d)"
  by (simp add: holds_def)

lemma holds_trans: "holds io sector ready d d1 (sector d) \<Longrightarrow> holds io sector ready d1 d2 (sector d1) \<Longrightarrow> holds io sector ready d d2 (sector d)"
  by (simp add: holds_def)

lemma find_esp_holds: "ready d \<Longrightarrow> holds io sector ready d (snd (find_esp_from io h i d)) (sector d)"
proof (induction "unat (num_partition_entries h) - i" arbitrary: i d rule: less_induct)
  case less
  obtain err bs d1 where r: "dev_read io d (entry_lba h i) 1 = (err, bs, d1)" by (metis prod_cases3)
  note h1 = read_any [OF less.prems r]
  obtain x j where s: "scan_gpt (unat (num_partition_entries h)) (gpt_entries bs) i = (x, j)" by fastforce
  show ?case
  proof (cases "i < unat (num_partition_entries h) \<and> err = Err_None \<and> x = None")
    case False
    then show ?thesis using r s h1 holds_refl [OF less.prems]
      by (subst find_esp_from.simps) (auto split: option.splits)
  next
    case True
    then have "i < j" using scan_gpt_advance [of "unat (num_partition_entries h)" "gpt_entries bs" i j] s
      by (simp add: gpt_entries_def)
    then have "unat (num_partition_entries h) - j < unat (num_partition_entries h) - i" using True by linarith
    from less.hyps [OF this, of d1] h1 have "holds io sector ready d1 (snd (find_esp_from io h j d1)) (sector d1)"
      by (simp add: holds_def)
    then show ?thesis using True r s holds_trans [OF h1] by (subst find_esp_from.simps) simp
  qed
qed

lemma read_block_holds: "ready d \<Longrightarrow> holds io sector ready d (snd (read_block io lba d)) (sector d)"
  using read_any by (auto simp: read_block_def split: prod.splits)

lemma find_partition_start_holds:
  assumes "ready d"
  shows "holds io sector ready d (snd (find_partition_start io d)) (sector d)"
proof -
  obtain r0 d0 where 0: "read_block io 0 d = (r0, d0)" by fastforce
  obtain r1 d1 where 1: "read_block io 1 d0 = (r1, d1)" by fastforce
  have h0: "holds io sector ready d d0 (sector d)" using read_block_holds [OF assms, of 0] 0 by simp
  then have "ready d0" by (simp add: holds_def)
  then have h1: "holds io sector ready d d1 (sector d)"
    using holds_trans [OF h0] read_block_holds [of d0 1] 1 by simp
  then have "ready d1" by (simp add: holds_def)
  then have h2: "holds io sector ready d (snd (find_esp_lba io h d1)) (sector d)" for h
    using holds_trans [OF h1] find_esp_holds [of d1 h 0] by (simp add: find_esp_lba_def)
  obtain x d2 where 2: "find_esp_lba io (decode_gpt_header (case r1 of Inl _ \<Rightarrow> [] | Inr b \<Rightarrow> b)) d1 = (x, d2)" by fastforce
  have "snd (find_partition_start io d) \<in> {d0, d1, d2}"
    using 0 1 2 by (auto simp: find_partition_start_def op_try_def op_ensure_def Let_def split: sum.splits)
  then show ?thesis using h0 h1 h2 2 by (metis insertE singletonD snd_conv)
qed

lemma fat_mount_ok:
  assumes "ready (fdev st)" and "length (buffer st) = 512" and "\<not> buffer_dirty st"
    and "fat_mount io present st = (r, st')"
  shows "sector (fdev st') = sector (fdev st) \<and> (case r of Inl e \<Rightarrow> True | Inr g \<Rightarrow> fat_ok_here g st')"
proof (cases present)
  case False
  then show ?thesis using assms(4) by (auto simp: fat_mount_def op_ensure_def)
next
  case True
  obtain q d1 where p: "find_partition_start io (fdev st) = (q, d1)" by fastforce
  have h1: "holds io sector ready (fdev st) d1 (sector (fdev st))"
    using find_partition_start_holds [OF assms(1)] p by simp
  show ?thesis
  proof (cases q)
    case (Inl e)
    then show ?thesis using assms(4) p h1 True by (auto simp: fat_mount_def op_ensure_def op_try_def on_dev_def holds_def)
  next
    case (Inr lba)
    obtain err bs d2 where b: "dev_read io d1 lba 1 = (err, bs, d2)" by (metis prod_cases3)
    have "holds io sector ready d1 d2 (sector d1)" using read_any [OF _ b] h1 by (simp add: holds_def)
    then have h2: "holds io sector ready (fdev st) d2 (sector (fdev st))" by (rule holds_trans [OF h1])
    have mount: "fat_mount io present st =
      (if err = Err_None then
         (case check_boot_sector lba (dev_blocks io d2) (decode_boot_sector bs) of
            Inl e \<Rightarrow> (Inl e, st\<lparr>fdev := d2\<rparr>)
          | Inr _ \<Rightarrow> (Inr (do_init_state lba (decode_boot_sector bs)), st\<lparr>fdev := d2, dev_set := True, buffer_sector := FAT_INVALID_SECTOR\<rparr>))
       else (Inl err, st\<lparr>fdev := d2\<rparr>))"
      using p Inr b True by (simp add: fat_mount_def op_ensure_def op_try_def on_dev_def read_blocks_def Let_def)
    show ?thesis
      using assms(2,3,4) h2 check_boot_sector_sane [of lba "dev_blocks io d2" "decode_boot_sector bs"] unfolding mount
      by (auto simp: holds_def fat_ok_def split: if_splits sum.splits)
  qed
qed

end

lemma demo_boot_decode:
  "le16 demo_boot 11 = 512" "demo_boot ! 13 = 1" "le16 demo_boot 14 = 1" "demo_boot ! 16 = 1" "le16 demo_boot 17 = 0"
  "le16 demo_boot 22 = 0" "le32 demo_boot 32 = 6" "le32 demo_boot 36 = 1" "le16 demo_boot 40 = 0" "le16 demo_boot 42 = 0"
  "le32 demo_boot 44 = 2" "demo_boot ! 66 = 0x29" "le16 demo_boot 510 = 0xAA55" "drop 446 demo_boot ! 4 = 0"
  by (simp_all add: demo_boot_def le16_def le32_def le_word_bytes le_word_replicate_0 nth_append)

lemma demo_mount: "fat_mount image_ops True demo_state = (Inr demo_geom, demo_mounted)"
proof -
  let ?d = "fdev demo_state" and ?bs = "decode_boot_sector demo_boot"
  have rd: "dev_read image_ops ?d 0 1 = (Err_None, demo_boot, ?d)"
    by (simp add: image_ops_def image_read_def demo_state_def demo_device_def demo_image_def)
  have "find_partition_start image_ops ?d = (Inr 0, ?d)"
    using rd demo_boot_decode(13,14)
    by (simp add: find_partition_start_def op_try_def read_block_def op_ensure_def Let_def decode_mbr_def mbr_is_valid_def
        MBR_SIGNATURE_def part_is_gpt_def part_is_fat32_def decode_partition_def GPT_PROTECTIVE_MBR_TYPE_def
        PART_TYPE_FAT32_def PART_TYPE_FAT32_LBA_def)
  moreover have "check_boot_sector 0 6 ?bs = Inr ()"
    by (simp add: check_boot_sector_def boot_clusters_def decode_boot_sector_def demo_boot_decode ensure_def Let_def
        bs_is_fat32_def bs_is_valid_def BOOT_SIGNATURE_def BPB_BOOT_SIGNATURE_def BLOCK_SIZE_BYTES_def FAT32_RESERVED_MIN_def)
  moreover have "do_init_state 0 ?bs = demo_geom"
    by (simp add: do_init_state_def decode_boot_sector_def demo_boot_decode demo_geom_def Let_def)
  ultimately show ?thesis
    using rd by (simp add: fat_mount_def op_try_def on_dev_def read_blocks_def demo_mounted_def Let_def)
      (simp add: demo_state_def demo_device_def image_ops_def)
qed

text \<open>C30.
  A successful mount establishes the invariant of the volume: the geometry passed every check, so
  that all table and data sectors computed from it lie inside the partition and the device, and the
  cache is clean and agrees with the disk. Mounting does not change the disk.\<close>

theorem fat_mount_invariant:
  assumes "block_store io sector ready" and "ready (fdev st)" and "length (buffer st) = 512" and "\<not> buffer_dirty st"
    and "fat_mount io present st = (Inr g, st')"
  shows "fat_ok io sector ready g st' \<and> sector (fdev st') = sector (fdev st) \<and>
    (\<forall>c s. valid_cluster g c \<and> s < unat (sectors_per_cluster g) \<longrightarrow>
       unat (partition_start_lba g + cluster_to_sector g c + of_nat s) < unat (dev_blocks io (fdev st')))"
proof -
  have ok: "fat_ok io sector ready g st' \<and> sector (fdev st') = sector (fdev st)"
    using block_store.fat_mount_ok [OF assms] by simp
  have "unat (partition_start_lba g + cluster_to_sector g c + of_nat s) < unat (dev_blocks io (fdev st'))"
    if "valid_cluster g c" "s < unat (sectors_per_cluster g)" for c s
    using cluster_position(2,4) [OF fat_okD(3) unat_lt_u32 that, of io sector ready st'] ok that(2) by simp
  with ok show ?thesis by blast
qed

theorem fat_mount_invariant_witness:
  "fat_mount image_ops True demo_state = (Inr demo_geom, demo_mounted) \<and>
   fat_ok image_ops img image_ready demo_geom demo_mounted"
  using fat_mount_invariant [OF image.block_store_axioms _ _ _ demo_mount] demo_ready demo_mount by (simp add: demo_state_def demo_device_def)

section \<open>The table\<close>

text \<open>C14.
  The allocation table behind its cache is a map from clusters to links: after a link is written,
  reading a link gives the new value (without its four reserved bits) for that cluster and the old
  one for every other cluster; all copies of the table are updated, and nothing outside the table
  changes.\<close>

theorem fat_table_refines_map:
  assumes "block_store io sector ready" and "fat_ok io sector ready g st" and "valid_cluster g c" and "valid_cluster g c'"
  shows "\<exists>st1 st2. write_entry g io c v st = (Inr (), st1) \<and>
    read_entry g io c' st1 = (Inr (if c' = c then v AND FAT32_CLUSTER_MASK else link g (sector (fdev st)) c'), st2) \<and>
    fat_ok io sector ready g st1 \<and> fat_ok io sector ready g st2 \<and> sector (fdev st2) = sector (fdev st1) \<and>
    (\<forall>k < unat (fat_count g). sector (fdev st1) (fat_lba g (unat c) + k * unat (fat_sector_count g)) =
       sector (fdev st1) (fat_lba g (unat c))) \<and>
    (\<forall>i. i < unat (partition_start_lba g) + unat (fat_start_sector g) \<or>
         unat (partition_start_lba g) + unat (data_start_sector g) \<le> i \<longrightarrow> sector (fdev st1) i = sector (fdev st) i)"
proof -
  let ?f = "sector (fdev st)"
  note g = fat_okD(3) [OF assms(2)]
  from block_store.write_entry_ok [OF assms(1-3), of v] obtain st1 where
    w: "write_entry g io c v st = (Inr (), st1)" "volume io sector ready g st st1 (fat_put g ?f (unat c) v)" by blast
  have st1: "fat_ok io sector ready g st1" "sector (fdev st1) = fat_put g ?f (unat c) v"
    using w(2) by (simp_all add: volume_def)
  from block_store.read_entry_ok [OF assms(1) st1(1) assms(4)] st1(2) obtain st2 where
    r: "read_entry g io c' st1 = (Inr (link g (fat_put g ?f (unat c) v) c'), st2)"
      "volume io sector ready g st1 st2 (fat_put g ?f (unat c) v)" by (auto simp: link_def)
  have "link g (fat_put g ?f (unat c) v) c' = (if c' = c then v AND FAT32_CLUSTER_MASK else link g ?f c')"
    by (rule link_put [OF g unat_lt_u32 assms(3,4) block_store.fat_ok_sectors [OF assms(1,2)]])
  moreover have "sector (fdev st1) (fat_lba g (unat c) + k * unat (fat_sector_count g)) = sector (fdev st1) (fat_lba g (unat c))"
    if "k < unat (fat_count g)" for k
  proof -
    have "\<exists>j < unat (fat_count g). fat_lba g (unat c) = fat_lba g (unat c) + j * unat (fat_sector_count g)"
      using geom_okD(5) [OF g] by (intro exI [of _ 0]) simp
    then show ?thesis using that unfolding st1(2) fat_put_def on_copies_def Let_def by auto
  qed
  moreover have "sector (fdev st1) i = ?f i"
    if "i < unat (partition_start_lba g) + unat (fat_start_sector g) \<or> unat (partition_start_lba g) + unat (data_start_sector g) \<le> i" for i
    unfolding st1(2) by (rule fat_put_outside [OF g unat_lt_u32 assms(3) that])
  moreover have "fat_ok io sector ready g st2" "sector (fdev st2) = sector (fdev st1)"
    using r(2) st1(2) by (simp_all add: volume_def)
  ultimately show ?thesis using w(1) r(1) st1(1) by (intro exI [of _ st1] exI [of _ st2]) simp
qed

theorem fat_table_refines_map_witness:
  "\<exists>st1 st2. write_entry demo_geom image_ops 5 FAT32_EOC_MAX demo_mounted = (Inr (), st1) \<and>
     read_entry demo_geom image_ops 3 st1 = (Inr 4, st2)"
  using fat_table_refines_map [OF image.block_store_axioms demo_ok, of 5 3 FAT32_EOC_MAX]
  by (auto simp: demo_mounted_def demo_valid demo_link_values)

section \<open>Chains\<close>

text \<open>C18.
  Walking a chain to its end always ends. The walk returns exactly the clusters of the chain when
  the links from the start form a list of valid clusters that ends with an end marker, and reports
  a damaged file system in every other case (cycles, links to free, bad or invalid clusters). It
  does not change the disk.\<close>

theorem walk_chain_exact:
  assumes "block_store io sector ready" and "fat_ok io sector ready g st"
  shows "\<exists>r st'. walk_chain g io start st = (r, st') \<and> fat_ok io sector ready g st' \<and> sector (fdev st') = sector (fdev st) \<and>
    (case r of
       Inr cs \<Rightarrow> chain_of g (sector (fdev st)) start cs \<and> distinct cs \<and> (\<forall>ds. chain_of g (sector (fdev st)) start ds \<longrightarrow> ds = cs)
     | Inl e \<Rightarrow> e = BadFs \<and> (\<nexists>cs. chain_of g (sector (fdev st)) start cs))"
proof -
  let ?f = "sector (fdev st)"
  note g = fat_okD(3) [OF assms(2)]
  from block_store.walk_chain_sound [OF assms, of start] obtain r st' where
    w: "walk_chain g io start st = (r, st')" "volume io sector ready g st st' ?f"
      "r = Inl BadFs \<or> (\<exists>cs. r = Inr cs \<and> chain_of g ?f start cs)" by blast
  have "\<nexists>cs. chain_of g ?f start cs" if "r = Inl BadFs"
    using block_store.walk_chain_proper [OF assms] w(1) that by fastforce
  then show ?thesis
    using w chain_of_unique [OF g] chain_ofD(3) [OF g] by (auto simp: volume_def)
qed

theorem walk_chain_exact_witness:
  "(\<exists>st'. walk_chain demo_geom image_ops 3 demo_mounted = (Inr [3, 4], st')) \<and>
   (\<exists>st'. walk_chain demo_geom image_ops 5 demo_mounted = (Inl BadFs, st'))"
proof -
  have "\<nexists>cs. chain_of demo_geom (img (fdev demo_mounted)) 5 cs"
  proof
    assume "\<exists>cs. chain_of demo_geom (img (fdev demo_mounted)) 5 cs"
    then obtain cs where cs: "chain_of demo_geom (img (fdev demo_mounted)) 5 cs" by blast
    note c = chain_ofD [OF demo_geom_ok cs]
    have "link demo_geom (img (fdev demo_mounted)) 5 = 0" by (simp add: demo_mounted_def demo_link_values)
    then show False using c(1,2) c(4) [of 1] c(5) [of 0] c(6)
      by (cases "length cs = 1") (auto simp: demo_valid FAT32_EOC_MIN_def neq_Nil_conv)
  qed
  then show ?thesis
    using walk_chain_exact [OF image.block_store_axioms demo_ok, of 3] demo_file
      walk_chain_exact [OF image.block_store_axioms demo_ok, of 5] by (fastforce split: sum.splits)
qed

text \<open>C37.
  Brent's method detects a cycle in the table early: a walk that enters a cycle of length \<open>lam\<close>
  after \<open>mu\<close> clusters reports a damaged file system before it has handed out more than
  \<open>2 * max (mu + 1) lam + lam\<close> clusters, whatever the size of the volume.\<close>

theorem cycle_detected_early:
  assumes "block_store io sector ready" and "fat_ok io sector ready g st" and "\<And>i. valid_cluster g (c i)"
    and "\<And>i. link g (sector (fdev st)) (c i) = c (Suc i)"
    and "\<And>i. mu \<le> i \<Longrightarrow> c (i + lam) = c i" and "0 < lam"
  shows "\<exists>st'. count_chain g io (2 * max (mu + 1) lam + lam) (c 0) st = (Inl BadFs, st')"
  by (rule block_store.count_cycle [OF assms])

definition demo_cycle :: "u32 list" where
  "demo_cycle = [0, 0, FAT32_EOC_MAX, 4, 3, 0]"

theorem cycle_detected_early_witness:
  "\<exists>st'. count_chain demo_geom image_ops 6 3 (demo_device demo_cycle) = (Inl BadFs, st')"
proof -
  let ?c = "\<lambda>i :: nat. if even i then 3 else (4 :: u32)"
  have "link demo_geom (demo_image demo_cycle) 3 = 4" "link demo_geom (demo_image demo_cycle) 4 = 3"
    by (simp_all add: demo_link demo_cycle_def FAT32_CLUSTER_MASK_def)
  then show ?thesis
    using cycle_detected_early [OF image.block_store_axioms demo_device_ok, of demo_cycle ?c 0 2]
    by (simp add: demo_valid demo_cycle_def)
qed

section \<open>Releasing and allocating clusters\<close>

text \<open>C19.
  Freeing a chain ends on every table. On a proper chain it clears the links of exactly its
  clusters and leaves the data area alone; on a damaged chain it reports an error and changes
  nothing, so that a cycle is never hidden by clearing part of it.\<close>

theorem free_chain_exact:
  assumes "block_store io sector ready" and "fat_ok io sector ready g st"
  shows "\<exists>r st'. free_chain g io start st = Some (r, st') \<and> fat_ok io sector ready g st' \<and>
    (case r of
       Inr _ \<Rightarrow> \<exists>cs. chain_of g (sector (fdev st)) start cs \<and>
         (\<forall>c. valid_cluster g c \<longrightarrow> link g (sector (fdev st')) c = (if c \<in> set cs then FAT32_FREE else link g (sector (fdev st)) c)) \<and>
         (\<forall>i \<ge> unat (partition_start_lba g) + unat (data_start_sector g). sector (fdev st') i = sector (fdev st) i)
     | Inl e \<Rightarrow> e = BadFs \<and> (\<nexists>cs. chain_of g (sector (fdev st)) start cs) \<and> sector (fdev st') = sector (fdev st))"
proof (cases "\<exists>cs. chain_of g (sector (fdev st)) start cs")
  case False
  then show ?thesis using block_store.free_chain_bad [OF assms] by (fastforce simp: volume_def)
next
  case True
  then obtain cs where cs: "chain_of g (sector (fdev st)) start cs" by blast
  then have v: "\<forall>c \<in> set cs. valid_cluster g c" by (simp add: chain_of_def)
  note g = fat_okD(3) [OF assms(2)]
  from block_store.free_chain_ok [OF assms cs] obtain st' where
    f: "free_chain g io start st = Some (Inr (), st')" "volume io sector ready g st st' (clear_links g (sector (fdev st)) cs)" by blast
  have "link g (sector (fdev st')) c = (if c \<in> set cs then FAT32_FREE else link g (sector (fdev st)) c)" if "valid_cluster g c" for c
    using f(2) link_clear [OF g unat_lt_u32 block_store.fat_ok_sectors [OF assms] v that] by (simp add: volume_def FAT32_FREE_def)
  moreover have "sector (fdev st') i = sector (fdev st) i" if "unat (partition_start_lba g) + unat (data_start_sector g) \<le> i" for i
    using f(2) clear_outside [OF g unat_lt_u32 v, of i] that by (simp add: volume_def)
  ultimately show ?thesis using f cs by (intro exI [of _ "Inr ()"] exI [of _ st']) (auto simp: volume_def)
qed

theorem free_chain_exact_witness:
  "\<exists>st'. free_chain demo_geom image_ops 3 demo_mounted = Some (Inr (), st') \<and> link demo_geom (img (fdev st')) 4 = FAT32_FREE"
proof -
  from free_chain_exact [OF image.block_store_axioms demo_ok, of 3] demo_file obtain st' cs where
    "free_chain demo_geom image_ops 3 demo_mounted = Some (Inr (), st')" and cs: "chain_of demo_geom (img (fdev demo_mounted)) 3 cs"
    and l: "valid_cluster demo_geom 4 \<longrightarrow> link demo_geom (img (fdev st')) 4 = (if 4 \<in> set cs then FAT32_FREE else link demo_geom (img (fdev demo_mounted)) 4)"
    by (fastforce split: sum.splits)
  moreover have "cs = [3, 4]" by (rule chain_of_unique [OF demo_geom_ok cs demo_file])
  ultimately show ?thesis by (auto simp: demo_valid)
qed

text \<open>Allocation takes the free cluster with the smallest number, makes it a chain of its own with
  zeroed sectors and changes nothing else; it reports a full volume exactly when no cluster is
  free, and then changes nothing.\<close>

theorem alloc_cluster_first_free:
  assumes "block_store io sector ready" and "fat_ok io sector ready g st"
  shows "\<exists>r st'. alloc_cluster g io st = Some (r, st') \<and> fat_ok io sector ready g st' \<and>
    (case r of
       Inl e \<Rightarrow> e = Full \<and> (\<forall>c. valid_cluster g c \<longrightarrow> link g (sector (fdev st)) c \<noteq> 0) \<and> sector (fdev st') = sector (fdev st)
     | Inr c \<Rightarrow> allocated g (sector (fdev st)) (sector (fdev st')) c)"
  using block_store.alloc_cluster_ok [OF assms] by blast

theorem alloc_cluster_first_free_witness:
  "\<exists>st'. alloc_cluster demo_geom image_ops demo_mounted = Some (Inr 5, st') \<and>
     link demo_geom (img (fdev st')) 5 = FAT32_EOC_MAX \<and> link demo_geom (img (fdev st')) 3 = 4"
proof -
  from alloc_cluster_first_free [OF image.block_store_axioms demo_ok] obtain r st' where
    a: "alloc_cluster demo_geom image_ops demo_mounted = Some (r, st')"
      "case r of Inl e \<Rightarrow> e = Full \<and> (\<forall>c. valid_cluster demo_geom c \<longrightarrow> link demo_geom (img (fdev demo_mounted)) c \<noteq> 0) \<and>
           img (fdev st') = img (fdev demo_mounted)
       | Inr c \<Rightarrow> allocated demo_geom (img (fdev demo_mounted)) (img (fdev st')) c" by blast
  have l: "link demo_geom (img (fdev demo_mounted)) c = 0 \<longleftrightarrow> c = 5" if "valid_cluster demo_geom c" for c
  proof -
    have "c \<in> {2, 3, 4, 5}" using that by (auto simp: demo_valid word_unat_eq_iff)
    then show ?thesis by (auto simp: demo_mounted_def demo_link_values FAT32_EOC_MAX_def)
  qed
  have v: "valid_cluster demo_geom 5" "valid_cluster demo_geom 3" by (simp_all add: demo_valid)
  then obtain c where c: "r = Inr c" "allocated demo_geom (img (fdev demo_mounted)) (img (fdev st')) c"
    using a(2) l by (auto split: sum.splits)
  have "valid_cluster demo_geom c \<and> link demo_geom (img (fdev demo_mounted)) c = 0"
    using c(2) unfolding allocated_def by blast
  then have "c = 5" using l by blast
  then show ?thesis using a(1) c v by (simp add: allocated_def demo_mounted_def demo_link_values)
qed

section \<open>Files\<close>

context block_store
begin

lemma write_then_read_file:
  assumes "fat_ok_here g st" and "chain_of g (sector (fdev st)) (entry_cluster e) cs"
    and "\<not> is_directory e" and "offset \<le> file_size e" and "n = min len (file_size e - offset)" and "file_fits g cs offset n"
    and "unat n \<le> length data" and "unat n \<le> length buf"
  shows "\<exists>st1 st2. write_file g io True e data offset len st = (Inr (sint n, data), st1) \<and>
    read_file g io True e buf offset len st1 = (Inr (sint n, splice buf 0 (take (unat n) data)), st2) \<and>
    fat_ok_here g st2 \<and> contents g (sector (fdev st2)) cs = splice (contents g (sector (fdev st)) cs) (unat offset) (take (unat n) data) \<and>
    (\<forall>i. \<not> in_clusters g cs i \<longrightarrow> sector (fdev st2) i = sector (fdev st) i)"
proof -
  let ?f = "sector (fdev st)"
  note g = fat_okD(3) [OF assms(1)]
  have v: "\<forall>c \<in> set cs. valid_cluster g c" using assms(2) by (simp add: chain_of_def)
  from write_file_ok [OF assms(1-5,7,6)] obtain st1 where
    w: "write_file g io True e data offset len st = (Inr (sint n, data), st1)" "fat_ok_here g st1"
      "contents g (sector (fdev st1)) cs = splice (contents g ?f cs) (unat offset) (take (unat n) data)"
      "\<forall>i. \<not> in_clusters g cs i \<longrightarrow> sector (fdev st1) i = ?f i" by blast
  have "link g (sector (fdev st1)) c = link g ?f c" if "valid_cluster g c" for c
  proof (rule link_data [OF g unat_lt_u32 that])
    fix i assume "i < unat (partition_start_lba g) + unat (data_start_sector g)"
    then have "\<not> in_clusters g cs i" by (auto simp: in_clusters_def cluster_lba_def)
    then show "sector (fdev st1) i = ?f i" using w(4) by blast
  qed
  then have "links_to (link g (sector (fdev st1))) cs = links_to (link g ?f) cs" using v
    by (induction "link g ?f" cs rule: links_to.induct) auto
  then have ch: "chain_of g (sector (fdev st1)) (entry_cluster e) cs" using assms(2) by (simp add: chain_of_def)
  from read_file_ok [OF w(2) ch assms(3-5,8)] assms(6) obtain st2 where
    r: "read_file g io True e buf offset len st1 =
      (Inr (sint n, splice buf 0 (take (unat n) (drop (unat offset) (contents g (sector (fdev st1)) cs)))), st2)"
      "volume_here g st1 st2 (sector (fdev st1))" by auto
  have "take (unat n) (drop (unat offset) (contents g (sector (fdev st1)) cs)) = take (unat n) data"
  proof (cases "n = 0")
    case False
    then have "unat offset + unat n \<le> length (contents g ?f cs)"
      using assms(6) length_contents [OF assms(1) v] by (simp add: file_fits_def)
    then show ?thesis using splice_same [of "unat offset" "take (unat n) data" "contents g ?f cs"] assms(7) w(3) by simp
  qed simp
  then show ?thesis using w r by (intro exI [of _ st1] exI [of _ st2]) (simp add: volume_def)
qed

end

text \<open>C4.
  Reading back what was written: writing into a file whose chain is long enough replaces exactly
  the addressed slice of the contents (cut at the end of the file), a read of the same slice
  returns the written bytes, both report the number of bytes, and no sector outside the clusters
  of the file changes.\<close>

theorem file_write_read:
  assumes "block_store io sector ready" and "fat_ok io sector ready g st" and "chain_of g (sector (fdev st)) (entry_cluster e) cs"
    and "\<not> is_directory e" and "offset \<le> file_size e" and "n = min len (file_size e - offset)" and "file_fits g cs offset n"
    and "unat n \<le> length data" and "unat n \<le> length buf"
  shows "\<exists>st1 st2. write_file g io True e data offset len st = (Inr (sint n, data), st1) \<and>
    read_file g io True e buf offset len st1 = (Inr (sint n, splice buf 0 (take (unat n) data)), st2) \<and>
    fat_ok io sector ready g st2 \<and>
    contents g (sector (fdev st2)) cs = splice (contents g (sector (fdev st)) cs) (unat offset) (take (unat n) data) \<and>
    (\<forall>i. \<not> in_clusters g cs i \<longrightarrow> sector (fdev st2) i = sector (fdev st) i)"
  by (rule block_store.write_then_read_file [OF assms])

definition demo_entry :: dir_entry where
  "demo_entry = zero_entry\<lparr>de_attr := FAT_ATTR_ARCHIVE, first_cluster_low := 3, file_size := 1000\<rparr>"

theorem file_write_read_witness:
  "\<exists>st1 st2. write_file demo_geom image_ops True demo_entry (replicate 20 7) 500 20 demo_mounted = (Inr (20, replicate 20 7), st1) \<and>
     read_file demo_geom image_ops True demo_entry (replicate 20 0) 500 20 st1 = (Inr (20, replicate 20 7), st2)"
proof -
  have "entry_cluster demo_entry = 3" "\<not> is_directory demo_entry" "file_size demo_entry = 1000"
    by (simp_all add: demo_entry_def entry_cluster_def zero_entry_def is_directory_def FAT_ATTR_ARCHIVE_def FAT_ATTR_DIRECTORY_def)
  then show ?thesis
    using file_write_read [OF image.block_store_axioms demo_ok, of demo_entry "[3, 4]" 500 20 20 "replicate 20 7" "replicate 20 0"] demo_file
    by (auto simp: file_fits_def demo_geom_def splice_def)
qed

text \<open>C17.
  Creating a file whose name fits the 8.3 format, in a directory with a proper chain and nothing
  but end markers behind its end marker: the operation ends; on success the name is found as an
  empty regular file and the lookup of every other name in the directory is what it was; it fails
  only when the name is taken or the volume is full, and then the disk is unchanged.\<close>

theorem create_file_visible:
  assumes "block_store io sector ready" and "fat_ok io sector ready g st"
    and "resolve_parent g io path MAX_PART_LEN st = (Inr (parent, child), st0)"
    and "chain_of g (sector (fdev st)) parent cs" and "fits_83 child" and "hd child \<noteq> 0xE5"
    and "tidy (dir_entries g (sector (fdev st)) cs)"
  shows "\<exists>r st'. create_file g io path st = Some (r, st') \<and> fat_ok io sector ready g st' \<and>
    (case r of
       Inl e \<Rightarrow> sector (fdev st') = sector (fdev st) \<and>
         (e = Full \<and> (\<forall>c. valid_cluster g c \<longrightarrow> link g (sector (fdev st)) c \<noteq> 0) \<or> e = Exists \<and> (\<exists>x. fst (find_entry g io parent child st) = Inr x))
     | Inr _ \<Rightarrow> fst (find_entry g io parent child st') = Inr (named_entry child FAT_ATTR_ARCHIVE) \<and>
         (\<forall>m. m \<noteq> child \<longrightarrow> fst (find_entry g io parent m st') = fst (find_entry g io parent m st)))"
  by (rule block_store.create_file_ok [OF assms])

lemma demo_dir_tidy: "tidy (dir_entries demo_geom (img (fdev demo_mounted)) [2])"
proof (rule ends_tidy)
  have "dir_entries demo_geom (img (fdev demo_mounted)) [2] = entries_of (replicate 512 0)"
    by (simp add: dir_entries_def demo_geom_def cluster_lba_def demo_mounted_def demo_image_def)
  then show "\<forall>e \<in> set (dir_entries demo_geom (img (fdev demo_mounted)) [2]). is_end e" using zero_sector_ends by simp
qed

lemma demo_path: "path_parts (str ''new.txt'') = Inr [str ''NEW.TXT'']"
  by code_simp

lemma demo_resolve:
  "resolve_parent demo_geom image_ops (str ''new.txt'') MAX_PART_LEN demo_mounted = (Inr (2, str ''NEW.TXT''), demo_mounted)"
  by (simp add: resolve_parent_def demo_path op_try_def strncpy_cut_def MAX_PART_LEN_def) (simp add: str_def demo_geom_def)

lemma demo_fits: "fits_83 (str ''NEW.TXT'')"
  unfolding fits_83_def
  by (rule exI [of _ "str ''NEW''"], rule exI [of _ "str ''TXT''"]) (simp add: str_def plain_char_def)

theorem create_file_visible_witness:
  "\<exists>st'. create_file demo_geom image_ops (str ''new.txt'') demo_mounted = Some (Inr (), st') \<and>
     fst (find_entry demo_geom image_ops 2 (str ''NEW.TXT'') st') = Inr (named_entry (str ''NEW.TXT'') FAT_ATTR_ARCHIVE)"
proof -
  let ?n = "str ''NEW.TXT''" and ?f = "img (fdev demo_mounted)"
  have hd: "hd ?n \<noteq> 0xE5" by (simp add: str_def)
  have free: "valid_cluster demo_geom 5" "link demo_geom ?f 5 = 0" by (simp_all add: demo_valid demo_mounted_def demo_link_values)
  have "fst (find_entry demo_geom image_ops 2 ?n demo_mounted) = Inl NotFound"
  proof -
    have "\<forall>e \<in> set (dir_entries demo_geom ?f [2]). is_end e"
      using zero_sector_ends by (simp add: dir_entries_def demo_geom_def cluster_lba_def demo_mounted_def demo_image_def)
    then show ?thesis using image.find_entry_ok [OF demo_ok demo_root, of ?n] ends_lookup by fastforce
  qed
  then show ?thesis
    using create_file_visible [OF image.block_store_axioms demo_ok demo_resolve demo_root demo_fits hd demo_dir_tidy] free
    by (fastforce split: sum.splits)
qed

section \<open>Names that are not found again\<close>

lemma copy_base_full:
  "ch_dot \<notin> set (take n p) \<Longrightarrow> n \<le> length p \<Longrightarrow> copy_base n p = (map to_upper (take n p), drop n p)"
  by (induction n p rule: copy_base.induct) auto

text \<open>A name whose base is longer than eight bytes: no dot among its first nine bytes.\<close>

definition long_base :: "bytes \<Rightarrow> bool" where
  "long_base name \<longleftrightarrow>
     8 < length name \<and> ch_dot \<notin> set (take 9 name) \<and> (\<forall>c \<in> set name. c \<noteq> 0 \<and> c \<noteq> ch_space)"

text \<open>The name under which such an entry is found.\<close>

definition stored_name :: "bytes \<Rightarrow> bytes" where
  "stored_name name = take 8 name @ ch_dot # take 3 (drop 8 name)"

lemma long_base_split:
  assumes "long_base name"
  shows "ch_dot \<notin> set (take 8 name)" "drop 8 name \<noteq> []" "hd (drop 8 name) = name ! 8" "name ! 8 \<noteq> ch_dot"
    "name ! 8 \<noteq> ch_space"
proof -
  have len: "8 < length name" and nd: "ch_dot \<notin> set (take 9 name)" using assms by (simp_all add: long_base_def)
  show "ch_dot \<notin> set (take 8 name)" using nd set_take_subset_set_take [of 8 9 name] by auto
  show "drop 8 name \<noteq> []" "hd (drop 8 name) = name ! 8" using len by (simp_all add: hd_drop_conv_nth)
  have "name ! 8 \<in> set (take 9 name)" using len by (auto simp: in_set_conv_nth intro!: exI [of _ 8])
  then show "name ! 8 \<noteq> ch_dot" using nd by auto
  show "name ! 8 \<noteq> ch_space" using assms len by (auto simp: long_base_def)
qed

lemma stored_name_differs: "long_base name \<Longrightarrow> stored_name name \<noteq> name"
proof -
  assume l: "long_base name"
  then have "stored_name name ! 8 = ch_dot" by (simp add: stored_name_def long_base_def nth_append)
  with long_base_split(4) [OF l] show ?thesis by auto
qed

lemma long_name_83:
  assumes l: "long_base name" and up: "map to_upper name = name"
  shows "make_83_name name = (take 8 name, pad 3 (take 3 (drop 8 name)))"
proof -
  have len: "8 < length name" using l by (simp add: long_base_def)
  have "copy_base 8 name = (take 8 name, drop 8 name)"
    using copy_base_full [OF long_base_split(1) [OF l]] len up by (simp add: take_map [symmetric])
  moreover have "(case drop 8 name of c # rest \<Rightarrow> if c = ch_dot then rest else drop 8 name | [] \<Rightarrow> drop 8 name) = drop 8 name"
    using long_base_split(3,4) [OF l] by (auto split: list.splits)
  moreover have "map to_upper (take 3 (drop 8 name)) = take 3 (drop 8 name)" using up by (metis drop_map take_map)
  ultimately show ?thesis using len by (simp add: make_83_name_def Let_def pad_def)
qed

lemma long_name_entry:
  assumes l: "long_base name" and up: "map to_upper name = name" and e5: "hd name \<noteq> 0xE5"
  shows "wf_entry (named_entry name FAT_ATTR_ARCHIVE)" and "is_valid_entry (named_entry name FAT_ATTR_ARCHIVE)"
    and "entry_name (named_entry name FAT_ATTR_ARCHIVE) = stored_name name"
proof -
  let ?e = "named_entry name FAT_ATTR_ARCHIVE" and ?x = "take 3 (drop 8 name)"
  note mk = long_name_83 [OF l up]
  have e: "de_name ?e = take 8 name" "de_ext ?e = pad 3 ?x" "de_attr ?e = FAT_ATTR_ARCHIVE"
    using mk by (simp_all add: named_entry_def)
  have len: "8 < length name" and pl: "\<forall>c \<in> set name. c \<noteq> 0 \<and> c \<noteq> ch_space"
    using l by (simp_all add: long_base_def)
  show "wf_entry ?e" using make_83_name_lengths [OF mk] e by (simp add: wf_entry_def)
  have "take 8 name ! 0 = hd name" using len by (cases name) auto
  moreover have "hd name \<noteq> 0" using len pl by (cases name) auto
  ultimately show "is_valid_entry ?e" using e e5
    by (simp add: is_valid_entry_def is_end_def is_deleted_def FAT_ATTR_ARCHIVE_def FAT_ATTR_VOLUME_ID_def FAT_ATTR_LFN_def)
  have px: "\<forall>c \<in> set (take 8 name) \<union> set ?x. c \<noteq> 0 \<and> c \<noteq> ch_space"
    using pl by (auto dest: in_set_takeD in_set_dropD)
  have "takeWhile (\<lambda>c. c \<noteq> ch_space) (de_name ?e) = take 8 name" unfolding e using px by simp
  moreover have "takeWhile (\<lambda>c. c \<noteq> ch_space) (de_ext ?e) = ?x" unfolding e using px by (simp add: takeWhile_pad)
  moreover have "de_ext ?e ! 0 \<noteq> ch_space"
    unfolding e using long_base_split(2,3,5) [OF l] by (cases "drop 8 name") (simp_all add: pad_def)
  ultimately have gf: "get_filename ?e 13 = stored_name name" by (simp add: get_filename_def stored_name_def)
  have "cut (stored_name name) = stored_name name"
    unfolding cut_def using px by (intro takeWhile_eq_all_conv [THEN iffD2]) (auto simp: stored_name_def)
  moreover have "map to_upper (stored_name name) = stored_name name"
    unfolding stored_name_def using up by (simp add: take_map [symmetric] drop_map [symmetric])
  ultimately show "entry_name ?e = stored_name name" by (simp add: entry_name_def gf)
qed

text \<open>C39. A long name is lost. Creating a file whose name has more than eight bytes before any dot, which
  the path parser accepts up to twelve bytes in all, ends; when it reports success the file is not found
  under the name it was created with. It is found under another name, made of the first eight bytes, a
  dot and the next three bytes, unless a file with that name existed before. The other cases are those
  of every creation: the name is taken or the volume is full, and the disk is unchanged.\<close>

theorem long_name_lost:
  assumes "block_store io sector ready" and "fat_ok io sector ready g st"
    and "resolve_parent g io path MAX_PART_LEN st = (Inr (parent, child), st0)"
    and "chain_of g (sector (fdev st)) parent cs" and "tidy (dir_entries g (sector (fdev st)) cs)"
    and "long_base child" and "hd child \<noteq> 0xE5"
  shows "\<exists>r st'. create_file g io path st = Some (r, st') \<and> fat_ok io sector ready g st' \<and>
    (case r of
       Inl e \<Rightarrow> sector (fdev st') = sector (fdev st) \<and>
         (e = Full \<and> (\<forall>c. valid_cluster g c \<longrightarrow> link g (sector (fdev st)) c \<noteq> 0) \<or> e = Exists \<and> (\<exists>x. fst (find_entry g io parent child st) = Inr x))
     | Inr _ \<Rightarrow> fst (find_entry g io parent child st') = Inl NotFound \<and>
         (fst (find_entry g io parent (stored_name child) st) = Inl NotFound \<longrightarrow>
            fst (find_entry g io parent (stored_name child) st') = Inr (named_entry child FAT_ATTR_ARCHIVE)))"
proof -
  note e = long_name_entry [OF assms(6) resolve_parent_upper [OF assms(3)] assms(7)]
  from block_store.create_file_adds [OF assms(1-5) refl e(1,2), unfolded e(3)] obtain r st' where
    c: "create_file g io path st = Some (r, st')" "fat_ok io sector ready g st'"
      "case r of
         Inl e \<Rightarrow> sector (fdev st') = sector (fdev st) \<and>
           (e = Full \<and> (\<forall>c. valid_cluster g c \<longrightarrow> link g (sector (fdev st)) c \<noteq> 0) \<or> e = Exists \<and> (\<exists>x. fst (find_entry g io parent child st) = Inr x))
       | Inr _ \<Rightarrow> fst (find_entry g io parent child st) = Inl NotFound \<and>
           (fst (find_entry g io parent (stored_name child) st) = Inl NotFound \<longrightarrow>
              fst (find_entry g io parent (stored_name child) st') = Inr (named_entry child FAT_ATTR_ARCHIVE)) \<and>
           (\<forall>m. m \<noteq> stored_name child \<longrightarrow> fst (find_entry g io parent m st') = fst (find_entry g io parent m st))"
    by blast
  then show ?thesis using stored_name_differs [OF assms(6)] by (cases r) auto
qed

lemma demo_long_path: "path_parts (str ''longname1.x'') = Inr [str ''LONGNAME1.X'']"
  by code_simp

lemma demo_long_resolve:
  "resolve_parent demo_geom image_ops (str ''longname1.x'') MAX_PART_LEN demo_mounted =
     (Inr (2, str ''LONGNAME1.X''), demo_mounted)"
  by (simp add: resolve_parent_def demo_long_path op_try_def strncpy_cut_def MAX_PART_LEN_def)
    (simp add: str_def demo_geom_def)

lemma demo_root_empty: "fst (find_entry demo_geom image_ops 2 n demo_mounted) = Inl NotFound"
proof -
  have "\<forall>e \<in> set (dir_entries demo_geom (img (fdev demo_mounted)) [2]). is_end e"
    using zero_sector_ends by (simp add: dir_entries_def demo_geom_def cluster_lba_def demo_mounted_def demo_image_def)
  then show ?thesis using image.find_entry_ok [OF demo_ok demo_root, of n] ends_lookup by fastforce
qed

theorem long_name_lost_witness:
  "\<exists>st'. create_file demo_geom image_ops (str ''longname1.x'') demo_mounted = Some (Inr (), st') \<and>
     fst (find_entry demo_geom image_ops 2 (str ''LONGNAME1.X'') st') = Inl NotFound \<and>
     fst (find_entry demo_geom image_ops 2 (str ''LONGNAME.1.X'') st') =
       Inr (named_entry (str ''LONGNAME1.X'') FAT_ATTR_ARCHIVE)"
proof -
  have l: "long_base (str ''LONGNAME1.X'')" "hd (str ''LONGNAME1.X'') \<noteq> 0xE5"
    "stored_name (str ''LONGNAME1.X'') = str ''LONGNAME.1.X''"
    by (simp_all add: long_base_def stored_name_def str_def)
  have free: "valid_cluster demo_geom 5" "link demo_geom (img (fdev demo_mounted)) 5 = 0"
    by (simp_all add: demo_valid demo_mounted_def demo_link_values)
  from long_name_lost [OF image.block_store_axioms demo_ok demo_long_resolve demo_root demo_dir_tidy l(1,2)]
  show ?thesis unfolding l(3) using free demo_root_empty by (fastforce split: sum.splits)
qed

text \<open>
  An end marker in the last slot of a sector is replaced without putting a marker behind the new
  entry, so that an entry left over in the next sector comes back to life.
\<close>

lemma valid_not_end: "is_valid_entry e \<Longrightarrow> \<not> is_end e"
  by (auto simp: is_valid_entry_def)

lemma find_in_absent: "\<forall>e \<in> set es. \<not> is_end e \<Longrightarrow> \<forall>e \<in> set es. entry_name e \<noteq> n \<Longrightarrow> find_in n es = None"
  by (induction n es rule: find_in.induct) auto

lemma stale_entry_revived:
  assumes "length es = 16" and "\<forall>e \<in> set (butlast es). \<not> is_end e \<and> \<not> is_deleted e" and "is_end (es ! 15)"
    and "is_valid_entry stale" and "entry_name stale \<noteq> entry_name new" and "is_valid_entry new"
    and "\<forall>e \<in> set (butlast es). entry_name e \<noteq> entry_name stale"
  shows "lookup (entry_name stale) (es @ [stale]) = Inl NotFound"
    and "lookup (entry_name stale) (put_entry es 15 new @ [stale]) = Inr stale"
proof -
  have "es \<noteq> []" using assms(1) by auto
  then have "last es = es ! 15" using assms(1) by (simp add: last_conv_nth)
  then have sp: "es = butlast es @ [es ! 15]" using append_butlast_last_id [OF \<open>es \<noteq> []\<close>] by simp
  have ne: "\<forall>e \<in> set (butlast es). \<not> is_end e" using assms(2) by blast
  have none: "find_in (entry_name stale) (butlast es) = None"
    using ne assms(7) find_in_absent by blast
  show "lookup (entry_name stale) (es @ [stale]) = Inl NotFound"
    using assms(3) none by (subst sp) (simp add: lookup_append [OF ne, simplified] lookup_def find_in_append)
  have "put_entry es 15 new = butlast es @ [new]"
    using assms(1,3) sp by (simp add: put_entry_def Let_def butlast_conv_take upd_conv_take_nth_drop)
  then show "lookup (entry_name stale) (put_entry es 15 new @ [stale]) = Inr stale"
    using none assms(4-6) valid_not_end [OF assms(4)] valid_not_end [OF assms(6)] by (simp add: lookup_def find_in_append)
qed

end
