(* ===== verification/Swap_Slots.thy ===== *)
theory Swap_Slots
  imports Block_Layer
begin

unbundle bit_operations_syntax

text \<open>
  The page slots of the swap device (class \<^verbatim>\<open>State\<close> of \<^verbatim>\<open>kernel/mm/swap.cpp\<close>): a bitmap with one
  bit per slot, searched round robin, and page table entries of absent pages that carry the slot
  number and the permissions. The theory relates the bitmap to the set of slots in use: a slot is
  handed out only while free, a full device is reported only when every slot is in use, and an
  entry gives back exactly its slot.
\<close>

section \<open>Operations\<close>

definition MAX_OFFSET_LIMIT :: nat where "MAX_OFFSET_LIMIT = 2 ^ 24"
definition ENTRY_HAS_PERMISSIONS :: u64 where "ENTRY_HAS_PERMISSIONS = 0x80"
definition ENTRY_WRITE :: u64 where "ENTRY_WRITE = 0x02"
definition ENTRY_EXECUTE :: u64 where "ENTRY_EXECUTE = 0x04"
definition ENTRY_SLOT_MASK :: u64 where "ENTRY_SLOT_MASK = push_bit 8 (word_of_nat (MAX_OFFSET_LIMIT - 1))"
definition ENTRY_FLAGS :: u64 where "ENTRY_FLAGS = ENTRY_HAS_PERMISSIONS OR ENTRY_WRITE OR ENTRY_EXECUTE"
definition BLOCKS_PER_PAGE :: nat where "BLOCKS_PER_PAGE = 8"

text \<open>The device pointer is the device's number and type; an empty buffer is \<open>[]\<close>.\<close>

record swap_slots =
  sw_device :: "(nat \<times> device_type) option"
  sw_bits :: bytes
  slot_limit :: u32
  next_slot :: u32

definition occupied :: "swap_slots \<Rightarrow> u32 \<Rightarrow> bool" where
  "occupied s sl \<longleftrightarrow> sw_bits s ! unat (sl div 8) AND push_bit (unat (sl mod 8)) 1 \<noteq> 0"

definition set_occupied :: "swap_slots \<Rightarrow> u32 \<Rightarrow> bool \<Rightarrow> swap_slots" where
  "set_occupied s sl value =
     (let mask = push_bit (unat (sl mod 8)) 1; i = unat (sl div 8); b = sw_bits s ! i
      in s\<lparr>sw_bits := (sw_bits s)[i := (if value then b OR mask else b AND NOT mask)]\<rparr>)"

definition swap_enabled :: "swap_slots \<Rightarrow> bool" where
  "swap_enabled s \<longleftrightarrow> (case sw_device s of None \<Rightarrow> False | Some (d, t) \<Rightarrow> t = Swap) \<and> sw_bits s \<noteq> []"

definition allocated_slot :: "swap_slots \<Rightarrow> u64 \<Rightarrow> u32" where
  "allocated_slot s entry =
     (if \<not> swap_enabled s \<or> entry AND NOT (ENTRY_SLOT_MASK OR ENTRY_FLAGS) \<noteq> 0 \<or>
         entry AND ENTRY_HAS_PERMISSIONS = 0 then 0
      else let sl = to_u32 (drop_bit 8 entry)
           in if 0 < sl \<and> sl < slot_limit s \<and> occupied s sl then sl else 0)"

fun reserve_loop :: "nat \<Rightarrow> swap_slots \<Rightarrow> (error + u32) \<times> swap_slots" where
  "reserve_loop 0 s = (Inl Full, s)"
| "reserve_loop (Suc k) s =
     (let sl = next_slot s;
          nxt = sl + 1;
          s = s\<lparr>next_slot := (if nxt = slot_limit s then 1 else nxt)\<rparr>
      in if \<not> occupied s sl then (Inr sl, set_occupied s sl True) else reserve_loop k s)"

definition reserve_slot :: "swap_slots \<Rightarrow> (error + u32) \<times> swap_slots" where
  "reserve_slot s =
     (if \<not> swap_enabled s then (Inl NoDevice, s) else reserve_loop (unat (slot_limit s) - 1) s)"

definition release_entry :: "u64 \<Rightarrow> swap_slots \<Rightarrow> swap_slots" where
  "release_entry entry s =
     (let sl = allocated_slot s entry in if sl \<noteq> 0 then set_occupied s sl False else s)"

text \<open>
  \<^verbatim>\<open>swapfs_init\<close>: the first registered swap device with its type and number of blocks, and
  whether the memory for the bitmap is there.
\<close>

definition swapfs_init :: "(nat \<times> device_type \<times> u32) option \<Rightarrow> bool \<Rightarrow> swap_slots \<Rightarrow> int \<times> swap_slots" where
  "swapfs_init found memory s =
     (if sw_device s \<noteq> None then (0, s)
      else case found of
             None \<Rightarrow> (-1, s)
           | Some (d, t, blocks) \<Rightarrow>
               let limit = min (unat blocks div BLOCKS_PER_PAGE + 1) MAX_OFFSET_LIMIT
               in if limit \<le> 1 \<or> \<not> memory then (-1, s)
                  else (0, \<lparr>sw_device = Some (d, t), sw_bits = replicate ((limit + 7) div 8) 0,
                            slot_limit = word_of_nat limit, next_slot = 1\<rparr>))"

definition swap_entry :: "u32 \<Rightarrow> bool \<Rightarrow> bool \<Rightarrow> u64" where
  "swap_entry sl write exec =
     push_bit 8 (to_u64 sl) OR ENTRY_HAS_PERMISSIONS OR (if write then ENTRY_WRITE else 0) OR
       (if exec then ENTRY_EXECUTE else 0)"

section \<open>The slots in use\<close>

definition slots_wf :: "swap_slots \<Rightarrow> bool" where
  "slots_wf s \<longleftrightarrow> swap_enabled s \<and> 1 < slot_limit s \<and> unat (slot_limit s) \<le> MAX_OFFSET_LIMIT \<and>
     unat (slot_limit s) \<le> 8 * length (sw_bits s) \<and> 0 < next_slot s \<and> next_slot s < slot_limit s"

definition used_slots :: "swap_slots \<Rightarrow> nat set" where
  "used_slots s = {n. 0 < n \<and> n < unat (slot_limit s) \<and> occupied s (word_of_nat n)}"

lemma mask_bit: "k < 8 \<Longrightarrow> ((b :: u8) AND 2 ^ k = 0) = (\<not> bit b k)"
  by (simp add: and_exp_eq_0_iff_not_bit)

lemma bit_set_mask: "k < 8 \<Longrightarrow> j < 8 \<Longrightarrow> bit ((b :: u8) OR 2 ^ k) j = (bit b j \<or> j = k)"
  "k < 8 \<Longrightarrow> j < 8 \<Longrightarrow> bit ((b :: u8) AND NOT (2 ^ k)) j = (bit b j \<and> j \<noteq> k)"
  by (auto simp: bit_simps)

lemma slot_split: "unat (n div 8 :: u32) = unat n div 8" "unat (n mod 8 :: u32) = unat n mod 8"
  by (simp_all add: unat_div_distrib unat_mod_distrib)

lemma occupied_bit: "occupied s sl \<longleftrightarrow> bit (sw_bits s ! (unat sl div 8)) (unat sl mod 8)"
  by (simp add: occupied_def slot_split mask_bit)

lemma set_occupied_fields [simp]:
  "sw_device (set_occupied s n v) = sw_device s" "slot_limit (set_occupied s n v) = slot_limit s"
  "next_slot (set_occupied s n v) = next_slot s" "length (sw_bits (set_occupied s n v)) = length (sw_bits s)"
  "swap_enabled (set_occupied s n v) = swap_enabled s"
  by (simp_all add: set_occupied_def Let_def swap_enabled_def split: option.splits)

lemma occupied_set:
  assumes "unat n div 8 < length (sw_bits s)"
  shows "occupied (set_occupied s n v) m \<longleftrightarrow> (if m = n then v else occupied s m)"
proof (cases "unat m div 8 = unat n div 8")
  case True
  then have "m = n \<longleftrightarrow> unat m mod 8 = unat n mod 8"
    by (metis div_mult_mod_eq word_unat_eq_iff)
  then show ?thesis using assms True
    by (auto simp: occupied_bit set_occupied_def Let_def slot_split bit_set_mask)
next
  case False
  then show ?thesis by (auto simp: occupied_bit set_occupied_def Let_def slot_split)
qed

lemma used_slots_set:
  assumes "slots_wf s" and "0 < n" and "n < slot_limit s"
  shows "used_slots (set_occupied s n v) = (if v then insert (unat n) (used_slots s) else used_slots s - {unat n})"
proof -
  have lim: "unat n < unat (slot_limit s)" "0 < unat n" using assms(2,3) by (simp_all add: word_less_nat_alt)
  then have "unat n div 8 < length (sw_bits s)" using assms(1) by (simp add: slots_wf_def) linarith
  note o = occupied_set [OF this]
  have w: "(word_of_nat k :: u32) = n \<longleftrightarrow> k = unat n" if "k < unat (slot_limit s)" for k
    using that le_less_trans [OF less_imp_le [OF that] unat_lt_u32] by (auto simp: unsigned_of_nat take_bit_eq_mod)
  show ?thesis using lim w by (auto simp: used_slots_def o)
qed

lemma used_slots_next [simp]: "used_slots (s\<lparr>next_slot := k\<rparr>) = used_slots s"
  by (simp add: used_slots_def occupied_def)

subsection \<open>Reserving\<close>

definition slot_advance :: "nat \<Rightarrow> nat \<Rightarrow> nat" where
  "slot_advance limit n = (if n + 1 = limit then 1 else n + 1)"

lemma next_slot_advance:
  assumes "slots_wf s"
  shows "unat (if next_slot s + 1 = slot_limit s then 1 else next_slot s + 1)
    = slot_advance (unat (slot_limit s)) (unat (next_slot s))"
    "slots_wf (s\<lparr>next_slot := (if next_slot s + 1 = slot_limit s then 1 else next_slot s + 1)\<rparr>)"
proof -
  have l: "unat (next_slot s) < unat (slot_limit s)" using assms by (simp add: slots_wf_def word_less_nat_alt)
  note p = unat_plus_one [OF l]
  have e: "next_slot s + 1 = slot_limit s \<longleftrightarrow> unat (next_slot s) + 1 = unat (slot_limit s)"
    using p by (simp add: word_unat_eq_iff)
  show *: "unat (if next_slot s + 1 = slot_limit s then 1 else next_slot s + 1)
    = slot_advance (unat (slot_limit s)) (unat (next_slot s))"
    using p e by (simp add: slot_advance_def)
  have "0 < slot_advance (unat (slot_limit s)) (unat (next_slot s))"
    "slot_advance (unat (slot_limit s)) (unat (next_slot s)) < unat (slot_limit s)"
    using assms l by (auto simp: slot_advance_def slots_wf_def word_less_nat_alt)
  then show "slots_wf (s\<lparr>next_slot := (if next_slot s + 1 = slot_limit s then 1 else next_slot s + 1)\<rparr>)"
    using assms unfolding slots_wf_def
    by (simp add: word_less_nat_alt swap_enabled_def * del: One_nat_def)
qed

text \<open>The slots the loop looks at: \<open>k\<close> of them from \<open>n\<close>, wrapping at the limit.\<close>

lemma slot_advance_iterates:
  assumes "1 < limit" and "0 < n" and "n < limit" and "k < limit"
  shows "(slot_advance limit ^^ k) n = (if n + k < limit then n + k else n + k + 1 - limit)"
  using assms(4)
proof (induction k)
  case 0 then show ?case using assms by simp
next
  case (Suc k)
  then show ?case using assms by (auto simp: slot_advance_def)
qed

lemma slot_advance_covers:
  assumes "1 < limit" and "0 < n" and "n < limit"
  shows "(\<lambda>k. (slot_advance limit ^^ k) n) ` {..<limit - 1} = {1..<limit}"
proof (intro subset_antisym subsetI)
  fix m
  assume "m \<in> (\<lambda>k. (slot_advance limit ^^ k) n) ` {..<limit - 1}"
  then obtain k where "k < limit - 1" "m = (slot_advance limit ^^ k) n" by auto
  then show "m \<in> {1..<limit}" using assms slot_advance_iterates [OF assms, of k] by auto
next
  fix m
  assume m: "m \<in> {1..<limit}"
  let ?k = "if n \<le> m then m - n else m + limit - 1 - n"
  have "?k < limit - 1" using m assms by auto
  moreover have "(slot_advance limit ^^ ?k) n = m"
    using m assms slot_advance_iterates [OF assms, of ?k] by auto
  ultimately show "m \<in> (\<lambda>k. (slot_advance limit ^^ k) n) ` {..<limit - 1}" by (metis image_eqI lessThan_iff)
qed

lemma reserve_loop_spec:
  assumes "slots_wf s" and "reserve_loop k s = (r, s')"
  shows "case r of
      Inr n \<Rightarrow> slots_wf s' \<and> 0 < unat n \<and> unat n < unat (slot_limit s) \<and> unat n \<notin> used_slots s \<and>
        used_slots s' = insert (unat n) (used_slots s) \<and> slot_limit s' = slot_limit s
    | Inl e \<Rightarrow> e = Full \<and> slots_wf s' \<and> used_slots s' = used_slots s \<and>
        (\<forall>j<k. (slot_advance (unat (slot_limit s)) ^^ j) (unat (next_slot s)) \<in> used_slots s)"
  using assms
proof (induction k arbitrary: s)
  case (Suc k)
  let ?s = "s\<lparr>next_slot := (if next_slot s + 1 = slot_limit s then 1 else next_slot s + 1)\<rparr>"
  note a = next_slot_advance [OF Suc.prems(1)]
  have n: "0 < next_slot s" "next_slot s < slot_limit s" using Suc.prems(1) by (simp_all add: slots_wf_def)
  then have n': "0 < unat (next_slot s)" "unat (next_slot s) < unat (slot_limit s)" by (simp_all add: word_less_nat_alt)
  have o: "occupied ?s (next_slot s) \<longleftrightarrow> unat (next_slot s) \<in> used_slots s"
    using n' by (simp add: used_slots_def occupied_def)
  show ?case
  proof (cases "occupied ?s (next_slot s)")
    case False
    then have "r = Inr (next_slot s)" "s' = set_occupied ?s (next_slot s) True"
      using Suc.prems(2) by (simp_all add: Let_def)
    then show ?thesis
      using a(2) used_slots_set [OF a(2), of "next_slot s" True] n n' False o by (simp add: slots_wf_def)
  next
    case True
    then have "reserve_loop k ?s = (r, s')" using Suc.prems(2) by (simp add: Let_def)
    note ih = Suc.IH [OF a(2) this]
    show ?thesis
    proof (cases r)
      case (Inl e)
      have "(slot_advance (unat (slot_limit s)) ^^ j) (unat (next_slot s)) \<in> used_slots s" if "j < Suc k" for j
        using that ih Inl True o a(1) by (cases j) (auto simp: funpow_swap1)
      then show ?thesis using ih Inl by simp
    next
      case (Inr n) then show ?thesis using ih by simp
    qed
  qed
qed auto

lemma reserve_limit: "reserve_loop k s = (r, s') \<Longrightarrow> slot_limit s' = slot_limit s"
  by (induction k arbitrary: s) (auto simp: Let_def split: if_splits)

lemma reserve_slot_spec:
  assumes "slots_wf s"
  shows "(\<exists>n s'. reserve_slot s = (Inr n, s') \<and> slots_wf s' \<and> slot_limit s' = slot_limit s \<and>
      unat n \<in> {1..<unat (slot_limit s)} - used_slots s \<and> used_slots s' = insert (unat n) (used_slots s)) \<or>
    (\<exists>s'. reserve_slot s = (Inl Full, s') \<and> slots_wf s' \<and> used_slots s' = used_slots s \<and>
      used_slots s = {1..<unat (slot_limit s)})"
proof -
  let ?l = "unat (slot_limit s)" and ?n = "unat (next_slot s)"
  obtain r s' where r: "reserve_loop (?l - 1) s = (r, s')" by fastforce
  have eq: "reserve_slot s = (r, s')" using assms r by (simp add: reserve_slot_def slots_wf_def)
  have b: "1 < ?l" "0 < ?n" "?n < ?l" using assms by (simp_all add: slots_wf_def word_less_nat_alt)
  note sp = reserve_loop_spec [OF assms r]
  show ?thesis
  proof (cases r)
    case (Inl e)
    then have "\<forall>j<?l - 1. (slot_advance ?l ^^ j) ?n \<in> used_slots s" using sp by simp
    then have "{1..<?l} \<subseteq> used_slots s" unfolding slot_advance_covers [OF b, symmetric] by auto
    then have "used_slots s = {1..<?l}" by (auto simp: used_slots_def)
    then show ?thesis using eq sp Inl by simp
  next
    case (Inr n)
    then show ?thesis using eq sp by auto
  qed
qed

subsection \<open>Entries\<close>

lemma entry_flag_powers:
  "ENTRY_HAS_PERMISSIONS = 2 ^ 7" "ENTRY_WRITE = 2 ^ 1" "ENTRY_EXECUTE = 2 ^ 2"
  by (simp_all add: ENTRY_HAS_PERMISSIONS_def ENTRY_WRITE_def ENTRY_EXECUTE_def)

lemma entry_flag_bits:
  "bit ENTRY_HAS_PERMISSIONS k \<longleftrightarrow> k = 7" "bit ENTRY_WRITE k \<longleftrightarrow> k = 1" "bit ENTRY_EXECUTE k \<longleftrightarrow> k = 2"
  unfolding entry_flag_powers bit_exp_iff by (auto simp del: One_nat_def)

lemma small_bits: "unat (n :: u32) < 2 ^ 24 \<Longrightarrow> bit n k \<Longrightarrow> k < 24"
proof -
  assume "unat n < 2 ^ 24" "bit n k"
  then have "unat (take_bit 24 n) = unat n" by (subst unsigned_take_bit_eq) (simp add: take_bit_nat_eq_self)
  then have "take_bit 24 n = n" by (simp add: word_unat_eq_iff)
  with \<open>bit n k\<close> show "k < 24" by (metis bit_take_bit_iff)
qed

lemma bit_swap_entry:
  "k < 64 \<Longrightarrow> bit (swap_entry n w x) k \<longleftrightarrow> (8 \<le> k \<and> bit n (k - 8)) \<or> k = 7 \<or> (w \<and> k = 1) \<or> (x \<and> k = 2)"
  by (auto simp: swap_entry_def entry_flag_bits bit_or_iff bit_push_bit_iff to_u64_def bit_ucast_iff
      dest: bit_imp_le_length)

lemma bit_slot_mask: "bit ENTRY_SLOT_MASK k \<longleftrightarrow> 8 \<le> k \<and> k < 32"
proof -
  have "ENTRY_SLOT_MASK = push_bit 8 (mask 24)"
    by (simp add: ENTRY_SLOT_MASK_def MAX_OFFSET_LIMIT_def mask_eq_exp_minus_1)
  then show ?thesis unfolding \<open>ENTRY_SLOT_MASK = _\<close> by (auto simp: bit_push_bit_iff bit_mask_iff)
qed

lemma swap_entry_fields:
  assumes "unat n < 2 ^ 24"
  shows "to_u32 (drop_bit 8 (swap_entry n w x)) = n"
    "swap_entry n w x AND NOT (ENTRY_SLOT_MASK OR ENTRY_FLAGS) = 0"
    "swap_entry n w x AND ENTRY_HAS_PERMISSIONS \<noteq> 0"
    "(swap_entry n w x AND ENTRY_WRITE \<noteq> 0) = w" "(swap_entry n w x AND ENTRY_EXECUTE \<noteq> 0) = x"
    "swap_entry n w x AND 1 = 0"
proof -
  note nb = small_bits [OF assms]
  show "to_u32 (drop_bit 8 (swap_entry n w x)) = n"
    by (rule bit_word_eqI) (auto simp: to_u32_def bit_ucast_iff bit_drop_bit_eq bit_swap_entry)
  show "swap_entry n w x AND NOT (ENTRY_SLOT_MASK OR ENTRY_FLAGS) = 0"
    by (rule bit_word_eqI) (use nb in \<open>force simp: bit_and_iff bit_not_iff bit_or_iff bit_slot_mask bit_swap_entry
      ENTRY_FLAGS_def entry_flag_bits\<close>)
  show "swap_entry n w x AND ENTRY_HAS_PERMISSIONS \<noteq> 0"
    unfolding entry_flag_powers by (simp only: and_exp_eq_0_iff_not_bit) (simp add: bit_swap_entry)
  show "(swap_entry n w x AND ENTRY_WRITE \<noteq> 0) = w" "(swap_entry n w x AND ENTRY_EXECUTE \<noteq> 0) = x"
    unfolding entry_flag_powers by (simp_all only: and_exp_eq_0_iff_not_bit) (simp_all add: bit_swap_entry)
  have "swap_entry n w x AND 2 ^ 0 = 0"
    by (simp only: and_exp_eq_0_iff_not_bit) (simp add: bit_swap_entry)
  then show "swap_entry n w x AND 1 = 0" by simp
qed

lemma allocated_slot_entry:
  assumes "slots_wf s" and "0 < unat n" and "unat n < unat (slot_limit s)"
  shows "allocated_slot s (swap_entry n w x) = (if unat n \<in> used_slots s then n else 0)"
proof -
  have n: "unat n < 2 ^ 24" using assms(1,3) by (simp add: slots_wf_def MAX_OFFSET_LIMIT_def)
  have "0 < n" "n < slot_limit s" using assms(2,3) by (simp_all add: word_less_nat_alt)
  moreover have "occupied s n \<longleftrightarrow> unat n \<in> used_slots s" using assms(2,3) by (simp add: used_slots_def)
  ultimately show ?thesis using swap_entry_fields [OF n, of w x] assms(1)
    by (simp add: allocated_slot_def slots_wf_def Let_def)
qed

lemma release_entry_spec:
  assumes "slots_wf s" and "0 < unat n" and "unat n < unat (slot_limit s)"
  shows "slots_wf (release_entry (swap_entry n w x) s)"
    "used_slots (release_entry (swap_entry n w x) s) = used_slots s - {unat n}"
    "slot_limit (release_entry (swap_entry n w x) s) = slot_limit s"
proof -
  have n: "0 < n" "n < slot_limit s" using assms(2,3) by (simp_all add: word_less_nat_alt)
  then have "n \<noteq> 0" by auto
  then show "used_slots (release_entry (swap_entry n w x) s) = used_slots s - {unat n}"
    using used_slots_set [OF assms(1) n, of False]
    by (simp add: release_entry_def allocated_slot_entry [OF assms] Let_def)
  show "slots_wf (release_entry (swap_entry n w x) s)" "slot_limit (release_entry (swap_entry n w x) s) = slot_limit s"
    using assms(1) by (simp_all add: release_entry_def Let_def slots_wf_def)
qed

lemma swapfs_init_wf:
  assumes "sw_device s = None" and "swapfs_init (Some (d, Swap, blocks)) memory s = (0, s')"
  shows "slots_wf s'" "used_slots s' = {}" "unat (slot_limit s') = min (unat blocks div 8 + 1) MAX_OFFSET_LIMIT"
proof -
  let ?l = "min (unat blocks div 8 + 1) MAX_OFFSET_LIMIT"
  have l: "1 < ?l" and s': "s' = \<lparr>sw_device = Some (d, Swap), sw_bits = replicate ((?l + 7) div 8) 0,
      slot_limit = word_of_nat ?l, next_slot = 1\<rparr>"
    using assms by (auto simp: swapfs_init_def BLOCKS_PER_PAGE_def Let_def split: if_splits)
  have "?l < 2 ^ 32" by (simp add: MAX_OFFSET_LIMIT_def)
  then show lim: "unat (slot_limit s') = ?l" by (simp add: s' unsigned_of_nat take_bit_eq_mod)
  have "?l \<le> 8 * ((?l + 7) div 8)" by linarith
  moreover have "0 < (?l + 7) div 8" using l by linarith
  ultimately show "slots_wf s'" using l lim by (simp add: slots_wf_def s' swap_enabled_def word_less_nat_alt)
  have "\<not> occupied s' (word_of_nat n)" if "n < ?l" for n
  proof -
    have "unat (word_of_nat n :: u32) = n" using that by (simp add: unsigned_of_nat take_bit_eq_mod MAX_OFFSET_LIMIT_def)
    moreover have "n div 8 < (?l + 7) div 8" using that by linarith
    ultimately show ?thesis by (simp add: occupied_bit s')
  qed
  then show "used_slots s' = {}" using lim by (auto simp: used_slots_def)
qed

section \<open>Properties\<close>

text \<open>
  A client that reserves slots and gives one of those it holds back, with any permissions in the
  entry; \<open>held\<close> are the slots it holds.
\<close>

datatype swap_call = Reserve | Give_back nat bool bool

fun swap_client :: "swap_call list \<Rightarrow> swap_slots \<times> u32 list \<Rightarrow> swap_slots \<times> u32 list" where
  "swap_client [] s = s"
| "swap_client (Reserve # cs) (s, held) =
     (case reserve_slot s of
        (Inr n, s') \<Rightarrow> swap_client cs (s', n # held) | (Inl _, s') \<Rightarrow> swap_client cs (s', held))"
| "swap_client (Give_back i w x # cs) (s, held) =
     (if i < length held then
        swap_client cs (release_entry (swap_entry (held ! i) w x) s, remove1 (held ! i) held)
      else swap_client cs (s, held))"

definition swap_ledger :: "nat \<Rightarrow> swap_slots \<Rightarrow> u32 list \<Rightarrow> bool" where
  "swap_ledger limit s held \<longleftrightarrow>
     slots_wf s \<and> unat (slot_limit s) = limit \<and> distinct held \<and> used_slots s = unat ` set held"

lemma used_slots_range: "used_slots s \<subseteq> {1..<unat (slot_limit s)}"
  by (auto simp: used_slots_def)

lemma swap_ledger_reserve:
  assumes "swap_ledger limit s held"
  shows "reserve_slot s = (Inr n, s') \<Longrightarrow> swap_ledger limit s' (n # held)"
    "reserve_slot s = (Inl e, s') \<Longrightarrow> swap_ledger limit s' held"
proof -
  note l = assms [unfolded swap_ledger_def]
  have wf: "slots_wf s" using l by simp
  show "swap_ledger limit s' (n # held)" if "reserve_slot s = (Inr n, s')"
    using reserve_slot_spec [OF wf] that l by (auto simp: swap_ledger_def image_iff)
  show "swap_ledger limit s' held" if "reserve_slot s = (Inl e, s')"
  proof -
    have "reserve_loop (unat (slot_limit s) - 1) s = (Inl e, s')"
      using that wf by (simp add: reserve_slot_def slots_wf_def)
    from reserve_limit [OF this] show ?thesis using reserve_slot_spec [OF wf] that l
      by (auto simp: swap_ledger_def)
  qed
qed

lemma swap_ledger_release:
  assumes "swap_ledger limit s held" and "i < length held"
  shows "swap_ledger limit (release_entry (swap_entry (held ! i) w x) s) (remove1 (held ! i) held)"
proof -
  note l = assms(1) [unfolded swap_ledger_def]
  have "unat (held ! i) \<in> used_slots s" using l assms(2) by simp
  then have r: "0 < unat (held ! i)" "unat (held ! i) < unat (slot_limit s)"
    using used_slots_range [of s] by auto
  have wf: "slots_wf s" using l by simp
  note rel = release_entry_spec [OF wf r, of w x]
  have "inj (unat :: u32 \<Rightarrow> nat)" by (simp add: inj_def word_unat_eq_iff)
  then have "unat ` set held - {unat (held ! i)} = unat ` (set held - {held ! i})"
    using image_set_diff [of unat "set held" "{held ! i}"] by simp
  then show ?thesis using l rel by (simp add: swap_ledger_def set_remove1_eq)
qed

lemma swap_ledger_run:
  "swap_ledger limit s held \<Longrightarrow> swap_client cs (s, held) = (s', held') \<Longrightarrow> swap_ledger limit s' held'"
proof (induction cs arbitrary: s held)
  case (Cons c cs)
  show ?case
  proof (cases c)
    case Reserve
    then show ?thesis using Cons.prems Cons.IH swap_ledger_reserve [OF Cons.prems(1)]
      by (auto split: prod.splits sum.splits)
  next
    case (Give_back i w x)
    then show ?thesis
      using Cons.prems Cons.IH [OF swap_ledger_release [OF Cons.prems(1), of i w x]] Cons.IH [OF Cons.prems(1)]
      by (cases "i < length held") simp_all
  qed
qed auto

text \<open>C15. On a dedicated swap device of any size, whatever pages are swapped out and back in, the slots
  handed out and not given back are all different and on the device, and a further request fails
  only when they are all slots of the device.\<close>

theorem swap_slots_exclusive:
  assumes "sw_device s0 = None" and "swapfs_init (Some (d, Swap, blocks)) True s0 = (0, s)"
    and "swap_client cs (s, []) = (s', held)"
  shows "distinct held \<and> (\<forall>n \<in> set held. 0 < unat n \<and> unat n \<le> unat blocks div 8) \<and>
    (case reserve_slot s' of
       (Inr n, _) \<Rightarrow> n \<notin> set held \<and> 0 < unat n \<and> unat n \<le> unat blocks div 8
     | (Inl e, _) \<Rightarrow> e = Full \<and> length held = min (unat blocks div 8) (MAX_OFFSET_LIMIT - 1))"
proof -
  let ?l = "min (unat blocks div 8 + 1) MAX_OFFSET_LIMIT"
  note i = swapfs_init_wf [OF assms(1,2)]
  have "swap_ledger ?l s []" using i by (simp add: swap_ledger_def)
  note l = swap_ledger_run [OF this assms(3), unfolded swap_ledger_def]
  have u: "used_slots s' = unat ` set held" "unat (slot_limit s') = ?l" "distinct held" "slots_wf s'" using l by simp_all
  have range: "\<forall>n \<in> set held. 0 < unat n \<and> unat n \<le> unat blocks div 8"
    using used_slots_range [of s'] u(1,2) by fastforce
  have inj: "inj_on (unat :: u32 \<Rightarrow> nat) (set held)" by (simp add: inj_on_def word_unat_eq_iff)
  from reserve_slot_spec [OF u(4)] show ?thesis
  proof (elim disjE exE conjE)
    fix n q
    assume n: "reserve_slot s' = (Inr n, q)" "unat n \<in> {1..<unat (slot_limit s')} - used_slots s'"
    then show ?thesis using range u by auto
  next
    fix q
    assume f: "reserve_slot s' = (Inl Full, q)" "used_slots s' = {1..<unat (slot_limit s')}"
    have "length held = card (unat ` set held)" using u(3) inj by (simp add: card_image distinct_card)
    also have "\<dots> = ?l - 1" using f(2) u(1,2) by simp
    finally show ?thesis using f(1) range u(3) by (auto simp: MAX_OFFSET_LIMIT_def)
  qed
qed

lemma reserve_two: "slot_limit s = 3 \<Longrightarrow> swap_enabled s \<Longrightarrow> reserve_slot s = reserve_loop (Suc (Suc 0)) s"
  by (simp add: reserve_slot_def del: reserve_loop.simps) (simp add: numeral_2_eq_2 [symmetric] del: reserve_loop.simps)

theorem swap_slots_exclusive_witness:
  "\<exists>s' held. swap_client [Reserve, Reserve, Give_back 1 True False, Reserve, Reserve]
      (snd (swapfs_init (Some (0, Swap, 20)) True \<lparr>sw_device = None, sw_bits = [], slot_limit = 0, next_slot = 1\<rparr>), [])
      = (s', held) \<and> held = [1, 2] \<and> distinct held \<and> fst (reserve_slot s') = Inl Full"
proof -
  let ?s0 = "\<lparr>sw_device = None, sw_bits = [], slot_limit = 0, next_slot = 1\<rparr> :: swap_slots"
  let ?cs = "[Reserve, Reserve, Give_back 1 True False, Reserve, Reserve]"
  obtain r s where i: "swapfs_init (Some (0, Swap, 20)) True ?s0 = (r, s)" by fastforce
  have s: "r = 0" "s = \<lparr>sw_device = Some (0, Swap), sw_bits = [0], slot_limit = 3, next_slot = 1\<rparr>"
    using i by (simp_all add: swapfs_init_def BLOCKS_PER_PAGE_def MAX_OFFSET_LIMIT_def)
  obtain s' held where c: "swap_client ?cs (s, []) = (s', held)" by fastforce
  have "case swap_client ?cs (\<lparr>sw_device = Some (0, Swap), sw_bits = [0], slot_limit = 3, next_slot = 1\<rparr>, [])
      of (s', held) \<Rightarrow> held = [1, 2] \<and> fst (reserve_slot s') = Inl Full"
    by (simp add: reserve_two swap_enabled_def occupied_def set_occupied_def
        release_entry_def allocated_slot_def swap_entry_def to_u32_def to_u64_def ENTRY_SLOT_MASK_def ENTRY_FLAGS_def
        ENTRY_HAS_PERMISSIONS_def ENTRY_WRITE_def ENTRY_EXECUTE_def MAX_OFFSET_LIMIT_def)
  then have "held = [1, 2] \<and> fst (reserve_slot s') = Inl Full" using c s(2) by simp
  then show ?thesis using swap_slots_exclusive [OF _ i [unfolded s(1)] c] c i s by simp
qed

end
