(* ===== verification/Vfs.thy ===== *)
theory Vfs
  imports Byte_Codec
begin

text \<open>
  The virtual file system of \<^verbatim>\<open>kernel/fs/vfs.cpp\<close>: three fixed mount slots, the registry of
  file system types, path resolution, and the calls that hold a reference to a slot while a file
  system works or while a file is open. The virtual methods of \<^verbatim>\<open>FileSystem\<close> and \<^verbatim>\<open>File\<close>
  are the fields of a record over an abstract world; the contract their implementations keep is a
  locale. Two groups of lemmas: every call keeps the reference counts equal to the files that are
  open and passes every assertion, and under any interleaving of the sections that run with
  interrupts disabled no file system is unmounted while a reference to it exists.
\<close>

section \<open>Data\<close>

datatype node_type = Node_Unknown | Node_File | Node_Directory | Node_CharDevice

record vstat =
  st_type :: node_type
  st_size :: u32
  st_attrs :: u32

definition vstat_set :: "node_type \<Rightarrow> u32 \<Rightarrow> u32 \<Rightarrow> vstat" where
  "vstat_set t s a = \<lparr>st_type = t, st_size = s, st_attrs = a\<rparr>"

record vdirent =
  vd_name :: bytes
  vd_type :: node_type
  vd_size :: u32
  vd_attrs :: u32

definition vdirent_set :: "bytes \<Rightarrow> node_type \<Rightarrow> u32 \<Rightarrow> u32 \<Rightarrow> vdirent" where
  "vdirent_set n t s a = \<lparr>vd_name = strncpy_cut 32 n, vd_type = t, vd_size = s, vd_attrs = a\<rparr>"

text \<open>
  The virtual functions: \<open>'c\<close> are factories, \<open>'f\<close> file system objects, \<open>'h\<close> file objects, \<open>'v\<close> the
  state of a directory visitor and \<open>'w\<close> everything the implementations read and write. A block
  device is named by its index.
\<close>

record ('c, 'f, 'h, 'v, 'w) fs_class =
  fc_create :: "'c \<Rightarrow> 'w \<Rightarrow> 'f option \<times> 'w"
  fc_mount :: "'f \<Rightarrow> nat option \<Rightarrow> ('w, unit) xop"
  fc_unmount :: "'f \<Rightarrow> 'w \<Rightarrow> 'w"
  fc_delete :: "'f \<Rightarrow> 'w \<Rightarrow> 'w"
  fc_open :: "'f \<Rightarrow> bytes \<Rightarrow> ('w, 'h option) xop"
  fc_stat :: "'f \<Rightarrow> bytes \<Rightarrow> ('w, vstat) xop"
  fc_readdir :: "'f \<Rightarrow> bytes \<Rightarrow> ('v \<Rightarrow> vdirent \<Rightarrow> bool \<times> 'v) \<Rightarrow> 'v \<Rightarrow> ('w, int \<times> 'v) xop"
  fc_mkdir :: "'f \<Rightarrow> bytes \<Rightarrow> ('w, unit) xop"
  fc_new_file :: "'f \<Rightarrow> bytes \<Rightarrow> ('w, unit) xop"
  fc_unlink :: "'f \<Rightarrow> bytes \<Rightarrow> ('w, unit) xop"
  fc_rmdir :: "'f \<Rightarrow> bytes \<Rightarrow> ('w, unit) xop"
  fh_read :: "'h \<Rightarrow> bytes \<Rightarrow> u64 \<Rightarrow> u64 \<Rightarrow> ('w, int \<times> bytes) xop"
  fh_write :: "'h \<Rightarrow> bytes \<Rightarrow> u64 \<Rightarrow> u64 \<Rightarrow> ('w, int) xop"
  fh_stat :: "'h \<Rightarrow> ('w, vstat) xop"
  fh_delete :: "'h \<Rightarrow> 'w \<Rightarrow> 'w"

text \<open>\<^verbatim>\<open>mkdir\<close>, \<^verbatim>\<open>create\<close>, \<^verbatim>\<open>unlink\<close> and \<^verbatim>\<open>rmdir\<close> of the base class.\<close>

definition base_fs_change :: "bytes \<Rightarrow> ('w, unit) xop" where
  "base_fs_change relpath = x_fail NotSupported"

record 'f mount_slot =
  mount_point :: bytes
  mdevice :: "nat option"
  mdevice_name :: "bytes option"
  mfs :: "'f option"
  mfs_type :: "bytes option"
  users :: nat
  transitioning :: bool

text \<open>\<open>mount_of\<close> is the field \<^verbatim>\<open>mount_users_\<close> of each file: the slot whose counter it points to.\<close>

record ('c, 'f, 'h, 'w) vfs_state =
  mounts :: "'f mount_slot list"
  fs_registry :: "(bytes \<times> 'c) list"
  mount_of :: "'h \<Rightarrow> nat option"
  world :: 'w

definition empty_slot :: "bytes \<Rightarrow> 'f mount_slot" where
  "empty_slot p = \<lparr>mount_point = p, mdevice = None, mdevice_name = None, mfs = None, mfs_type = None,
     users = 0, transitioning = False\<rparr>"

definition initial_mounts :: "'f mount_slot list" where
  "initial_mounts = [empty_slot (str ''/dev''), empty_slot (str ''/mnt''), empty_slot (str ''/'')]"

abbreviation MAX_FS_TYPES :: nat where "MAX_FS_TYPES \<equiv> 8"

section \<open>Slots and references\<close>

fun find_slot_from :: "'f mount_slot list \<Rightarrow> nat \<Rightarrow> bytes \<Rightarrow> nat option" where
  "find_slot_from [] i mp = None"
| "find_slot_from (s # ss) i mp = (if mount_point s = mp then Some i else find_slot_from ss (i + 1) mp)"

definition find_slot :: "'f mount_slot list \<Rightarrow> bytes option \<Rightarrow> nat option" where
  "find_slot ms mp = (case mp of None \<Rightarrow> None | Some p \<Rightarrow> find_slot_from ms 0 p)"

definition upd_slot :: "nat \<Rightarrow> ('f mount_slot \<Rightarrow> 'f mount_slot) \<Rightarrow> 'f mount_slot list \<Rightarrow> 'f mount_slot list" where
  "upd_slot i f ms = ms[i := f (ms ! i)]"

definition acquire_slot :: "bytes \<Rightarrow> ('f mount_slot list, nat) op" where
  "acquire_slot mp ms =
     (case find_slot ms (Some mp) of
        None \<Rightarrow> (Inl NotFound, ms)
      | Some i \<Rightarrow>
          if mfs (ms ! i) = None then (Inl NotFound, ms)
          else (Inr i, upd_slot i (\<lambda>s. s\<lparr>users := users s + 1\<rparr>) ms))"

definition release_slot :: "nat \<Rightarrow> 'f mount_slot list \<Rightarrow> fault + 'f mount_slot list" where
  "release_slot i ms =
     (if users (ms ! i) = 0 then Inl Panicked
      else Inr (upd_slot i (\<lambda>s. s\<lparr>users := users s - 1\<rparr>) ms))"

definition finish_transition :: "nat \<Rightarrow> 'f mount_slot list \<Rightarrow> 'f mount_slot list" where
  "finish_transition i ms = upd_slot i (\<lambda>s. s\<lparr>transitioning := False\<rparr>) ms"

text \<open>The mount point and the rest of a path.\<close>

definition mount_split_path :: "bytes \<Rightarrow> bytes \<times> bytes" where
  "mount_split_path path =
     (if path = str ''/dev'' then (str ''/dev'', [])
      else if str_starts_with path (str ''/dev/'') then (str ''/dev'', str_skip_char (drop 5 path) ch_slash)
      else if path = str ''/mnt'' then (str ''/mnt'', [])
      else if str_starts_with path (str ''/mnt/'') then (str ''/mnt'', str_skip_char (drop 5 path) ch_slash)
      else if str_starts_with path (str ''/'') then (str ''/'', str_skip_char (drop 1 path) ch_slash)
      else (str ''/'', str_skip_char path ch_slash))"

definition on_mounts :: "('f mount_slot list, 'a) op \<Rightarrow> (('c, 'f, 'h, 'w) vfs_state, 'a) op" where
  "on_mounts m v = (case m (mounts v) of (r, ms) \<Rightarrow> (r, v\<lparr>mounts := ms\<rparr>))"

definition acquire_mount :: "bytes \<Rightarrow> (('c, 'f, 'h, 'w) vfs_state, nat) op" where
  "acquire_mount mp = on_mounts (acquire_slot mp)"

definition resolve_path :: "bytes option \<Rightarrow> (('c, 'f, 'h, 'w) vfs_state, nat \<times> bytes) op" where
  "resolve_path path =
     (case path of
        None \<Rightarrow> op_fail Invalid
      | Some p \<Rightarrow>
          (case mount_split_path p of (mp, relpath) \<Rightarrow> op_try (acquire_mount mp) (\<lambda>i. op_ok (i, relpath))))"

definition release_mount :: "nat \<Rightarrow> (('c, 'f, 'h, 'w) vfs_state, unit) kop" where
  "release_mount i v =
     Some (case release_slot i (mounts v) of Inl f \<Rightarrow> Inl f | Inr ms \<Rightarrow> Inr (Inr (), v\<lparr>mounts := ms\<rparr>))"

text \<open>A virtual call on the world of the file systems.\<close>

definition on_world :: "('w, 'a) xop \<Rightarrow> (('c, 'f, 'h, 'w) vfs_state, 'a) kop" where
  "on_world m v = (case m (world v) of None \<Rightarrow> None | Some (r, w) \<Rightarrow> Some (Inr (r, v\<lparr>world := w\<rparr>)))"

text \<open>A call on the file system of a resolved path; the reference is dropped on every way out.\<close>

definition with_mount :: "bytes option \<Rightarrow> (nat \<Rightarrow> bytes \<Rightarrow> (('c, 'f, 'h, 'w) vfs_state, 'a) kop) \<Rightarrow>
    (('c, 'f, 'h, 'w) vfs_state, 'a) kop" where
  "with_mount path body =
     k_try (k_of (resolve_path path)) (\<lambda>(i, relpath).
       k_bind (body i relpath) (\<lambda>r. k_bind (release_mount i) (\<lambda>_. k_ret r)))"

text \<open>The file system behind a slot; the callers hold a reference, so the pointer is set.\<close>

definition fs_of :: "(('c, 'f, 'h, 'w) vfs_state) \<Rightarrow> nat \<Rightarrow> 'f option" where
  "fs_of v i = mfs (mounts v ! i)"

definition call_fs :: "nat \<Rightarrow> ('f \<Rightarrow> ('w, 'a) xop) \<Rightarrow> (('c, 'f, 'h, 'w) vfs_state, 'a) kop" where
  "call_fs i m v = (case fs_of v i of None \<Rightarrow> Some (Inl Panicked) | Some f \<Rightarrow> on_world (m f) v)"

section \<open>Mounting\<close>

fun find_factory :: "(bytes \<times> 'c) list \<Rightarrow> bytes \<Rightarrow> 'c option" where
  "find_factory [] t = None"
| "find_factory ((n, c) # es) t = (if n = t then Some c else find_factory es t)"

text \<open>The section at the start of \<^verbatim>\<open>mount\<close> that reserves the slot.\<close>

definition mount_begin :: "(bytes \<times> 'c) list \<Rightarrow> bytes \<Rightarrow> bytes \<Rightarrow> ('f mount_slot list, nat \<times> 'c) op" where
  "mount_begin reg mp fs_type ms =
     (case find_slot ms (Some mp) of
        None \<Rightarrow> (Inl NotFound, ms)
      | Some i \<Rightarrow>
          if transitioning (ms ! i) then (Inl Busy, ms)
          else if mfs (ms ! i) \<noteq> None then (Inl Exists, ms)
          else case find_factory reg fs_type of
                 None \<Rightarrow> (Inl NotFound, ms)
               | Some c \<Rightarrow> (Inr (i, c), upd_slot i (\<lambda>s. s\<lparr>transitioning := True\<rparr>) ms))"

definition mount_publish :: "nat \<Rightarrow> 'f \<Rightarrow> nat option \<Rightarrow> bytes option \<Rightarrow> bytes \<Rightarrow>
    'f mount_slot list \<Rightarrow> 'f mount_slot list" where
  "mount_publish i f dev dev_name fs_type ms =
     upd_slot i (\<lambda>s. s\<lparr>mfs_type := Some fs_type, mdevice := dev, mdevice_name := dev_name, mfs := Some f\<rparr>) ms"

definition end_transition :: "nat \<Rightarrow> error + 'a \<Rightarrow> (('c, 'f, 'h, 'w) vfs_state, 'a) kop" where
  "end_transition i r v = k_ret r (v\<lparr>mounts := finish_transition i (mounts v)\<rparr>)"

definition mount_owner :: "('c, 'f, 'h, 'v, 'w) fs_class \<Rightarrow> nat \<Rightarrow> 'f \<Rightarrow> nat option \<Rightarrow> bytes option \<Rightarrow> bytes \<Rightarrow>
    (('c, 'f, 'h, 'w) vfs_state, unit) kop" where
  "mount_owner cls i f dev dev_name fs_type =
     k_bind (on_world (fc_mount cls f dev)) (\<lambda>r v.
       case r of
         Inl e \<Rightarrow> end_transition i (Inl e) (v\<lparr>world := fc_delete cls f (world v)\<rparr>)
       | Inr _ \<Rightarrow> end_transition i (Inr ()) (v\<lparr>mounts := mount_publish i f dev dev_name fs_type (mounts v)\<rparr>))"

definition vfs_mount :: "('c, 'f, 'h, 'v, 'w) fs_class \<Rightarrow> bytes option \<Rightarrow> (nat \<times> bytes) option \<Rightarrow> bytes option \<Rightarrow>
    (('c, 'f, 'h, 'w) vfs_state, unit) kop" where
  "vfs_mount cls mp dev fs_type =
     (case (mp, fs_type) of
        (Some p, Some t) \<Rightarrow>
          (\<lambda>v. k_try (k_of (on_mounts (mount_begin (fs_registry v) p t))) (\<lambda>(i, c) v.
             case fc_create cls c (world v) of
               (None, w) \<Rightarrow> end_transition i (Inl NoMem) (v\<lparr>world := w\<rparr>)
             | (Some f, w) \<Rightarrow>
                 mount_owner cls i f (map_option fst dev) (map_option snd dev) t (v\<lparr>world := w\<rparr>)) v)
      | _ \<Rightarrow> k_ret (Inl Invalid))"

text \<open>The section of \<^verbatim>\<open>umount\<close> that takes the file system out of its slot.\<close>

definition umount_begin :: "bytes \<Rightarrow> ('f mount_slot list, nat \<times> 'f) op" where
  "umount_begin mp ms =
     (case find_slot ms (Some mp) of
        None \<Rightarrow> (Inl NotFound, ms)
      | Some i \<Rightarrow>
          if transitioning (ms ! i) then (Inl Busy, ms)
          else case mfs (ms ! i) of
                 None \<Rightarrow> (Inl NotFound, ms)
               | Some f \<Rightarrow>
                   if users (ms ! i) \<noteq> 0 then (Inl Busy, ms)
                   else (Inr (i, f), upd_slot i (\<lambda>s. s\<lparr>transitioning := True, mfs := None, mfs_type := None,
                          mdevice := None, mdevice_name := None\<rparr>) ms))"

definition vfs_umount :: "('c, 'f, 'h, 'v, 'w) fs_class \<Rightarrow> bytes option \<Rightarrow> (('c, 'f, 'h, 'w) vfs_state, unit) kop" where
  "vfs_umount cls mp =
     (case mp of
        None \<Rightarrow> k_ret (Inl Invalid)
      | Some p \<Rightarrow>
          k_try (k_of (on_mounts (umount_begin p))) (\<lambda>(i, f) v.
            end_transition i (Inr ()) (v\<lparr>world := fc_delete cls f (fc_unmount cls f (world v))\<rparr>)))"

definition vfs_init :: "('c, 'f, 'h, 'v, 'w) fs_class \<Rightarrow> (('c, 'f, 'h, 'w) vfs_state, unit) kop" where
  "vfs_init cls = vfs_mount cls (Some (str ''/dev'')) None (Some (str ''devfs''))"

definition register_fs :: "bytes option \<Rightarrow> 'c option \<Rightarrow> (('c, 'f, 'h, 'w) vfs_state, unit) op" where
  "register_fs name factory v =
     (case (name, factory) of
        (Some n, Some c) \<Rightarrow>
          if length (fs_registry v) < MAX_FS_TYPES
          then (Inr (), v\<lparr>fs_registry := fs_registry v @ [(n, c)]\<rparr>) else (Inl Full, v)
      | _ \<Rightarrow> (Inl Invalid, v))"

section \<open>Files\<close>

text \<open>\<^verbatim>\<open>~File\<close>: the derived part of the object goes first, then the reference is dropped.\<close>

definition vfs_close :: "('c, 'f, 'h, 'v, 'w) fs_class \<Rightarrow> 'h option \<Rightarrow> (('c, 'f, 'h, 'w) vfs_state, unit) kop" where
  "vfs_close cls file v =
     (case file of
        None \<Rightarrow> k_ret (Inr ()) v
      | Some h \<Rightarrow>
          let v = v\<lparr>world := fh_delete cls h (world v)\<rparr>
          in case mount_of v h of
               None \<Rightarrow> k_ret (Inr ()) v
             | Some i \<Rightarrow> release_mount i (v\<lparr>mount_of := (mount_of v)(h := None)\<rparr>))"

definition take_reference :: "nat \<Rightarrow> 'h \<Rightarrow> (('c, 'f, 'h, 'w) vfs_state, 'h) kop" where
  "take_reference i h =
     k_assert (\<lambda>v. mount_of v h = None) (\<lambda>v. k_ret (Inr h) (v\<lparr>mount_of := (mount_of v)(h := Some i)\<rparr>))"

definition vfs_open :: "('c, 'f, 'h, 'v, 'w) fs_class \<Rightarrow> bytes option \<Rightarrow> (('c, 'f, 'h, 'w) vfs_state, 'h) kop" where
  "vfs_open cls path =
     k_try (k_of (resolve_path path)) (\<lambda>(i, relpath).
       let give_up = (\<lambda>e. k_bind (release_mount i) (\<lambda>_. k_ret (Inl e)))
       in if relpath = [] then give_up Invalid
          else k_bind (call_fs i (\<lambda>f. fc_open cls f relpath)) (\<lambda>r.
                 case r of
                   Inl e \<Rightarrow> give_up e
                 | Inr None \<Rightarrow> give_up Io
                 | Inr (Some h) \<Rightarrow> take_reference i h))"

definition vfs_read :: "('c, 'f, 'h, 'v, 'w) fs_class \<Rightarrow> 'h option \<Rightarrow> bytes option \<Rightarrow> u64 \<Rightarrow> u64 \<Rightarrow>
    (('c, 'f, 'h, 'w) vfs_state, int \<times> bytes) kop" where
  "vfs_read cls file buf len offset =
     (case (file, buf) of
        (Some h, Some b) \<Rightarrow> on_world (fh_read cls h b len offset) | _ \<Rightarrow> k_ret (Inl Invalid))"

definition vfs_write :: "('c, 'f, 'h, 'v, 'w) fs_class \<Rightarrow> 'h option \<Rightarrow> bytes option \<Rightarrow> u64 \<Rightarrow> u64 \<Rightarrow>
    (('c, 'f, 'h, 'w) vfs_state, int) kop" where
  "vfs_write cls file buf len offset =
     (case (file, buf) of
        (Some h, Some b) \<Rightarrow> on_world (fh_write cls h b len offset) | _ \<Rightarrow> k_ret (Inl Invalid))"

section \<open>Calls by path\<close>

definition vfs_stat :: "('c, 'f, 'h, 'v, 'w) fs_class \<Rightarrow> bytes option \<Rightarrow> bool \<Rightarrow> (('c, 'f, 'h, 'w) vfs_state, vstat) kop" where
  "vfs_stat cls path have_st =
     k_ensure have_st Invalid (with_mount path (\<lambda>i p. call_fs i (\<lambda>f. fc_stat cls f p)))"

definition vfs_readdir :: "('c, 'f, 'h, 'v, 'w) fs_class \<Rightarrow> bytes option \<Rightarrow> ('v \<Rightarrow> vdirent \<Rightarrow> bool \<times> 'v) \<Rightarrow> 'v \<Rightarrow>
    (('c, 'f, 'h, 'w) vfs_state, int \<times> 'v) kop" where
  "vfs_readdir cls path vis v0 = with_mount path (\<lambda>i p. call_fs i (\<lambda>f. fc_readdir cls f p vis v0))"

definition vfs_mkdir :: "('c, 'f, 'h, 'v, 'w) fs_class \<Rightarrow> bytes option \<Rightarrow> (('c, 'f, 'h, 'w) vfs_state, unit) kop" where
  "vfs_mkdir cls path = with_mount path (\<lambda>i p. call_fs i (\<lambda>f. fc_mkdir cls f p))"

definition vfs_create :: "('c, 'f, 'h, 'v, 'w) fs_class \<Rightarrow> bytes option \<Rightarrow> (('c, 'f, 'h, 'w) vfs_state, unit) kop" where
  "vfs_create cls path = with_mount path (\<lambda>i p. call_fs i (\<lambda>f. fc_new_file cls f p))"

definition vfs_unlink :: "('c, 'f, 'h, 'v, 'w) fs_class \<Rightarrow> bytes option \<Rightarrow> (('c, 'f, 'h, 'w) vfs_state, unit) kop" where
  "vfs_unlink cls path = with_mount path (\<lambda>i p. call_fs i (\<lambda>f. fc_unlink cls f p))"

definition vfs_rmdir :: "('c, 'f, 'h, 'v, 'w) fs_class \<Rightarrow> bytes option \<Rightarrow> (('c, 'f, 'h, 'w) vfs_state, unit) kop" where
  "vfs_rmdir cls path = with_mount path (\<lambda>i p. call_fs i (\<lambda>f. fc_rmdir cls f p))"

definition is_mounted :: "('c, 'f, 'h, 'w) vfs_state \<Rightarrow> bytes option \<Rightarrow> bool" where
  "is_mounted v mp = (case find_slot (mounts v) mp of None \<Rightarrow> False | Some i \<Rightarrow> fs_of v i \<noteq> None)"

definition mounted_device :: "('c, 'f, 'h, 'w) vfs_state \<Rightarrow> bytes option \<Rightarrow> bytes option" where
  "mounted_device v mp =
     (case find_slot (mounts v) mp of
        None \<Rightarrow> None
      | Some i \<Rightarrow> if fs_of v i = None then None else mdevice_name (mounts v ! i))"

section \<open>Basic facts\<close>

lemma length_upd_slot [simp]: "length (upd_slot i f ms) = length ms"
  by (simp add: upd_slot_def)

lemma nth_upd_slot: "i < length ms \<Longrightarrow> upd_slot i f ms ! j = (if j = i then f (ms ! i) else ms ! j)"
  by (simp add: upd_slot_def)

lemma find_slot_from_bound: "find_slot_from ms k mp = Some i \<Longrightarrow> k \<le> i \<and> i < k + length ms \<and> mount_point (ms ! (i - k)) = mp"
proof (induction ms arbitrary: k)
  case (Cons s ss)
  then show ?case
  proof (cases "mount_point s = mp")
    case False
    with Cons.prems have "find_slot_from ss (k + 1) mp = Some i" by simp
    from Cons.IH [OF this] show ?thesis by (auto simp: nth_Cons')
  qed simp
qed simp

lemma find_slot_Some: "find_slot ms (Some mp) = Some i \<Longrightarrow> i < length ms \<and> mount_point (ms ! i) = mp"
  using find_slot_from_bound [of ms 0 mp i] by (simp add: find_slot_def)

lemma acquire_slot_Inr:
  assumes "acquire_slot mp ms = (Inr i, ms')"
  shows "i < length ms" "mfs (ms ! i) \<noteq> None" "ms' = upd_slot i (\<lambda>s. s\<lparr>users := users s + 1\<rparr>) ms"
  using assms by (auto simp: acquire_slot_def dest: find_slot_Some split: option.splits if_splits)

lemma acquire_slot_Inl: "acquire_slot mp ms = (Inl e, ms') \<Longrightarrow> ms' = ms"
  by (auto simp: acquire_slot_def split: option.splits if_splits)

lemma mount_begin_Inr:
  assumes "mount_begin reg mp t ms = (Inr (i, c), ms')"
  shows "i < length ms" "\<not> transitioning (ms ! i)" "mfs (ms ! i) = None"
    "ms' = upd_slot i (\<lambda>s. s\<lparr>transitioning := True\<rparr>) ms"
  using assms by (auto simp: mount_begin_def dest: find_slot_Some split: option.splits if_splits)

lemma mount_begin_Inl: "mount_begin reg mp t ms = (Inl e, ms') \<Longrightarrow> ms' = ms"
  by (auto simp: mount_begin_def split: option.splits if_splits)

lemma umount_begin_Inr:
  assumes "umount_begin mp ms = (Inr (i, f), ms')"
  shows "i < length ms" "\<not> transitioning (ms ! i)" "mfs (ms ! i) = Some f" "users (ms ! i) = 0"
    "ms' = upd_slot i (\<lambda>s. s\<lparr>transitioning := True, mfs := None, mfs_type := None, mdevice := None,
       mdevice_name := None\<rparr>) ms"
  using assms by (auto simp: umount_begin_def dest: find_slot_Some split: option.splits if_splits)

lemma umount_begin_Inl: "umount_begin mp ms = (Inl e, ms') \<Longrightarrow> ms' = ms"
  by (auto simp: umount_begin_def split: option.splits if_splits)

section \<open>The counters are the open files\<close>

text \<open>\<open>xs\<close> are the references that the running call holds besides the open files.\<close>

definition open_at :: "('h \<Rightarrow> nat option) \<Rightarrow> nat \<Rightarrow> nat" where
  "open_at mo i = card {h. mo h = Some i}"

definition users_exact :: "nat list \<Rightarrow> 'f mount_slot list \<Rightarrow> ('h \<Rightarrow> nat option) \<Rightarrow> bool" where
  "users_exact xs ms mo \<longleftrightarrow>
     finite (dom mo) \<and> ran mo \<subseteq> {..<length ms} \<and> set xs \<subseteq> {..<length ms} \<and>
     (\<forall>i<length ms. users (ms ! i) = open_at mo i + count_list xs i \<and>
        (users (ms ! i) \<noteq> 0 \<longrightarrow> mfs (ms ! i) \<noteq> None))"

lemma users_exactD:
  assumes "users_exact xs ms mo"
  shows "finite (dom mo)" "ran mo \<subseteq> {..<length ms}" "set xs \<subseteq> {..<length ms}"
    "\<And>i. i < length ms \<Longrightarrow> users (ms ! i) = open_at mo i + count_list xs i"
    "\<And>i. i < length ms \<Longrightarrow> users (ms ! i) \<noteq> 0 \<Longrightarrow> mfs (ms ! i) \<noteq> None"
  using assms by (auto simp: users_exact_def)

lemma users_exact_acquire:
  assumes "users_exact xs ms mo" and "acquire_slot mp ms = (Inr i, ms')"
  shows "users_exact (i # xs) ms' mo"
  using users_exactD [OF assms(1)] acquire_slot_Inr [OF assms(2)]
  by (auto simp: users_exact_def nth_upd_slot)

lemma users_exact_release:
  assumes "users_exact (i # xs) ms mo"
  shows "\<exists>ms'. release_slot i ms = Inr ms' \<and> users_exact xs ms' mo"
proof -
  note d = users_exactD [OF assms]
  have i: "i < length ms" using d(3) by simp
  then have "users (ms ! i) \<noteq> 0" using d(4) [OF i] by simp
  then show ?thesis using d i
    by (auto simp: release_slot_def users_exact_def nth_upd_slot)
qed

lemma open_at_update:
  assumes "finite (dom mo)" and "mo h = None"
  shows "open_at (mo(h \<mapsto> i)) j = open_at mo j + (if j = i then 1 else 0)"
proof -
  have "finite {x. mo x = Some j}" using assms(1) by (rule finite_subset [rotated]) auto
  moreover have "{x. (mo(h \<mapsto> i)) x = Some j} = (if j = i then insert h {x. mo x = Some j} else {x. mo x = Some j})"
    using assms(2) by auto
  ultimately show ?thesis unfolding open_at_def using assms(2) by (cases "j = i") simp_all
qed

lemma users_exact_take:
  assumes "users_exact (i # xs) ms mo" and "mo h = None"
  shows "users_exact xs ms (mo(h \<mapsto> i))"
proof -
  note d = users_exactD [OF assms(1)]
  have "ran (mo(h \<mapsto> i)) \<subseteq> {..<length ms}" using d(2,3) assms(2) by (simp add: ran_map_upd)
  moreover have "\<And>j. j < length ms \<Longrightarrow> users (ms ! j) = open_at (mo(h \<mapsto> i)) j + count_list xs j"
    using d(4) by (simp add: open_at_update [OF d(1) assms(2)])
  ultimately show ?thesis using d by (simp add: users_exact_def)
qed

lemma users_exact_drop:
  assumes "users_exact xs ms mo" and "mo h = Some i"
  shows "users_exact (i # xs) ms (mo(h := None))"
proof -
  note d = users_exactD [OF assms(1)]
  have i: "i < length ms" using d(2) assms(2) by (auto intro: ranI)
  have mo: "(mo(h := None))(h \<mapsto> i) = mo" using assms(2) by auto
  have "open_at mo j = open_at (mo(h := None)) j + (if j = i then 1 else 0)" for j
    using open_at_update [of "mo(h := None)" h i j] d(1) unfolding mo by simp
  then have "\<And>j. j < length ms \<Longrightarrow> users (ms ! j) = open_at (mo(h := None)) j + count_list (i # xs) j"
    using d(4) by simp
  moreover have "ran (mo(h := None)) \<subseteq> {..<length ms}" using d(2) by (auto simp: ran_def)
  moreover have "finite (dom (mo(h := None)))" using d(1) by (rule finite_subset [rotated]) auto
  ultimately show ?thesis using d(3,5) i by (simp add: users_exact_def)
qed

lemma users_exact_mono:
  assumes "users_exact xs ms mo" and "length ms' = length ms"
    and "\<And>i. i < length ms \<Longrightarrow> users (ms' ! i) = users (ms ! i) \<and> (users (ms ! i) \<noteq> 0 \<longrightarrow> mfs (ms ! i) \<noteq> None \<longrightarrow> mfs (ms' ! i) \<noteq> None)"
  shows "users_exact xs ms' mo"
  using users_exactD [OF assms(1)] assms(2,3) by (auto simp: users_exact_def)

lemma users_exact_transitions:
  assumes "users_exact xs ms mo"
  shows "mount_begin reg mp t ms = (Inr (j, c), ms') \<Longrightarrow> users_exact xs ms' mo"
    "umount_begin mp ms = (Inr (j, f), ms') \<Longrightarrow> users_exact xs ms' mo"
    "j < length ms \<Longrightarrow> users_exact xs (finish_transition j ms) mo"
    "j < length ms \<Longrightarrow> users_exact xs (mount_publish j f dev nm t ms) mo"
proof -
  show "users_exact xs ms' mo" if "mount_begin reg mp t ms = (Inr (j, c), ms')"
    using mount_begin_Inr [OF that] by (intro users_exact_mono [OF assms]) (auto simp: nth_upd_slot)
  show "users_exact xs ms' mo" if "umount_begin mp ms = (Inr (j, f), ms')"
    using umount_begin_Inr [OF that] by (intro users_exact_mono [OF assms]) (auto simp: nth_upd_slot)
  show "users_exact xs (finish_transition j ms) mo" if "j < length ms"
    using that by (intro users_exact_mono [OF assms]) (auto simp: finish_transition_def nth_upd_slot)
  show "users_exact xs (mount_publish j f dev nm t ms) mo" if "j < length ms"
    using that by (intro users_exact_mono [OF assms]) (auto simp: mount_publish_def nth_upd_slot)
qed

definition vfs_inv :: "('w \<Rightarrow> 'h set) \<Rightarrow> nat list \<Rightarrow> ('c, 'f, 'h, 'w) vfs_state \<Rightarrow> bool" where
  "vfs_inv live xs v \<longleftrightarrow> users_exact xs (mounts v) (mount_of v) \<and> dom (mount_of v) \<subseteq> live (world v)"

lemma vfs_invD:
  assumes "vfs_inv live xs v"
  shows "users_exact xs (mounts v) (mount_of v)" "dom (mount_of v) \<subseteq> live (world v)"
  using assms by (simp_all add: vfs_inv_def)

subsection \<open>Sequences of calls\<close>

datatype ('h, 'v) vfs_call =
    Do_mount "bytes option" "(nat \<times> bytes) option" "bytes option"
  | Do_umount "bytes option"
  | Do_open "bytes option"
  | Do_close "'h option"
  | Do_read "'h option" "bytes option" u64 u64
  | Do_write "'h option" "bytes option" u64 u64
  | Do_stat "bytes option" bool
  | Do_readdir "bytes option" "'v \<Rightarrow> vdirent \<Rightarrow> bool \<times> 'v" 'v
  | Do_mkdir "bytes option"
  | Do_create "bytes option"
  | Do_unlink "bytes option"
  | Do_rmdir "bytes option"

definition k_state :: "('s, 'a) kop \<Rightarrow> 's \<Rightarrow> 's exec" where
  "k_state m s = (case m s of None \<Rightarrow> None | Some (Inl f) \<Rightarrow> Some (Inl f) | Some (Inr (r, s')) \<Rightarrow> Some (Inr s'))"

fun vfs_exec :: "('c, 'f, 'h, 'v, 'w) fs_class \<Rightarrow> ('h, 'v) vfs_call \<Rightarrow> ('c, 'f, 'h, 'w) vfs_state \<Rightarrow>
    (('c, 'f, 'h, 'w) vfs_state) exec" where
  "vfs_exec cls (Do_mount mp dev t) = k_state (vfs_mount cls mp dev t)"
| "vfs_exec cls (Do_umount mp) = k_state (vfs_umount cls mp)"
| "vfs_exec cls (Do_open p) = k_state (vfs_open cls p)"
| "vfs_exec cls (Do_close h) = k_state (vfs_close cls h)"
| "vfs_exec cls (Do_read h buf n off) = k_state (vfs_read cls h buf n off)"
| "vfs_exec cls (Do_write h buf n off) = k_state (vfs_write cls h buf n off)"
| "vfs_exec cls (Do_stat p have_st) = k_state (vfs_stat cls p have_st)"
| "vfs_exec cls (Do_readdir p vis v0) = k_state (vfs_readdir cls p vis v0)"
| "vfs_exec cls (Do_mkdir p) = k_state (vfs_mkdir cls p)"
| "vfs_exec cls (Do_create p) = k_state (vfs_create cls p)"
| "vfs_exec cls (Do_unlink p) = k_state (vfs_unlink cls p)"
| "vfs_exec cls (Do_rmdir p) = k_state (vfs_rmdir cls p)"

fun vfs_run :: "('c, 'f, 'h, 'v, 'w) fs_class \<Rightarrow> ('h, 'v) vfs_call list \<Rightarrow> ('c, 'f, 'h, 'w) vfs_state \<Rightarrow>
    (('c, 'f, 'h, 'w) vfs_state) exec" where
  "vfs_run cls [] v = Some (Inr v)"
| "vfs_run cls (c # cs) v =
     (case vfs_exec cls c v of
        None \<Rightarrow> None | Some (Inl f) \<Rightarrow> Some (Inl f) | Some (Inr v') \<Rightarrow> vfs_run cls cs v')"

lemma k_state_holds:
  assumes "k_holds m s (\<lambda>_. P)"
  shows "k_state m s \<noteq> Some (Inl f)" "k_state m s = Some (Inr s') \<Longrightarrow> P s'"
  using assms by (auto simp: k_holds_def k_state_def split: option.splits sum.splits)

subsection \<open>What the implementations of file systems promise\<close>

text \<open>\<open>live\<close> are the file objects that exist; a call changes them only by creating or deleting one.\<close>

definition keeps :: "('w \<Rightarrow> 'h set) \<Rightarrow> ('w, 'a) xop \<Rightarrow> bool" where
  "keeps live m \<longleftrightarrow> (\<forall>w r w'. m w = Some (r, w') \<longrightarrow> live w' = live w)"

locale fs_contract =
  fixes cls :: "('c, 'f, 'h, 'v, 'w) fs_class" and live :: "'w \<Rightarrow> 'h set"
  assumes create_live: "fc_create cls c w = (r, w') \<Longrightarrow> live w' = live w"
    and unmount_live: "live (fc_unmount cls f w) = live w"
    and delete_live: "live (fc_delete cls f w) = live w"
    and open_new: "fc_open cls f p w = Some (Inr (Some h), w') \<Longrightarrow> h \<notin> live w \<and> live w' = insert h (live w)"
    and open_none: "fc_open cls f p w = Some (Inr None, w') \<Longrightarrow> live w' = live w"
    and open_error: "fc_open cls f p w = Some (Inl e, w') \<Longrightarrow> live w' = live w"
    and file_delete: "live (fh_delete cls h w) = live w - {h}"
    and mount_keeps: "keeps live (fc_mount cls f d)"
    and stat_keeps: "keeps live (fc_stat cls f p)"
    and readdir_keeps: "keeps live (fc_readdir cls f p vis v0)"
    and change_keeps: "keeps live (fc_mkdir cls f p)" "keeps live (fc_new_file cls f p)"
      "keeps live (fc_unlink cls f p)" "keeps live (fc_rmdir cls f p)"
    and io_keeps: "keeps live (fh_read cls h buf n off)" "keeps live (fh_write cls h buf n off)"
begin

lemma on_world_inv:
  assumes "keeps live m" and "vfs_inv live xs v"
  shows "k_holds (on_world m) v (\<lambda>r v'. vfs_inv live xs v' \<and> mounts v' = mounts v)"
  using assms by (auto simp: k_holds_def on_world_def keeps_def vfs_inv_def split: option.splits)

lemma resolve_inv:
  assumes "vfs_inv live [] v"
  shows "k_holds (k_of (resolve_path path)) v
    (\<lambda>r v'. case r of Inl e \<Rightarrow> vfs_inv live [] v' | Inr (i, p) \<Rightarrow> vfs_inv live [i] v')"
proof (cases path)
  case None
  then show ?thesis using assms by (simp add: k_holds_of resolve_path_def)
next
  case (Some p)
  obtain mp rel where sp: "mount_split_path p = (mp, rel)" by fastforce
  obtain r ms where a: "acquire_slot mp (mounts v) = (r, ms)" by fastforce
  show ?thesis
  proof (cases r)
    case (Inl e)
    with acquire_slot_Inl a have "ms = mounts v" by blast
    with assms show ?thesis
      by (simp add: k_holds_of resolve_path_def Some sp acquire_mount_def on_mounts_def a op_try_def Inl)
  next
    case (Inr i)
    with users_exact_acquire [OF vfs_invD(1) [OF assms]] a have "users_exact [i] ms (mount_of v)" by blast
    with vfs_invD(2) [OF assms] show ?thesis
      by (simp add: k_holds_of resolve_path_def Some sp acquire_mount_def on_mounts_def a op_try_def Inr vfs_inv_def)
  qed
qed

lemma release_inv:
  assumes "vfs_inv live (i # xs) v"
  shows "k_holds (release_mount i) v (\<lambda>r v'. vfs_inv live xs v')"
  using users_exact_release [OF vfs_invD(1) [OF assms]] vfs_invD(2) [OF assms]
  by (auto simp: k_holds_def release_mount_def vfs_inv_def)

lemma released_inv:
  assumes "vfs_inv live (i # xs) v"
  shows "k_holds (k_bind (release_mount i) (\<lambda>_. k_ret r)) v (\<lambda>r v'. vfs_inv live xs v')"
  by (rule k_holds_bind [OF release_inv [OF assms]]) simp

lemma held_mounted:
  assumes "vfs_inv live (i # xs) v"
  obtains f where "fs_of v i = Some f"
proof -
  note d = users_exactD [OF vfs_invD(1) [OF assms]]
  have i: "i < length (mounts v)" using d(3) by simp
  have "users (mounts v ! i) \<noteq> 0" using d(4) [OF i] by simp
  with d(5) [OF i] that show thesis by (auto simp: fs_of_def)
qed

lemma call_fs_inv:
  assumes "\<And>f. keeps live (m f)" and "vfs_inv live (i # xs) v"
  shows "k_holds (call_fs i m) v (\<lambda>r v'. vfs_inv live (i # xs) v')"
proof -
  obtain f where "fs_of v i = Some f" using held_mounted [OF assms(2)] .
  then have "k_holds (call_fs i m) v Q = k_holds (on_world (m f)) v Q" for Q
    by (simp add: call_fs_def k_holds_def)
  with k_holds_mono [OF on_world_inv [OF assms]] show ?thesis by auto
qed

lemma with_resolved:
  assumes "vfs_inv live [] v" and "\<And>i p v'. vfs_inv live [i] v' \<Longrightarrow> k_holds (body i p) v' (\<lambda>_. vfs_inv live [])"
  shows "k_holds (k_try (k_of (resolve_path path)) (\<lambda>(i, p). body i p)) v (\<lambda>_. vfs_inv live [])"
  by (rule k_holds_try [OF resolve_inv [OF assms(1)]]) (auto intro: assms(2))

lemma with_mount_inv:
  assumes "\<And>f p. keeps live (m f p)" and "vfs_inv live [] v"
  shows "k_holds (with_mount path (\<lambda>i p. call_fs i (\<lambda>f. m f p))) v (\<lambda>_. vfs_inv live [])"
  unfolding with_mount_def
  by (rule with_resolved [OF assms(2)], rule k_holds_bind [OF call_fs_inv [OF assms(1)] released_inv])

lemma call_open_inv:
  assumes "vfs_inv live [i] v"
  shows "k_holds (call_fs i (\<lambda>f. fc_open cls f p)) v
    (\<lambda>r v'. vfs_inv live [i] v' \<and> (case r of Inr (Some h) \<Rightarrow> mount_of v' h = None \<and> h \<in> live (world v') | _ \<Rightarrow> True))"
proof -
  obtain f where f: "fs_of v i = Some f" using held_mounted [OF assms] .
  note d = vfs_invD [OF assms]
  show ?thesis
  proof (cases "fc_open cls f p (world v)")
    case (Some x)
    moreover obtain r w where x: "x = (r, w)" by fastforce
    ultimately have eq: "k_holds (call_fs i (\<lambda>f. fc_open cls f p)) v Q = Q r (v\<lparr>world := w\<rparr>)" for Q
      by (simp add: k_holds_def call_fs_def f on_world_def)
    show ?thesis
    proof (cases r)
      case (Inl e)
      then show ?thesis unfolding eq using open_error Some x d by (simp add: vfs_inv_def)
    next
      case (Inr b)
      then show ?thesis unfolding eq
        using open_new [of f p "world v"] open_none [of f p "world v"] Some x d
        by (cases b) (auto simp: vfs_inv_def)
    qed
  qed (simp add: k_holds_def call_fs_def f on_world_def)
qed

lemma take_inv:
  assumes "vfs_inv live [i] v" and "mount_of v h = None" and "h \<in> live (world v)"
  shows "k_holds (take_reference i h) v (\<lambda>_. vfs_inv live [])"
  using users_exact_take [OF vfs_invD(1) [OF assms(1)] assms(2)] vfs_invD(2) [OF assms(1)] assms(2,3)
  by (simp add: take_reference_def k_holds_def k_assert_def vfs_inv_def)

lemma open_inv:
  assumes "vfs_inv live [] v"
  shows "k_holds (vfs_open cls path) v (\<lambda>_. vfs_inv live [])"
  unfolding vfs_open_def Let_def
proof (rule with_resolved [OF assms], goal_cases)
  case (1 i p v')
  then show ?case
  proof (cases "p = []")
    case False
    show ?thesis unfolding if_not_P [OF False]
      by (rule k_holds_bind [OF call_open_inv [OF 1]]) (auto split: sum.splits option.splits intro: released_inv take_inv)
  qed (simp add: released_inv)
qed

lemma close_inv:
  assumes "vfs_inv live [] v"
  shows "k_holds (vfs_close cls h) v (\<lambda>_. vfs_inv live [])"
proof (cases h)
  case (Some x)
  let ?v = "v\<lparr>world := fh_delete cls x (world v)\<rparr>"
  note d = vfs_invD [OF assms]
  show ?thesis
  proof (cases "mount_of v x")
    case None
    then show ?thesis using d file_delete Some by (auto simp: k_holds_def vfs_close_def vfs_inv_def)
  next
    case (Some i)
    have "vfs_inv live [i] (?v\<lparr>mount_of := (mount_of v)(x := None)\<rparr>)"
      using users_exact_drop [OF d(1) Some] d(2) file_delete by (auto simp: vfs_inv_def)
    from release_inv [OF this] show ?thesis using \<open>h = Some x\<close> Some
      by (simp add: vfs_close_def k_holds_def)
  qed
qed (use assms in \<open>simp add: vfs_close_def k_holds_def\<close>)

lemma end_transition_inv:
  assumes "vfs_inv live [] v" and "i < length (mounts v)"
  shows "k_holds (end_transition i r) v (\<lambda>_. vfs_inv live [])"
  using users_exact_transitions(3) [OF vfs_invD(1) [OF assms(1)] assms(2)] vfs_invD(2) [OF assms(1)]
  by (simp add: end_transition_def k_holds_def vfs_inv_def)

lemma mount_owner_inv:
  assumes "vfs_inv live [] v" and "i < length (mounts v)"
  shows "k_holds (mount_owner cls i f dev nm t) v (\<lambda>_. vfs_inv live [])"
  unfolding mount_owner_def
proof (rule k_holds_bind [OF on_world_inv [OF mount_keeps assms(1)]], goal_cases)
  case (1 r v')
  note d = vfs_invD [OF conjunct1 [OF 1]]
  have i: "i < length (mounts v')" using 1 assms(2) by simp
  show ?case
  proof (cases r)
    case (Inl e)
    have "vfs_inv live [] (v'\<lparr>world := fc_delete cls f (world v')\<rparr>)"
      using d by (simp add: vfs_inv_def delete_live)
    from end_transition_inv [OF this] i Inl show ?thesis by (simp add: k_holds_def)
  next
    case (Inr u)
    have "vfs_inv live [] (v'\<lparr>mounts := mount_publish i f dev nm t (mounts v')\<rparr>)"
      using users_exact_transitions(4) [OF d(1) i] d(2) by (simp add: vfs_inv_def)
    from end_transition_inv [OF this] i Inr show ?thesis by (simp add: k_holds_def mount_publish_def)
  qed
qed

lemma mount_inv:
  assumes "vfs_inv live [] v"
  shows "k_holds (vfs_mount cls mp dev t) v (\<lambda>_. vfs_inv live [])"
proof (cases "(mp, t)")
  case (Pair a b)
  show ?thesis
  proof (cases a)
    case None
    then show ?thesis using assms Pair by (simp add: vfs_mount_def k_holds_def)
  next
    case (Some p)
    note a = Some
    show ?thesis
    proof (cases b)
      case None
      then show ?thesis using assms Pair a by (simp add: vfs_mount_def k_holds_def)
    next
      case (Some tt)
      obtain r ms where mb: "mount_begin (fs_registry v) p tt (mounts v) = (r, ms)" by fastforce
      show ?thesis
      proof (cases r)
        case (Inl e)
        with mb mount_begin_Inl have "ms = mounts v" by blast
        then show ?thesis using assms Pair a Some Inl mb
          by (simp add: vfs_mount_def k_holds_def k_try_def k_bind_def on_mounts_def)
      next
        case (Inr ic)
        obtain i c where ic: "ic = (i, c)" by fastforce
        obtain q w where cr: "fc_create cls c (world v) = (q, w)" by fastforce
        let ?v = "v\<lparr>mounts := ms, world := w\<rparr>"
        have "users_exact [] ms (mount_of v)"
          using users_exact_transitions(1) [OF vfs_invD(1) [OF assms] mb [unfolded Inr ic]] .
        then have inv: "vfs_inv live [] ?v" using vfs_invD(2) [OF assms] create_live [OF cr] by (simp add: vfs_inv_def)
        have i: "i < length (mounts ?v)" using mount_begin_Inr [OF mb [unfolded Inr ic]] by simp
        show ?thesis
          using Pair a Some Inr ic mb cr end_transition_inv [OF inv i, of "Inl NoMem"] mount_owner_inv [OF inv i]
          by (cases q) (simp_all add: vfs_mount_def k_holds_def k_try_def k_bind_def on_mounts_def)
      qed
    qed
  qed
qed

lemma umount_inv:
  assumes "vfs_inv live [] v"
  shows "k_holds (vfs_umount cls mp) v (\<lambda>_. vfs_inv live [])"
proof (cases mp)
  case (Some p)
  obtain r ms where mb: "umount_begin p (mounts v) = (r, ms)" by fastforce
  show ?thesis
  proof (cases r)
    case (Inl e)
    with mb umount_begin_Inl have "ms = mounts v" by blast
    then show ?thesis using assms Some Inl mb
      by (simp add: vfs_umount_def k_holds_def k_try_def k_bind_def on_mounts_def)
  next
    case (Inr ic)
    obtain i f where ic: "ic = (i, f)" by fastforce
    let ?v = "v\<lparr>mounts := ms, world := fc_delete cls f (fc_unmount cls f (world v))\<rparr>"
    have "users_exact [] ms (mount_of v)"
      using users_exact_transitions(2) [OF vfs_invD(1) [OF assms] mb [unfolded Inr ic]] .
    then have inv: "vfs_inv live [] ?v"
      using vfs_invD(2) [OF assms] by (simp add: vfs_inv_def delete_live unmount_live)
    have "i < length (mounts ?v)" using umount_begin_Inr [OF mb [unfolded Inr ic]] by simp
    from end_transition_inv [OF inv this, of "Inr ()"] show ?thesis using Some Inr ic mb
      by (simp add: vfs_umount_def k_holds_def k_try_def k_bind_def on_mounts_def)
  qed
qed (use assms in \<open>simp add: vfs_umount_def k_holds_def\<close>)

lemma io_inv:
  assumes "vfs_inv live [] v"
  shows "k_holds (vfs_read cls h buf n off) v (\<lambda>_. vfs_inv live [])"
    "k_holds (vfs_write cls h buf n off) v (\<lambda>_. vfs_inv live [])"
proof -
  note r = k_holds_mono [OF on_world_inv [OF io_keeps(1) assms], where Q = "\<lambda>_. vfs_inv live []"]
  note w = k_holds_mono [OF on_world_inv [OF io_keeps(2) assms], where Q = "\<lambda>_. vfs_inv live []"]
  show "k_holds (vfs_read cls h buf n off) v (\<lambda>_. vfs_inv live [])"
    by (cases h; cases buf) (simp_all add: vfs_read_def r assms)
  show "k_holds (vfs_write cls h buf n off) v (\<lambda>_. vfs_inv live [])"
    by (cases h; cases buf) (simp_all add: vfs_write_def w assms)
qed

lemma stat_inv:
  assumes "vfs_inv live [] v"
  shows "k_holds (vfs_stat cls p b) v (\<lambda>_. vfs_inv live [])"
  using with_mount_inv [OF stat_keeps assms] assms by (cases b) (simp_all add: vfs_stat_def)

lemmas path_call_defs = vfs_readdir_def vfs_mkdir_def vfs_create_def vfs_unlink_def vfs_rmdir_def

lemmas path_call_invs =
  with_mount_inv [OF readdir_keeps]
  with_mount_inv [OF change_keeps(1)]
  with_mount_inv [OF change_keeps(2)]
  with_mount_inv [OF change_keeps(3)]
  with_mount_inv [OF change_keeps(4)]

lemmas call_invs = mount_inv umount_inv open_inv close_inv io_inv stat_inv path_call_invs

lemma vfs_exec_inv:
  assumes "vfs_inv live [] v"
  shows "vfs_exec cls c v \<noteq> Some (Inl f)" and "vfs_exec cls c v = Some (Inr v') \<Longrightarrow> vfs_inv live [] v'"
proof -
  note h = call_invs [OF assms, THEN k_state_holds(1)]
  note g = call_invs [OF assms, THEN k_state_holds(2)]
  show "vfs_exec cls c v \<noteq> Some (Inl f)" by (cases c) (simp_all add: h path_call_defs)
  show "vfs_inv live [] v'" if "vfs_exec cls c v = Some (Inr v')"
    using that by (cases c) (auto simp: path_call_defs dest: g)
qed

lemma vfs_run_inv:
  assumes "vfs_inv live [] v"
  shows "vfs_run cls cs v = Some r \<Longrightarrow> \<exists>v'. r = Inr v' \<and> vfs_inv live [] v'"
  using assms
proof (induction cs arbitrary: v)
  case (Cons c cs)
  then obtain v1 where "vfs_exec cls c v = Some (Inr v1)" "vfs_run cls cs v1 = Some r"
    using vfs_exec_inv(1) [OF Cons.prems(2), of c] by (auto split: option.splits sum.splits)
  with Cons.IH vfs_exec_inv(2) [OF Cons.prems(2)] show ?case by blast
qed auto

end

section \<open>Calls leave no transition behind\<close>

text \<open>Between the calls of a sequence no slot is reserved by a mount or an unmount.\<close>

definition calm :: "('c, 'f, 'h, 'w) vfs_state \<Rightarrow> bool" where
  "calm v \<longleftrightarrow> (\<forall>i < length (mounts v). \<not> transitioning (mounts v ! i))"

definition same_transitions :: "'f mount_slot list \<Rightarrow> 'f mount_slot list \<Rightarrow> bool" where
  "same_transitions ms ms' \<longleftrightarrow>
     length ms' = length ms \<and> (\<forall>i < length ms. transitioning (ms' ! i) = transitioning (ms ! i))"

definition keeps_transitions :: "(('c, 'f, 'h, 'w) vfs_state, 'a) kop \<Rightarrow> bool" where
  "keeps_transitions m \<longleftrightarrow> (\<forall>v r v'. m v = Some (Inr (r, v')) \<longrightarrow> same_transitions (mounts v) (mounts v'))"

named_theorems transition_rules "calls that start and end no transition"

lemma nth_upd_slot_at: "j < length ms \<Longrightarrow> upd_slot i f ms ! j = (if j = i then f (ms ! j) else ms ! j)"
  by (cases "j = i") (simp_all add: upd_slot_def)

lemma same_transitions_refl [simp]: "same_transitions ms ms"
  by (simp add: same_transitions_def)

lemma transitions_ret [transition_rules]: "keeps_transitions (k_ret r)"
  by (simp add: keeps_transitions_def)

lemma transitions_bind [transition_rules]:
  assumes "keeps_transitions m" and "\<And>r. keeps_transitions (k r)"
  shows "keeps_transitions (k_bind m k)"
  unfolding keeps_transitions_def
proof (intro allI impI)
  fix v r v'
  assume "k_bind m k v = Some (Inr (r, v'))"
  then obtain q v1 where "m v = Some (Inr (q, v1))" "k q v1 = Some (Inr (r, v'))"
    by (auto simp: k_bind_def split: option.splits sum.splits)
  then have "same_transitions (mounts v) (mounts v1)" "same_transitions (mounts v1) (mounts v')"
    using assms by (auto simp: keeps_transitions_def)
  then show "same_transitions (mounts v) (mounts v')" by (simp add: same_transitions_def)
qed

lemma transitions_try [transition_rules]:
  "keeps_transitions m \<Longrightarrow> (\<And>a. keeps_transitions (k a)) \<Longrightarrow> keeps_transitions (k_try m k)"
  unfolding k_try_def by (rule transitions_bind) (auto split: sum.splits intro: transitions_ret)

lemma transitions_resolve [transition_rules]: "keeps_transitions (k_of (resolve_path p))"
proof -
  have "same_transitions ms ms'" if "acquire_slot mp ms = (r, ms')" for mp r and ms ms' :: "'b mount_slot list"
    using that acquire_slot_Inl [of mp ms] acquire_slot_Inr [of mp ms]
    by (cases r) (auto simp: same_transitions_def nth_upd_slot)
  then show ?thesis
    by (auto simp: keeps_transitions_def resolve_path_def acquire_mount_def on_mounts_def op_try_def
        split: option.splits prod.splits sum.splits)
qed

lemma transitions_release [transition_rules]: "keeps_transitions (release_mount i)"
  by (auto simp: keeps_transitions_def release_mount_def release_slot_def same_transitions_def
      nth_upd_slot_at split: sum.splits if_splits)

lemma transitions_world [transition_rules]: "keeps_transitions (on_world m)"
  by (auto simp: keeps_transitions_def on_world_def split: option.splits)

lemma transitions_call [transition_rules]: "keeps_transitions (call_fs i m)"
  using transitions_world by (auto simp: keeps_transitions_def call_fs_def split: option.splits)

lemma transitions_take [transition_rules]: "keeps_transitions (take_reference i h)"
  by (auto simp: keeps_transitions_def take_reference_def k_assert_def)

lemma transitions_with_mount [transition_rules]:
  "(\<And>i p. keeps_transitions (body i p)) \<Longrightarrow> keeps_transitions (with_mount path body)"
  unfolding with_mount_def by (auto intro!: transition_rules)

lemma transitions_open: "keeps_transitions (vfs_open cls p)"
  unfolding vfs_open_def Let_def
  by (auto intro!: transition_rules split: sum.splits option.splits)

lemma transitions_close: "keeps_transitions (vfs_close cls h)"
  using transitions_release
  by (fastforce simp: keeps_transitions_def vfs_close_def Let_def split: option.splits)

lemma transitions_ensure [transition_rules]: "keeps_transitions m \<Longrightarrow> keeps_transitions (k_ensure c e m)"
  by (cases c) (simp_all add: transitions_ret)

lemma transitions_io: "keeps_transitions (vfs_read cls h b n off)" "keeps_transitions (vfs_write cls h b n off)"
  by (cases h; cases b; simp add: vfs_read_def vfs_write_def transition_rules)+

lemmas transitions_calls = transitions_open transitions_close transitions_io

lemma calm_keeps:
  assumes "keeps_transitions m" and "calm v" and "k_state m v = Some (Inr v')"
  shows "calm v'"
  using assms by (auto simp: keeps_transitions_def k_state_def calm_def same_transitions_def
      split: option.splits sum.splits)

text \<open>A transition of slot \<open>i\<close> that ends leaves the slots calm.\<close>

definition calm_but :: "nat \<Rightarrow> 'f mount_slot list \<Rightarrow> bool" where
  "calm_but i ms \<longleftrightarrow> (\<forall>j < length ms. j \<noteq> i \<longrightarrow> \<not> transitioning (ms ! j))"

lemma calm_end:
  "calm_but i (mounts v) \<Longrightarrow> end_transition i r v = Some (Inr (q, v')) \<Longrightarrow> calm v'"
  by (auto simp: calm_but_def end_transition_def calm_def finish_transition_def nth_upd_slot_at split: if_splits)

lemma k_state_Inr: "k_state m v = Some (Inr v') \<longleftrightarrow> (\<exists>r. m v = Some (Inr (r, v')))"
  by (auto simp: k_state_def split: option.splits sum.splits)

lemma calm_mount_owner:
  assumes "calm_but i (mounts v)" and "mount_owner cls i f d n ty v = Some (Inr (r, v'))"
  shows "calm v'"
proof -
  from assms(2) obtain q w where m: "fc_mount cls f d (world v) = Some (q, w)"
    by (cases "fc_mount cls f d (world v)") (auto simp: mount_owner_def k_bind_def on_world_def)
  have pub: "calm_but i (mount_publish i f d n ty (mounts v))"
    using assms(1) by (auto simp: calm_but_def mount_publish_def nth_upd_slot_at)
  show ?thesis
  proof (cases q)
    case (Inl e)
    let ?v = "v\<lparr>world := fc_delete cls f w\<rparr>"
    have "end_transition i (Inl e) ?v = Some (Inr (r, v'))"
      using assms(2) m Inl by (simp add: mount_owner_def k_bind_def on_world_def)
    then show ?thesis using calm_end [of i ?v] assms(1) by simp
  next
    case (Inr u)
    let ?v = "v\<lparr>world := w, mounts := mount_publish i f d n ty (mounts v)\<rparr>"
    have "end_transition i (Inr ()) ?v = Some (Inr (r, v'))"
      using assms(2) m Inr by (simp add: mount_owner_def k_bind_def on_world_def)
    then show ?thesis using calm_end [of i ?v] pub by simp
  qed
qed

lemma calm_mount:
  assumes "calm v" and "k_state (vfs_mount cls mp dev t) v = Some (Inr v')"
  shows "calm v'"
proof (cases "mp = None \<or> t = None")
  case True
  then show ?thesis using assms by (cases mp) (auto simp: vfs_mount_def k_state_def)
next
  case False
  then obtain p ty where pt: "mp = Some p" "t = Some ty" by auto
  from assms(2) obtain r where run: "vfs_mount cls (Some p) dev (Some ty) v = Some (Inr (r, v'))"
    unfolding pt k_state_Inr by blast
  obtain q ms where mb: "mount_begin (fs_registry v) p ty (mounts v) = (q, ms)" by fastforce
  show ?thesis
  proof (cases q)
    case (Inl e)
    then have "v' = v\<lparr>mounts := ms\<rparr>"
      using run mb by (simp add: vfs_mount_def k_try_def k_bind_def on_mounts_def)
    moreover have "ms = mounts v" using mb Inl mount_begin_Inl by blast
    ultimately show ?thesis using assms(1) by simp
  next
    case (Inr ic)
    obtain i c where ic: "ic = (i, c)" by fastforce
    have b: "calm_but i ms" using mount_begin_Inr [OF mb [unfolded Inr ic]] assms(1)
      by (auto simp: calm_but_def calm_def nth_upd_slot)
    obtain f w where cr: "fc_create cls c (world v) = (f, w)" by fastforce
    let ?v = "v\<lparr>mounts := ms, world := w\<rparr>"
    show ?thesis
    proof (cases f)
      case None
      then have "end_transition i (Inl NoMem :: error + unit) ?v = Some (Inr (r, v'))"
        using run mb Inr ic cr by (simp add: vfs_mount_def k_try_def k_bind_def on_mounts_def)
      then show ?thesis using calm_end [of i ?v] b by simp
    next
      case (Some f')
      then have "mount_owner cls i f' (map_option fst dev) (map_option snd dev) ty ?v = Some (Inr (r, v'))"
        using run mb Inr ic cr by (simp add: vfs_mount_def k_try_def k_bind_def on_mounts_def)
      then show ?thesis using calm_mount_owner [of i ?v] b by simp
    qed
  qed
qed

lemma calm_umount:
  assumes "calm v" and "k_state (vfs_umount cls mp) v = Some (Inr v')"
  shows "calm v'"
proof (cases mp)
  case None
  then show ?thesis using assms by (simp add: vfs_umount_def k_state_def)
next
  case (Some p)
  from assms(2) obtain r where run: "vfs_umount cls (Some p) v = Some (Inr (r, v'))"
    unfolding Some k_state_Inr by blast
  obtain q ms where mb: "umount_begin p (mounts v) = (q, ms)" by fastforce
  show ?thesis
  proof (cases q)
    case (Inl e)
    then have "v' = v\<lparr>mounts := ms\<rparr>"
      using run mb by (simp add: vfs_umount_def k_try_def k_bind_def on_mounts_def)
    moreover have "ms = mounts v" using mb Inl umount_begin_Inl by blast
    ultimately show ?thesis using assms(1) by simp
  next
    case (Inr ic)
    obtain i f where ic: "ic = (i, f)" by fastforce
    have b: "calm_but i ms" using umount_begin_Inr [OF mb [unfolded Inr ic]] assms(1)
      by (auto simp: calm_but_def calm_def nth_upd_slot)
    let ?v = "v\<lparr>mounts := ms, world := fc_delete cls f (fc_unmount cls f (world v))\<rparr>"
    have "end_transition i (Inr ()) ?v = Some (Inr (r, v'))"
      using run mb Inr ic by (simp add: vfs_umount_def k_try_def k_bind_def on_mounts_def)
    then show ?thesis using calm_end [of i ?v] b by simp
  qed
qed

lemma calm_exec:
  assumes "calm v" and "vfs_exec cls c v = Some (Inr v')"
  shows "calm v'"
proof -
  have path: "keeps_transitions (vfs_stat cls p b)" "keeps_transitions (vfs_readdir cls p vis v0)"
    "keeps_transitions (vfs_mkdir cls p)" "keeps_transitions (vfs_create cls p)"
    "keeps_transitions (vfs_unlink cls p)" "keeps_transitions (vfs_rmdir cls p)" for p b vis v0
    unfolding vfs_stat_def vfs_readdir_def vfs_mkdir_def vfs_create_def vfs_unlink_def vfs_rmdir_def
    by (intro transition_rules)+
  note kept = transitions_calls [THEN calm_keeps, OF assms(1)] path [THEN calm_keeps, OF assms(1)]
  show ?thesis using assms(2)
    by (cases c; simp only: vfs_exec.simps)
      (erule calm_mount [OF assms(1)] calm_umount [OF assms(1)] kept)+
qed

lemma calm_run: "calm v \<Longrightarrow> vfs_run cls cs v = Some (Inr v') \<Longrightarrow> calm v'"
proof (induction cs arbitrary: v)
  case (Cons c cs)
  then obtain v1 where "vfs_exec cls c v = Some (Inr v1)" "vfs_run cls cs v1 = Some (Inr v')"
    by (auto split: option.splits sum.splits)
  with Cons.IH calm_exec [OF Cons.prems(1)] show ?case by blast
qed simp

text \<open>What an unmount does in a calm state with a file system mounted: it is refused while the
  counter is not zero; otherwise the file system is unmounted and deleted and the slot is free again.\<close>

lemma umount_calm:
  assumes "calm v" and "find_slot (mounts v) (Some p) = Some i" and "mfs (mounts v ! i) = Some f"
  shows "vfs_umount cls (Some p) v = Some (Inr
    (if users (mounts v ! i) \<noteq> 0 then (Inl Busy, v)
     else (Inr (), v\<lparr>mounts := upd_slot i (\<lambda>s. empty_slot (mount_point s)) (mounts v),
            world := fc_delete cls f (fc_unmount cls f (world v))\<rparr>)))"
proof -
  have i: "i < length (mounts v)" "\<not> transitioning (mounts v ! i)"
    using find_slot_Some [OF assms(2)] assms(1) by (auto simp: calm_def)
  have "(mounts v ! i)\<lparr>mfs := None, mfs_type := None, mdevice := None, mdevice_name := None,
      transitioning := False\<rparr> = empty_slot (mount_point (mounts v ! i))" if "users (mounts v ! i) = 0"
    using that by (simp add: empty_slot_def)
  then show ?thesis using assms(2,3) i
    by (simp add: vfs_umount_def umount_begin_def k_try_def k_bind_def on_mounts_def end_transition_def
        finish_transition_def upd_slot_def)
qed

section \<open>Interleaved calls\<close>

text \<open>
  Tasks run the calls concurrently and may be switched anywhere but inside a section with interrupts
  disabled. The state keeps the references that calls and open files hold, with the file system they
  were taken for, the transitions in progress, and the file systems that exist. A transition is
  reserved, then creates and publishes its file system or unmounts and deletes the one it took out,
  and then ends; a mount that fails ends without publishing. Factories are numbered here.
\<close>

datatype 'f phase = Mounting | Settled | Unmounting 'f

record 'f vfs_sys =
  slots :: "'f mount_slot list"
  refs :: "(nat \<times> 'f) list"
  pending :: "(nat \<times> 'f phase) list"
  existing :: "'f set"
  panicked :: bool

definition vfs_boot :: "'f vfs_sys" where
  "vfs_boot = \<lparr>slots = initial_mounts, refs = [], pending = [], existing = {}, panicked = False\<rparr>"

inductive vfs_step :: "'f vfs_sys \<Rightarrow> 'f vfs_sys \<Rightarrow> bool" where
  step_acquire: "acquire_slot mp (slots s) = (Inr i, ms) \<Longrightarrow> mfs (slots s ! i) = Some f \<Longrightarrow>
     vfs_step s (s\<lparr>slots := ms, refs := (i, f) # refs s\<rparr>)"
| step_release: "(i, f) \<in> set (refs s) \<Longrightarrow> release_slot i (slots s) = Inr ms \<Longrightarrow>
     vfs_step s (s\<lparr>slots := ms, refs := remove1 (i, f) (refs s)\<rparr>)"
| step_panic: "(i, f) \<in> set (refs s) \<Longrightarrow> release_slot i (slots s) = Inl e \<Longrightarrow>
     vfs_step s (s\<lparr>panicked := True\<rparr>)"
| step_mount: "mount_begin (reg :: (bytes \<times> nat) list) mp t (slots s) = (Inr (i, c), ms) \<Longrightarrow>
     vfs_step s (s\<lparr>slots := ms, pending := (i, Mounting) # pending s\<rparr>)"
| step_publish: "(i, Mounting) \<in> set (pending s) \<Longrightarrow> f \<notin> existing s \<Longrightarrow>
     vfs_step s (s\<lparr>slots := mount_publish i f dev nm t (slots s), existing := insert f (existing s),
       pending := (i, Settled) # remove1 (i, Mounting) (pending s)\<rparr>)"
| step_umount: "umount_begin mp (slots s) = (Inr (i, f), ms) \<Longrightarrow>
     vfs_step s (s\<lparr>slots := ms, pending := (i, Unmounting f) # pending s\<rparr>)"
| step_destroy: "(i, Unmounting f) \<in> set (pending s) \<Longrightarrow>
     vfs_step s (s\<lparr>existing := existing s - {f},
       pending := (i, Settled) # remove1 (i, Unmounting f) (pending s)\<rparr>)"
| step_finish: "(i, p) \<in> set (pending s) \<Longrightarrow> p = Mounting \<or> p = Settled \<Longrightarrow>
     vfs_step s (s\<lparr>slots := finish_transition i (slots s), pending := remove1 (i, p) (pending s)\<rparr>)"

inductive_cases vfs_stepE: "vfs_step s s'"

definition count_refs :: "nat \<Rightarrow> (nat \<times> 'f) list \<Rightarrow> nat" where
  "count_refs i rs = length (filter (\<lambda>r. fst r = i) rs)"

definition refs_ok :: "'f mount_slot list \<Rightarrow> (nat \<times> 'f) list \<Rightarrow> bool" where
  "refs_ok ms rs \<longleftrightarrow>
     (\<forall>i f. (i, f) \<in> set rs \<longrightarrow> i < length ms \<and> mfs (ms ! i) = Some f) \<and>
     (\<forall>i<length ms. users (ms ! i) = count_refs i rs)"

definition mounted_ok :: "'f mount_slot list \<Rightarrow> 'f set \<Rightarrow> bool" where
  "mounted_ok ms ex \<longleftrightarrow>
     (\<forall>i f. i < length ms \<longrightarrow> mfs (ms ! i) = Some f \<longrightarrow> f \<in> ex \<and> (\<forall>j<length ms. mfs (ms ! j) = Some f \<longrightarrow> j = i))"

definition phase_ok :: "'f mount_slot list \<Rightarrow> 'f set \<Rightarrow> nat \<Rightarrow> 'f phase \<Rightarrow> bool" where
  "phase_ok ms ex i p \<longleftrightarrow>
     i < length ms \<and> transitioning (ms ! i) \<and>
     (case p of Mounting \<Rightarrow> mfs (ms ! i) = None | Settled \<Rightarrow> True
      | Unmounting f \<Rightarrow> f \<in> ex \<and> (\<forall>j<length ms. mfs (ms ! j) \<noteq> Some f))"

definition pending_ok :: "'f mount_slot list \<Rightarrow> 'f set \<Rightarrow> (nat \<times> 'f phase) list \<Rightarrow> bool" where
  "pending_ok ms ex ps \<longleftrightarrow>
     distinct (map fst ps) \<and>
     (\<forall>i p. (i, p) \<in> set ps \<longrightarrow> phase_ok ms ex i p) \<and>
     (\<forall>i j f. (i, Unmounting f) \<in> set ps \<longrightarrow> (j, Unmounting f) \<in> set ps \<longrightarrow> i = j)"

definition sys_inv :: "'f vfs_sys \<Rightarrow> bool" where
  "sys_inv s \<longleftrightarrow> \<not> panicked s \<and> refs_ok (slots s) (refs s) \<and> mounted_ok (slots s) (existing s) \<and>
     pending_ok (slots s) (existing s) (pending s)"

lemma count_refs_simps [simp]:
  "count_refs i [] = 0" "count_refs i (r # rs) = (if fst r = i then 1 else 0) + count_refs i rs"
  by (simp_all add: count_refs_def)

lemma count_refs_remove1:
  "r \<in> set rs \<Longrightarrow> count_refs i (remove1 r rs) = count_refs i rs - (if fst r = i then 1 else 0)"
  "r \<in> set rs \<Longrightarrow> count_refs (fst r) rs \<noteq> 0"
  by (auto simp: count_refs_def filter_remove1 length_remove1 filter_empty_conv)

lemma pending_unique:
  assumes "distinct (map fst ps)" and "(i, p) \<in> set ps"
  shows "(i, q) \<notin> set (remove1 (i, p) ps)" "distinct (map fst (remove1 (i, p) ps))"
    "i \<notin> fst ` set (remove1 (i, p) ps)"
  using assms by (induction ps) (auto simp: image_iff)

lemma remove1_subset: "x \<in> set (remove1 y xs) \<Longrightarrow> x \<in> set xs"
  by (meson notin_set_remove1)

lemma refs_okD:
  assumes "refs_ok ms rs" and "(i, f) \<in> set rs"
  shows "i < length ms" "mfs (ms ! i) = Some f" "users (ms ! i) \<noteq> 0"
  using assms count_refs_remove1(2) [OF assms(2)] by (auto simp: refs_ok_def)

lemma refs_ok_acquire:
  assumes "refs_ok ms rs" and "acquire_slot mp ms = (Inr i, ms')" and "mfs (ms ! i) = Some f"
  shows "refs_ok ms' ((i, f) # rs)"
  using assms(1,3) acquire_slot_Inr [OF assms(2)] by (auto simp: refs_ok_def nth_upd_slot)

lemma refs_ok_release:
  assumes "refs_ok ms rs" and "(i, f) \<in> set rs"
  shows "\<exists>ms'. release_slot i ms = Inr ms' \<and> refs_ok ms' (remove1 (i, f) rs)"
proof -
  note d = refs_okD [OF assms]
  have sub: "(j, g) \<in> set (remove1 (i, f) rs) \<Longrightarrow> j < length ms \<and> mfs (ms ! j) = Some g" for j g
    using refs_okD(1,2) [OF assms(1)] remove1_subset by metis
  have "\<forall>j<length ms. users (ms ! j) = count_refs j rs" using assms(1) by (simp add: refs_ok_def)
  then have "refs_ok (upd_slot i (\<lambda>s. s\<lparr>users := users s - 1\<rparr>) ms) (remove1 (i, f) rs)"
    unfolding refs_ok_def using sub d(1) by (simp add: nth_upd_slot count_refs_remove1(1) [OF assms(2)])
  then show ?thesis using d(3) by (simp add: release_slot_def)
qed

text \<open>Changes of the slots that keep the users and file systems that references depend on.\<close>

lemma refs_ok_upd:
  assumes "refs_ok ms rs" and "i < length ms" and "users (g (ms ! i)) = users (ms ! i)"
    and "users (ms ! i) \<noteq> 0 \<Longrightarrow> mfs (g (ms ! i)) = mfs (ms ! i)"
  shows "refs_ok (upd_slot i g ms) rs"
  using assms refs_okD [OF assms(1)] by (auto simp: refs_ok_def nth_upd_slot)

lemma slots_same_fs:
  assumes "length ms' = length ms" and "\<And>j. mfs (ms' ! j) = mfs (ms ! j)" and "\<And>j. transitioning (ms' ! j) = transitioning (ms ! j)"
  shows "mounted_ok ms' ex = mounted_ok ms ex" "pending_ok ms' ex ps = pending_ok ms ex ps"
  using assms by (simp_all add: mounted_ok_def pending_ok_def phase_ok_def cong: phase.case_cong)

lemma pending_okD:
  assumes "pending_ok ms ex ps" and "(i, p) \<in> set ps"
  shows "i < length ms" "transitioning (ms ! i)" "phase_ok ms ex i p"
  using assms by (auto simp: pending_ok_def phase_ok_def)

lemma pending_fresh: "pending_ok ms ex ps \<Longrightarrow> \<not> transitioning (ms ! i) \<Longrightarrow> i \<notin> fst ` set ps"
  using pending_okD(2) by fastforce

lemma phase_ok_other:
  assumes "phase_ok ms ex j q" and "j \<noteq> i" and "i < length ms"
    and "\<And>f. q = Unmounting f \<Longrightarrow> f \<in> ex' \<and> mfs (g (ms ! i)) \<noteq> Some f"
  shows "phase_ok (upd_slot i g ms) ex' j q"
  using assms by (auto simp: phase_ok_def nth_upd_slot split: phase.splits)

lemma pending_ok_Cons:
  assumes "pending_ok ms ex ps" and "i \<notin> fst ` set ps" and "phase_ok ms ex i p"
    and "\<And>f j. p = Unmounting f \<Longrightarrow> (j, Unmounting f) \<notin> set ps"
  shows "pending_ok ms ex ((i, p) # ps)"
  using assms by (auto simp: pending_ok_def)

lemma pending_ok_remove:
  assumes "pending_ok ms ex ps" and "(i, p) \<in> set ps" and "\<And>j q. (j, q) \<in> set ps \<Longrightarrow> j \<noteq> i \<Longrightarrow> phase_ok ms' ex' j q"
  shows "pending_ok ms' ex' (remove1 (i, p) ps)"
proof -
  have d: "distinct (map fst ps)" using assms(1) by (simp add: pending_ok_def)
  note u = pending_unique [OF d assms(2)]
  have sub: "(j, q) \<in> set (remove1 (i, p) ps) \<Longrightarrow> (j, q) \<in> set ps \<and> j \<noteq> i" for j q
    using u(1) remove1_subset by metis
  have "(j, Unmounting f) \<in> set ps \<Longrightarrow> (k, Unmounting f) \<in> set ps \<Longrightarrow> j = k" for j k f
    using assms(1) by (simp add: pending_ok_def)
  then show ?thesis unfolding pending_ok_def using u(2) assms(3) sub by meson
qed

lemma pending_gone: "pending_ok ms ex ps \<Longrightarrow> (i, p) \<in> set ps \<Longrightarrow> i \<notin> fst ` set (remove1 (i, p) ps)"
  by (rule pending_unique(3)) (simp_all add: pending_ok_def)

lemma step_acquire_inv:
  assumes "sys_inv s" and a: "acquire_slot mp (slots s) = (Inr i, ms)" and "mfs (slots s ! i) = Some f"
  shows "sys_inv (s\<lparr>slots := ms, refs := (i, f) # refs s\<rparr>)"
proof -
  note q = acquire_slot_Inr [OF a]
  have "length ms = length (slots s)" "\<And>j. mfs (ms ! j) = mfs (slots s ! j)"
    "\<And>j. transitioning (ms ! j) = transitioning (slots s ! j)"
    using q by (simp_all add: nth_upd_slot)
  from slots_same_fs [OF this] assms(1) refs_ok_acquire [OF _ a assms(3)] show ?thesis
    by (simp add: sys_inv_def)
qed

lemma step_release_inv:
  assumes "sys_inv s" and "(i, f) \<in> set (refs s)"
  shows "release_slot i (slots s) \<noteq> Inl e"
    and "release_slot i (slots s) = Inr ms \<Longrightarrow> sys_inv (s\<lparr>slots := ms, refs := remove1 (i, f) (refs s)\<rparr>)"
proof -
  have r: "refs_ok (slots s) (refs s)" using assms(1) by (simp add: sys_inv_def)
  show "release_slot i (slots s) \<noteq> Inl e" using refs_ok_release [OF r assms(2)] by auto
  assume a: "release_slot i (slots s) = Inr ms"
  then have "refs_ok ms (remove1 (i, f) (refs s))" using refs_ok_release [OF r assms(2)] by auto
  moreover have "ms = upd_slot i (\<lambda>s. s\<lparr>users := users s - 1\<rparr>) (slots s)"
    using a by (simp add: release_slot_def split: if_splits)
  then have "length ms = length (slots s)" "\<And>j. mfs (ms ! j) = mfs (slots s ! j)"
    "\<And>j. transitioning (ms ! j) = transitioning (slots s ! j)"
    using refs_okD(1) [OF r assms(2)] by (simp_all add: nth_upd_slot)
  from slots_same_fs [OF this] assms(1)
  have "mounted_ok ms (existing s)" "pending_ok ms (existing s) (pending s)" by (simp_all add: sys_inv_def)
  ultimately show "sys_inv (s\<lparr>slots := ms, refs := remove1 (i, f) (refs s)\<rparr>)"
    using assms(1) by (simp add: sys_inv_def)
qed

lemma pending_ok_upd:
  assumes "pending_ok ms ex ps" and "i < length ms" and "i \<notin> fst ` set ps"
    and "\<And>f. mfs (g (ms ! i)) = Some f \<Longrightarrow> mfs (ms ! i) = Some f"
  shows "pending_ok (upd_slot i g ms) ex ps"
proof -
  have "phase_ok (upd_slot i g ms) ex j q" if "(j, q) \<in> set ps" for j q
  proof (rule phase_ok_other [OF pending_okD(3) [OF assms(1) that] _ assms(2)])
    show "j \<noteq> i" using that assms(3) by force
    show "f \<in> ex \<and> mfs (g (ms ! i)) \<noteq> Some f" if "q = Unmounting f" for f
      using pending_okD(3) [OF assms(1) \<open>(j, q) \<in> set ps\<close>] assms(2,4) that by (auto simp: phase_ok_def)
  qed
  then show ?thesis using assms(1) by (simp add: pending_ok_def)
qed

lemma step_mount_inv:
  assumes "sys_inv s" and a: "mount_begin reg mp t (slots s) = (Inr (i, c), ms)"
  shows "sys_inv (s\<lparr>slots := ms, pending := (i, Mounting) # pending s\<rparr>)"
proof -
  have inv: "refs_ok (slots s) (refs s)" "mounted_ok (slots s) (existing s)"
    "pending_ok (slots s) (existing s) (pending s)" using assms(1) by (simp_all add: sys_inv_def)
  note q = mount_begin_Inr [OF a]
  note i = pending_fresh [OF inv(3) q(2)]
  have "pending_ok ms (existing s) (pending s)" unfolding q(4) by (rule pending_ok_upd [OF inv(3) q(1) i]) simp
  moreover have "phase_ok ms (existing s) i Mounting" using q by (simp add: phase_ok_def nth_upd_slot)
  ultimately have "pending_ok ms (existing s) ((i, Mounting) # pending s)" using i by (intro pending_ok_Cons) auto
  moreover have "refs_ok ms (refs s)" unfolding q(4) by (rule refs_ok_upd [OF inv(1) q(1)]) simp_all
  moreover have "mounted_ok ms (existing s)" using inv(2) q by (simp add: mounted_ok_def nth_upd_slot)
  ultimately show ?thesis using assms(1) by (simp add: sys_inv_def)
qed

lemma step_umount_inv:
  assumes "sys_inv s" and a: "umount_begin mp (slots s) = (Inr (i, f), ms)"
  shows "sys_inv (s\<lparr>slots := ms, pending := (i, Unmounting f) # pending s\<rparr>)"
proof -
  have inv: "refs_ok (slots s) (refs s)" "mounted_ok (slots s) (existing s)"
    "pending_ok (slots s) (existing s) (pending s)" using assms(1) by (simp_all add: sys_inv_def)
  note q = umount_begin_Inr [OF a]
  note i = pending_fresh [OF inv(3) q(2)]
  have p: "pending_ok ms (existing s) (pending s)" unfolding q(5) by (rule pending_ok_upd [OF inv(3) q(1) i]) simp
  have "f \<in> existing s" "\<And>j. j < length (slots s) \<Longrightarrow> mfs (slots s ! j) = Some f \<Longrightarrow> j = i"
    using inv(2) q(1,3) by (auto simp: mounted_ok_def)
  then have "phase_ok ms (existing s) i (Unmounting f)" using q(1,5) by (auto simp: phase_ok_def nth_upd_slot)
  moreover have "(j, Unmounting f) \<notin> set (pending s)" for j
    using pending_okD(3) [OF inv(3), of j "Unmounting f"] q(1,3) by (auto simp: phase_ok_def)
  ultimately have "pending_ok ms (existing s) ((i, Unmounting f) # pending s)"
    using i p by (intro pending_ok_Cons) auto
  moreover have "refs_ok ms (refs s)" unfolding q(5) using q(4) by (intro refs_ok_upd [OF inv(1) q(1)]) simp_all
  moreover have "mounted_ok ms (existing s)" using inv(2) q(1,5) by (simp add: mounted_ok_def nth_upd_slot)
  ultimately show ?thesis using assms(1) by (simp add: sys_inv_def)
qed

lemma step_publish_inv:
  assumes "sys_inv s" and p: "(i, Mounting) \<in> set (pending s)" and f: "f \<notin> existing s"
  shows "sys_inv (s\<lparr>slots := mount_publish i f dev nm t (slots s), existing := insert f (existing s),
     pending := (i, Settled) # remove1 (i, Mounting) (pending s)\<rparr>)"
proof -
  have inv: "refs_ok (slots s) (refs s)" "mounted_ok (slots s) (existing s)"
    "pending_ok (slots s) (existing s) (pending s)" using assms(1) by (simp_all add: sys_inv_def)
  let ?ms = "mount_publish i f dev nm t (slots s)" and ?ex = "insert f (existing s)"
  note d = pending_okD [OF inv(3) p]
  have none: "mfs (slots s ! i) = None" using d(3) by (simp add: phase_ok_def)
  then have users0: "users (slots s ! i) = 0" using refs_okD(2) [OF inv(1)] inv(1) d(1)
    by (fastforce simp: refs_ok_def count_refs_def filter_empty_conv)
  have "phase_ok ?ms ?ex j q" if "(j, q) \<in> set (pending s)" "j \<noteq> i" for j q
    unfolding mount_publish_def
    using pending_okD(3) [OF inv(3) that(1)] that(2) d(1) f
    by (intro phase_ok_other) (auto simp: phase_ok_def)
  from pending_ok_remove [OF inv(3) p this]
  have "pending_ok ?ms ?ex (remove1 (i, Mounting) (pending s))" .
  moreover have "i \<notin> fst ` set (remove1 (i, Mounting) (pending s))"
    by (rule pending_gone [OF inv(3) p])
  moreover have "phase_ok ?ms ?ex i Settled" using d by (simp add: phase_ok_def mount_publish_def nth_upd_slot)
  ultimately have "pending_ok ?ms ?ex ((i, Settled) # remove1 (i, Mounting) (pending s))"
    by (intro pending_ok_Cons) auto
  moreover have "refs_ok ?ms (refs s)" unfolding mount_publish_def
    using users0 by (intro refs_ok_upd [OF inv(1) d(1)]) simp_all
  moreover have "mounted_ok ?ms ?ex" using inv(2) f d(1)
    by (auto simp: mounted_ok_def mount_publish_def nth_upd_slot split: if_splits)
  ultimately show ?thesis using assms(1) by (simp add: sys_inv_def)
qed

lemma step_destroy_inv:
  assumes "sys_inv s" and p: "(i, Unmounting f) \<in> set (pending s)"
  shows "sys_inv (s\<lparr>existing := existing s - {f}, pending := (i, Settled) # remove1 (i, Unmounting f) (pending s)\<rparr>)"
proof -
  have inv: "mounted_ok (slots s) (existing s)"
    "pending_ok (slots s) (existing s) (pending s)" using assms(1) by (simp_all add: sys_inv_def)
  note d = pending_okD [OF inv(2) p]
  let ?ex = "existing s - {f}"
  have "phase_ok (slots s) ?ex j q" if "(j, q) \<in> set (pending s)" "j \<noteq> i" for j q
  proof -
    have "q \<noteq> Unmounting f" using inv(2) p that by (auto simp: pending_ok_def)
    then show ?thesis using pending_okD(3) [OF inv(2) that(1)] by (auto simp: phase_ok_def split: phase.splits)
  qed
  from pending_ok_remove [OF inv(2) p this]
  have "pending_ok (slots s) ?ex (remove1 (i, Unmounting f) (pending s))" .
  moreover have "i \<notin> fst ` set (remove1 (i, Unmounting f) (pending s))"
    by (rule pending_gone [OF inv(2) p])
  moreover have "phase_ok (slots s) ?ex i Settled" using d by (simp add: phase_ok_def)
  ultimately have "pending_ok (slots s) ?ex ((i, Settled) # remove1 (i, Unmounting f) (pending s))"
    by (intro pending_ok_Cons) auto
  moreover have "mounted_ok (slots s) ?ex" using inv(1) d(3) by (auto simp: mounted_ok_def phase_ok_def)
  ultimately show ?thesis using assms(1) by (simp add: sys_inv_def)
qed

lemma step_finish_inv:
  assumes "sys_inv s" and p: "(i, p) \<in> set (pending s)"
  shows "sys_inv (s\<lparr>slots := finish_transition i (slots s), pending := remove1 (i, p) (pending s)\<rparr>)"
proof -
  have inv: "refs_ok (slots s) (refs s)" "mounted_ok (slots s) (existing s)"
    "pending_ok (slots s) (existing s) (pending s)" using assms(1) by (simp_all add: sys_inv_def)
  note d = pending_okD [OF inv(3) p]
  have "phase_ok (finish_transition i (slots s)) (existing s) j q" if "(j, q) \<in> set (pending s)" "j \<noteq> i" for j q
    unfolding finish_transition_def
    using pending_okD(3) [OF inv(3) that(1)] that(2) d(1) by (intro phase_ok_other) (auto simp: phase_ok_def)
  from pending_ok_remove [OF inv(3) p this]
  have "pending_ok (finish_transition i (slots s)) (existing s) (remove1 (i, p) (pending s))" .
  moreover have "refs_ok (finish_transition i (slots s)) (refs s)" unfolding finish_transition_def
    by (rule refs_ok_upd [OF inv(1) d(1)]) simp_all
  moreover have "mounted_ok (finish_transition i (slots s)) (existing s)"
    using inv(2) d(1) unfolding mounted_ok_def finish_transition_def by (auto simp: nth_upd_slot split: if_splits)
  ultimately show ?thesis using assms(1) by (simp add: sys_inv_def)
qed

lemma vfs_step_inv:
  assumes "sys_inv s" and "vfs_step s s'"
  shows "sys_inv s'"
  using assms(2)
proof (cases rule: vfs_step.cases)
  case (step_panic i f e)
  with step_release_inv(1) [OF assms(1)] show ?thesis by blast
qed (use assms(1) in \<open>auto intro: step_acquire_inv step_release_inv(2) step_mount_inv step_umount_inv
       step_publish_inv step_destroy_inv step_finish_inv\<close>)

lemma vfs_boot_inv: "sys_inv vfs_boot"
  by (auto simp: sys_inv_def vfs_boot_def refs_ok_def mounted_ok_def pending_ok_def initial_mounts_def
      empty_slot_def less_Suc_eq)

lemma vfs_reachable_inv: "vfs_step\<^sup>*\<^sup>* vfs_boot s \<Longrightarrow> sys_inv s"
  by (induction rule: rtranclp_induct) (auto intro: vfs_boot_inv vfs_step_inv)

text \<open>C13. Under every interleaving of mounts, unmounts, calls and closes that the tasks of the kernel can
  produce from boot, a file system that some call or open file refers to exists and is still the one
  mounted in the slot of the reference, the counter of each slot is the number of its references, and
  no assertion on the counters fails.\<close>

theorem no_unmount_in_use:
  assumes "vfs_step\<^sup>*\<^sup>* vfs_boot s"
  shows "\<not> panicked s \<and>
    (\<forall>i f. (i, f) \<in> set (refs s) \<longrightarrow> f \<in> existing s \<and> mfs (slots s ! i) = Some f) \<and>
    (\<forall>i<length (slots s). users (slots s ! i) = length (filter (\<lambda>r. fst r = i) (refs s)))"
proof -
  have inv: "sys_inv s" using vfs_reachable_inv [OF assms] .
  then have r: "refs_ok (slots s) (refs s)" and m: "mounted_ok (slots s) (existing s)"
    by (simp_all add: sys_inv_def)
  have "f \<in> existing s" if "(i, f) \<in> set (refs s)" for i f
    using refs_okD(1,2) [OF r that] m by (simp add: mounted_ok_def)
  then show ?thesis using inv r refs_okD(2) [OF r] by (simp add: sys_inv_def refs_ok_def count_refs_def)
qed

definition demo_boot_mounted :: "nat vfs_sys" where
  "demo_boot_mounted = vfs_boot\<lparr>slots := mount_publish 0 7 None None (str ''devfs'')
       (upd_slot 0 (\<lambda>s. s\<lparr>transitioning := True\<rparr>) initial_mounts),
     existing := {7}, pending := [(0, Settled)]\<rparr>"

definition demo_in_use :: "nat vfs_sys" where
  "demo_in_use = demo_boot_mounted\<lparr>slots := upd_slot 0 (\<lambda>s. s\<lparr>users := 1\<rparr>) (slots demo_boot_mounted),
     refs := [(0, 7)]\<rparr>"

lemma demo_in_use_reachable: "vfs_step\<^sup>*\<^sup>* vfs_boot demo_in_use"
proof -
  let ?s1 = "vfs_boot\<lparr>slots := upd_slot 0 (\<lambda>s. s\<lparr>transitioning := True\<rparr>) initial_mounts,
    pending := [(0, Mounting)]\<rparr> :: nat vfs_sys"
  have "mount_begin [(str ''devfs'', 0 :: nat)] (str ''/dev'') (str ''devfs'') (slots vfs_boot)
      = (Inr (0, 0), upd_slot 0 (\<lambda>s. s\<lparr>transitioning := True\<rparr>) (initial_mounts :: nat mount_slot list))"
    by (simp add: mount_begin_def vfs_boot_def initial_mounts_def empty_slot_def find_slot_def)
  from step_mount [OF this] have 1: "vfs_step vfs_boot ?s1" by (simp add: vfs_boot_def)
  have 2: "vfs_step ?s1 demo_boot_mounted"
    using step_publish [of 0 ?s1 7 None None "str ''devfs''"] by (simp add: demo_boot_mounted_def vfs_boot_def)
  have "acquire_slot (str ''/dev'') (slots demo_boot_mounted) = (Inr 0, slots demo_in_use)"
    by (simp add: acquire_slot_def demo_boot_mounted_def demo_in_use_def mount_publish_def upd_slot_def
        initial_mounts_def empty_slot_def find_slot_def)
  from step_acquire [OF this, of 7] have 3: "vfs_step demo_boot_mounted demo_in_use"
    by (simp add: demo_boot_mounted_def demo_in_use_def mount_publish_def upd_slot_def initial_mounts_def
        empty_slot_def vfs_boot_def)
  from 1 2 3 show ?thesis by (meson converse_rtranclp_into_rtranclp rtranclp.rtrancl_refl)
qed

theorem no_unmount_in_use_witness:
  "refs demo_in_use = [(0, 7)] \<and> 7 \<in> existing demo_in_use \<and> mfs (slots demo_in_use ! 0) = Some 7 \<and>
   users (slots demo_in_use ! 0) = 1"
  using no_unmount_in_use [OF demo_in_use_reachable]
  by (simp add: demo_in_use_def demo_boot_mounted_def mount_publish_def upd_slot_def initial_mounts_def)

end
