(* ===== verification/Console.thy ===== *)
theory Console
  imports Sync Byte_Codec
begin

text \<open>
  The console of \<^verbatim>\<open>kernel/cons/cons.cpp\<close>: a ring of 128 input characters filled by interrupt
  handlers and emptied by readers that sleep while it is empty, and output that goes to the
  architecture's device and to the framebuffer. The theory shows that the ring is a queue of at most
  127 characters that drops input only when full, whatever order keys and reads come in.
\<close>

section \<open>Operations\<close>

abbreviation CONS_INPUT_SIZE :: nat where "CONS_INPUT_SIZE \<equiv> 128"

text \<open>\<open>cons_out\<close> are the characters given to \<^verbatim>\<open>arch_putc\<close> and \<^verbatim>\<open>fbcons::putc\<close>, in order.\<close>

record console =
  cons_input :: bytes
  cons_read :: nat
  cons_write :: nat
  cons_waitq :: wait_queue
  cons_out :: bytes

definition push_input :: "console \<Rightarrow> u8 \<Rightarrow> fault + console" where
  "push_input c ch =
     (let nxt = (cons_write c + 1) mod CONS_INPUT_SIZE
      in if nxt = cons_read c then Inr c
         else map_sum id
                (\<lambda>w. c\<lparr>cons_input := (cons_input c)[cons_write c := ch], cons_write := nxt, cons_waitq := w\<rparr>)
                (wakeup_one (cons_waitq c)))"

text \<open>One round of the loop in \<^verbatim>\<open>getc\<close>: a character, or the caller is put to sleep.\<close>

definition getc_round :: "console \<Rightarrow> tid \<Rightarrow> fault + (u8 option \<times> console)" where
  "getc_round c t =
     (if cons_read c \<noteq> cons_write c
      then Inr (Some (cons_input c ! cons_read c), c\<lparr>cons_read := (cons_read c + 1) mod CONS_INPUT_SIZE\<rparr>)
      else map_sum id (\<lambda>w. (None, c\<lparr>cons_waitq := w\<rparr>)) (wq_sleep (cons_waitq c) t))"

definition cons_putc :: "console \<Rightarrow> u8 \<Rightarrow> console" where
  "cons_putc c ch = c\<lparr>cons_out := cons_out c @ [ch]\<rparr>"

section \<open>The console as a file\<close>

text \<open>
  \<^verbatim>\<open>ConsoleFile::read\<close> while enough input is there; \<open>None\<close> means that the reader sleeps in \<^verbatim>\<open>getc\<close>.
  The result is the 32-bit value of the size.
\<close>

fun getc_many :: "nat \<Rightarrow> console \<Rightarrow> (bytes \<times> console) option" where
  "getc_many 0 c = Some ([], c)"
| "getc_many (Suc n) c =
     (if cons_read c \<noteq> cons_write c
      then case getc_many n (c\<lparr>cons_read := (cons_read c + 1) mod CONS_INPUT_SIZE\<rparr>) of
             None \<Rightarrow> None
           | Some (bs, c') \<Rightarrow> Some (cons_input c ! cons_read c # bs, c')
      else None)"

definition to_int32 :: "u64 \<Rightarrow> int" where
  "to_int32 n = sint (to_u32 n)"

definition console_file_read :: "bytes \<Rightarrow> u64 \<Rightarrow> u64 \<Rightarrow> (console, int \<times> bytes) xop" where
  "console_file_read buf len offset c =
     (case getc_many (unat len) c of
        None \<Rightarrow> None
      | Some (bs, c') \<Rightarrow> Some (Inr (to_int32 len, bs @ drop (unat len) buf), c'))"

definition console_file_write :: "bytes \<Rightarrow> u64 \<Rightarrow> u64 \<Rightarrow> (console, int) xop" where
  "console_file_write buf len offset c =
     Some (Inr (to_int32 len), fold (\<lambda>ch c. cons_putc c ch) (take (unat len) buf) c)"

section \<open>The ring is a bounded queue\<close>

definition ring_count :: "console \<Rightarrow> nat" where
  "ring_count c = (cons_write c + CONS_INPUT_SIZE - cons_read c) mod CONS_INPUT_SIZE"

definition ring_queue :: "console \<Rightarrow> bytes" where
  "ring_queue c = map (\<lambda>k. cons_input c ! ((cons_read c + k) mod CONS_INPUT_SIZE)) [0..<ring_count c]"

definition ring_wf :: "console \<Rightarrow> bool" where
  "ring_wf c \<longleftrightarrow> length (cons_input c) = CONS_INPUT_SIZE \<and> cons_read c < CONS_INPUT_SIZE \<and> cons_write c < CONS_INPUT_SIZE"

lemma mod_ring_cases:
  "(a :: nat) < 128 \<Longrightarrow> b < 128 \<Longrightarrow> (a + 128 - b) mod 128 = (if b \<le> a then a - b else a + 128 - b)"
  by (auto simp: mod_if)

lemma mod_ring_add: "(a :: nat) < 128 \<Longrightarrow> k < 128 \<Longrightarrow> (a + k) mod 128 = (if a + k < 128 then a + k else a + k - 128)"
  by (auto simp: mod_if)

lemma mod_ring_Suc: "(a :: nat) < 128 \<Longrightarrow> Suc a mod 128 = (if a = 127 then 0 else Suc a)"
  by (auto simp: mod_if)

lemma ring_count_less: "ring_count c < 128"
  by (simp add: ring_count_def)

lemma ring_empty:
  assumes "ring_wf c"
  shows "ring_queue c = [] \<longleftrightarrow> cons_read c = cons_write c"
  using assms by (auto simp: ring_queue_def ring_count_def ring_wf_def mod_ring_cases)

lemma ring_full:
  assumes "ring_wf c"
  shows "(cons_write c + 1) mod 128 = cons_read c \<longleftrightarrow> length (ring_queue c) = 127"
  using assms by (auto simp: ring_queue_def ring_count_def ring_wf_def mod_ring_cases mod_ring_Suc mod_ring_add)

lemma ring_push:
  assumes "ring_wf c" and "length (ring_queue c) < 127"
  shows "ring_queue (c\<lparr>cons_input := (cons_input c)[cons_write c := ch],
    cons_write := (cons_write c + 1) mod 128, cons_waitq := w\<rparr>) = ring_queue c @ [ch]" (is "ring_queue ?c = _")
proof (rule nth_equalityI)
  let ?r = "cons_read c" and ?w = "cons_write c"
  have b: "length (cons_input c) = 128" "?r < 128" "?w < 128" using assms(1) by (simp_all add: ring_wf_def)
  have n: "ring_count c < 127" using assms(2) by (simp add: ring_queue_def)
  have cnt: "ring_count ?c = ring_count c + 1" and at_w: "(?r + ring_count c) mod 128 = ?w"
    using n b(2,3) by (auto simp: ring_count_def mod_ring_cases mod_ring_Suc mod_ring_add split: if_splits)
  note cnt = cnt [simplified]
  show "length (ring_queue ?c) = length (ring_queue c @ [ch])" by (simp add: ring_queue_def cnt)
  fix k
  assume "k < length (ring_queue ?c)"
  then have k: "k \<le> ring_count c" by (simp add: ring_queue_def cnt)
  show "ring_queue ?c ! k = (ring_queue c @ [ch]) ! k"
  proof (cases "k = ring_count c")
    case True
    then show ?thesis using b at_w by (simp add: ring_queue_def cnt nth_append del: upt_Suc)
  next
    case False
    with k have k': "k < ring_count c" by simp
    then have "(?r + k) mod 128 \<noteq> ?w" using at_w n b(2) by (auto simp: mod_ring_add split: if_splits)
    then show ?thesis using k' b by (simp add: ring_queue_def cnt nth_append del: upt_Suc)
  qed
qed

lemma ring_pop:
  assumes "ring_wf c" and "cons_read c \<noteq> cons_write c"
  shows "ring_queue c = cons_input c ! cons_read c # ring_queue (c\<lparr>cons_read := (cons_read c + 1) mod 128\<rparr>)"
proof -
  let ?r = "cons_read c" and ?w = "cons_write c"
  have b: "?r < 128" "?w < 128" using assms(1) by (simp_all add: ring_wf_def)
  have cnt: "ring_count c = Suc (ring_count (c\<lparr>cons_read := (?r + 1) mod 128\<rparr>))"
    using b assms(2) by (auto simp: ring_count_def mod_ring_cases mod_ring_Suc mod_ring_add)
  have "(Suc (?r + k)) mod 128 = ((?r + 1) mod 128 + k) mod 128" for k by (simp add: mod_simps)
  then show ?thesis using b unfolding ring_queue_def cnt
    by (simp add: upt_conv_Cons map_Suc_upt [symmetric] comp_def del: upt_Suc)
qed

lemma ring_pop_wf: "ring_wf c \<Longrightarrow> ring_wf (c\<lparr>cons_read := (cons_read c + 1) mod 128\<rparr>)"
  by (simp add: ring_wf_def)

section \<open>Keys and readers in any order\<close>

datatype console_event = Key u8 | Reader tid

text \<open>
  A key and a reader that comes, or comes back, to \<^verbatim>\<open>getc\<close>; a reader that falls asleep leaves its
  queue entry when it is woken. The result is the characters readers got.
\<close>

fun console_run :: "console_event list \<Rightarrow> console \<Rightarrow> bytes \<Rightarrow> fault + (bytes \<times> console)" where
  "console_run [] c got = Inr (got, c)"
| "console_run (Key ch # es) c got =
     (case push_input c ch of Inl f \<Rightarrow> Inl f | Inr c' \<Rightarrow> console_run es c' got)"
| "console_run (Reader t # es) c got =
     (case getc_round c t of
        Inl f \<Rightarrow> Inl f
      | Inr (None, c') \<Rightarrow> console_run es c' got
      | Inr (Some ch, c') \<Rightarrow> console_run es c' (got @ [ch]))"

text \<open>The queue promised to readers.\<close>

fun queue_run :: "console_event list \<Rightarrow> bytes \<Rightarrow> bytes \<Rightarrow> bytes \<times> bytes" where
  "queue_run [] q got = (got, q)"
| "queue_run (Key ch # es) q got = queue_run es (if length q < 127 then q @ [ch] else q) got"
| "queue_run (Reader t # es) q got =
     (case q of [] \<Rightarrow> queue_run es [] got | ch # q' \<Rightarrow> queue_run es q' (got @ [ch]))"

lemma push_input_Inr:
  assumes "ring_wf c" and "push_input c ch = Inr c'"
  shows "ring_wf c'" "ring_queue c' = (if length (ring_queue c) < 127 then ring_queue c @ [ch] else ring_queue c)"
proof -
  have "length (ring_queue c) \<le> 127" using ring_count_less [of c] by (simp add: ring_queue_def)
  then consider "length (ring_queue c) = 127" | "length (ring_queue c) < 127" by linarith
  then have "ring_wf c' \<and> ring_queue c' = (if length (ring_queue c) < 127 then ring_queue c @ [ch] else ring_queue c)"
  proof cases
    case 1
    with ring_full [OF assms(1)] assms show ?thesis by (simp add: push_input_def)
  next
    case 2
    with ring_full [OF assms(1)] assms(2) obtain w where
      c': "c' = c\<lparr>cons_input := (cons_input c)[cons_write c := ch], cons_write := (cons_write c + 1) mod 128,
        cons_waitq := w\<rparr>"
      by (cases "wakeup_one (cons_waitq c)") (auto simp: push_input_def Let_def)
    show ?thesis using ring_push [OF assms(1) 2, where ch = ch and w = w] assms(1) 2 unfolding c' by (simp add: ring_wf_def)
  qed
  then show "ring_wf c'" "ring_queue c' = (if length (ring_queue c) < 127 then ring_queue c @ [ch] else ring_queue c)"
    by simp_all
qed

lemma getc_round_Inr:
  assumes "ring_wf c" and "getc_round c t = Inr (r, c')"
  shows "ring_wf c'" "ring_queue c = (case r of None \<Rightarrow> [] | Some ch \<Rightarrow> ch # ring_queue c')"
    "r = None \<Longrightarrow> ring_queue c' = []"
proof -
  show "ring_wf c'" "ring_queue c = (case r of None \<Rightarrow> [] | Some ch \<Rightarrow> ch # ring_queue c')"
    using assms ring_pop [OF assms(1)] ring_pop_wf [OF assms(1)] ring_empty [OF assms(1)]
    by (auto simp: getc_round_def ring_wf_def map_sum_def split: if_splits sum.splits)
  show "ring_queue c' = []" if "r = None"
    using assms that ring_empty [OF assms(1)]
    by (auto simp: getc_round_def ring_queue_def ring_count_def map_sum_def split: if_splits sum.splits)
qed

text \<open>No task that sleeps on the console, or could, is a zombie.\<close>

definition readers_alive :: "console \<Rightarrow> bool" where
  "readers_alive c \<longleftrightarrow> (\<forall>t. tst (cons_waitq c) t \<noteq> Zombie)"

lemma wakeup_one_alive:
  assumes "\<forall>t. tst w t \<noteq> Zombie"
  shows "\<exists>w'. wakeup_one w = Inr w' \<and> (\<forall>t. tst w' t \<noteq> Zombie)"
  using assms by (auto simp: wakeup_one_def split: wq_node.splits)

lemma wq_sleep_alive:
  assumes "\<forall>t. tst w t \<noteq> Zombie"
  shows "\<exists>w'. wq_sleep w t = Inr w' \<and> (\<forall>t. tst w' t \<noteq> Zombie)"
  using assms by (auto simp: wq_sleep_def)

lemma push_input_alive:
  assumes "readers_alive c"
  shows "\<exists>c'. push_input c ch = Inr c' \<and> readers_alive c'"
  using assms wakeup_one_alive [of "cons_waitq c"] by (auto simp: push_input_def readers_alive_def Let_def)

lemma getc_round_alive:
  assumes "readers_alive c"
  shows "\<exists>r c'. getc_round c t = Inr (r, c') \<and> readers_alive c'"
  using assms wq_sleep_alive [of "cons_waitq c" t] by (auto simp: getc_round_def readers_alive_def)

text \<open>C35. Whatever the order of key presses and reads, no assertion fails and the readers get exactly
  the characters a queue of at most 127 characters gives them: in order, none twice, and none lost
  except those that come while 127 are waiting.\<close>

theorem console_input_fifo:
  assumes "ring_wf c" and "readers_alive c"
  shows "\<exists>got' c'. console_run es c got = Inr (got', c') \<and> queue_run es (ring_queue c) got = (got', ring_queue c')"
  using assms
proof (induction es arbitrary: c got)
  case (Cons e es)
  show ?case
  proof (cases e)
    case (Key ch)
    obtain c1 where p: "push_input c ch = Inr c1" "readers_alive c1" using push_input_alive [OF Cons.prems(2)] by blast
    from Cons.IH [OF push_input_Inr(1) [OF Cons.prems(1) p(1)] p(2)] push_input_Inr(2) [OF Cons.prems(1) p(1)] p(1)
    show ?thesis by (simp add: Key)
  next
    case (Reader t)
    obtain r c1 where p: "getc_round c t = Inr (r, c1)" "readers_alive c1"
      using getc_round_alive [OF Cons.prems(2)] by blast
    note g = getc_round_Inr [OF Cons.prems(1) p(1)]
    show ?thesis using Cons.IH [OF g(1) p(2)] g(2,3) p(1) by (cases r) (auto simp: Reader)
  qed
qed simp

definition demo_console :: console where
  "demo_console = \<lparr>cons_input = replicate 128 0, cons_read = 127, cons_write = 127,
     cons_waitq = \<lparr>wq_links = \<lparr>prev = (\<lambda>n. n), next = (\<lambda>n. n)\<rparr>, tst = (\<lambda>_. Runnable)\<rparr>, cons_out = []\<rparr>"

theorem console_input_fifo_witness:
  "\<exists>c'. console_run [Key 65, Key 66, Reader 1, Key 67, Reader 1] demo_console [] = Inr ([65, 66], c') \<and>
     ring_queue c' = [67]"
proof -
  have "ring_wf demo_console" "readers_alive demo_console"
    by (simp_all add: demo_console_def ring_wf_def readers_alive_def)
  note console_input_fifo [OF this, of "[Key 65, Key 66, Reader 1, Key 67, Reader 1]" "[]"]
  moreover have "ring_queue demo_console = []" by (simp add: demo_console_def ring_queue_def ring_count_def)
  ultimately show ?thesis by force
qed

end
