(* ===== verification/File_Systems.thy ===== *)
theory File_Systems
  imports Vfs Console Fat_Properties
begin

text \<open>
  The file systems of the kernel behind the virtual file system: FAT volumes
  (\<^verbatim>\<open>kernel/fs/fat/fat_vfs.cpp\<close>), the device file system (\<^verbatim>\<open>kernel/fs/devfs.cpp\<close>) with the console
  (\<^verbatim>\<open>kernel/cons/cons_vfs.cpp\<close>), and mounting the root (\<^verbatim>\<open>kernel/fs/rootfs.cpp\<close>). The objects of
  the classes \<^verbatim>\<open>FatFileSystem\<close>, \<^verbatim>\<open>DevFileSystem\<close>, \<^verbatim>\<open>FatFile\<close> and \<^verbatim>\<open>ConsoleFile\<close> live in one world, and
  their virtual methods together are one instance of the class record of the virtual file system,
  which keeps the contract \<open>fs_contract\<close>.
\<close>

section \<open>Objects\<close>

text \<open>
  A FAT object holds its device's number, its geometry and its sector cache; the state of the
  device itself is shared by all objects and kept per device.
\<close>

datatype fs_kind = Fat_Kind | Dev_Kind

record fat_volume =
  fv_dev :: "nat option"
  fv_geom :: fat_geom
  fv_cache :: "unit fat_state"

datatype fs_object = Fat_Object fat_volume | Dev_Object

datatype file_object = Fat_File nat dir_entry | Console_File

datatype char_factory = Console_Factory

text \<open>
  Objects are numbered in the order they are created; a deleted one leaves \<open>None\<close>. \<open>heap\<close> tells,
  call by call, whether the memory a call asks for is there.
\<close>

record 'd fs_world =
  disks :: "nat \<Rightarrow> 'd"
  fs_objects :: "fs_object option list"
  file_objects :: "file_object option list"
  char_devices :: "(bytes \<times> char_factory) list"
  kconsole :: console
  heap :: "bool list"

definition heap_new :: "'d fs_world \<Rightarrow> bool \<times> 'd fs_world" where
  "heap_new w = (case heap w of [] \<Rightarrow> (False, w) | b # bs \<Rightarrow> (b, w\<lparr>heap := bs\<rparr>))"

definition join_cache :: "'d \<Rightarrow> unit fat_state \<Rightarrow> 'd fat_state" where
  "join_cache d c = \<lparr>fdev = d, dev_set = dev_set c, buffer = buffer c, buffer_sector = buffer_sector c,
     buffer_dirty = buffer_dirty c\<rparr>"

definition split_cache :: "'d fat_state \<Rightarrow> unit fat_state" where
  "split_cache st = \<lparr>fdev = (), dev_set = dev_set st, buffer = buffer st, buffer_sector = buffer_sector st,
     buffer_dirty = buffer_dirty st\<rparr>"

definition object_at :: "'a option list \<Rightarrow> nat \<Rightarrow> 'a option" where
  "object_at xs i = (if i < length xs then xs ! i else None)"

definition put_volume :: "nat \<Rightarrow> fat_volume \<Rightarrow> nat \<Rightarrow> 'd fat_state \<Rightarrow> 'd fs_world \<Rightarrow> 'd fs_world" where
  "put_volume f v d st w =
     w\<lparr>disks := (disks w)(d := fdev st),
       fs_objects := (fs_objects w)[f := Some (Fat_Object (v\<lparr>fv_cache := split_cache st\<rparr>))]\<rparr>"

text \<open>
  A method of \<^verbatim>\<open>FatInfo\<close> on the volume of object \<open>f\<close>. Without a device the code dereferences a null
  pointer; such a call does not return, so it has no value, like a call that sleeps for ever. Mount slots
  only hold volumes whose mount has succeeded and set the device.
\<close>

definition on_volume :: "nat \<Rightarrow> (fat_geom \<Rightarrow> ('d fat_state, 'a) xop) \<Rightarrow> ('d fs_world, 'a) xop" where
  "on_volume f m w =
     (case object_at (fs_objects w) f of
        Some (Fat_Object v) \<Rightarrow>
          (case fv_dev v of
             None \<Rightarrow> None
           | Some d \<Rightarrow>
               (case m (fv_geom v) (join_cache (disks w d) (fv_cache v)) of
                  None \<Rightarrow> None
                | Some (r, st) \<Rightarrow> Some (r, put_volume f v d st w)))
      | _ \<Rightarrow> None)"

definition new_file_object :: "file_object \<Rightarrow> ('d fs_world, nat option) xop" where
  "new_file_object fo w =
     (case heap_new w of
        (False, w) \<Rightarrow> Some (Inl NoMem, w)
      | (True, w) \<Rightarrow>
          Some (Inr (Some (length (file_objects w))), w\<lparr>file_objects := file_objects w @ [Some fo]\<rparr>))"

section \<open>FAT files and volumes\<close>

definition fat_visitor :: "('v \<Rightarrow> vdirent \<Rightarrow> bool \<times> 'v) \<Rightarrow> 'v \<Rightarrow> dir_entry \<Rightarrow> bool \<times> 'v" where
  "fat_visitor outer v e =
     outer v (vdirent_set (get_filename e 32) (if is_directory e then Node_Directory else Node_File)
       (file_size e) (ucast (de_attr e)))"

definition fat_stat_of :: "dir_entry \<Rightarrow> vstat" where
  "fat_stat_of e = vstat_set (if is_directory e then Node_Directory else Node_File) (file_size e) (ucast (de_attr e))"

definition fat_is_valid :: "u64 \<Rightarrow> u64 \<Rightarrow> bool" where
  "fat_is_valid len offset \<longleftrightarrow> \<not> (0xFFFFFFFF < len \<or> 0xFFFFFFFF < offset)"

definition fat_file_read :: "'d block_ops \<Rightarrow> bool \<Rightarrow> dir_entry \<Rightarrow> bytes \<Rightarrow> u64 \<Rightarrow> u64 \<Rightarrow> fat_geom \<Rightarrow>
    ('d fat_state, int \<times> bytes) xop" where
  "fat_file_read io scratch e buf len offset g =
     x_ensure (fat_is_valid len offset) Invalid
       (x_of (read_file g io scratch e buf (to_u32 offset) (to_u32 len)))"

definition fat_file_write :: "'d block_ops \<Rightarrow> bool \<Rightarrow> dir_entry \<Rightarrow> bytes \<Rightarrow> u64 \<Rightarrow> u64 \<Rightarrow> fat_geom \<Rightarrow>
    ('d fat_state, int) xop" where
  "fat_file_write io scratch e buf len offset g =
     x_ensure (fat_is_valid len offset) Invalid
       (x_try (x_of (write_file g io scratch e buf (to_u32 offset) (to_u32 len))) (\<lambda>(n, _). x_ok n))"

definition fat_fs_mount :: "'d block_ops \<Rightarrow> nat \<Rightarrow> nat option \<Rightarrow> ('d fs_world, unit) xop" where
  "fat_fs_mount io f dev w =
     (case (object_at (fs_objects w) f, dev) of
        (Some (Fat_Object v), Some d) \<Rightarrow>
          (case fat_mount io True (join_cache (disks w d) (fv_cache v)) of
             (Inl e, st) \<Rightarrow> Some (Inl e, put_volume f v d st w)
           | (Inr g, st) \<Rightarrow> Some (Inr (), put_volume f (v\<lparr>fv_dev := Some d, fv_geom := g\<rparr>) d st w))
      | (Some (Fat_Object v), None) \<Rightarrow> Some (Inl Invalid, w)
      | _ \<Rightarrow> None)"

text \<open>Only volumes that a mount has given a device are unmounted.\<close>

definition fat_fs_unmount :: "'d block_ops \<Rightarrow> nat \<Rightarrow> 'd fs_world \<Rightarrow> 'd fs_world" where
  "fat_fs_unmount io f w =
     (case object_at (fs_objects w) f of
        Some (Fat_Object v) \<Rightarrow>
          (case fv_dev v of
             None \<Rightarrow> w
           | Some d \<Rightarrow>
               put_volume f (v\<lparr>fv_dev := None\<rparr>) d (fat_unmount (fv_geom v) io (join_cache (disks w d) (fv_cache v))) w)
      | _ \<Rightarrow> w)"

definition fat_fs_open :: "'d block_ops \<Rightarrow> nat \<Rightarrow> bytes \<Rightarrow> ('d fs_world, nat option) xop" where
  "fat_fs_open io f relpath =
     x_ensure (relpath \<noteq> []) Invalid
       (x_try (on_volume f (\<lambda>g. x_of (find_file g io relpath))) (\<lambda>e.
          x_ensure (\<not> is_directory e) Invalid (new_file_object (Fat_File f e))))"

definition fat_fs_stat :: "'d block_ops \<Rightarrow> nat \<Rightarrow> bytes \<Rightarrow> ('d fs_world, vstat) xop" where
  "fat_fs_stat io f relpath =
     (if relpath = [] then x_ok (vstat_set Node_Directory 0 (ucast FAT_ATTR_DIRECTORY))
      else x_try (on_volume f (\<lambda>g. x_of (find_file g io relpath))) (\<lambda>e. x_ok (fat_stat_of e)))"

definition fat_fs_readdir :: "'d block_ops \<Rightarrow> nat \<Rightarrow> bytes \<Rightarrow> ('v \<Rightarrow> vdirent \<Rightarrow> bool \<times> 'v) \<Rightarrow> 'v \<Rightarrow>
    ('d fs_world, int \<times> 'v) xop" where
  "fat_fs_readdir io f relpath vis v0 = on_volume f (\<lambda>g. x_of (read_dir g io (fat_visitor vis) relpath v0))"

definition fat_fs_mkdir :: "'d block_ops \<Rightarrow> nat \<Rightarrow> bytes \<Rightarrow> ('d fs_world, unit) xop" where
  "fat_fs_mkdir io f relpath = x_ensure (relpath \<noteq> []) Invalid (on_volume f (\<lambda>g. mkdir g io relpath))"

definition fat_fs_create :: "'d block_ops \<Rightarrow> nat \<Rightarrow> bytes \<Rightarrow> ('d fs_world, unit) xop" where
  "fat_fs_create io f relpath = x_ensure (relpath \<noteq> []) Invalid (on_volume f (\<lambda>g. create_file g io relpath))"

definition fat_fs_unlink :: "'d block_ops \<Rightarrow> nat \<Rightarrow> bytes \<Rightarrow> ('d fs_world, unit) xop" where
  "fat_fs_unlink io f relpath = x_ensure (relpath \<noteq> []) Invalid (on_volume f (\<lambda>g. fat_unlink g io relpath))"

definition fat_fs_rmdir :: "'d block_ops \<Rightarrow> nat \<Rightarrow> bytes \<Rightarrow> ('d fs_world, unit) xop" where
  "fat_fs_rmdir io f relpath = x_ensure (relpath \<noteq> []) Invalid (on_volume f (\<lambda>g. rmdir g io relpath))"

section \<open>The device file system\<close>

abbreviation MAX_CHAR_DEVS :: nat where "MAX_CHAR_DEVS \<equiv> 8"

fun find_char_dev :: "(bytes \<times> char_factory) list \<Rightarrow> bytes \<Rightarrow> char_factory option" where
  "find_char_dev [] n = None"
| "find_char_dev ((m, c) # ds) n = (if m = n then Some c else find_char_dev ds n)"

definition create_console_file :: "('d fs_world, nat option) xop" where
  "create_console_file = new_file_object Console_File"

fun run_char_factory :: "char_factory \<Rightarrow> ('d fs_world, nat option) xop" where
  "run_char_factory Console_Factory = create_console_file"

definition devfs_open :: "bytes \<Rightarrow> ('d fs_world, nat option) xop" where
  "devfs_open relpath w =
     x_ensure (relpath \<noteq> []) Invalid
       (case find_char_dev (char_devices w) relpath of
          None \<Rightarrow> x_fail NotFound
        | Some c \<Rightarrow> x_try (run_char_factory c) (\<lambda>h. x_ensure (h \<noteq> None) Io (x_ok h))) w"

definition devfs_stat :: "bytes \<Rightarrow> ('d fs_world, vstat) xop" where
  "devfs_stat relpath w =
     (if relpath = [] then Some (Inr (vstat_set Node_Directory 0 0), w)
      else if find_char_dev (char_devices w) relpath \<noteq> None then Some (Inr (vstat_set Node_CharDevice 0 0), w)
      else Some (Inl NotFound, w))"

text \<open>The value the visitor returns to end the listing is not looked at.\<close>

definition devfs_readdir :: "bytes \<Rightarrow> ('v \<Rightarrow> vdirent \<Rightarrow> bool \<times> 'v) \<Rightarrow> 'v \<Rightarrow> ('d fs_world, int \<times> 'v) xop" where
  "devfs_readdir relpath vis v0 w =
     (if relpath \<noteq> [] then Some (Inl NotFound, w)
      else Some (Inr (int (length (char_devices w)),
             fold (\<lambda>(n, _) v. snd (vis v (vdirent_set n Node_CharDevice 0 0))) (char_devices w) v0), w))"

definition register_char_dev :: "bytes option \<Rightarrow> char_factory option \<Rightarrow> (bytes \<times> char_factory) list \<Rightarrow>
    (error + unit) \<times> (bytes \<times> char_factory) list" where
  "register_char_dev name factory devs =
     (case (name, factory) of
        (Some n, Some c) \<Rightarrow>
          if n = [] then (Inl Invalid, devs)
          else if find_char_dev devs n \<noteq> None then (Inl Exists, devs)
          else (case try_push_back MAX_CHAR_DEVS devs (n, c) of
                  None \<Rightarrow> (Inl Full, devs) | Some devs' \<Rightarrow> (Inr (), devs'))
      | _ \<Rightarrow> (Inl Invalid, devs))"

section \<open>The virtual methods\<close>

definition fs_create :: "fs_kind \<Rightarrow> 'd fs_world \<Rightarrow> nat option \<times> 'd fs_world" where
  "fs_create k w =
     (case heap_new w of
        (False, w) \<Rightarrow> (None, w)
      | (True, w) \<Rightarrow>
          (Some (length (fs_objects w)),
           w\<lparr>fs_objects := fs_objects w @ [Some (case k of
               Dev_Kind \<Rightarrow> Dev_Object
             | Fat_Kind \<Rightarrow> Fat_Object \<lparr>fv_dev = None, fv_geom = do_init_state 0 (decode_boot_sector (replicate 512 0)),
                 fv_cache = \<lparr>fdev = (), dev_set = False, buffer = replicate 512 0,
                   buffer_sector = FAT_INVALID_SECTOR, buffer_dirty = False\<rparr>\<rparr>)]\<rparr>))"

definition is_dev_object :: "nat \<Rightarrow> 'd fs_world \<Rightarrow> bool" where
  "is_dev_object f w \<longleftrightarrow> object_at (fs_objects w) f = Some Dev_Object"

definition dispatch :: "nat \<Rightarrow> ('d fs_world, 'a) xop \<Rightarrow> ('d fs_world, 'a) xop \<Rightarrow> ('d fs_world, 'a) xop" where
  "dispatch f on_dev_fs on_fat_fs w = (if is_dev_object f w then on_dev_fs w else on_fat_fs w)"

definition on_file :: "nat \<Rightarrow> ('d fs_world, 'a) xop \<Rightarrow> (nat \<Rightarrow> dir_entry \<Rightarrow> ('d fs_world, 'a) xop) \<Rightarrow>
    ('d fs_world, 'a) xop" where
  "on_file h on_console on_fat w =
     (case object_at (file_objects w) h of
        Some Console_File \<Rightarrow> on_console w
      | Some (Fat_File f e) \<Rightarrow> on_fat f e w
      | None \<Rightarrow> None)"

definition on_console :: "(console, 'a) xop \<Rightarrow> ('d fs_world, 'a) xop" where
  "on_console m w = (case m (kconsole w) of None \<Rightarrow> None | Some (r, c) \<Rightarrow> Some (r, w\<lparr>kconsole := c\<rparr>))"

definition with_scratch :: "(bool \<Rightarrow> ('d fs_world, 'a) xop) \<Rightarrow> ('d fs_world, 'a) xop" where
  "with_scratch m w = (case heap_new w of (b, w') \<Rightarrow> m b w')"

definition kernel_fs :: "'d block_ops \<Rightarrow> (fs_kind, nat, nat, 'v, 'd fs_world) fs_class" where
  "kernel_fs io = \<lparr>
     fc_create = fs_create,
     fc_mount = (\<lambda>f dev. dispatch f (x_ok ()) (fat_fs_mount io f dev)),
     fc_unmount = (\<lambda>f w. if is_dev_object f w then w else fat_fs_unmount io f w),
     fc_delete = (\<lambda>f w. w\<lparr>fs_objects := (fs_objects w)[f := None]\<rparr>),
     fc_open = (\<lambda>f p. dispatch f (devfs_open p) (fat_fs_open io f p)),
     fc_stat = (\<lambda>f p. dispatch f (devfs_stat p) (fat_fs_stat io f p)),
     fc_readdir = (\<lambda>f p vis v. dispatch f (devfs_readdir p vis v) (fat_fs_readdir io f p vis v)),
     fc_mkdir = (\<lambda>f p. dispatch f (base_fs_change p) (fat_fs_mkdir io f p)),
     fc_new_file = (\<lambda>f p. dispatch f (base_fs_change p) (fat_fs_create io f p)),
     fc_unlink = (\<lambda>f p. dispatch f (base_fs_change p) (fat_fs_unlink io f p)),
     fc_rmdir = (\<lambda>f p. dispatch f (base_fs_change p) (fat_fs_rmdir io f p)),
     fh_read = (\<lambda>h buf len off. on_file h (on_console (console_file_read buf len off))
        (\<lambda>f e. with_scratch (\<lambda>b. on_volume f (fat_file_read io b e buf len off)))),
     fh_write = (\<lambda>h buf len off. on_file h (on_console (console_file_write buf len off))
        (\<lambda>f e. with_scratch (\<lambda>b. on_volume f (fat_file_write io b e buf len off)))),
     fh_stat = (\<lambda>h. on_file h (x_ok (vstat_set Node_CharDevice 0 0)) (\<lambda>f e. x_ok (fat_stat_of e))),
     fh_delete = (\<lambda>h w. w\<lparr>file_objects := (file_objects w)[h := None]\<rparr>)\<rparr>"

section \<open>The root file system\<close>

fun rootfs_try :: "('c, 'f, 'h, 'v, 'w) fs_class \<Rightarrow> (nat \<Rightarrow> block_dev) \<Rightarrow> nat list \<Rightarrow> int list \<Rightarrow>
    ('c, 'f, 'h, 'w) vfs_state \<Rightarrow> (int \<times> ('c, 'f, 'h, 'w) vfs_state) exec" where
  "rootfs_try cls bdev registered [] v = Some (Inr (-1, v))"
| "rootfs_try cls bdev registered (i # is) v =
     (case find_device_index registered i of
        None \<Rightarrow> rootfs_try cls bdev registered is v
      | Some d \<Rightarrow>
          if bd_type (bdev d) \<noteq> Disk then rootfs_try cls bdev registered is v
          else case vfs_mount cls (Some (str ''/'')) (Some (d, bd_name (bdev d))) (Some (str ''fat'')) v of
                 None \<Rightarrow> None
               | Some (Inl e) \<Rightarrow> Some (Inl e)
               | Some (Inr (Inr _, v')) \<Rightarrow> Some (Inr (0, v'))
               | Some (Inr (Inl _, v')) \<Rightarrow> rootfs_try cls bdev registered is v')"

definition rootfs_init :: "('c, 'f, 'h, 'v, 'w) fs_class \<Rightarrow> (nat \<Rightarrow> block_dev) \<Rightarrow> nat list \<Rightarrow>
    ('c, 'f, 'h, 'w) vfs_state \<Rightarrow> (int \<times> ('c, 'f, 'h, 'w) vfs_state) exec" where
  "rootfs_init cls bdev registered v =
     rootfs_try cls bdev registered (map int [0..<nat (device_count registered)]) v"

section \<open>The kernel's file systems keep the contract\<close>

definition live_files :: "'d fs_world \<Rightarrow> nat set" where
  "live_files w = {h. object_at (file_objects w) h \<noteq> None}"

lemma live_files_cong: "file_objects w' = file_objects w \<Longrightarrow> live_files w' = live_files w"
  by (simp add: live_files_def)

lemma heap_new_files: "heap_new w = (b, w') \<Longrightarrow> live_files w' = live_files w"
  by (auto simp: heap_new_def live_files_def split: list.splits)

lemma live_files_append [simp]:
  "live_files (w\<lparr>file_objects := file_objects w @ [Some fo]\<rparr>) = insert (length (file_objects w)) (live_files w)"
  by (auto simp: live_files_def object_at_def nth_append)

lemma live_files_delete: "live_files (w\<lparr>file_objects := (file_objects w)[h := None]\<rparr>) = live_files w - {h}"
  by (cases "h < length (file_objects w)") (auto simp: live_files_def object_at_def nth_list_update split: if_splits)

lemma length_not_live: "length (file_objects w) \<notin> live_files w"
  by (simp add: live_files_def object_at_def)

subsection \<open>Calls that keep the files\<close>

named_theorems keeps_rules "calls that neither create nor delete a file object"

lemma keeps_ok [keeps_rules]: "keeps live (x_ok a)"
  by (simp add: keeps_def)

lemma keeps_fail [keeps_rules]: "keeps live (x_fail e)"
  by (simp add: keeps_def)

lemma keeps_ensure [keeps_rules]: "keeps live m \<Longrightarrow> keeps live (x_ensure c e m)"
  by (cases c) (simp_all add: keeps_fail)

lemma keeps_try [keeps_rules]:
  assumes "keeps live m" and "\<And>a. keeps live (k a)"
  shows "keeps live (x_try m k)"
  unfolding keeps_def
proof (intro allI impI)
  fix w r w'
  assume eq: "x_try m k w = Some (r, w')"
  then obtain q w1 where m: "m w = Some (q, w1)" by (auto simp: x_try_def x_catch_def split: option.splits)
  then have "live w1 = live w" using assms(1) by (simp add: keeps_def)
  then show "live w' = live w" using eq m assms(2)
    by (cases q) (auto simp: x_try_def x_catch_def keeps_def)
qed

lemma keeps_on_volume [keeps_rules]: "keeps live_files (on_volume f m)"
  by (auto simp: keeps_def on_volume_def put_volume_def live_files_def
      split: option.splits fs_object.splits)

lemma keeps_dispatch [keeps_rules]:
  "keeps live_files m \<Longrightarrow> keeps live_files m' \<Longrightarrow> keeps live_files (dispatch f m m')"
  by (auto simp: keeps_def dispatch_def)

lemma keeps_on_console [keeps_rules]: "keeps live_files (on_console m)"
  by (auto simp: keeps_def on_console_def live_files_def split: option.splits)

lemma keeps_on_file [keeps_rules]:
  "keeps live_files m \<Longrightarrow> (\<And>f e. keeps live_files (m' f e)) \<Longrightarrow> keeps live_files (on_file h m m')"
  by (auto simp: keeps_def on_file_def split: option.splits file_object.splits)

lemma keeps_with_scratch [keeps_rules]:
  assumes "\<And>b. keeps live_files (m b)"
  shows "keeps live_files (with_scratch m)"
  using assms heap_new_files by (fastforce simp: keeps_def with_scratch_def split: prod.splits)

lemma keeps_fat_mount [keeps_rules]: "keeps live_files (fat_fs_mount io f dev)"
  by (auto simp: keeps_def fat_fs_mount_def put_volume_def live_files_def
      split: option.splits fs_object.splits sum.splits prod.splits)

lemma keeps_devfs [keeps_rules]: "keeps live_files (devfs_stat p)" "keeps live_files (devfs_readdir p vis v)"
  by (auto simp: keeps_def devfs_stat_def devfs_readdir_def)

lemma keeps_change [keeps_rules]: "keeps live_files (base_fs_change p)"
  unfolding base_fs_change_def by (rule keeps_fail)

lemma keeps_fat_stat [keeps_rules]: "keeps live_files (fat_fs_stat io f p)"
  unfolding fat_fs_stat_def by (cases "p = []") (simp_all add: keeps_rules)

subsection \<open>Calls that create a file\<close>

fun file_opened :: "nat set \<Rightarrow> error + nat option \<Rightarrow> nat set \<Rightarrow> bool" where
  "file_opened A (Inr (Some h)) B \<longleftrightarrow> h \<notin> A \<and> B = insert h A"
| "file_opened A (Inr None) B \<longleftrightarrow> B = A"
| "file_opened A (Inl e) B \<longleftrightarrow> B = A"

definition opens :: "('d fs_world, nat option) xop \<Rightarrow> bool" where
  "opens m \<longleftrightarrow> (\<forall>w r w'. m w = Some (r, w') \<longrightarrow> file_opened (live_files w) r (live_files w'))"

lemma opens_keeps: "keeps live_files (x_fail e :: ('d fs_world, nat option) xop)" "opens (x_fail e)"
  by (simp_all add: keeps_fail opens_def)

lemma opens_new: "opens (new_file_object fo)"
  unfolding opens_def new_file_object_def
proof (intro allI impI)
  fix w r w'
  assume eq: "(case heap_new w of (False, w) \<Rightarrow> Some (Inl NoMem, w)
    | (True, w) \<Rightarrow> Some (Inr (Some (length (file_objects w))), w\<lparr>file_objects := file_objects w @ [Some fo]\<rparr>)) = Some (r, w')"
  obtain b w1 where h: "heap_new w = (b, w1)" by fastforce
  note l = heap_new_files [OF h]
  show "file_opened (live_files w) r (live_files w')"
    using eq l length_not_live [of w1] by (cases b) (auto simp: h)
qed

lemma opens_ensure: "opens m \<Longrightarrow> opens (x_ensure c e m)"
  by (cases c) (simp_all add: opens_keeps)

lemma opens_try:
  assumes "keeps live_files m" and "\<And>a. opens (k a)"
  shows "opens (x_try m k)"
  unfolding opens_def
proof (intro allI impI)
  fix w r w'
  assume eq: "x_try m k w = Some (r, w')"
  then obtain q w1 where m: "m w = Some (q, w1)" by (auto simp: x_try_def x_catch_def split: option.splits)
  then have l: "live_files w1 = live_files w" using assms(1) by (simp add: keeps_def)
  show "file_opened (live_files w) r (live_files w')"
  proof (cases q)
    case (Inl e) then show ?thesis using eq m l by (auto simp: x_try_def x_catch_def)
  next
    case (Inr a)
    then have "k a w1 = Some (r, w')" using eq m by (simp add: x_try_def x_catch_def)
    with assms(2) [of a] have "file_opened (live_files w1) r (live_files w')" unfolding opens_def by blast
    then show ?thesis unfolding l .
  qed
qed

lemma opensD:
  assumes "opens m"
  shows "m w = Some (Inr (Some h), w') \<Longrightarrow> h \<notin> live_files w \<and> live_files w' = insert h (live_files w)"
    "m w = Some (Inr None, w') \<Longrightarrow> live_files w' = live_files w"
    "m w = Some (Inl e, w') \<Longrightarrow> live_files w' = live_files w"
  using assms unfolding opens_def by (metis file_opened.simps)+

lemma char_factory_file: "run_char_factory c w = Some (Inr h, w') \<Longrightarrow> h \<noteq> None"
  by (cases c) (auto simp: create_console_file_def new_file_object_def split: prod.splits bool.splits)

lemma char_factory_checked:
  "x_try (run_char_factory c) (\<lambda>h. x_ensure (h \<noteq> None) Io (x_ok h)) w = run_char_factory c w"
proof (cases "run_char_factory c w")
  case (Some p)
  moreover obtain r w' where "p = (r, w')" by fastforce
  ultimately show ?thesis using char_factory_file [of c w _ w']
    by (cases r) (auto simp: x_try_def x_catch_def x_ensure_def)
qed (simp add: x_try_def x_catch_def)

lemma opens_devfs: "opens (devfs_open p)"
proof -
  have f: "opens (run_char_factory c)" for c by (cases c) (simp add: create_console_file_def opens_new)
  have "devfs_open p w = (if p = [] then x_fail Invalid w else case find_char_dev (char_devices w) p of
      None \<Rightarrow> x_fail NotFound w | Some c \<Rightarrow> run_char_factory c w)" for w :: "'a fs_world"
    by (cases "p = []"; cases "find_char_dev (char_devices w) p")
      (simp_all only: devfs_open_def char_factory_checked option.case if_True if_False simp_thms x_simps)
  note eq = this
  show ?thesis unfolding opens_def
  proof (intro allI impI)
    fix w w' :: "'a fs_world" and r
    assume "devfs_open p w = Some (r, w')"
    then consider c where "run_char_factory c w = Some (r, w')" | e where "x_fail e w = Some (r, w')"
      unfolding eq by (auto split: if_splits option.splits)
    then show "file_opened (live_files w) r (live_files w')"
    proof cases
      case 1 then show ?thesis using f unfolding opens_def by blast
    qed auto
  qed
qed

lemma opens_fat: "opens (fat_fs_open io f p)"
  unfolding fat_fs_open_def by (intro opens_ensure opens_try keeps_rules opens_new)

lemma opens_dispatch: "opens m \<Longrightarrow> opens m' \<Longrightarrow> opens (dispatch f m m')"
  by (auto simp: opens_def dispatch_def)

lemma opens_kernel: "opens (fc_open (kernel_fs io) f p)"
  by (simp add: kernel_fs_def opens_dispatch opens_devfs opens_fat)

interpretation kfs: fs_contract "kernel_fs io" live_files for io
proof (unfold_locales, goal_cases)
  case (1 c w r w')
  then show ?case using heap_new_files
    by (fastforce simp: kernel_fs_def fs_create_def live_files_def split: prod.splits bool.splits)
next
  case (2 f w)
  then show ?case by (auto simp: kernel_fs_def fat_fs_unmount_def put_volume_def live_files_def split: option.splits fs_object.splits)
next
  case (3 f w)
  then show ?case by (simp add: kernel_fs_def live_files_def)
next
  case (4 f p w h w')
  then show ?case by (rule opensD(1) [OF opens_kernel])
next
  case (5 f p w w')
  then show ?case by (rule opensD(2) [OF opens_kernel])
next
  case (6 f p w e w')
  then show ?case by (rule opensD(3) [OF opens_kernel])
next
  case (7 h w)
  then show ?case by (simp add: kernel_fs_def live_files_delete)
qed (auto simp: kernel_fs_def fat_fs_readdir_def fat_fs_mkdir_def fat_fs_create_def fat_fs_unlink_def
      fat_fs_rmdir_def intro!: keeps_rules)

section \<open>Properties\<close>

definition vfs_initial :: "(bytes \<times> 'c) list \<Rightarrow> 'w \<Rightarrow> ('c, 'f, 'h, 'w) vfs_state" where
  "vfs_initial reg w = \<lparr>mounts = initial_mounts, fs_registry = reg, mount_of = (\<lambda>_. None), world = w\<rparr>"

lemma vfs_initial_calm: "calm (vfs_initial reg w)"
  by (simp add: calm_def vfs_initial_def initial_mounts_def empty_slot_def less_Suc_eq)

lemma vfs_initial_inv: "vfs_inv live [] (vfs_initial reg w)"
  by (auto simp: vfs_inv_def vfs_initial_def users_exact_def initial_mounts_def empty_slot_def less_Suc_eq open_at_def)

text \<open>C24. After any sequence of calls of the virtual file system on FAT volumes and the device file
  system, started with nothing mounted, no assertion has failed, the counter of every mount slot is
  the number of files open on it, and a slot with open files has its file system mounted. An unmount of
  a mounted file system is then refused with Busy, without any effect, exactly when a file is open on
  it; otherwise it succeeds, unmounts and deletes the file system and leaves the slot empty.\<close>

theorem open_files_counted:
  assumes "vfs_run (kernel_fs io) cs (vfs_initial reg w) = Some r"
  shows "\<exists>v. r = Inr v \<and> (\<forall>i<length (mounts v).
    users (mounts v ! i) = card {h. mount_of v h = Some i} \<and>
    (users (mounts v ! i) \<noteq> 0 \<longrightarrow> mfs (mounts v ! i) \<noteq> None)) \<and>
    (\<forall>p i f. find_slot (mounts v) (Some p) = Some i \<longrightarrow> mfs (mounts v ! i) = Some f \<longrightarrow>
       (let fs = (kernel_fs io :: (fs_kind, nat, nat, 'v, 'd fs_world) fs_class)
        in vfs_umount fs (Some p) v = Some (Inr
             (if \<exists>h. mount_of v h = Some i then (Inl Busy, v)
              else (Inr (), v\<lparr>mounts := upd_slot i (\<lambda>s. empty_slot (mount_point s)) (mounts v),
                     world := fc_delete fs f (fc_unmount fs f (world v))\<rparr>)))))"
proof -
  obtain v where v: "r = Inr v" "vfs_inv live_files [] v"
    using kfs.vfs_run_inv [OF vfs_initial_inv assms] by blast
  note d = users_exactD [OF vfs_invD(1) [OF v(2)]]
  have calm: "calm v" using calm_run [OF vfs_initial_calm assms [unfolded v(1)]] .
  have open_iff: "users (mounts v ! i) \<noteq> 0 \<longleftrightarrow> (\<exists>h. mount_of v h = Some i)" if "i < length (mounts v)" for i
  proof -
    have "finite {h. mount_of v h = Some i}" using d(1) by (rule finite_subset [rotated]) auto
    then show ?thesis using d(4) [OF that] by (auto simp: open_at_def)
  qed
  have "vfs_umount fs (Some p) v = Some (Inr
         (if \<exists>h. mount_of v h = Some i then (Inl Busy, v)
          else (Inr (), v\<lparr>mounts := upd_slot i (\<lambda>s. empty_slot (mount_point s)) (mounts v),
                 world := fc_delete fs f (fc_unmount fs f (world v))\<rparr>)))"
    if s: "find_slot (mounts v) (Some p) = Some i" "mfs (mounts v ! i) = Some f" for p i f and fs :: "(fs_kind, nat, nat, 'v, 'd fs_world) fs_class"
  proof -
    have "i < length (mounts v)" using find_slot_Some [OF s(1)] by simp
    then show ?thesis using umount_calm [OF calm s, of fs] open_iff by simp
  qed
  then show ?thesis using v(1) d(4,5) by (simp add: open_at_def Let_def)
qed

definition demo_fs_world :: "disk_image fs_world" where
  "demo_fs_world = \<lparr>disks = (\<lambda>_. fdev demo_state), fs_objects = [], file_objects = [],
     char_devices = [(str ''console'', Console_Factory)], kconsole = demo_console, heap = [True, True]\<rparr>"

definition demo_calls :: "(nat, unit) vfs_call list" where
  "demo_calls = [Do_mount (Some (str ''/dev'')) None (Some (str ''devfs'')), Do_open (Some (str ''/dev/console'')),
     Do_umount (Some (str ''/dev''))]"

lemma demo_calls_run:
  "\<exists>v. vfs_run (kernel_fs image_ops) demo_calls (vfs_initial [(str ''devfs'', Dev_Kind)] demo_fs_world) = Some (Inr v) \<and>
     mount_of v 0 = Some 0 \<and> users (mounts v ! 0) = 1 \<and> find_slot (mounts v) (Some (str ''/dev'')) = Some 0 \<and>
     mfs (mounts v ! 0) = Some 0"
  by (simp add: demo_calls_def vfs_initial_def demo_fs_world_def vfs_mount_def vfs_open_def vfs_umount_def
      k_state_def k_try_def k_bind_def on_mounts_def mount_begin_def umount_begin_def find_slot_def initial_mounts_def
      empty_slot_def str_def upd_slot_def mount_owner_def on_world_def kernel_fs_def fs_create_def heap_new_def
      dispatch_def is_dev_object_def object_at_def end_transition_def finish_transition_def mount_publish_def
      resolve_path_def mount_split_path_def acquire_mount_def acquire_slot_def op_try_def call_fs_def fs_of_def
      devfs_open_def create_console_file_def new_file_object_def x_ensure_def x_try_def x_catch_def
      take_reference_def k_assert_def)

theorem open_files_counted_witness:
  "\<exists>v. vfs_run (kernel_fs image_ops) demo_calls (vfs_initial [(str ''devfs'', Dev_Kind)] demo_fs_world) = Some (Inr v) \<and>
     vfs_umount (kernel_fs image_ops :: (fs_kind, nat, nat, unit, disk_image fs_world) fs_class)
       (Some (str ''/dev'')) v = Some (Inr (Inl Busy, v))"
proof -
  obtain v where v: "vfs_run (kernel_fs image_ops) demo_calls (vfs_initial [(str ''devfs'', Dev_Kind)] demo_fs_world) =
      Some (Inr v)" "mount_of v 0 = Some 0" "find_slot (mounts v) (Some (str ''/dev'')) = Some 0"
      "mfs (mounts v ! 0) = Some 0"
    using demo_calls_run by blast
  have "\<exists>h. mount_of v h = Some 0" using v(2) by blast
  with open_files_counted [OF v(1), where 'v = unit] v(3,4)
  have "vfs_umount (kernel_fs image_ops :: (fs_kind, nat, nat, unit, disk_image fs_world) fs_class)
      (Some (str ''/dev'')) v = Some (Inr (Inl Busy, v))"
    by (simp add: Let_def)
  with v(1) show ?thesis by blast
qed

end
