(* ===== verification/Page_Table.thy ===== *)
theory Page_Table
  imports Page_Allocator Swap_Slots
begin

unbundle bit_operations_syntax

text \<open>
  Page tables of \<^verbatim>\<open>kernel/mm/pmm.cpp\<close> with the entry formats of \<^verbatim>\<open>arch/x86/include/asm/page.h\<close>: the
  four-level walk that allocates missing tables and splits large pages, inserting and removing
  pages, freeing an address space, and the walk that checks a user access. Physical memory is a
  function from frames to their 512 words; the kernel reaches all of it through a fixed offset, so
  a pointer to a table is its physical address. Tables come from the page allocator.
\<close>

section \<open>Entries\<close>

definition PTE_P :: u64 where "PTE_P = 0x001"
definition PTE_W :: u64 where "PTE_W = 0x002"
definition PTE_U :: u64 where "PTE_U = 0x004"
definition PTE_PWT :: u64 where "PTE_PWT = 0x008"
definition PTE_PCD :: u64 where "PTE_PCD = 0x010"
definition PTE_PS :: u64 where "PTE_PS = 0x080"
definition PTE_NX :: u64 where "PTE_NX = push_bit 63 1"
definition PTE_ADDR_MASK :: u64 where "PTE_ADDR_MASK = 0x000FFFFFFFFFF000"
definition PTE_PAT_PAGE :: u64 where "PTE_PAT_PAGE = PTE_PS"
definition PTE_PAT_LARGE :: u64 where "PTE_PAT_LARGE = push_bit 12 1"
definition PG_MASK :: u64 where "PG_MASK = 4095"

definition USER_SPACE_TOP :: u64 where "USER_SPACE_TOP = 0x0000800000000000"

abbreviation PT_WALK_LEVELS :: nat where "PT_WALK_LEVELS \<equiv> 4"
abbreviation PAGE_TABLE_ENTRIES :: nat where "PAGE_TABLE_ENTRIES \<equiv> 512"
abbreviation USER_TOP_ENTRIES :: nat where "USER_TOP_ENTRIES \<equiv> 256"

definition VM_WRITE :: u32 where "VM_WRITE = 0x02"
definition VM_USER :: u32 where "VM_USER = 0x04"
definition VM_NOCACHE :: u32 where "VM_NOCACHE = 0x08"
definition VM_NOEXEC :: u32 where "VM_NOEXEC = 0x10"

definition user_page_perm :: "bool \<Rightarrow> bool \<Rightarrow> u32" where
  "user_page_perm write executable = VM_USER OR (if write then VM_WRITE else 0) OR (if executable then 0 else VM_NOEXEC)"

definition pte_present :: "u64 \<Rightarrow> bool" where "pte_present e \<longleftrightarrow> e AND PTE_P \<noteq> 0"
definition pte_writable :: "u64 \<Rightarrow> bool" where "pte_writable e \<longleftrightarrow> e AND PTE_W \<noteq> 0"
definition pte_user :: "u64 \<Rightarrow> bool" where "pte_user e \<longleftrightarrow> e AND PTE_U \<noteq> 0"
definition pte_executable :: "u64 \<Rightarrow> bool" where "pte_executable e \<longleftrightarrow> e AND PTE_NX = 0"
definition pte_is_block :: "u64 \<Rightarrow> bool" where "pte_is_block e \<longleftrightarrow> e AND PTE_PS \<noteq> 0"
definition pte_addr :: "u64 \<Rightarrow> u64" where "pte_addr e = e AND PTE_ADDR_MASK"

definition pte_user_accessible :: "u64 \<Rightarrow> bool \<Rightarrow> bool" where
  "pte_user_accessible e write \<longleftrightarrow> pte_present e \<and> pte_user e \<and> (\<not> write \<or> pte_writable e)"

definition pte_user_table_accessible :: "u64 \<Rightarrow> bool \<Rightarrow> bool" where
  "pte_user_table_accessible e write \<longleftrightarrow> pte_user_accessible e write"

definition merge_user_page_perm :: "u64 \<Rightarrow> u32 \<Rightarrow> u32" where
  "merge_user_page_perm e perm =
     user_page_perm (pte_writable e \<or> perm AND VM_WRITE \<noteq> 0) (pte_executable e \<or> perm AND VM_NOEXEC = 0)"

definition make_pte_table :: "u64 \<Rightarrow> u64" where
  "make_pte_table pa = pa OR PTE_P OR PTE_W OR PTE_U"

definition make_pte_page :: "u64 \<Rightarrow> u32 \<Rightarrow> u64" where
  "make_pte_page pa perm =
     pa OR PTE_P OR (if perm AND VM_WRITE \<noteq> 0 then PTE_W else 0) OR (if perm AND VM_USER \<noteq> 0 then PTE_U else 0) OR
       (if perm AND VM_NOCACHE \<noteq> 0 then PTE_PCD OR PTE_PWT else 0) OR (if perm AND VM_NOEXEC \<noteq> 0 then PTE_NX else 0)"

definition split_page_entry :: "u64 \<Rightarrow> u64 \<Rightarrow> nat \<Rightarrow> u64" where
  "split_page_entry e pa child_shift =
     (let fl = e AND NOT (PTE_ADDR_MASK OR PTE_PS); pat = e AND PTE_PAT_LARGE \<noteq> 0
      in pa OR (if child_shift > PG_SHIFT then fl OR PTE_PS OR (if pat then PTE_PAT_LARGE else 0)
                else if pat then fl OR PTE_PAT_PAGE else fl))"

section \<open>The machine\<close>

text \<open>
  \<open>ptmem t i\<close> is word \<open>i\<close> of the frame at physical address \<open>t\<close>. The log keeps the addresses whose
  translation was invalidated.
\<close>

record pt_machine =
  parea :: page_area
  ptmem :: "u64 \<Rightarrow> nat \<Rightarrow> u64"
  swap_st :: swap_slots
  cur_root :: u64
  tlb_log :: "u64 list"
  page_total :: u32

type_synonym 'a mop = "pt_machine \<Rightarrow> ('a \<times> pt_machine) exec"

definition m_ret :: "'a \<Rightarrow> 'a mop" where
  "m_ret a m = Some (Inr (a, m))"

definition m_bind :: "'a mop \<Rightarrow> ('a \<Rightarrow> 'b mop) \<Rightarrow> 'b mop" where
  "m_bind f k m = (case f m of None \<Rightarrow> None | Some (Inl e) \<Rightarrow> Some (Inl e) | Some (Inr (a, m')) \<Rightarrow> k a m')"

fun m_each :: "('a \<Rightarrow> unit mop) \<Rightarrow> 'a list \<Rightarrow> unit mop" where
  "m_each f [] = m_ret ()"
| "m_each f (x # xs) = m_bind (f x) (\<lambda>_. m_each f xs)"

definition m_alloc :: "u64 \<Rightarrow> nat option mop" where
  "m_alloc n m = (case alloc_pages (parea m) n of None \<Rightarrow> None | Some (p, a) \<Rightarrow> Some (Inr (p, m\<lparr>parea := a\<rparr>)))"

definition m_free :: "nat \<Rightarrow> unit mop" where
  "m_free p m =
     (case free_pages (parea m) p 1 of
        None \<Rightarrow> None | Some (Inl e) \<Rightarrow> Some (Inl e) | Some (Inr a) \<Rightarrow> Some (Inr ((), m\<lparr>parea := a\<rparr>)))"

definition on_page :: "nat \<Rightarrow> (page \<Rightarrow> page) \<Rightarrow> pt_machine \<Rightarrow> pt_machine" where
  "on_page p f m = m\<lparr>parea := upd_page (parea m) p f\<rparr>"

definition put_pte :: "u64 \<Rightarrow> nat \<Rightarrow> u64 \<Rightarrow> pt_machine \<Rightarrow> pt_machine" where
  "put_pte t i e m = m\<lparr>ptmem := (ptmem m)(t := (ptmem m t)(i := e))\<rparr>"

section \<open>Tables\<close>

definition INVALID_TABLE_PA :: u64 where "INVALID_TABLE_PA = -1"

definition alloc_table_page :: "bool \<Rightarrow> u64 mop" where
  "alloc_table_page create =
     (if \<not> create then m_ret INVALID_TABLE_PA
      else m_bind (m_alloc 1) (\<lambda>page.
        case page of
          None \<Rightarrow> m_ret INVALID_TABLE_PA
        | Some p \<Rightarrow> (\<lambda>m.
            let m = on_page p (\<lambda>q. q\<lparr>ref_count := 1\<rparr>) m;
                m = on_page p set_page_table m;
                pa = page_to_phys p
            in m_ret pa (m\<lparr>ptmem := (ptmem m)(pa := (\<lambda>_. 0))\<rparr>))))"

definition free_table_page :: "u64 \<Rightarrow> unit mop" where
  "free_table_page pa m =
     (let p = phys_to_page pa
      in if ref_count (pages (parea m) p) \<noteq> 1 then Some (Inl Panicked)
         else m_free p (on_page p (\<lambda>q. q\<lparr>ref_count := ref_count q - 1\<rparr>) m))"

definition link_table_entry :: "u64 \<Rightarrow> nat \<Rightarrow> u64 \<Rightarrow> pt_machine \<Rightarrow> pt_machine" where
  "link_table_entry t i pa m = put_pte t i (make_pte_table pa) m"

definition LEVEL_SHIFTS :: "nat list" where
  "LEVEL_SHIFTS = [39, 30, 21, 12]"

definition level_index :: "u64 \<Rightarrow> nat \<Rightarrow> nat" where
  "level_index va level = unat (drop_bit (LEVEL_SHIFTS ! level) va AND 0x1FF)"

text \<open>The entries that take the place of a large page.\<close>

definition split_table :: "u64 \<Rightarrow> nat \<Rightarrow> nat \<Rightarrow> (nat \<Rightarrow> u64) \<Rightarrow> nat \<Rightarrow> u64" where
  "split_table e parent_shift child_shift old =
     (let large_pa = pte_addr e AND NOT (push_bit parent_shift 1 - 1)
      in (\<lambda>i. if i < PAGE_TABLE_ENTRIES
              then split_page_entry e (large_pa + push_bit child_shift (word_of_nat i)) child_shift else old i))"

definition descend_level :: "u64 \<Rightarrow> nat \<Rightarrow> bool \<Rightarrow> nat \<Rightarrow> nat \<Rightarrow> u64 option mop" where
  "descend_level t i create parent_shift child_shift m =
     (let e = ptmem m t i
      in if pte_present e then
           if pte_is_block e then
             m_bind (alloc_table_page create) (\<lambda>pa.
               if pa = INVALID_TABLE_PA then m_ret None
               else (\<lambda>m. m_ret (Some pa) (link_table_entry t i pa
                      (m\<lparr>ptmem := (ptmem m)(pa := split_table e parent_shift child_shift (ptmem m pa))\<rparr>)))) m
           else m_ret (Some (pte_addr e)) m
         else m_bind (alloc_table_page create) (\<lambda>pa.
                if pa = INVALID_TABLE_PA then m_ret None
                else (\<lambda>m. m_ret (Some pa) (link_table_entry t i pa m))) m)"

fun walk_levels :: "bool \<Rightarrow> u64 \<Rightarrow> nat \<Rightarrow> nat \<Rightarrow> u64 \<Rightarrow> u64 option mop" where
  "walk_levels create va level 0 t = m_ret (Some t)"
| "walk_levels create va level (Suc k) t =
     m_bind (descend_level t (level_index va level) create (LEVEL_SHIFTS ! level) (LEVEL_SHIFTS ! (level + 1)))
       (\<lambda>r. case r of None \<Rightarrow> m_ret None | Some t' \<Rightarrow> walk_levels create va (level + 1) k t')"

definition get_pte :: "u64 \<Rightarrow> u64 \<Rightarrow> bool \<Rightarrow> (u64 \<times> nat) option mop" where
  "get_pte pgdir va create =
     m_bind (walk_levels create va 0 (PT_WALK_LEVELS - 1) pgdir)
       (\<lambda>r. m_ret (map_option (\<lambda>t. (t, level_index va (PT_WALK_LEVELS - 1))) r))"

section \<open>Mapping pages\<close>

definition flush_page :: "u64 \<Rightarrow> pt_machine \<Rightarrow> pt_machine" where
  "flush_page va m = m\<lparr>tlb_log := va # tlb_log m\<rparr>"

definition invalidate_tlb_page :: "u64 \<Rightarrow> u64 \<Rightarrow> pt_machine \<Rightarrow> pt_machine" where
  "invalidate_tlb_page pgdir va m = (if cur_root m = pgdir then flush_page va m else m)"

definition page_insert :: "u64 \<Rightarrow> nat \<Rightarrow> u64 \<Rightarrow> u32 \<Rightarrow> error mop" where
  "page_insert pgdir p va perm =
     m_bind (get_pte pgdir va True) (\<lambda>r.
       case r of
         None \<Rightarrow> m_ret NoMem
       | Some (t, i) \<Rightarrow> (\<lambda>m.
           if pte_present (ptmem m t i) then m_ret Exists m
           else let m = on_page p (\<lambda>q. q\<lparr>ref_count := ref_count q + 1\<rparr>) m;
                    m = put_pte t i (make_pte_page (page_to_phys p) perm) m
                in m_ret Err_None (invalidate_tlb_page pgdir va m)))"

definition alloc_and_map_page :: "u64 \<Rightarrow> u64 \<Rightarrow> u32 \<Rightarrow> nat option mop" where
  "alloc_and_map_page pgdir va perm =
     m_bind (m_alloc 1) (\<lambda>page.
       case page of
         None \<Rightarrow> m_ret None
       | Some p \<Rightarrow>
           m_bind (page_insert pgdir p va perm) (\<lambda>e.
             if e \<noteq> Err_None then m_bind (m_free p) (\<lambda>_. m_ret None) else m_ret (Some p)))"

text \<open>
  \<^verbatim>\<open>unmap_mmio_page\<close>: the tables on the way down, with the index taken in each, ending at the leaf or
  at an entry that is absent or a large page; then the tables left empty are removed upwards.
\<close>

fun table_path :: "pt_machine \<Rightarrow> u64 \<Rightarrow> nat \<Rightarrow> nat \<Rightarrow> u64 \<Rightarrow> (u64 \<times> nat) list" where
  "table_path m va level 0 t = [(t, level_index va level)]"
| "table_path m va level (Suc k) t =
     (let i = level_index va level; e = ptmem m t i
      in if \<not> pte_present e \<or> pte_is_block e then [(t, i)]
         else (t, i) # table_path m va (level + 1) k (pte_addr e))"

definition table_empty :: "pt_machine \<Rightarrow> u64 \<Rightarrow> bool" where
  "table_empty m t \<longleftrightarrow> (\<forall>i \<in> set [0..<PAGE_TABLE_ENTRIES]. ptmem m t i = 0)"

fun prune_tables :: "u64 \<Rightarrow> (u64 \<times> nat) list \<Rightarrow> unit mop" where
  "prune_tables va ((t, i) # (t', i') # up) m =
     (let pa = pte_addr (ptmem m t' i'); p = phys_to_page pa
      in if \<not> table_empty m t \<or> to_u64 (page_total m) \<le> drop_bit PG_SHIFT pa then m_ret () m
         else if \<not> is_page_table (pages (parea m) p) \<or> is_reserved (pages (parea m) p) then m_ret () m
         else m_bind (free_table_page pa) (\<lambda>_. prune_tables va ((t', i') # up))
                (flush_page va (put_pte t' i' 0 m)))"
| "prune_tables va _ m = m_ret () m"

definition unmap_mmio_page :: "u64 \<Rightarrow> u64 \<Rightarrow> unit mop" where
  "unmap_mmio_page pgdir va m =
     (let path = table_path m va 0 (PT_WALK_LEVELS - 1) pgdir; up = rev path;
          m = (if length path = PT_WALK_LEVELS
               then flush_page va (put_pte (fst (hd up)) (snd (hd up)) 0 m) else m)
      in prune_tables va up m)"

section \<open>Freeing an address space\<close>

definition unlink_page :: "nat \<Rightarrow> pt_machine \<Rightarrow> pt_machine" where
  "unlink_page p m = m\<lparr>parea := (parea m)\<lparr>nodes := unlink (nodes (parea m)) (PageNode p)\<rparr>\<rparr>"

definition free_leaf_entry :: "u64 \<Rightarrow> nat \<Rightarrow> unit mop" where
  "free_leaf_entry t i m =
     (let e = ptmem m t i
      in if \<not> pte_present e then
           m_ret () (if e \<noteq> 0 then m\<lparr>swap_st := release_entry e (swap_st m)\<rparr> else m)
         else
           let p = phys_to_page (pte_addr e);
               m = (if ref_count (pages (parea m) p) > 0 then on_page p (\<lambda>q. q\<lparr>ref_count := ref_count q - 1\<rparr>) m else m)
           in if ref_count (pages (parea m) p) = 0 then m_free p (unlink_page p m) else m_ret () m)"

definition free_table_entry :: "(u64 \<Rightarrow> unit mop) \<Rightarrow> u64 \<Rightarrow> nat \<Rightarrow> unit mop" where
  "free_table_entry free_child t i m =
     (let e = ptmem m t i
      in if \<not> pte_present e \<or> pte_is_block e then m_ret () m
         else m_bind (free_child (pte_addr e)) (\<lambda>_. free_table_page (pte_addr e)) m)"

primrec free_user_pt_subtree :: "nat \<Rightarrow> u64 \<Rightarrow> unit mop" where
  "free_user_pt_subtree 0 t = m_each (free_leaf_entry t) [0..<PAGE_TABLE_ENTRIES]"
| "free_user_pt_subtree (Suc d) t = m_each (free_table_entry (free_user_pt_subtree d) t) [0..<PAGE_TABLE_ENTRIES]"

definition free_user_pgdir :: "u64 \<Rightarrow> u64 \<Rightarrow> unit mop" where
  "free_user_pgdir kb pgdir =
     m_bind (m_each (free_table_entry (free_user_pt_subtree (PT_WALK_LEVELS - 2)) pgdir) [0..<USER_TOP_ENTRIES]) (\<lambda>_ m.
       case kfree kb (parea m) (kb + pgdir) of
         None \<Rightarrow> None | Some (Inl e) \<Rightarrow> Some (Inl e) | Some (Inr a) \<Rightarrow> Some (Inr ((), m\<lparr>parea := a\<rparr>)))"

section \<open>Access by the user\<close>

fun user_walk :: "pt_machine \<Rightarrow> u64 \<Rightarrow> bool \<Rightarrow> nat \<Rightarrow> nat \<Rightarrow> u64 \<Rightarrow> error + u64" where
  "user_walk m va write level 0 t = Inl Invalid"
| "user_walk m va write level (Suc k) t =
     (let e = ptmem m t (level_index va level)
      in ensure (pte_present e) Invalid
           (if k = 0 \<or> pte_is_block e then
              ensure (pte_user_accessible e write) Invalid
                (let mask = push_bit (LEVEL_SHIFTS ! level) 1 - 1
                 in Inr ((pte_addr e AND NOT mask) + (va AND mask)))
            else ensure (pte_user_table_accessible e write) Invalid
                   (user_walk m va write (level + 1) k (pte_addr e))))"

definition user_address :: "pt_machine \<Rightarrow> u64 option \<Rightarrow> u64 \<Rightarrow> bool \<Rightarrow> error + u64" where
  "user_address m pgdir va write =
     (case pgdir of
        None \<Rightarrow> Inl Invalid
      | Some t \<Rightarrow> ensure (PG_SIZE \<le> va \<and> va < USER_SPACE_TOP) Invalid (user_walk m va write 0 PT_WALK_LEVELS t))"

end
