(* ===== verification/Page_Table_Map.thy ===== *)
theory Page_Table_Map
  imports Page_Table
begin

unbundle bit_operations_syntax

text \<open>
  Page tables as a map from virtual addresses to physical addresses and rights. The hardware walk
  defines the map; allocating a table, splitting a large page and entering a page are followed
  through it. The invariant is that the tables reachable from the root form a tree whose frames
  are not free. Inserting a page changes the map at the addresses of that page only, and a failed
  insertion changes nothing.
\<close>

section \<open>Bits of entries\<close>

named_theorems pte_bits "bits of page table constants"

lemma pte_powers:
  "PTE_P = 2 ^ 0" "PTE_W = 2 ^ 1" "PTE_U = 2 ^ 2" "PTE_PWT = 2 ^ 3" "PTE_PCD = 2 ^ 4" "PTE_PS = 2 ^ 7"
  "PTE_NX = 2 ^ 63" "PTE_PAT_LARGE = 2 ^ 12"
  by (simp_all add: PTE_P_def PTE_W_def PTE_U_def PTE_PWT_def PTE_PCD_def PTE_PS_def PTE_NX_def PTE_PAT_LARGE_def)

lemma pte_const_bits [pte_bits]:
  "bit PTE_P k \<longleftrightarrow> k = 0" "bit PTE_W k \<longleftrightarrow> k = 1" "bit PTE_U k \<longleftrightarrow> k = 2" "bit PTE_PWT k \<longleftrightarrow> k = 3"
  "bit PTE_PCD k \<longleftrightarrow> k = 4" "bit PTE_PS k \<longleftrightarrow> k = 7" "bit PTE_NX k \<longleftrightarrow> k = 63"
  "bit PTE_PAT_LARGE k \<longleftrightarrow> k = 12" "bit PTE_PAT_PAGE k \<longleftrightarrow> k = 7"
  unfolding PTE_PAT_PAGE_def pte_powers bit_exp_iff by (auto simp del: One_nat_def)

lemma addr_mask_bits [pte_bits]: "bit PTE_ADDR_MASK k \<longleftrightarrow> 12 \<le> k \<and> k < 52"
proof -
  have m: "PTE_ADDR_MASK = push_bit 12 (mask 40)" by (simp add: PTE_ADDR_MASK_def mask_eq_exp_minus_1)
  show ?thesis unfolding m by (auto simp: bit_push_bit_iff bit_mask_iff)
qed

lemma pte_tests:
  "pte_present e \<longleftrightarrow> bit e 0" "pte_writable e \<longleftrightarrow> bit e 1" "pte_user e \<longleftrightarrow> bit e 2"
  "pte_executable e \<longleftrightarrow> \<not> bit e 63" "pte_is_block e \<longleftrightarrow> bit e 7"
  unfolding pte_present_def pte_writable_def pte_user_def pte_executable_def pte_is_block_def pte_powers
    and_exp_eq_0_iff_not_bit by simp_all

lemma bit_pte_addr: "bit (pte_addr e) k \<longleftrightarrow> bit e k \<and> 12 \<le> k \<and> k < 52"
  by (simp add: pte_addr_def bit_and_iff pte_bits)

text \<open>Addresses of frames that the allocator can hand out.\<close>

definition frame_address :: "u64 \<Rightarrow> bool" where
  "frame_address pa \<longleftrightarrow> (\<forall>k. bit pa k \<longrightarrow> 12 \<le> k \<and> k < 52)"

lemma page_to_phys_frame:
  assumes "p < 2 ^ 32"
  shows "frame_address (page_to_phys p)"
proof -
  have "unat (take_bit 32 (word_of_nat p :: u64)) = unat (word_of_nat p :: u64)"
    using assms by (subst unsigned_take_bit_eq) (simp add: unsigned_of_nat take_bit_nat_eq_self)
  then have "take_bit 32 (word_of_nat p :: u64) = word_of_nat p" by (simp only: word_unat_eq_iff)
  then have "bit (word_of_nat p :: u64) k \<Longrightarrow> k < 32" for k by (metis bit_take_bit_iff)
  then show ?thesis by (fastforce simp: frame_address_def page_to_phys_def PG_SHIFT_def bit_push_bit_iff)
qed

lemma frame_not_invalid: "frame_address pa \<Longrightarrow> pa \<noteq> INVALID_TABLE_PA"
  by (auto simp: frame_address_def INVALID_TABLE_PA_def bit_minus_1_iff dest: spec [of _ 0])

lemma pte_addr_frame [simp]: "frame_address (pte_addr e)"
  by (simp add: frame_address_def bit_pte_addr)

lemma table_entry_facts:
  assumes "frame_address pa"
  shows "pte_addr (make_pte_table pa) = pa" "pte_present (make_pte_table pa)" "\<not> pte_is_block (make_pte_table pa)"
    "pte_writable (make_pte_table pa)" "pte_user (make_pte_table pa)" "pte_executable (make_pte_table pa)"
proof -
  have b: "bit pa k \<Longrightarrow> 12 \<le> k \<and> k < 52" for k using assms by (simp add: frame_address_def)
  show "pte_addr (make_pte_table pa) = pa"
    by (rule bit_word_eqI) (use b in \<open>auto simp: bit_pte_addr make_pte_table_def bit_or_iff pte_bits\<close>)
  show "pte_present (make_pte_table pa)" "pte_writable (make_pte_table pa)" "pte_user (make_pte_table pa)"
    by (simp_all add: pte_tests make_pte_table_def bit_or_iff pte_bits)
  show "\<not> pte_is_block (make_pte_table pa)" "pte_executable (make_pte_table pa)"
    using b [of 7] b [of 63] by (auto simp: pte_tests make_pte_table_def bit_or_iff pte_bits)
qed

lemma page_entry_facts:
  assumes "frame_address pa"
  shows "pte_addr (make_pte_page pa perm) = pa" "pte_present (make_pte_page pa perm)"
    "pte_writable (make_pte_page pa perm) \<longleftrightarrow> perm AND VM_WRITE \<noteq> 0"
    "pte_user (make_pte_page pa perm) \<longleftrightarrow> perm AND VM_USER \<noteq> 0"
    "pte_executable (make_pte_page pa perm) \<longleftrightarrow> perm AND VM_NOEXEC = 0"
proof -
  have b: "bit pa k \<Longrightarrow> 12 \<le> k \<and> k < 52" for k using assms by (simp add: frame_address_def)
  show "pte_addr (make_pte_page pa perm) = pa"
    by (rule bit_word_eqI) (use b in \<open>auto simp: bit_pte_addr make_pte_page_def bit_or_iff pte_bits\<close>)
  show "pte_present (make_pte_page pa perm)" by (simp add: pte_tests make_pte_page_def bit_or_iff pte_bits)
  show "pte_writable (make_pte_page pa perm) \<longleftrightarrow> perm AND VM_WRITE \<noteq> 0"
    "pte_user (make_pte_page pa perm) \<longleftrightarrow> perm AND VM_USER \<noteq> 0"
    "pte_executable (make_pte_page pa perm) \<longleftrightarrow> perm AND VM_NOEXEC = 0"
    using b [of 1] b [of 2] b [of 63] by (auto simp: pte_tests make_pte_page_def bit_or_iff pte_bits)
qed

section \<open>Splitting a large page\<close>

lemma bit_low_mask: "bit (2 ^ n - 1 :: u64) k \<longleftrightarrow> k < n \<and> k < 64"
  unfolding mask_eq_exp_minus_1 [symmetric] by (auto simp: bit_mask_iff)

lemma bit_index: "bit (word_of_nat (unat (drop_bit s (va :: u64) AND 0x1FF)) :: u64) k \<longleftrightarrow> bit va (s + k) \<and> k < 9"
proof -
  have m: "(0x1FF :: u64) = mask 9" by (simp add: mask_eq_exp_minus_1)
  have w: "word_of_nat (unat (w :: u64)) = w" for w by simp
  show ?thesis unfolding w m by (auto simp: bit_and_iff bit_drop_bit_eq bit_mask_iff)
qed

lemma level_index_bound: "level_index va l < 512"
proof -
  have "drop_bit (LEVEL_SHIFTS ! l) va AND 0x1FF \<le> (0x1FF :: u64)" by (rule word_and_le1)
  then show ?thesis by (simp add: level_index_def word_le_nat_alt)
qed

text \<open>Addresses below a large page at shift \<open>s + 9\<close>, through the entry of its table at shift \<open>s\<close>.\<close>

lemma split_address:
  assumes s: "12 \<le> s" "s + 9 \<le> 48" and i: "i = unat (drop_bit s va AND 0x1FF)"
    and e': "e' = split_page_entry e ((pte_addr e AND NOT (push_bit (s + 9) 1 - 1)) + push_bit s (word_of_nat i)) s"
  shows "(pte_addr e' AND NOT (push_bit s 1 - 1)) + (va AND (push_bit s 1 - 1))
    = (pte_addr e AND NOT (push_bit (s + 9) 1 - 1)) + (va AND (push_bit (s + 9) 1 - 1))"
    and "pte_present e' = pte_present e" "pte_writable e' = pte_writable e" "pte_user e' = pte_user e"
    "pte_executable e' = pte_executable e" "12 < s \<Longrightarrow> pte_is_block e'"
proof -
  let ?base = "pte_addr e AND NOT (push_bit (s + 9) 1 - 1)"
  let ?off = "push_bit s (word_of_nat i) :: u64"
  have base: "bit ?base k \<longleftrightarrow> bit e k \<and> 12 \<le> k \<and> k < 52 \<and> s + 9 \<le> k" for k
    using s by (auto simp: bit_and_iff bit_not_iff bit_pte_addr bit_low_mask dest: bit_imp_le_length)
  have off: "bit ?off k \<longleftrightarrow> bit va k \<and> s \<le> k \<and> k < s + 9" for k
    using s unfolding i bit_push_bit_iff bit_index by auto
  have disj: "?base + ?off = ?base OR ?off"
    by (rule disjunctive_add) (use base off in auto)
  have fl: "bit e' k \<longleftrightarrow> bit ?base k \<or> bit ?off k \<or> (bit e k \<and> (k < 12 \<or> 52 \<le> k) \<and> k \<noteq> 7)
      \<or> (k = 7 \<and> (12 < s \<or> bit e 12)) \<or> (k = 12 \<and> 12 < s \<and> bit e 12)" if "k < 64" for k
  proof -
    have "e AND PTE_PAT_LARGE \<noteq> 0 \<longleftrightarrow> bit e 12" unfolding pte_powers and_exp_eq_0_iff_not_bit by simp
    then show ?thesis using that s unfolding e' disj
      by (auto simp: split_page_entry_def Let_def PG_SHIFT_def bit_or_iff bit_and_iff bit_not_iff pte_bits)
  qed
  show "pte_present e' = pte_present e" "pte_writable e' = pte_writable e" "pte_user e' = pte_user e"
    "pte_executable e' = pte_executable e"
    using s fl [of 0] fl [of 1] fl [of 2] fl [of 63] base [of 0] base [of 1] base [of 2] base [of 63]
      off [of 0] off [of 1] off [of 2] off [of 63] by (auto simp: pte_tests)
  show "pte_is_block e'" if "12 < s" using that by (simp add: pte_tests fl)
  have l: "(pte_addr e' AND NOT (push_bit s 1 - 1)) + (va AND (push_bit s 1 - 1))
    = (pte_addr e' AND NOT (push_bit s 1 - 1)) OR (va AND (push_bit s 1 - 1))"
    by (rule disjunctive_add) (use s in \<open>auto simp: bit_and_iff bit_not_iff bit_low_mask\<close>)
  have r: "?base + (va AND (push_bit (s + 9) 1 - 1)) = ?base OR (va AND (push_bit (s + 9) 1 - 1))"
    by (rule disjunctive_add) (use s base in \<open>auto simp: bit_and_iff bit_low_mask\<close>)
  show "(pte_addr e' AND NOT (push_bit s 1 - 1)) + (va AND (push_bit s 1 - 1))
    = ?base + (va AND (push_bit (s + 9) 1 - 1))"
    unfolding l r
  proof (rule bit_word_eqI)
    fix k assume "k < LENGTH(64)"
    then have k: "k < 64" by simp
    have L: "bit ((pte_addr e' AND NOT (push_bit s 1 - 1)) OR (va AND (push_bit s 1 - 1))) k
        \<longleftrightarrow> (bit e' k \<and> k < 52 \<and> s \<le> k) \<or> (bit va k \<and> k < s)"
      using k s by (auto simp: bit_or_iff bit_and_iff bit_not_iff bit_low_mask bit_pte_addr)
    have R: "bit (?base OR (va AND (push_bit (s + 9) 1 - 1))) k
        \<longleftrightarrow> (bit e k \<and> k < 52 \<and> s + 9 \<le> k) \<or> (bit va k \<and> k < s + 9)"
      using k s base [of k] by (auto simp: bit_or_iff bit_and_iff bit_low_mask)
    consider "k < s" | "s \<le> k" "k < s + 9" | "s + 9 \<le> k" by linarith
    then show "bit ((pte_addr e' AND NOT (push_bit s 1 - 1)) OR (va AND (push_bit s 1 - 1))) k
      = bit (?base OR (va AND (push_bit (s + 9) 1 - 1))) k"
      unfolding L R fl [OF k] base off using s by cases auto
  qed
qed

section \<open>The map\<close>

text \<open>Rights to write, to access from user mode and to execute; every level restricts them.\<close>

datatype rights = Rights (may_write: bool) (may_use: bool) (may_execute: bool)

definition entry_rights :: "u64 \<Rightarrow> rights" where
  "entry_rights e = Rights (pte_writable e) (pte_user e) (pte_executable e)"

definition all_rights :: rights where
  "all_rights = Rights True True True"

fun meet :: "rights \<Rightarrow> rights \<Rightarrow> rights" where
  "meet (Rights a b c) (Rights a' b' c') = Rights (a \<and> a') (b \<and> b') (c \<and> c')"

lemma meet_all [simp]: "meet all_rights r = r"
  by (cases r) (simp add: all_rights_def)

lemma meet_assoc: "meet (meet a b) c = meet a (meet b c)"
  by (cases a; cases b; cases c) auto

definition permits :: "bool \<Rightarrow> rights \<Rightarrow> bool" where
  "permits write r \<longleftrightarrow> may_use r \<and> (\<not> write \<or> may_write r)"

lemma permits_meet: "permits w (meet a b) \<longleftrightarrow> permits w a \<and> permits w b"
  by (cases a; cases b) (auto simp: permits_def)

lemma permits_entry: "pte_user_accessible e w \<longleftrightarrow> pte_present e \<and> permits w (entry_rights e)"
  by (auto simp: pte_user_accessible_def permits_def entry_rights_def)

text \<open>The walk of the processor from a table at \<open>level\<close>.\<close>

fun translate :: "(u64 \<Rightarrow> nat \<Rightarrow> u64) \<Rightarrow> u64 \<Rightarrow> nat \<Rightarrow> nat \<Rightarrow> u64 \<Rightarrow> (u64 \<times> rights) option" where
  "translate pm va level 0 t = None"
| "translate pm va level (Suc k) t =
     (let e = pm t (level_index va level); mask = push_bit (LEVEL_SHIFTS ! level) 1 - 1
      in if \<not> pte_present e then None
         else if k = 0 \<or> pte_is_block e then Some ((pte_addr e AND NOT mask) + (va AND mask), entry_rights e)
         else map_option (\<lambda>(a, r). (a, meet (entry_rights e) r)) (translate pm va (level + 1) k (pte_addr e)))"

definition is_table_entry :: "u64 \<Rightarrow> bool" where
  "is_table_entry e \<longleftrightarrow> pte_present e \<and> \<not> pte_is_block e"

text \<open>The rights the tables on the way to the leaf leave.\<close>

fun path_rights :: "(u64 \<Rightarrow> nat \<Rightarrow> u64) \<Rightarrow> u64 \<Rightarrow> nat \<Rightarrow> nat \<Rightarrow> u64 \<Rightarrow> rights" where
  "path_rights pm va level 0 t = all_rights"
| "path_rights pm va level (Suc k) t =
     (let e = pm t (level_index va level)
      in if is_table_entry e then meet (entry_rights e) (path_rights pm va (level + 1) k (pte_addr e))
         else all_rights)"

definition address_map :: "pt_machine \<Rightarrow> u64 \<Rightarrow> u64 \<Rightarrow> (u64 \<times> rights) option" where
  "address_map m root va = translate (ptmem m) va 0 4 root"

text \<open>The check of \<^verbatim>\<open>user_address\<close> is the walk of the processor with the rights of a user access.\<close>

lemma user_walk_translate:
  "user_walk m va w level k t = Inr a \<longleftrightarrow> (\<exists>r. translate (ptmem m) va level k t = Some (a, r) \<and> permits w r)"
proof (induction k arbitrary: level t)
  case (Suc k)
  let ?e = "ptmem m t (level_index va level)"
  show ?case
  proof (cases "pte_present ?e \<and> k \<noteq> 0 \<and> \<not> pte_is_block ?e")
    case True
    then have uw: "user_walk m va w level (Suc k) t = Inr a \<longleftrightarrow>
        permits w (entry_rights ?e) \<and> user_walk m va w (level + 1) k (pte_addr ?e) = Inr a"
      by (simp add: Let_def ensure_eq_Inr pte_user_table_accessible_def permits_entry)
    have tr: "translate (ptmem m) va level (Suc k) t
        = map_option (\<lambda>(a, r). (a, meet (entry_rights ?e) r)) (translate (ptmem m) va (level + 1) k (pte_addr ?e))"
      using True by (simp add: Let_def)
    show ?thesis unfolding uw tr Suc.IH by (auto simp: permits_meet simp del: translate.simps)
  next
    case False
    then show ?thesis by (auto simp: Let_def ensure_eq_Inr permits_entry)
  qed
qed simp

lemma user_address_map:
  "user_address m (Some root) va w = Inr a \<longleftrightarrow>
     PG_SIZE \<le> va \<and> va < USER_SPACE_TOP \<and> (\<exists>r. address_map m root va = Some (a, r) \<and> permits w r)"
  by (simp add: user_address_def ensure_eq_Inr user_walk_translate address_map_def)

section \<open>The tree of tables\<close>

fun table_at :: "(u64 \<Rightarrow> nat \<Rightarrow> u64) \<Rightarrow> u64 \<Rightarrow> nat list \<Rightarrow> u64 option" where
  "table_at pm t [] = Some t"
| "table_at pm t (i # p) = (if is_table_entry (pm t i) then table_at pm (pte_addr (pm t i)) p else None)"

lemma table_at_append: "table_at pm t (p @ q) = (case table_at pm t p of None \<Rightarrow> None | Some u \<Rightarrow> table_at pm u q)"
  by (induction p arbitrary: t) auto

lemma table_at_snoc:
  "table_at pm t (p @ [i]) = (case table_at pm t p of None \<Rightarrow> None | Some u \<Rightarrow>
     if is_table_entry (pm u i) then Some (pte_addr (pm u i)) else None)"
  by (auto simp: table_at_append split: option.splits)

definition table_path_ok :: "nat list \<Rightarrow> bool" where
  "table_path_ok p \<longleftrightarrow> length p \<le> 3 \<and> (\<forall>i \<in> set p. i < 512)"

definition pt_tree :: "(u64 \<Rightarrow> nat \<Rightarrow> u64) \<Rightarrow> u64 \<Rightarrow> nat set \<Rightarrow> bool" where
  "pt_tree pm root F \<longleftrightarrow>
     (\<forall>p q u. table_path_ok p \<longrightarrow> table_path_ok q \<longrightarrow> table_at pm root p = Some u \<longrightarrow>
        table_at pm root q = Some u \<longrightarrow> p = q) \<and>
     (\<forall>p u. table_path_ok p \<longrightarrow> table_at pm root p = Some u \<longrightarrow> phys_to_page u \<notin> F)"

definition pt_ok :: "pt_machine \<Rightarrow> u64 \<Rightarrow> nat set \<Rightarrow> bool" where
  "pt_ok m root F \<longleftrightarrow> area_free MAX_PAGES (parea m) F \<and> pt_tree (ptmem m) root F"

lemma pt_treeD:
  assumes "pt_tree pm root F" and "table_path_ok p" and "table_at pm root p = Some u"
  shows "table_path_ok q \<Longrightarrow> table_at pm root q = Some u \<Longrightarrow> p = q" "phys_to_page u \<notin> F"
  using assms unfolding pt_tree_def by blast+

lemma pt_tree_mono: "pt_tree pm root F \<Longrightarrow> F' \<subseteq> F \<Longrightarrow> pt_tree pm root F'"
  unfolding pt_tree_def by blast

text \<open>
  Linking a fresh table \<open>pa\<close> under entry \<open>i\<close> of the table \<open>t\<close> at \<open>pre\<close>: the entry was no table
  entry and the new table refers to no further tables.
\<close>

definition linked :: "(u64 \<Rightarrow> nat \<Rightarrow> u64) \<Rightarrow> u64 \<Rightarrow> nat \<Rightarrow> u64 \<Rightarrow> (nat \<Rightarrow> u64) \<Rightarrow> u64 \<Rightarrow> nat \<Rightarrow> u64" where
  "linked pm t i pa tbl = ((pm(pa := tbl))(t := ((pm(pa := tbl)) t)(i := make_pte_table pa)))"

definition link_table :: "(u64 \<Rightarrow> nat \<Rightarrow> u64) \<Rightarrow> u64 \<Rightarrow> nat set \<Rightarrow> nat list \<Rightarrow> nat \<Rightarrow> u64 \<Rightarrow> nat \<Rightarrow> (nat \<Rightarrow> u64) \<Rightarrow> bool" where
  "link_table pm root F pre i t pg tbl \<longleftrightarrow>
     pt_tree pm root F \<and> table_path_ok (pre @ [i]) \<and> table_at pm root pre = Some t \<and> \<not> is_table_entry (pm t i) \<and>
     pg \<in> F \<and> pg < 2 ^ 32 \<and> (\<forall>j<512. length pre < 2 \<longrightarrow> \<not> is_table_entry (tbl j))"

lemma link_tableD:
  assumes "link_table pm root F pre i t pg tbl"
  shows "pt_tree pm root F" "table_path_ok pre" "table_at pm root pre = Some t" "\<not> is_table_entry (pm t i)"
    "pg \<in> F" "pg < 2 ^ 32" "length pre < 2 \<Longrightarrow> j < 512 \<Longrightarrow> \<not> is_table_entry (tbl j)"
  using assms by (auto simp: link_table_def table_path_ok_def)

lemma link_page_frame:
  assumes "link_table pm root F pre i t pg tbl"
  shows "frame_address (page_to_phys pg)" "phys_to_page (page_to_phys pg) = pg"
  using page_to_phys_frame page_address_inverse(1) link_tableD(6) [OF assms] by simp_all

lemma link_page_fresh:
  assumes "link_table pm root F pre i t pg tbl" and "table_path_ok q" and "table_at pm root q = Some u"
  shows "u \<noteq> page_to_phys pg"
  using pt_treeD(2) [OF link_tableD(1) [OF assms(1)] assms(2,3)] link_page_frame(2) [OF assms(1)] link_tableD(5) [OF assms(1)] by metis

lemma link_table_distinct: "link_table pm root F pre i t pg tbl \<Longrightarrow> t \<noteq> page_to_phys pg"
  by (rule link_page_fresh [OF _ link_tableD(2,3)])

lemma linked_entries:
  assumes "link_table pm root F pre i t pg tbl"
  shows "u \<noteq> t \<Longrightarrow> u \<noteq> page_to_phys pg \<Longrightarrow> linked pm t i (page_to_phys pg) tbl u = pm u"
    "linked pm t i (page_to_phys pg) tbl (page_to_phys pg) = tbl"
    "linked pm t i (page_to_phys pg) tbl t i = make_pte_table (page_to_phys pg)"
    "j \<noteq> i \<Longrightarrow> linked pm t i (page_to_phys pg) tbl t j = pm t j"
  using link_table_distinct [OF assms] by (auto simp: linked_def)

lemma linked_new_entry:
  assumes "link_table pm root F pre i t pg tbl"
  shows "is_table_entry (linked pm t i (page_to_phys pg) tbl t i)"
    "pte_addr (linked pm t i (page_to_phys pg) tbl t i) = page_to_phys pg"
    "entry_rights (linked pm t i (page_to_phys pg) tbl t i) = all_rights"
  using table_entry_facts [OF link_page_frame(1) [OF assms]]
  by (simp_all add: linked_entries [OF assms] is_table_entry_def entry_rights_def all_rights_def)

lemma linked_tables:
  assumes lt: "link_table pm root F pre i t pg tbl"
  shows "table_path_ok q \<Longrightarrow> table_at (linked pm t i (page_to_phys pg) tbl) root q = (if q = pre @ [i] then Some (page_to_phys pg) else table_at pm root q)"
proof (induction q rule: rev_induct)
  case Nil then show ?case by simp
next
  case (snoc j q)
  note tree = link_tableD(1) [OF lt] and pre_path = link_tableD(2) [OF lt] and pre = link_tableD(3) [OF lt]
    and vacant_entry = link_tableD(4) [OF lt] and no_tables = link_tableD(7) [OF lt] and fresh = link_page_fresh [OF lt]
    and entries = linked_entries [OF lt] and new_entry = linked_new_entry [OF lt] and frame = link_page_frame [OF lt]
  have q: "table_path_ok q" "j < 512" "length q < 3" using snoc.prems by (auto simp: table_path_ok_def)
  note ih = snoc.IH [OF q(1)]
  show ?case
  proof (cases "q = pre @ [i]")
    case True
    then have "length pre < 2" using q(3) by simp
    then have "\<not> is_table_entry (tbl j)" using no_tables q(2) by simp
    moreover have "table_at pm root q = None" unfolding True table_at_snoc by (simp add: pre vacant_entry)
    moreover have "table_at (linked pm t i (page_to_phys pg) tbl) root q = Some (page_to_phys pg)" using ih True by simp
    ultimately have "table_at (linked pm t i (page_to_phys pg) tbl) root (q @ [j]) = None" "table_at pm root (q @ [j]) = None"
      unfolding table_at_snoc by (simp_all add: entries)
    then show ?thesis using True by simp
  next
    case False
    then have eq: "table_at (linked pm t i (page_to_phys pg) tbl) root q = table_at pm root q" using ih by simp
    show ?thesis
    proof (cases "table_at pm root q")
      case None
      then have "q \<noteq> pre" using pre by auto
      then show ?thesis using None eq by (simp add: table_at_snoc)
    next
      case (Some u)
      have ent: "(linked pm t i (page_to_phys pg) tbl) u j = (if q = pre \<and> j = i then make_pte_table (page_to_phys pg) else pm u j)"
      proof (cases "u = t")
        case True
        then have "q = pre" using pt_treeD(1) [OF tree q(1) Some pre_path] pre by simp
        then show ?thesis using True by (auto simp: entries)
      next
        case False
        then have "q \<noteq> pre" using Some pre by auto
        then show ?thesis using entries(1) [OF False fresh [OF q(1) Some]] by simp
      qed
      show ?thesis
      proof (cases "q = pre \<and> j = i")
        case True
        then have "u = t" using Some pre by simp
        then show ?thesis using True eq Some new_entry by (simp add: table_at_snoc)
      next
        case False
        then show ?thesis using eq Some ent by (auto simp: table_at_snoc)
      qed
    qed
  qed
qed

lemma linked_table_cases:
  assumes lt: "link_table pm root F pre i t pg tbl"
    and "table_path_ok q" and "table_at (linked pm t i (page_to_phys pg) tbl) root q = Some u"
  obtains (new) "q = pre @ [i]" "u = page_to_phys pg" | (old) "table_at pm root q = Some u" "u \<noteq> page_to_phys pg"
proof (cases "q = pre @ [i]")
  case True
  then show thesis using new assms(3) unfolding linked_tables [OF lt assms(2)] by simp
next
  case False
  then have "table_at pm root q = Some u" using assms(3) unfolding linked_tables [OF lt assms(2)] by simp
  then show thesis using old link_page_fresh [OF lt assms(2)] by simp
qed

lemma linked_tree:
  assumes lt: "link_table pm root F pre i t pg tbl"
  shows "pt_tree (linked pm t i (page_to_phys pg) tbl) root (F - {pg})"
  unfolding pt_tree_def
proof (intro conjI allI impI)
  fix p q u
  assume p: "table_path_ok p" and q: "table_path_ok q"
    and a: "table_at (linked pm t i (page_to_phys pg) tbl) root p = Some u" "table_at (linked pm t i (page_to_phys pg) tbl) root q = Some u"
  from lt p a(1) show "p = q"
  proof (cases rule: linked_table_cases)
    case new
    from lt q a(2) show ?thesis by (cases rule: linked_table_cases) (use new in simp_all)
  next
    case old
    from lt q a(2) show ?thesis
      by (cases rule: linked_table_cases) (use old pt_treeD(1) [OF link_tableD(1) [OF lt] p old(1) q] in simp_all)
  qed
next
  fix p u
  assume p: "table_path_ok p" and a: "table_at (linked pm t i (page_to_phys pg) tbl) root p = Some u"
  from lt p a show "phys_to_page u \<notin> F - {pg}"
    by (cases rule: linked_table_cases) (use link_page_frame(2) [OF lt] pt_treeD(2) [OF link_tableD(1) [OF lt] p] in simp_all)
qed

text \<open>The map stays the same if it does at the addresses that pass through the new table.\<close>

lemma linked_translate:
  assumes lt: "link_table pm root F pre i t pg tbl"
    and same: "\<And>va. level_index va (length pre) = i \<Longrightarrow>
      translate (linked pm t i (page_to_phys pg) tbl) va (length pre) (4 - length pre) t = translate pm va (length pre) (4 - length pre) t"
  shows "table_path_ok q \<Longrightarrow> table_at pm root q = Some u \<Longrightarrow> k = 4 - length q \<Longrightarrow>
      translate (linked pm t i (page_to_phys pg) tbl) va (length q) k u = translate pm va (length q) k u"
proof (induction k arbitrary: q u)
  case (Suc k)
  note tree = link_tableD(1) [OF lt] and pre_path = link_tableD(2) [OF lt] and pre = link_tableD(3) [OF lt]
    and vacant_entry = link_tableD(4) [OF lt] and no_tables = link_tableD(7) [OF lt] and fresh = link_page_fresh [OF lt]
    and entries = linked_entries [OF lt] and new_entry = linked_new_entry [OF lt] and frame = link_page_frame [OF lt]
  let ?j = "level_index va (length q)"
  note len = Suc.prems(1) [unfolded table_path_ok_def]
  show ?case
  proof (cases "u = t \<and> ?j = i")
    case True
    then have "q = pre" using pt_treeD(1) [OF tree Suc.prems(1,2) pre_path] pre by simp
    then show ?thesis using same [of va] True Suc.prems(3) by simp
  next
    case False
    have e: "(linked pm t i (page_to_phys pg) tbl) u ?j = pm u ?j"
      using False fresh [OF Suc.prems(1,2)] entries by (cases "u = t") auto
    show ?thesis
    proof (cases "pte_present (pm u ?j) \<and> k \<noteq> 0 \<and> \<not> pte_is_block (pm u ?j)")
      case True
      have "length q < 3" using True Suc.prems(3) len by linarith
      then have "table_path_ok (q @ [?j])" using len level_index_bound by (simp add: table_path_ok_def)
      moreover have "table_at pm root (q @ [?j]) = Some (pte_addr (pm u ?j))"
        using True Suc.prems(2) by (simp add: table_at_snoc is_table_entry_def)
      moreover have "k = 4 - length (q @ [?j])" using Suc.prems(3) by simp
      ultimately have "translate (linked pm t i (page_to_phys pg) tbl) va (length (q @ [?j])) k (pte_addr (pm u ?j))
        = translate pm va (length (q @ [?j])) k (pte_addr (pm u ?j))" by (rule Suc.IH)
      then show ?thesis using True by (simp add: e Let_def)
    next
      case False
      then show ?thesis by (auto simp: e Let_def)
    qed
  qed
qed simp

lemma linked_path_rights:
  assumes lt: "link_table pm root F pre i t pg tbl"
  shows "table_path_ok q \<Longrightarrow> table_at pm root q = Some u \<Longrightarrow> k = 3 - length q \<Longrightarrow>
     path_rights (linked pm t i (page_to_phys pg) tbl) va (length q) k u = path_rights pm va (length q) k u"
proof (induction k arbitrary: q u)
  case (Suc k)
  note tree = link_tableD(1) [OF lt] and pre_path = link_tableD(2) [OF lt] and pre = link_tableD(3) [OF lt]
    and vacant_entry = link_tableD(4) [OF lt] and no_tables = link_tableD(7) [OF lt] and fresh = link_page_fresh [OF lt]
    and entries = linked_entries [OF lt] and new_entry = linked_new_entry [OF lt] and frame = link_page_frame [OF lt]
  let ?j = "level_index va (length q)"
  note len = Suc.prems(1) [unfolded table_path_ok_def]
  show ?case
  proof (cases "u = t \<and> ?j = i")
    case True
    then have q: "q = pre" using pt_treeD(1) [OF tree Suc.prems(1,2) pre_path] pre by simp
    have "path_rights (linked pm t i (page_to_phys pg) tbl) va (Suc (length q)) k (page_to_phys pg) = all_rights"
    proof (cases k)
      case (Suc k')
      then have "length pre < 2" using Suc.prems(3) q by simp
      then show ?thesis using no_tables [OF _ level_index_bound] by (simp add: Suc entries Let_def)
    qed simp
    then show ?thesis using True new_entry vacant_entry by (simp add: Let_def)
  next
    case False
    have e: "(linked pm t i (page_to_phys pg) tbl) u ?j = pm u ?j"
      using False fresh [OF Suc.prems(1,2)] entries by (cases "u = t") auto
    show ?thesis
    proof (cases "is_table_entry (pm u ?j)")
      case True
      have "table_path_ok (q @ [?j])" using len level_index_bound Suc.prems(3) by (simp add: table_path_ok_def)
      moreover have "table_at pm root (q @ [?j]) = Some (pte_addr (pm u ?j))"
        using True Suc.prems(2) by (simp add: table_at_snoc)
      moreover have "k = 3 - length (q @ [?j])" using Suc.prems(3) by simp
      ultimately have "path_rights (linked pm t i (page_to_phys pg) tbl) va (length (q @ [?j])) k (pte_addr (pm u ?j))
        = path_rights pm va (length (q @ [?j])) k (pte_addr (pm u ?j))" by (rule Suc.IH)
      then show ?thesis using True by (simp add: e Let_def)
    qed (simp add: e Let_def)
  qed
qed simp

section \<open>Descending\<close>

lemma alloc_table_cases:
  assumes "area_free MAX_PAGES (parea m) F"
  obtains (full) "alloc_table_page True m = Some (Inr (INVALID_TABLE_PA, m))"
  | (fresh) p a where "p \<in> F" "p < 2 ^ 32" "area_free MAX_PAGES a (F - {p})"
      "\<forall>i. i \<noteq> p \<longrightarrow> ref_count (pages a i) = ref_count (pages (parea m) i)"
      "alloc_table_page True m = Some (Inr (page_to_phys p,
         m\<lparr>parea := a, ptmem := (ptmem m)(page_to_phys p := (\<lambda>_. 0))\<rparr>))"
proof -
  obtain r a where al: "alloc_pages (parea m) 1 = Some (r, a)" using ff.alloc_returns [OF assms, of 1] by auto
  show thesis
  proof (cases r)
    case None
    then have "a = parea m" using ff.alloc_none [OF assms, of 1] al by simp
    then show thesis using full al None by (simp add: alloc_table_page_def m_bind_def m_alloc_def m_ret_def)
  next
    case (Some p)
    have bp: "block_pages (p, 1) = {p}" by (auto simp: block_pages_def)
    have p: "p \<in> F" "area_free MAX_PAGES a (F - {p})" "\<And>i. ref_count (pages a i) = ref_count (pages (parea m) i)"
      using ff.alloc_some [OF assms, of 1] al Some bp by (auto simp: fun_eq_iff)
    have "p < MAX_PAGES" using p(1) ff.holds_bound [OF assms] by auto
    then have p32: "p < 2 ^ 32" by (simp add: MAX_PAGES_def)
    let ?a = "upd_page (upd_page a p (\<lambda>q. q\<lparr>ref_count := 1\<rparr>)) p set_page_table"
    have "area_free MAX_PAGES ?a (F - {p})" using p(2) by (intro area_free_upd) simp_all
    moreover have "alloc_table_page True m = Some (Inr (page_to_phys p,
         m\<lparr>parea := ?a, ptmem := (ptmem m)(page_to_phys p := (\<lambda>_. 0))\<rparr>))"
      using al Some by (simp add: alloc_table_page_def m_bind_def m_alloc_def m_ret_def on_page_def Let_def)
    moreover have "\<forall>i. i \<noteq> p \<longrightarrow> ref_count (pages ?a i) = ref_count (pages (parea m) i)" using p(3) by simp
    ultimately show thesis using fresh p p32 by blast
  qed
qed

text \<open>What one step down keeps: everything but the allocator and the memory of the tables.\<close>

definition pt_frame :: "pt_machine \<Rightarrow> pt_machine \<Rightarrow> bool" where
  "pt_frame m m' \<longleftrightarrow> swap_st m' = swap_st m \<and> cur_root m' = cur_root m \<and> tlb_log m' = tlb_log m \<and>
     page_total m' = page_total m"

definition same_map :: "pt_machine \<Rightarrow> pt_machine \<Rightarrow> u64 \<Rightarrow> bool" where
  "same_map m m' root \<longleftrightarrow> (\<forall>va. address_map m' root va = address_map m root va \<and>
     path_rights (ptmem m') va 0 3 root = path_rights (ptmem m) va 0 3 root)"

text \<open>
  Tables stay in place, new ones are taken from the free pages, and memory and reference counts of
  everything else are untouched.
\<close>

definition pt_kept :: "pt_machine \<Rightarrow> nat set \<Rightarrow> pt_machine \<Rightarrow> nat set \<Rightarrow> u64 \<Rightarrow> bool" where
  "pt_kept m F m' F' root \<longleftrightarrow>
     (\<forall>q u. table_path_ok q \<longrightarrow> table_at (ptmem m) root q = Some u \<longrightarrow> table_at (ptmem m') root q = Some u) \<and>
     (\<forall>q u. table_path_ok q \<longrightarrow> table_at (ptmem m') root q = Some u \<longrightarrow>
        table_at (ptmem m) root q = Some u \<or> u \<in> page_to_phys ` (F - F')) \<and>
     (\<forall>u. (\<forall>q. table_path_ok q \<longrightarrow> table_at (ptmem m) root q \<noteq> Some u) \<longrightarrow> u \<notin> page_to_phys ` (F - F') \<longrightarrow>
        ptmem m' u = ptmem m u) \<and>
     (\<forall>i. i \<notin> F - F' \<longrightarrow> ref_count (pages (parea m') i) = ref_count (pages (parea m) i))"

lemma pt_keptD:
  assumes "pt_kept m F m' F' root"
  shows "table_path_ok q \<Longrightarrow> table_at (ptmem m) root q = Some u \<Longrightarrow> table_at (ptmem m') root q = Some u"
    "table_path_ok q \<Longrightarrow> table_at (ptmem m') root q = Some u \<Longrightarrow> table_at (ptmem m) root q = Some u \<or> u \<in> page_to_phys ` (F - F')"
    "(\<And>q. table_path_ok q \<Longrightarrow> table_at (ptmem m) root q \<noteq> Some u) \<Longrightarrow> u \<notin> page_to_phys ` (F - F') \<Longrightarrow> ptmem m' u = ptmem m u"
    "i \<notin> F - F' \<Longrightarrow> ref_count (pages (parea m') i) = ref_count (pages (parea m) i)"
  using assms unfolding pt_kept_def by blast+

lemma pt_kept_refl: "pt_kept m F m F root"
  by (simp add: pt_kept_def)

lemma pt_kept_trans:
  assumes k1: "pt_kept m F m1 F1 root" and k2: "pt_kept m1 F1 m2 F2 root" and sub: "F2 \<subseteq> F1" "F1 \<subseteq> F"
  shows "pt_kept m F m2 F2 root"
proof -
  have im: "page_to_phys ` (F - F1) \<subseteq> page_to_phys ` (F - F2)" "page_to_phys ` (F1 - F2) \<subseteq> page_to_phys ` (F - F2)"
    using sub by auto
  have "ptmem m2 u = ptmem m u"
    if no: "\<And>q. table_path_ok q \<Longrightarrow> table_at (ptmem m) root q \<noteq> Some u" and u: "u \<notin> page_to_phys ` (F - F2)" for u
  proof -
    have "table_at (ptmem m1) root q \<noteq> Some u" if "table_path_ok q" for q
      using pt_keptD(2) [OF k1 that] no [OF that] u im(1) by blast
    then have "ptmem m2 u = ptmem m1 u" using pt_keptD(3) [OF k2, of u] u im(2) by blast
    also have "\<dots> = ptmem m u" using pt_keptD(3) [OF k1, of u] no u im(1) by blast
    finally show ?thesis .
  qed
  moreover have "table_at (ptmem m) root q = Some u \<or> u \<in> page_to_phys ` (F - F2)"
    if "table_path_ok q" "table_at (ptmem m2) root q = Some u" for q u
    using pt_keptD(2) [OF k2 that] pt_keptD(2) [OF k1 that(1)] im by blast
  moreover have "ref_count (pages (parea m2) i) = ref_count (pages (parea m) i)" if "i \<notin> F - F2" for i
  proof -
    have "i \<notin> F - F1" "i \<notin> F1 - F2" using that sub by blast+
    then show ?thesis using pt_keptD(4) [OF k1] pt_keptD(4) [OF k2] by simp
  qed
  ultimately show ?thesis using pt_keptD(1) [OF k1] pt_keptD(1) [OF k2] unfolding pt_kept_def by blast
qed

definition pt_later :: "pt_machine \<Rightarrow> nat set \<Rightarrow> pt_machine \<Rightarrow> nat set \<Rightarrow> u64 \<Rightarrow> bool" where
  "pt_later m F m' F' root \<longleftrightarrow>
     pt_ok m' root F' \<and> F' \<subseteq> F \<and> pt_frame m m' \<and> same_map m m' root \<and> pt_kept m F m' F' root"

lemma pt_later_refl: "pt_ok m root F \<Longrightarrow> pt_later m F m F root"
  by (simp add: pt_later_def pt_frame_def same_map_def pt_kept_refl)

lemma pt_later_trans: "pt_later m F m1 F1 root \<Longrightarrow> pt_later m1 F1 m2 F2 root \<Longrightarrow> pt_later m F m2 F2 root"
  by (auto simp: pt_later_def pt_frame_def same_map_def intro: pt_kept_trans)

lemma level_shift_step: "l < 3 \<Longrightarrow> LEVEL_SHIFTS ! l = LEVEL_SHIFTS ! (l + 1) + 9 \<and> 12 \<le> LEVEL_SHIFTS ! (l + 1) \<and>
   LEVEL_SHIFTS ! (l + 1) + 9 \<le> 48 \<and> (l < 2 \<longrightarrow> 12 < LEVEL_SHIFTS ! (l + 1))"
  by (auto simp: LEVEL_SHIFTS_def less_Suc_eq numeral_3_eq_3 numeral_2_eq_2)

lemma link_later:
  assumes ok: "pt_ok m root F" and lt: "link_table (ptmem m) root F pre i t p tbl"
    and a: "area_free MAX_PAGES a (F - {p})" and refs: "\<forall>i. i \<noteq> p \<longrightarrow> ref_count (pages a i) = ref_count (pages (parea m) i)"
    and same: "\<And>va. level_index va (length pre) = i \<Longrightarrow>
      translate (linked (ptmem m) t i (page_to_phys p) tbl) va (length pre) (4 - length pre) t
        = translate (ptmem m) va (length pre) (4 - length pre) t"
    and m': "m' = m\<lparr>parea := a, ptmem := linked (ptmem m) t i (page_to_phys p) tbl\<rparr>"
  shows "pt_later m F m' (F - {p}) root \<and> table_at (ptmem m') root (pre @ [i]) = Some (page_to_phys p)"
proof -
  have "pt_ok m' root (F - {p})" using linked_tree [OF lt] a by (simp add: pt_ok_def m')
  moreover have "address_map m' root va = address_map m root va" for va
    using linked_translate [OF lt same, of "[]" root 4 va]
    by (simp add: address_map_def m' table_path_ok_def)
  moreover have "path_rights (ptmem m') va 0 3 root = path_rights (ptmem m) va 0 3 root" for va
    using linked_path_rights [OF lt, of "[]" root 3 va] by (simp add: m' table_path_ok_def)
  moreover have "table_at (ptmem m') root (pre @ [i]) = Some (page_to_phys p)"
    using linked_tables [OF lt, of "pre @ [i]"] lt by (simp add: m' link_table_def)
  moreover have "pt_kept m F m' (F - {p}) root"
  proof -
    note tab = linked_tables [OF lt] and d = link_tableD [OF lt]
    have F: "F - (F - {p}) = {p}" using d(5) by blast
    have old: "table_at (ptmem m) root (pre @ [i]) = None" using d(3,4) by (simp add: table_at_snoc)
    have "linked (ptmem m) t i (page_to_phys p) tbl u = ptmem m u"
      if "\<And>q. table_path_ok q \<Longrightarrow> table_at (ptmem m) root q \<noteq> Some u" "u \<noteq> page_to_phys p" for u
      using linked_entries(1) [OF lt _ that(2)] that(1) [OF d(2)] d(3) by blast
    then show ?thesis using old refs unfolding pt_kept_def F m' by (auto simp: tab)
  qed
  ultimately show ?thesis by (auto simp: pt_later_def same_map_def pt_frame_def m')
qed

lemma link_empty_same:
  assumes lt: "link_table pm root F pre i t p (\<lambda>_. 0)" and absent: "\<not> pte_present (pm t i)" and l: "length pre < 3"
    and va: "level_index va (length pre) = i"
  shows "translate (linked pm t i (page_to_phys p) (\<lambda>_. 0)) va (length pre) (4 - length pre) t
    = translate pm va (length pre) (4 - length pre) t"
proof -
  let ?pm = "linked pm t i (page_to_phys p) (\<lambda>_. 0)"
  obtain k where k: "4 - length pre = Suc (Suc k)" using that [of "2 - length pre"] l by linarith
  have "\<not> pte_present (0 :: u64)" by (simp add: pte_present_def)
  then have "translate ?pm va (Suc (length pre)) (Suc k) (page_to_phys p) = None"
    using linked_entries(2) [OF lt] by (simp add: Let_def)
  then show ?thesis using linked_new_entry [OF lt] va absent
    unfolding k by (simp add: Let_def is_table_entry_def)
qed

lemma link_split_same:
  assumes lt: "link_table pm root F pre i t p (split_table (pm t i) (LEVEL_SHIFTS ! length pre) (LEVEL_SHIFTS ! (length pre + 1)) old)"
      (is "link_table _ _ _ _ _ _ _ ?tbl")
    and block: "pte_present (pm t i)" "pte_is_block (pm t i)" and l: "length pre < 3"
    and va: "level_index va (length pre) = i"
  shows "translate (linked pm t i (page_to_phys p) ?tbl) va (length pre) (4 - length pre) t
    = translate pm va (length pre) (4 - length pre) t"
proof -
  let ?pm = "linked pm t i (page_to_phys p) ?tbl" and ?l = "Suc (length pre)" and ?e = "pm t i"
  let ?s = "LEVEL_SHIFTS ! ?l" and ?j = "level_index va (Suc (length pre))"
  let ?e' = "split_page_entry ?e ((pte_addr ?e AND NOT (push_bit (?s + 9) 1 - 1)) + push_bit ?s (word_of_nat ?j)) ?s"
  have sh: "LEVEL_SHIFTS ! length pre = ?s + 9" "12 \<le> ?s" "?s + 9 \<le> 48" "length pre < 2 \<Longrightarrow> 12 < ?s"
    using level_shift_step [OF l] by simp_all
  have j: "?j = unat (drop_bit ?s va AND 0x1FF)" by (simp add: level_index_def)
  note sp = split_address [OF sh(2,3) j refl, of ?e]
  obtain k where k: "4 - length pre = Suc (Suc k)" using that [of "2 - length pre"] l by linarith
  have "?tbl ?j = ?e'" using level_index_bound [of va ?l] by (simp add: split_table_def Let_def sh(1))
  then have ent: "?pm (page_to_phys p) ?j = ?e'" using linked_entries(2) [OF lt] by simp
  have leaf: "k = 0 \<or> pte_is_block ?e'" using k sh(4) sp(6) by fastforce
  have "entry_rights ?e' = entry_rights ?e" using sp(3-5) by (simp add: entry_rights_def)
  then have "translate ?pm va ?l (Suc k) (page_to_phys p)
      = Some ((pte_addr ?e AND NOT (push_bit (?s + 9) 1 - 1)) + (va AND (push_bit (?s + 9) 1 - 1)), entry_rights ?e)"
    using leaf sp(1,2) block(1) unfolding translate.simps Let_def ent by (simp only: if_False if_True simp_thms)
  then have "translate ?pm va (length pre) (Suc (Suc k)) t
      = Some ((pte_addr ?e AND NOT (push_bit (?s + 9) 1 - 1)) + (va AND (push_bit (?s + 9) 1 - 1)), entry_rights ?e)"
    using linked_new_entry [OF lt] va unfolding translate.simps(2) [of _ _ "length pre"] Let_def
    by (simp add: is_table_entry_def)
  also have "\<dots> = translate pm va (length pre) (Suc (Suc k)) t"
    using block va sh(1) by (simp add: Let_def)
  finally show ?thesis unfolding k .
qed

lemma split_table_no_tables:
  assumes "pte_present e" and "12 < s" and "s + 9 \<le> 48" and "j < 512"
  shows "\<not> is_table_entry (split_table e (s + 9) s old j)"
proof -
  have "j = unat (drop_bit s (push_bit s (word_of_nat j)) AND 0x1FF :: u64)"
  proof -
    have "bit (word_of_nat j :: u64) k \<Longrightarrow> k < 9" for k
    proof -
      have "unat (take_bit 9 (word_of_nat j :: u64)) = unat (word_of_nat j :: u64)"
        using assms(4) by (subst unsigned_take_bit_eq) (simp add: unsigned_of_nat take_bit_nat_eq_self)
      then have "take_bit 9 (word_of_nat j :: u64) = word_of_nat j" by (simp only: word_unat_eq_iff)
      then show "bit (word_of_nat j :: u64) k \<Longrightarrow> k < 9" by (metis bit_take_bit_iff)
    qed
    moreover have m: "(0x1FF :: u64) = mask 9" by (simp add: mask_eq_exp_minus_1)
    ultimately have "drop_bit s (push_bit s (word_of_nat j)) AND 0x1FF = (word_of_nat j :: u64)"
      unfolding m using assms(3)
      by (intro bit_word_eqI) (fastforce simp: bit_and_iff bit_drop_bit_eq bit_push_bit_iff bit_mask_iff)
    then show ?thesis using assms(4) by (simp add: unsigned_of_nat take_bit_eq_mod)
  qed
  from split_address(6) [OF _ assms(3) this refl, of e] assms show ?thesis
    by (simp add: split_table_def Let_def is_table_entry_def)
qed

lemma linked_memory:
  assumes "t \<noteq> pa"
  shows "(pm(pa := tbl))(t := ((pm(pa := tbl)) t)(i := make_pte_table pa)) = linked pm t i pa tbl"
  by (simp add: linked_def)

lemma linked_overwrite [simp]: "linked (pm(pa := old)) t i pa tbl = linked pm t i pa tbl"
  by (simp add: linked_def)

lemma descend_later:
  assumes ok: "pt_ok m root F" and path: "table_path_ok (pre @ [i])" and pre: "table_at (ptmem m) root pre = Some t"
  shows "\<exists>r m' F'. descend_level t i True (LEVEL_SHIFTS ! length pre) (LEVEL_SHIFTS ! (length pre + 1)) m = Some (Inr (r, m')) \<and>
    pt_later m F m' F' root \<and> (\<forall>t'. r = Some t' \<longrightarrow> table_at (ptmem m') root (pre @ [i]) = Some t')"
proof -
  let ?l = "length pre" and ?e = "ptmem m t i"
  have l: "?l < 3" using path by (simp add: table_path_ok_def)
  have tree: "pt_tree (ptmem m) root F" and area: "area_free MAX_PAGES (parea m) F" using ok by (simp_all add: pt_ok_def)
  show ?thesis
  proof (cases "is_table_entry ?e")
    case True
    then have "descend_level t i True (LEVEL_SHIFTS ! ?l) (LEVEL_SHIFTS ! (?l + 1)) m = Some (Inr (Some (pte_addr ?e), m))"
      by (simp add: descend_level_def is_table_entry_def m_ret_def Let_def)
    moreover have "table_at (ptmem m) root (pre @ [i]) = Some (pte_addr ?e)" using True pre by (simp add: table_at_snoc)
    ultimately show ?thesis using pt_later_refl [OF ok] by blast
  next
    case False
    from area show ?thesis
    proof (cases rule: alloc_table_cases)
      case full
      then have "descend_level t i True (LEVEL_SHIFTS ! ?l) (LEVEL_SHIFTS ! (?l + 1)) m = Some (Inr (None, m))"
        using False by (auto simp: descend_level_def is_table_entry_def m_ret_def m_bind_def Let_def)
      then show ?thesis using pt_later_refl [OF ok] by blast
    next
      case (fresh p a)
      let ?pa = "page_to_phys p"
      have fr: "frame_address ?pa" "?pa \<noteq> INVALID_TABLE_PA"
        using page_to_phys_frame [OF fresh(2)] frame_not_invalid by simp_all
      have link: "link_table (ptmem m) root F pre i t p tbl"
        if "\<And>j. ?l < 2 \<Longrightarrow> j < 512 \<Longrightarrow> \<not> is_table_entry (tbl j)" for tbl
        using tree path pre False fresh(1,2) that by (auto simp: link_table_def)
      show ?thesis
      proof (cases "pte_present ?e")
        case absent: False
        let ?m = "m\<lparr>parea := a, ptmem := linked (ptmem m) t i ?pa (\<lambda>_. 0)\<rparr>"
        have lt: "link_table (ptmem m) root F pre i t p (\<lambda>_. 0)"
          by (rule link) (simp add: is_table_entry_def pte_present_def)
        have "descend_level t i True (LEVEL_SHIFTS ! ?l) (LEVEL_SHIFTS ! (?l + 1)) m = Some (Inr (Some ?pa, ?m))"
          using absent fresh(5) fr(2) linked_memory [OF link_table_distinct [OF lt]]
          by (simp add: descend_level_def m_ret_def m_bind_def Let_def link_table_entry_def put_pte_def)
        moreover note link_later [OF ok lt fresh(3,4) link_empty_same [OF lt absent l] refl]
        ultimately show ?thesis by blast
      next
        case True
        then have block: "pte_is_block ?e" using False by (simp add: is_table_entry_def)
        let ?tbl = "split_table ?e (LEVEL_SHIFTS ! ?l) (LEVEL_SHIFTS ! (?l + 1)) (\<lambda>_. 0)"
        let ?m = "m\<lparr>parea := a, ptmem := linked (ptmem m) t i ?pa ?tbl\<rparr>"
        have lt: "link_table (ptmem m) root F pre i t p ?tbl"
          by (rule link) (use split_table_no_tables [OF True] level_shift_step [OF l] in auto)
        have "descend_level t i True (LEVEL_SHIFTS ! ?l) (LEVEL_SHIFTS ! (?l + 1)) m = Some (Inr (Some ?pa, ?m))"
          using True block fresh(5) fr(2) linked_memory [OF link_table_distinct [OF lt]]
          by (simp add: descend_level_def m_ret_def m_bind_def Let_def link_table_entry_def put_pte_def)
        moreover note link_later [OF ok lt fresh(3,4) link_split_same [OF lt True block l] refl]
        ultimately show ?thesis by blast
      qed
    qed
  qed
qed

definition va_path :: "u64 \<Rightarrow> nat \<Rightarrow> nat list" where
  "va_path va n = map (level_index va) [0..<n]"

lemma va_path_simps [simp]: "length (va_path va n) = n" "va_path va 0 = []" "va_path va (Suc n) = va_path va n @ [level_index va n]"
  by (simp_all add: va_path_def)

lemma va_path_ok: "n \<le> 3 \<Longrightarrow> table_path_ok (va_path va n)"
  using level_index_bound by (auto simp: table_path_ok_def va_path_def)

lemma walk_later:
  "pt_ok m root F \<Longrightarrow> table_at (ptmem m) root (va_path va l) = Some t \<Longrightarrow> l + k = 3 \<Longrightarrow>
    \<exists>r m' F'. walk_levels True va l k t m = Some (Inr (r, m')) \<and> pt_later m F m' F' root \<and>
      (\<forall>t'. r = Some t' \<longrightarrow> table_at (ptmem m') root (va_path va 3) = Some t')"
proof (induction k arbitrary: l t m F)
  case 0
  then show ?case using pt_later_refl [OF 0(1)] by (auto simp: m_ret_def)
next
  case (Suc k)
  have path: "table_path_ok (va_path va l @ [level_index va l])"
    using va_path_ok [of "Suc l" va] Suc.prems(3) by simp
  from descend_later [OF Suc.prems(1) path Suc.prems(2)] obtain r m1 F1
    where d: "descend_level t (level_index va l) True (LEVEL_SHIFTS ! l) (LEVEL_SHIFTS ! (l + 1)) m = Some (Inr (r, m1))"
      and lat: "pt_later m F m1 F1 root"
      and tab: "\<forall>t'. r = Some t' \<longrightarrow> table_at (ptmem m1) root (va_path va (Suc l)) = Some t'"
    by auto
  show ?case
  proof (cases r)
    case None
    then have "walk_levels True va l (Suc k) t m = Some (Inr (None, m1))" using d by (simp add: m_bind_def m_ret_def)
    then show ?thesis using lat by blast
  next
    case (Some t')
    have "pt_ok m1 root F1" using lat by (simp add: pt_later_def)
    from Suc.IH [OF this, of "Suc l" t'] tab Some Suc.prems(3) obtain r' m2 F2
      where w: "walk_levels True va (Suc l) k t' m1 = Some (Inr (r', m2))" "pt_later m1 F1 m2 F2 root"
        "\<forall>t'. r' = Some t' \<longrightarrow> table_at (ptmem m2) root (va_path va 3) = Some t'"
      by auto
    have "walk_levels True va l (Suc k) t m = Some (Inr (r', m2))" using d Some w(1) by (simp add: m_bind_def)
    then show ?thesis using w(3) pt_later_trans [OF lat w(2)] by blast
  qed
qed

lemma get_pte_later:
  assumes "pt_ok m root F"
  shows "\<exists>r m' F'. get_pte root va True m = Some (Inr (r, m')) \<and> pt_later m F m' F' root \<and>
    (\<forall>t i. r = Some (t, i) \<longrightarrow> table_at (ptmem m') root (va_path va 3) = Some t \<and> i = level_index va 3)"
proof -
  from walk_later [OF assms, of va 0 root 3] obtain r m' F' where
    w: "walk_levels True va 0 3 root m = Some (Inr (r, m'))" "pt_later m F m' F' root"
      "\<forall>t'. r = Some t' \<longrightarrow> table_at (ptmem m') root (va_path va 3) = Some t'" by auto
  then have "get_pte root va True m = Some (Inr (map_option (\<lambda>t. (t, level_index va 3)) r, m'))"
    by (simp add: get_pte_def m_bind_def m_ret_def)
  then show ?thesis using w(2,3) by fastforce
qed

text \<open>Without the right to create tables the walk only looks.\<close>

lemma walk_found:
  "walk_levels False va l k t m = Some (Inr (table_at (ptmem m) t (map (level_index va) [l..<l + k]), m))"
proof (induction k arbitrary: l t)
  case (Suc k)
  have up: "[l..<l + Suc k] = l # [Suc l..<Suc l + k]" by (simp add: upt_conv_Cons del: upt_Suc)
  show ?case using Suc [of "Suc l"] unfolding up
    by (simp add: m_bind_def descend_level_def alloc_table_page_def m_ret_def Let_def is_table_entry_def del: upt_Suc)
qed (simp add: m_ret_def)

lemma get_pte_found:
  "get_pte root va False m = Some (Inr (map_option (\<lambda>t. (t, level_index va 3)) (table_at (ptmem m) root (va_path va 3)), m))"
  using walk_found [of va 0 3 root m] by (simp add: get_pte_def m_bind_def m_ret_def va_path_def)

section \<open>Entering a page\<close>

definition same_page :: "u64 \<Rightarrow> u64 \<Rightarrow> bool" where
  "same_page va va' \<longleftrightarrow> (\<forall>l<4. level_index va l = level_index va' l)"

lemma same_page_path: "same_page va va' \<longleftrightarrow> va_path va 3 = va_path va' 3 \<and> level_index va 3 = level_index va' 3"
  by (auto simp: same_page_def va_path_def eval_nat_numeral less_Suc_eq)

lemma leaf_translate_from:
  "table_at pm u (map (level_index va) [l..<l + k]) = Some t \<Longrightarrow>
    translate pm va l (Suc k) u = (let e = pm t (level_index va (l + k)); mask = push_bit (LEVEL_SHIFTS ! (l + k)) 1 - 1
      in if pte_present e then Some ((pte_addr e AND NOT mask) + (va AND mask), meet (path_rights pm va l k u) (entry_rights e))
         else None)"
proof (induction k arbitrary: l u)
  case 0 then show ?case by (simp add: Let_def)
next
  case (Suc k)
  let ?e = "pm u (level_index va l)"
  have up: "[l..<l + Suc k] = l # [Suc l..<Suc l + k]" by (simp add: upt_conv_Cons del: upt_Suc)
  have e: "is_table_entry ?e" "table_at pm (pte_addr ?e) (map (level_index va) [Suc l..<Suc l + k]) = Some t"
    using Suc.prems unfolding up by (auto split: if_splits)
  note ih = Suc.IH [OF e(2)]
  have "translate pm va l (Suc (Suc k)) u
      = map_option (\<lambda>(a, r). (a, meet (entry_rights ?e) r)) (translate pm va (Suc l) (Suc k) (pte_addr ?e))"
    using e(1) unfolding translate.simps(2) [of pm va l "Suc k"] by (simp add: is_table_entry_def Let_def)
  then show ?case unfolding ih using e(1) by (simp add: Let_def meet_assoc)
qed

lemma leaf_translate:
  assumes "table_at pm root (va_path va 3) = Some t"
  shows "translate pm va 0 4 root = (let e = pm t (level_index va 3)
     in if pte_present e then Some ((pte_addr e AND NOT (push_bit 12 1 - 1)) + (va AND (push_bit 12 1 - 1)),
          meet (path_rights pm va 0 3 root) (entry_rights e)) else None)"
proof -
  have "(4 :: nat) = Suc 3" by simp
  moreover have "LEVEL_SHIFTS ! 3 = 12" by (simp add: LEVEL_SHIFTS_def)
  ultimately show ?thesis
    using leaf_translate_from [of pm root va 0 3 t] assms unfolding va_path_def by (simp add: Let_def)
qed

text \<open>Changing an entry of a last-level table.\<close>

definition set_leaf :: "(u64 \<Rightarrow> nat \<Rightarrow> u64) \<Rightarrow> u64 \<Rightarrow> nat \<Rightarrow> u64 \<Rightarrow> u64 \<Rightarrow> nat \<Rightarrow> u64" where
  "set_leaf pm t i e = pm(t := (pm t)(i := e))"

lemma set_leaf_apply: "set_leaf pm t i e u j = (if u = t \<and> j = i then e else pm u j)"
  by (simp add: set_leaf_def)

lemma leaf_tables:
  assumes tree: "pt_tree pm root F" and P: "table_path_ok P" "length P = 3" "table_at pm root P = Some t"
  shows "table_path_ok q \<Longrightarrow> table_at (set_leaf pm t i e) root q = table_at pm root q"
proof (induction q rule: rev_induct)
  case (snoc j q)
  have q: "table_path_ok q" "length q < 3" using snoc.prems by (auto simp: table_path_ok_def)
  have "u \<noteq> t" if "table_at pm root q = Some u" for u
    using pt_treeD(1) [OF tree q(1) that P(1)] P(2,3) q(2) by auto
  then have "set_leaf pm t i e u j = pm u j" if "table_at pm root q = Some u" for u
    using that by (simp add: set_leaf_apply)
  then show ?case using snoc.IH [OF q(1)] unfolding table_at_snoc by (cases "table_at pm root q") simp_all
qed simp

lemma leaf_update_other:
  assumes tree: "pt_tree pm root F" and P: "P = va_path va 3" "table_at pm root P = Some t"
    and other: "\<not> same_page va va'"
  shows "table_at pm root (va_path va' l) = Some u \<Longrightarrow> l + k = 4 \<Longrightarrow>
    translate (set_leaf pm t (level_index va 3) e) va' l k u = translate pm va' l k u"
proof (induction k arbitrary: l u)
  case (Suc k)
  have path: "table_path_ok (va_path va' l)" using Suc.prems(2) by (intro va_path_ok) simp
  have e: "(set_leaf pm t (level_index va 3) e) u (level_index va' l) = pm u (level_index va' l)"
  proof (cases "u = t")
    case True
    then have "va_path va' l = va_path va 3"
      using pt_treeD(1) [OF tree path Suc.prems(1) va_path_ok [of 3 va]] P by simp
    then have "l = 3" "va_path va' 3 = va_path va 3" by (metis va_path_simps(1))+
    then have "level_index va' l \<noteq> level_index va 3" using other by (auto simp: same_page_path)
    then show ?thesis using True by (simp add: set_leaf_apply)
  qed (simp add: set_leaf_apply)
  show ?case
  proof (cases "is_table_entry (pm u (level_index va' l)) \<and> k \<noteq> 0")
    case True
    then have "table_at pm root (va_path va' (Suc l)) = Some (pte_addr (pm u (level_index va' l)))"
      using Suc.prems(1) by (simp add: table_at_snoc)
    from Suc.IH [OF this] Suc.prems(2) True show ?thesis
      unfolding translate.simps Let_def e by (simp add: is_table_entry_def)
  next
    case False
    then show ?thesis unfolding translate.simps Let_def e by (auto simp: is_table_entry_def)
  qed
qed simp

lemma leaf_update_rights:
  assumes tree: "pt_tree pm root F" and t: "table_at pm root (va_path va 3) = Some t"
  shows "table_at pm root (va_path va' l) = Some u \<Longrightarrow> l + k = 3 \<Longrightarrow>
    path_rights (set_leaf pm t i e) va' l k u = path_rights pm va' l k u"
proof (induction k arbitrary: l u)
  case (Suc k)
  have path: "table_path_ok (va_path va' l)" using Suc.prems(2) by (intro va_path_ok) simp
  have "u \<noteq> t"
    using pt_treeD(1) [OF tree path Suc.prems(1) va_path_ok [of 3 va]] t Suc.prems(2)
    by (metis va_path_simps(1) add_Suc_right less_add_Suc1 less_irrefl order_refl)
  then have e: "(set_leaf pm t i e) u (level_index va' l) = pm u (level_index va' l)" by (simp add: set_leaf_apply)
  show ?case
  proof (cases "is_table_entry (pm u (level_index va' l))")
    case True
    then have "table_at pm root (va_path va' (Suc l)) = Some (pte_addr (pm u (level_index va' l)))"
      using Suc.prems(1) by (simp add: table_at_snoc)
    from Suc.IH [OF this] Suc.prems(2) True show ?thesis
      unfolding path_rights.simps Let_def e by simp
  qed (simp add: e Let_def)
qed simp

definition perm_rights :: "u32 \<Rightarrow> rights" where
  "perm_rights perm = Rights (perm AND VM_WRITE \<noteq> 0) (perm AND VM_USER \<noteq> 0) (perm AND VM_NOEXEC = 0)"

lemma path_rights_cong:
  "\<forall>j<n. level_index va j = level_index va' j \<Longrightarrow> l + k \<le> n \<Longrightarrow> path_rights pm va l k t = path_rights pm va' l k t"
  by (induction k arbitrary: l t) (simp_all add: Let_def)

lemma leaf_address:
  assumes "frame_address pa"
  shows "(pa AND NOT (push_bit 12 1 - 1)) + (va AND (push_bit 12 1 - 1)) = pa + (va AND PG_MASK)"
proof -
  have m: "(push_bit 12 1 - 1 :: u64) = PG_MASK" by (simp add: PG_MASK_def)
  have pg: "PG_MASK = mask 12" by (simp add: PG_MASK_def mask_eq_exp_minus_1)
  have "pa AND NOT PG_MASK = pa" unfolding pg
    by (rule bit_word_eqI) (use assms in \<open>auto simp: bit_and_iff bit_not_iff bit_mask_iff frame_address_def\<close>)
  then show ?thesis unfolding m by simp
qed

lemma leaf_set:
  assumes tree: "pt_tree (ptmem m) root F" and fr: "frame_address pa" and t: "table_at (ptmem m) root (va_path va 3) = Some t"
    and pm': "pm' = set_leaf (ptmem m) t (level_index va 3) (make_pte_page pa perm)"
  shows "pt_tree pm' root F" and "table_path_ok q \<Longrightarrow> table_at pm' root q = table_at (ptmem m) root q"
    and "path_rights pm' va' 0 3 root = path_rights (ptmem m) va' 0 3 root"
    and "translate pm' va' 0 4 root = (if same_page va va'
      then Some (pa + (va' AND PG_MASK), meet (path_rights (ptmem m) va 0 3 root) (perm_rights perm))
      else address_map m root va')"
proof -
  show tab: "table_path_ok q \<Longrightarrow> table_at pm' root q = table_at (ptmem m) root q" for q
    using leaf_tables [OF tree va_path_ok _ t] unfolding pm' by simp
  show "pt_tree pm' root F" using tree tab unfolding pt_tree_def by simp
  show pr: "path_rights pm' va' 0 3 root = path_rights (ptmem m) va' 0 3 root" for va'
    using leaf_update_rights [OF tree t, of va' 0 root 3] by (simp add: pm')
  show "translate pm' va' 0 4 root = (if same_page va va'
      then Some (pa + (va' AND PG_MASK), meet (path_rights (ptmem m) va 0 3 root) (perm_rights perm))
      else address_map m root va')"
  proof (cases "same_page va va'")
    case True
    then have path: "va_path va' 3 = va_path va 3" "level_index va' 3 = level_index va 3" by (simp_all add: same_page_path)
    have "table_at pm' root (va_path va' 3) = Some t" using tab [OF va_path_ok [of 3 va]] t by (simp add: path)
    note tr = leaf_translate [OF this]
    have e: "pm' t (level_index va' 3) = make_pte_page pa perm" by (simp add: pm' set_leaf_apply path)
    have r: "entry_rights (make_pte_page pa perm) = perm_rights perm"
      using page_entry_facts(3-5) [OF fr] by (simp add: entry_rights_def perm_rights_def)
    have "path_rights pm' va' 0 3 root = path_rights (ptmem m) va' 0 3 root" by (rule pr)
    also have "\<dots> = path_rights (ptmem m) va 0 3 root"
      using True by (intro path_rights_cong [of 4]) (simp_all add: same_page_def)
    finally show ?thesis using tr page_entry_facts(1,2) [OF fr] leaf_address [OF fr, of va'] True
      unfolding e r Let_def by simp
  next
    case False
    then show ?thesis using leaf_update_other [OF tree refl t False, of 0 root 4] by (simp add: pm' address_map_def)
  qed
qed

text \<open>The state after page \<open>p\<close> was entered in the last-level table \<open>t\<close>.\<close>

definition entered_page :: "u64 \<Rightarrow> nat \<Rightarrow> u64 \<Rightarrow> u32 \<Rightarrow> u64 \<Rightarrow> pt_machine \<Rightarrow> pt_machine" where
  "entered_page root p va perm t m = invalidate_tlb_page root va
     (put_pte t (level_index va 3) (make_pte_page (page_to_phys p) perm) (on_page p (\<lambda>q. q\<lparr>ref_count := ref_count q + 1\<rparr>) m))"

lemma entered_page_parts [simp]:
  "ptmem (entered_page root p va perm t m) = set_leaf (ptmem m) t (level_index va 3) (make_pte_page (page_to_phys p) perm)"
  "parea (entered_page root p va perm t m) = upd_page (parea m) p (\<lambda>q. q\<lparr>ref_count := ref_count q + 1\<rparr>)"
  by (simp_all add: entered_page_def invalidate_tlb_page_def flush_page_def put_pte_def on_page_def set_leaf_def)

lemma page_insert_cases:
  assumes "pt_ok m root F"
  obtains (no_memory) m1 F1 where "page_insert root p va perm m = Some (Inr (NoMem, m1))" "pt_later m F m1 F1 root"
  | (present) m1 F1 where "page_insert root p va perm m = Some (Inr (Exists, m1))" "pt_later m F m1 F1 root"
      "address_map m root va \<noteq> None"
  | (entered) m1 F1 t where "page_insert root p va perm m = Some (Inr (Err_None, entered_page root p va perm t m1))"
      "pt_later m F m1 F1 root" "table_at (ptmem m1) root (va_path va 3) = Some t" "address_map m root va = None"
proof -
  obtain r m1 F1 where g: "get_pte root va True m = Some (Inr (r, m1))" "pt_later m F m1 F1 root"
    "\<forall>t i. r = Some (t, i) \<longrightarrow> table_at (ptmem m1) root (va_path va 3) = Some t \<and> i = level_index va 3"
    using get_pte_later [OF assms] by blast
  have same: "address_map m1 root va = address_map m root va" using g(2) by (simp add: pt_later_def same_map_def)
  show thesis
  proof (cases r)
    case None
    then have "page_insert root p va perm m = Some (Inr (NoMem, m1))"
      using g(1) by (simp add: page_insert_def m_bind_def m_ret_def)
    then show ?thesis using no_memory g(2) by blast
  next
    case (Some ti)
    define i where "i = level_index va 3"
    obtain t where ti: "r = Some (t, i)" and t: "table_at (ptmem m1) root (va_path va 3) = Some t"
      using g(3) Some i_def by (cases ti) auto
    show ?thesis
    proof (cases "pte_present (ptmem m1 t i)")
      case True
      then have "page_insert root p va perm m = Some (Inr (Exists, m1))"
        using g(1) ti by (simp add: page_insert_def m_bind_def m_ret_def)
      moreover have "address_map m root va \<noteq> None"
        unfolding same [symmetric] using True leaf_translate [OF t] by (simp add: address_map_def i_def Let_def)
      ultimately show ?thesis using present g(2) by blast
    next
      case False
      then have "page_insert root p va perm m = Some (Inr (Err_None, entered_page root p va perm t m1))"
        using g(1) ti by (simp add: page_insert_def entered_page_def i_def m_bind_def m_ret_def Let_def)
      moreover have "address_map m root va = None" using False leaf_translate [OF t] same by (simp add: address_map_def i_def)
      ultimately show ?thesis using entered g(2) t by blast
    qed
  qed
qed

lemma entered_page_ok:
  assumes ok: "pt_ok m root F" and p: "p < 2 ^ 32" "p \<notin> F" and t: "table_at (ptmem m) root (va_path va 3) = Some t"
  shows "pt_ok (entered_page root p va perm t m) root F"
    and "address_map (entered_page root p va perm t m) root va' = (if same_page va va'
      then Some (page_to_phys p + (va' AND PG_MASK), meet (path_rights (ptmem m) va 0 3 root) (perm_rights perm))
      else address_map m root va')"
proof -
  have tree: "pt_tree (ptmem m) root F" using ok by (simp add: pt_ok_def)
  note ls = leaf_set [OF tree page_to_phys_frame [OF p(1)] t refl, where perm = perm]
  show "pt_ok (entered_page root p va perm t m) root F"
    using ok ls(1) area_free_upd [OF _ p(2)] by (simp add: pt_ok_def)
  show "address_map (entered_page root p va perm t m) root va' = (if same_page va va'
      then Some (page_to_phys p + (va' AND PG_MASK), meet (path_rights (ptmem m) va 0 3 root) (perm_rights perm))
      else address_map m root va')"
    using ls(4) [of va'] by (simp add: address_map_def)
qed

section \<open>Properties\<close>

text \<open>C2. Entering page \<open>p\<close> at address \<open>va\<close> in a tree of page tables always returns. On success the
  address was unmapped, and afterwards exactly the addresses of its page are mapped to the page,
  with the requested rights as far as the tables above allow them; every other address keeps its
  translation, also where a large page was split on the way. On failure, for lack of memory or
  because the address is mapped, no translation changes. The tables stay a tree of frames that are
  not free.\<close>

theorem page_insert_map:
  assumes "pt_ok m root F" and "p < 2 ^ 32" and "p \<notin> F"
  shows "\<exists>e m' F'. page_insert root p va perm m = Some (Inr (e, m')) \<and> pt_ok m' root F' \<and> F' \<subseteq> F \<and>
    (if e = Err_None
     then address_map m root va = None \<and> (\<forall>va'. address_map m' root va' = (if same_page va va'
            then Some (page_to_phys p + (va' AND PG_MASK), meet (path_rights (ptmem m) va 0 3 root) (perm_rights perm))
            else address_map m root va'))
     else (e = NoMem \<or> e = Exists \<and> address_map m root va \<noteq> None) \<and>
       (\<forall>va'. address_map m' root va' = address_map m root va'))"
  using assms(1)
proof (cases rule: page_insert_cases [where p = p and va = va and perm = perm])
  case (no_memory m1 F1)
  then show ?thesis by (intro exI [of _ NoMem]) (auto simp: pt_later_def same_map_def)
next
  case (present m1 F1)
  then show ?thesis by (intro exI [of _ Exists]) (auto simp: pt_later_def same_map_def)
next
  case (entered m1 F1 t)
  have l: "pt_ok m1 root F1" "F1 \<subseteq> F" and same: "\<And>va'. address_map m1 root va' = address_map m root va'"
    "\<And>va'. path_rights (ptmem m1) va' 0 3 root = path_rights (ptmem m) va' 0 3 root"
    using entered(2) by (auto simp: pt_later_def same_map_def)
  have "p \<notin> F1" using assms(3) l(2) by blast
  note e = entered_page_ok [OF l(1) assms(2) this entered(3), where perm = perm]
  show ?thesis using entered(1,4) e l(2) same by (intro exI [of _ Err_None]) auto
qed

definition demo_machine :: pt_machine where
  "demo_machine = \<lparr>parea = demo_area, ptmem = (\<lambda>_ _. 0),
     swap_st = \<lparr>sw_device = None, sw_bits = [], slot_limit = 0, next_slot = 1\<rparr>,
     cur_root = page_to_phys 1, tlb_log = [], page_total = 16\<rparr>"

lemma demo_machine_ok: "pt_ok demo_machine (page_to_phys 1) {3..<13}"
proof -
  have n: "\<not> is_table_entry 0" by (simp add: is_table_entry_def pte_present_def)
  have "table_at (\<lambda>_ _. 0) (page_to_phys 1) q = Some u \<longleftrightarrow> q = [] \<and> u = page_to_phys 1" for q u
    by (cases q) (auto simp: n)
  moreover have "phys_to_page (page_to_phys 1) = 1" by (rule page_address_inverse(1)) simp
  ultimately show ?thesis using demo_area_free by (auto simp: pt_ok_def pt_tree_def demo_machine_def)
qed

theorem page_insert_map_witness:
  "\<exists>e m'. page_insert (page_to_phys 1) 2 0x400000 (user_page_perm True False) demo_machine = Some (Inr (e, m')) \<and>
    (e = Err_None \<longrightarrow> (\<forall>va'. \<not> same_page 0x400000 va' \<longrightarrow> address_map m' (page_to_phys 1) va' = None))"
proof -
  have "(2 :: nat) < 2 ^ 32" "(2 :: nat) \<notin> {3..<13}" by simp_all
  from page_insert_map [OF demo_machine_ok this, where va = "0x400000" and perm = "user_page_perm True False"]
  obtain e m' where "page_insert (page_to_phys 1) 2 0x400000 (user_page_perm True False) demo_machine = Some (Inr (e, m'))"
    "e = Err_None \<longrightarrow> (\<forall>va'. \<not> same_page 0x400000 va' \<longrightarrow>
       address_map m' (page_to_phys 1) va' = address_map demo_machine (page_to_phys 1) va')"
    by (metis (no_types, lifting))
  moreover have "address_map demo_machine (page_to_phys 1) va' = None" for va'
    using translate.simps(2) [of "\<lambda>_ _. 0" va' 0 3 "page_to_phys 1"]
    by (simp add: address_map_def demo_machine_def Let_def pte_present_def)
  ultimately show ?thesis by auto
qed

end
