(* ===== verification/Vmm.thy ===== *)
theory Vmm
  imports Page_Table_Map Memory_Map
begin

unbundle bit_operations_syntax

text \<open>
  Access to user memory (\<^verbatim>\<open>kernel/mm/vmm.cpp\<close>): the check that a range of user addresses may be
  read or written, copies between kernel buffers and user pages, and mapping a range of physical
  memory. The theory shows that the check covers every byte of the range, that a checked copy
  succeeds, and that it reads or writes exactly the bytes of the range. Its last part is the
  contract of user memory that the system calls rely on, with its interpretation on page tables.
\<close>

section \<open>Bytes of frames\<close>

definition mem_byte :: "(u64 \<Rightarrow> nat \<Rightarrow> u64) \<Rightarrow> u64 \<Rightarrow> u8" where
  "mem_byte pm pa = ucast (drop_bit (8 * unat (pa AND 7)) (pm (pa AND NOT PG_MASK) (unat (drop_bit 3 (pa AND PG_MASK)))))"

definition put_byte :: "u64 \<Rightarrow> nat \<Rightarrow> u8 \<Rightarrow> u64" where
  "put_byte w n b = (w AND NOT (push_bit (8 * n) 0xFF)) OR push_bit (8 * n) (ucast b)"

definition set_byte :: "u64 \<Rightarrow> u8 \<Rightarrow> (u64 \<Rightarrow> nat \<Rightarrow> u64) \<Rightarrow> u64 \<Rightarrow> nat \<Rightarrow> u64" where
  "set_byte pa b pm =
     (let t = pa AND NOT PG_MASK; i = unat (drop_bit 3 (pa AND PG_MASK))
      in pm(t := (pm t)(i := put_byte (pm t i) (unat (pa AND 7)) b)))"

text \<open>\<^verbatim>\<open>memcpy\<close> from and to physical memory.\<close>

definition mem_bytes :: "(u64 \<Rightarrow> nat \<Rightarrow> u64) \<Rightarrow> u64 \<Rightarrow> nat \<Rightarrow> bytes" where
  "mem_bytes pm pa n = map (\<lambda>k. mem_byte pm (pa + word_of_nat k)) [0..<n]"

fun set_bytes :: "u64 \<Rightarrow> bytes \<Rightarrow> (u64 \<Rightarrow> nat \<Rightarrow> u64) \<Rightarrow> u64 \<Rightarrow> nat \<Rightarrow> u64" where
  "set_bytes pa [] pm = pm"
| "set_bytes pa (b # bs) pm = set_bytes (pa + 1) bs (set_byte pa b pm)"

section \<open>User ranges\<close>

text \<open>The bytes from an address to the end of its page, at most \<open>n\<close>.\<close>

definition chunk_bytes :: "u64 \<Rightarrow> u64 \<Rightarrow> u64" where
  "chunk_bytes va n = (let c = PG_SIZE - (va AND PG_MASK) in if c > n then n else c)"

lemma page_offset_less: "unat (va AND PG_MASK) < 4096"
proof -
  have "va AND PG_MASK \<le> (4095 :: u64)" unfolding PG_MASK_def by (rule word_and_le1)
  then show ?thesis by (simp add: word_le_nat_alt)
qed

lemma unat_page_rest: "unat (PG_SIZE - (va AND PG_MASK)) = 4096 - unat (va AND PG_MASK)"
  using page_offset_less [of va] by (simp add: PG_SIZE_def unat_sub word_le_nat_alt)

lemma unat_chunk: "unat (chunk_bytes va n) = min (unat n) (4096 - unat (va AND PG_MASK))"
  by (simp add: chunk_bytes_def Let_def word_less_nat_alt unat_page_rest min_def)

lemma chunk_progress: "n \<noteq> 0 \<Longrightarrow> unat (n - chunk_bytes va n) < unat n"
  using unat_chunk [of va n] page_offset_less [of va]
  by (auto simp: unat_sub word_le_nat_alt min_def unat_gt_0 split: if_splits)

function range_loop :: "pt_machine \<Rightarrow> u64 option \<Rightarrow> u64 \<Rightarrow> u64 \<Rightarrow> bool \<Rightarrow> bool" where
  "range_loop m pgdir va n w =
     (if n = 0 then True
      else case user_address m pgdir va w of
             Inl _ \<Rightarrow> False
           | Inr _ \<Rightarrow> range_loop m pgdir (va + chunk_bytes va n) (n - chunk_bytes va n) w)"
  by pat_completeness auto
termination by (relation "measure (\<lambda>(m, pgdir, va, n, w). unat n)") (auto intro: chunk_progress)

declare range_loop.simps [simp del]

definition user_range_valid :: "pt_machine \<Rightarrow> u64 option \<Rightarrow> u64 \<Rightarrow> u64 \<Rightarrow> bool \<Rightarrow> bool" where
  "user_range_valid m pgdir va n w \<longleftrightarrow>
     \<not> (pgdir = None \<or> va < PG_SIZE \<or> USER_SPACE_TOP \<le> va \<or> USER_SPACE_TOP - va < n) \<and> range_loop m pgdir va n w"

section \<open>Copies\<close>

function copy_from_loop :: "pt_machine \<Rightarrow> u64 option \<Rightarrow> u64 \<Rightarrow> u64 \<Rightarrow> bytes \<Rightarrow> error + bytes" where
  "copy_from_loop m pgdir va n acc =
     (if n = 0 then Inr acc
      else case user_address m pgdir va False of
             Inl e \<Rightarrow> Inl e
           | Inr pa \<Rightarrow>
               copy_from_loop m pgdir (va + chunk_bytes va n) (n - chunk_bytes va n)
                 (acc @ mem_bytes (ptmem m) pa (unat (chunk_bytes va n))))"
  by pat_completeness auto
termination by (relation "measure (\<lambda>(m, pgdir, va, n, acc). unat n)") (auto intro: chunk_progress)

function copy_to_loop :: "pt_machine \<Rightarrow> u64 option \<Rightarrow> u64 \<Rightarrow> u64 \<Rightarrow> bytes \<Rightarrow> error \<times> pt_machine" where
  "copy_to_loop m pgdir va n bs =
     (if n = 0 then (Err_None, m)
      else case user_address m pgdir va True of
             Inl e \<Rightarrow> (e, m)
           | Inr pa \<Rightarrow>
               let c = unat (chunk_bytes va n)
               in copy_to_loop (m\<lparr>ptmem := set_bytes pa (take c bs) (ptmem m)\<rparr>) pgdir
                    (va + chunk_bytes va n) (n - chunk_bytes va n) (drop c bs))"
  by pat_completeness auto
termination by (relation "measure (\<lambda>(m, pgdir, va, n, bs). unat n)") (auto intro: chunk_progress)

declare copy_from_loop.simps [simp del] copy_to_loop.simps [simp del]

definition copy_from_user :: "pt_machine \<Rightarrow> u64 option \<Rightarrow> u64 \<Rightarrow> u64 \<Rightarrow> error + bytes" where
  "copy_from_user m pgdir va n =
     ensure (user_range_valid m pgdir va n False) Invalid (copy_from_loop m pgdir va n [])"

definition copy_to_user :: "pt_machine \<Rightarrow> u64 option \<Rightarrow> u64 \<Rightarrow> bytes \<Rightarrow> u64 \<Rightarrow> error \<times> pt_machine" where
  "copy_to_user m pgdir va bs n =
     (if user_range_valid m pgdir va n True then copy_to_loop m pgdir va n bs else (Invalid, m))"

section \<open>Physical ranges\<close>

definition flush_range :: "u64 \<Rightarrow> u64 \<Rightarrow> pt_machine \<Rightarrow> pt_machine" where
  "flush_range va byte_count m =
     fold (\<lambda>k. flush_page (va + word_of_nat k * PG_SIZE)) [0..<(unat byte_count + 4095) div 4096] m"

fun map_pages :: "u64 \<Rightarrow> nat \<Rightarrow> u64 \<Rightarrow> u64 \<Rightarrow> u32 \<Rightarrow> error mop" where
  "map_pages pgdir 0 va pa perm = m_ret Err_None"
| "map_pages pgdir (Suc k) va pa perm =
     m_bind (get_pte pgdir va True) (\<lambda>r.
       case r of
         None \<Rightarrow> m_ret NoMem
       | Some (t, i) \<Rightarrow> (\<lambda>m. map_pages pgdir k (va + PG_SIZE) (pa + PG_SIZE) perm
           (put_pte t i (make_pte_page pa perm) m)))"

definition map_physical_range :: "u64 \<Rightarrow> u64 \<Rightarrow> u64 \<Rightarrow> u64 \<Rightarrow> u32 \<Rightarrow> error mop" where
  "map_physical_range pgdir va byte_count pa perm =
     (let page_count = round_up byte_count PG_SIZE div PG_SIZE
      in map_pages pgdir (unat page_count) (round_down va PG_SIZE) (round_down pa PG_SIZE) perm)"

definition KERNEL_BASE :: u64 where "KERNEL_BASE = 0xFFFFFFFF80000000"
definition KERNEL_MEM_SIZE :: u64 where "KERNEL_MEM_SIZE = 0x38000000"

text \<open>\<^verbatim>\<open>vmm::init\<close>: the root of the kernel address space is set once its memory is mapped.\<close>

definition vmm_init :: "u64 \<Rightarrow> (int \<times> u64 option) mop" where
  "vmm_init boot_pgdir =
     m_bind (map_physical_range boot_pgdir KERNEL_BASE KERNEL_MEM_SIZE 0 VM_WRITE) (\<lambda>e m.
       if e \<noteq> Err_None then m_ret (-1, None) m
       else m_ret (0, Some boot_pgdir) (flush_range KERNEL_BASE KERNEL_MEM_SIZE m))"

section \<open>Addresses within a page\<close>

lemma pg_mask: "PG_MASK = mask 12"
  by (simp add: PG_MASK_def mask_eq_exp_minus_1)

lemma bit_pg_mask [pte_bits]: "bit PG_MASK k \<longleftrightarrow> k < 12"
  unfolding pg_mask by (auto simp: bit_mask_iff)

lemma page_split: "(va AND NOT PG_MASK) + (va AND PG_MASK) = va"
proof -
  have "(va AND NOT PG_MASK) + (va AND PG_MASK) = (va AND NOT PG_MASK) OR (va AND PG_MASK)"
    by (rule disjunctive_add) (auto simp: bit_and_iff bit_not_iff)
  also have "\<dots> = va" by (rule bit_word_eqI) (auto simp: bit_or_iff bit_and_iff bit_not_iff)
  finally show ?thesis .
qed

lemma small_word_bits: "unat (x :: u64) < 2 ^ n \<Longrightarrow> bit x k \<Longrightarrow> k < n"
proof -
  assume "unat x < 2 ^ n" "bit x k"
  then have "unat (take_bit n x) = unat x" by (subst unsigned_take_bit_eq) (simp add: take_bit_nat_eq_self)
  then have "take_bit n x = x" by (simp only: word_unat_eq_iff)
  with \<open>bit x k\<close> show "k < n" by (metis bit_take_bit_iff)
qed

lemma page_add:
  assumes "unat (va AND PG_MASK) + j < 4096"
  shows "(va + word_of_nat j) AND NOT PG_MASK = va AND NOT PG_MASK"
    and "(va + word_of_nat j) AND PG_MASK = (va AND PG_MASK) + word_of_nat j"
    and "unat ((va AND PG_MASK) + word_of_nat j) = unat (va AND PG_MASK) + j"
proof -
  let ?o = "(va AND PG_MASK) + word_of_nat j"
  show u: "unat ?o = unat (va AND PG_MASK) + j" using assms
    by (simp add: unat_word_ariths unsigned_of_nat take_bit_eq_mod)
  then have ob: "bit ?o k \<Longrightarrow> k < 12" for k using assms small_word_bits [of ?o 12 k] by simp
  have "va + word_of_nat j = (va AND NOT PG_MASK) + ?o" using page_split [of va] by (simp add: algebra_simps)
  also have "\<dots> = (va AND NOT PG_MASK) OR ?o"
    by (rule disjunctive_add) (use ob in \<open>auto simp: bit_and_iff bit_not_iff pte_bits\<close>)
  finally have v: "va + word_of_nat j = (va AND NOT PG_MASK) OR ?o" .
  show "(va + word_of_nat j) AND NOT PG_MASK = va AND NOT PG_MASK" unfolding v
    by (rule bit_word_eqI) (use ob in \<open>auto simp: bit_or_iff bit_and_iff bit_not_iff pte_bits\<close>)
  show "(va + word_of_nat j) AND PG_MASK = ?o" unfolding v
    by (rule bit_word_eqI) (use ob in \<open>auto simp: bit_or_iff bit_and_iff bit_not_iff pte_bits\<close>)
qed

lemma level_shift_range: "l < 4 \<Longrightarrow> 12 \<le> LEVEL_SHIFTS ! l \<and> LEVEL_SHIFTS ! l \<le> 39"
  by (auto simp: LEVEL_SHIFTS_def less_Suc_eq eval_nat_numeral)

lemma same_page_frame:
  assumes "va AND NOT PG_MASK = va' AND NOT PG_MASK"
  shows "same_page va va'"
proof -
  have b: "bit va k = bit va' k" if "12 \<le> k" for k
    using assms that by (metis bit_and_iff bit_not_iff bit_pg_mask not_less possible_bit_def bit_imp_possible_bit)
  have "drop_bit (LEVEL_SHIFTS ! l) va = drop_bit (LEVEL_SHIFTS ! l) va'" if "l < 4" for l
    by (rule bit_word_eqI) (use level_shift_range [OF that] b in \<open>simp add: bit_drop_bit_eq\<close>)
  then show ?thesis by (simp add: same_page_def level_index_def)
qed

lemma index_bits:
  assumes "level_index va l = level_index va' l" and "LEVEL_SHIFTS ! l \<le> k" and "k < LEVEL_SHIFTS ! l + 9"
  shows "bit va k = bit va' k"
proof -
  have "word_of_nat (level_index va l) = (word_of_nat (level_index va' l) :: u64)" using assms(1) by simp
  then have "bit (word_of_nat (level_index va l) :: u64) (k - LEVEL_SHIFTS ! l)
    = bit (word_of_nat (level_index va' l) :: u64) (k - LEVEL_SHIFTS ! l)" by simp
  moreover have "k - LEVEL_SHIFTS ! l < 9" using assms(2,3) by linarith
  ultimately show ?thesis unfolding level_index_def bit_index using assms(2) by simp
qed

lemma same_page_bits:
  assumes "same_page va va'" and "12 \<le> k" and "k < 48"
  shows "bit va k = bit va' k"
proof -
  have "level_index va l = level_index va' l" if "l < 4" for l using assms(1) that by (simp add: same_page_def)
  note ib = index_bits [OF this]
  consider "k < 21" | "21 \<le> k" "k < 30" | "30 \<le> k" "k < 39" | "39 \<le> k" by linarith
  then show ?thesis
  proof cases
    case 1 then show ?thesis using ib [of 3 k] assms(2) by (simp add: LEVEL_SHIFTS_def)
  next
    case 2 then show ?thesis using ib [of 2 k] by (simp add: LEVEL_SHIFTS_def)
  next
    case 3 then show ?thesis using ib [of 1 k] by (simp add: LEVEL_SHIFTS_def)
  next
    case 4 then show ?thesis using ib [of 0 k] assms(3) by (simp add: LEVEL_SHIFTS_def)
  qed
qed

lemma translate_same_page:
  assumes "same_page va va'"
  shows "l + k = 4 \<Longrightarrow> translate pm va l k t = Some (a, r) \<Longrightarrow>
    translate pm va' l k t = Some ((a AND NOT PG_MASK) + (va' AND PG_MASK), r) \<and> a AND PG_MASK = va AND PG_MASK"
proof (induction k arbitrary: l t a r)
  case (Suc k)
  have l: "l < 4" using Suc.prems(1) by simp
  let ?e = "pm t (level_index va l)"
  have i: "level_index va' l = level_index va l" using assms l by (simp add: same_page_def)
  have p: "pte_present ?e" using Suc.prems(2) by (auto simp: Let_def split: if_splits)
  show ?case
  proof (cases "k = 0 \<or> pte_is_block ?e")
    case True
    let ?s = "LEVEL_SHIFTS ! l" and ?m = "push_bit (LEVEL_SHIFTS ! l) 1 - 1 :: u64"
    note s = level_shift_range [OF l]
    have join: "(pte_addr ?e AND NOT ?m) + (x AND ?m) = (pte_addr ?e AND NOT ?m) OR (x AND ?m)" for x
      by (rule disjunctive_add) (auto simp: bit_and_iff bit_not_iff)
    have a: "a = (pte_addr ?e AND NOT ?m) OR (va AND ?m)" "r = entry_rights ?e"
      using Suc.prems(2) True p unfolding translate.simps Let_def join by simp_all
    have "(a AND NOT PG_MASK) + (va' AND PG_MASK) = (a AND NOT PG_MASK) OR (va' AND PG_MASK)"
      by (rule disjunctive_add) (auto simp: bit_and_iff bit_not_iff)
    also have "\<dots> = (pte_addr ?e AND NOT ?m) OR (va' AND ?m)"
    proof (rule bit_word_eqI)
      fix n assume "n < LENGTH(64)"
      then show "bit ((a AND NOT PG_MASK) OR (va' AND PG_MASK)) n = bit ((pte_addr ?e AND NOT ?m) OR (va' AND ?m)) n"
        unfolding a using s same_page_bits [OF assms, of n]
        by (auto simp: bit_or_iff bit_and_iff bit_not_iff pte_bits bit_low_mask bit_pte_addr)
    qed
    finally have "translate pm va' l (Suc k) t = Some ((a AND NOT PG_MASK) + (va' AND PG_MASK), r)"
      using True p a(2) unfolding translate.simps Let_def join i by simp
    moreover have "a AND PG_MASK = va AND PG_MASK" unfolding a
      by (rule bit_word_eqI) (use s in \<open>auto simp: bit_or_iff bit_and_iff bit_not_iff pte_bits bit_low_mask bit_pte_addr\<close>)
    ultimately show ?thesis by simp
  next
    case False
    then obtain r1 where r1: "translate pm va (l + 1) k (pte_addr ?e) = Some (a, r1)" "r = meet (entry_rights ?e) r1"
      using Suc.prems(2) p by (auto simp: Let_def)
    note ih = Suc.IH [OF _ r1(1)]
    show ?thesis using ih Suc.prems(1) False p r1(2) by (simp add: i Let_def)
  qed
qed simp

section \<open>The check covers every byte\<close>

definition user_ok :: "pt_machine \<Rightarrow> u64 option \<Rightarrow> bool \<Rightarrow> u64 \<Rightarrow> bool" where
  "user_ok m pgdir w va \<longleftrightarrow> (\<exists>pa. user_address m pgdir va w = Inr pa)"

lemma user_address_page:
  assumes "user_address m pgdir va w = Inr pa" and "unat (va AND PG_MASK) + j < 4096"
    and "va + word_of_nat j < USER_SPACE_TOP" and "PG_SIZE \<le> va + word_of_nat j"
  shows "user_address m pgdir (va + word_of_nat j) w = Inr (pa + word_of_nat j)"
proof (cases pgdir)
  case None
  then show ?thesis using assms(1) by (simp add: user_address_def)
next
  case (Some root)
  let ?va = "va + word_of_nat j"
  note pa = page_add [OF assms(2)]
  from assms(1) Some obtain r where r: "address_map m root va = Some (pa, r)" "permits w r"
    by (auto simp: user_address_map)
  have sp: "same_page va ?va" using pa(1) by (intro same_page_frame) simp
  from translate_same_page [OF sp, of 0 4 "ptmem m" root pa r] r(1)
  have t: "address_map m root ?va = Some ((pa AND NOT PG_MASK) + (?va AND PG_MASK), r)" "pa AND PG_MASK = va AND PG_MASK"
    by (simp_all add: address_map_def)
  have "(pa AND NOT PG_MASK) + (?va AND PG_MASK) = pa + word_of_nat j"
    unfolding pa(2) t(2) [symmetric] using page_split [of pa] by (simp add: algebra_simps)
  then show ?thesis using t(1) r(2) assms(3,4) Some by (simp add: user_address_map)
qed

text \<open>A range inside user space: no address in it wraps around.\<close>

definition in_user :: "u64 \<Rightarrow> u64 \<Rightarrow> bool" where
  "in_user va n \<longleftrightarrow> 4096 \<le> unat va \<and> unat va + unat n \<le> 2 ^ 47"

lemma user_bounds: "unat PG_SIZE = 4096" "unat USER_SPACE_TOP = 2 ^ 47"
  by (simp_all add: PG_SIZE_def USER_SPACE_TOP_def)

lemma in_user_bounds:
  assumes "in_user va n" and "j < unat n"
  shows "va + word_of_nat j < USER_SPACE_TOP" "PG_SIZE \<le> va + word_of_nat j" "unat (va + word_of_nat j) = unat va + j"
proof -
  show *: "unat (va + word_of_nat j) = unat va + j"
    using assms by (simp add: in_user_def unat_word_ariths unsigned_of_nat take_bit_eq_mod)
  then show "va + word_of_nat j < USER_SPACE_TOP" "PG_SIZE \<le> va + word_of_nat j"
    using assms user_bounds by (simp_all add: in_user_def word_less_nat_alt word_le_nat_alt)
qed

lemma chunk_step:
  assumes "in_user va n" and "n \<noteq> 0"
  shows "in_user (va + chunk_bytes va n) (n - chunk_bytes va n)"
    and "unat (va + chunk_bytes va n) = unat va + unat (chunk_bytes va n)"
    and "unat (n - chunk_bytes va n) = unat n - unat (chunk_bytes va n)"
    and "0 < unat (chunk_bytes va n)" "unat (chunk_bytes va n) \<le> unat n"
    and "j < unat (chunk_bytes va n) \<Longrightarrow> unat (va AND PG_MASK) + j < 4096"
proof -
  let ?c = "chunk_bytes va n"
  note c = unat_chunk [of va n] page_offset_less [of va]
  show pos: "0 < unat ?c" using c assms(2) by (simp add: unat_gt_0)
  show le: "unat ?c \<le> unat n" using c by simp
  show a: "unat (va + ?c) = unat va + unat ?c"
    using assms(1) le by (simp add: in_user_def unat_word_ariths)
  show s: "unat (n - ?c) = unat n - unat ?c" using le by (simp add: unat_sub word_le_nat_alt)
  show "in_user (va + ?c) (n - ?c)" using assms(1) a s le by (simp add: in_user_def)
  show "j < unat ?c \<Longrightarrow> unat (va AND PG_MASK) + j < 4096" using c by linarith
qed

lemma add_chunk: "va + chunk_bytes va n + word_of_nat j = va + word_of_nat (unat (chunk_bytes va n) + j)"
  by (simp add: algebra_simps)

lemma range_loop_all:
  "in_user va n \<Longrightarrow> range_loop m pgdir va n w \<longleftrightarrow> (\<forall>j<unat n. user_ok m pgdir w (va + word_of_nat j))"
proof (induction m pgdir va n w rule: range_loop.induct)
  case (1 m pgdir va n w)
  show ?case
  proof (cases "n = 0")
    case False
    note c = chunk_step [OF 1(2) False]
    let ?c = "unat (chunk_bytes va n)"
    have pos: "0 < unat n" using c(4,5) by linarith
    show ?thesis
    proof (cases "user_address m pgdir va w")
      case (Inl e)
      then have "\<not> user_ok m pgdir w (va + word_of_nat 0)" by (simp add: user_ok_def)
      then have "\<not> (\<forall>j<unat n. user_ok m pgdir w (va + word_of_nat j))" using pos by blast
      then show ?thesis using Inl False by (subst range_loop.simps) simp
    next
      case (Inr pa)
      have first: "user_ok m pgdir w (va + word_of_nat j)" if "j < ?c" for j
        using user_address_page [OF Inr c(6) [OF that]] in_user_bounds [OF 1(2), of j] that c(5)
        by (auto simp: user_ok_def)
      have "range_loop m pgdir va n w \<longleftrightarrow> range_loop m pgdir (va + chunk_bytes va n) (n - chunk_bytes va n) w"
        using Inr False by (subst range_loop.simps) simp
      also have "\<dots> \<longleftrightarrow> (\<forall>j<unat n - ?c. user_ok m pgdir w (va + word_of_nat (?c + j)))"
        using 1(1) [OF False Inr c(1)] c(3) unfolding add_chunk by simp
      also have "\<dots> \<longleftrightarrow> (\<forall>j<unat n. user_ok m pgdir w (va + word_of_nat j))"
      proof (intro iffI allI impI)
        fix j
        assume h: "\<forall>j<unat n - ?c. user_ok m pgdir w (va + word_of_nat (?c + j))" and j: "j < unat n"
        show "user_ok m pgdir w (va + word_of_nat j)"
        proof (cases "j < ?c")
          case False
          then have "j - ?c < unat n - ?c" "?c + (j - ?c) = j" using j by simp_all
          with h show ?thesis by metis
        qed (rule first)
      next
        fix j
        assume "\<forall>j<unat n. user_ok m pgdir w (va + word_of_nat j)" and "j < unat n - ?c"
        moreover have "?c + j < unat n" using calculation(2) by simp
        ultimately show "user_ok m pgdir w (va + word_of_nat (?c + j))" by blast
      qed
      finally show ?thesis .
    qed
  qed (simp add: range_loop.simps)
qed

lemma user_range_all:
  "user_range_valid m pgdir va n w \<longleftrightarrow>
     pgdir \<noteq> None \<and> va < USER_SPACE_TOP \<and> in_user va n \<and> (\<forall>j<unat n. user_ok m pgdir w (va + word_of_nat j))"
proof -
  have "\<not> (va < PG_SIZE \<or> USER_SPACE_TOP \<le> va \<or> USER_SPACE_TOP - va < n) \<longleftrightarrow> va < USER_SPACE_TOP \<and> in_user va n"
    using user_bounds unat_sub [of va USER_SPACE_TOP]
    by (auto simp: in_user_def word_less_nat_alt word_le_nat_alt not_less)
  then show ?thesis unfolding user_range_valid_def using range_loop_all [of va n m pgdir w] by auto
qed

section \<open>Copies read and write exactly the range\<close>

definition user_byte :: "pt_machine \<Rightarrow> u64 option \<Rightarrow> u64 \<Rightarrow> u8" where
  "user_byte m pgdir va = (case user_address m pgdir va False of Inl _ \<Rightarrow> 0 | Inr pa \<Rightarrow> mem_byte (ptmem m) pa)"

lemma upt_split: "c \<le> n \<Longrightarrow> [0..<n] = [0..<c] @ map (\<lambda>j. c + j) [0..<n - c]"
  by (rule nth_equalityI) (auto simp: nth_append)

lemma copy_from_loop_bytes:
  "in_user va n \<Longrightarrow> \<forall>j<unat n. user_ok m pgdir False (va + word_of_nat j) \<Longrightarrow>
    copy_from_loop m pgdir va n acc = Inr (acc @ map (\<lambda>j. user_byte m pgdir (va + word_of_nat j)) [0..<unat n])"
proof (induction m pgdir va n acc rule: copy_from_loop.induct)
  case (1 m pgdir va n acc)
  show ?case
  proof (cases "n = 0")
    case False
    note c = chunk_step [OF 1(2) False]
    let ?c = "unat (chunk_bytes va n)"
    have "0 < unat n" using c(4,5) by linarith
    then obtain pa where pa: "user_address m pgdir va False = Inr pa" using 1(3) by (auto simp: user_ok_def dest: spec [of _ 0])
    have by1: "user_byte m pgdir (va + word_of_nat j) = mem_byte (ptmem m) (pa + word_of_nat j)" if "j < ?c" for j
      using user_address_page [OF pa c(6) [OF that]] in_user_bounds [OF 1(2), of j] that c(5) by (simp add: user_byte_def)
    have rest: "\<forall>j<unat (n - chunk_bytes va n). user_ok m pgdir False (va + chunk_bytes va n + word_of_nat j)"
    proof (intro allI impI)
      fix j assume "j < unat (n - chunk_bytes va n)"
      then have "?c + j < unat n" using c(3) by simp
      then show "user_ok m pgdir False (va + chunk_bytes va n + word_of_nat j)" unfolding add_chunk using 1(3) by blast
    qed
    have "[0..<unat n] = [0..<?c] @ map (\<lambda>j. ?c + j) [0..<unat n - ?c]"
      using upt_split [OF c(5)] .
    then have "map (\<lambda>j. user_byte m pgdir (va + word_of_nat j)) [0..<unat n]
        = mem_bytes (ptmem m) pa ?c @ map (\<lambda>j. user_byte m pgdir (va + chunk_bytes va n + word_of_nat j)) [0..<unat n - ?c]"
      unfolding add_chunk using by1 by (simp add: mem_bytes_def comp_def)
    then show ?thesis using 1(1) [OF False pa c(1) rest] pa False c(3) by (subst copy_from_loop.simps) simp
  qed (simp add: copy_from_loop.simps)
qed

lemma copy_from_user_bytes:
  assumes "user_range_valid m pgdir va n False"
  shows "copy_from_user m pgdir va n = Inr (map (\<lambda>j. user_byte m pgdir (va + word_of_nat j)) [0..<unat n])"
  using assms copy_from_loop_bytes [of va n m pgdir "[]"] by (simp add: copy_from_user_def user_range_all)

subsection \<open>Writing bytes of memory\<close>

lemma and_7: "(7 :: u64) = mask 3"
  by (simp add: mask_eq_exp_minus_1)

lemma byte_in_word: "unat (pa AND 7 :: u64) < 8"
proof -
  have "pa AND 7 \<le> (7 :: u64)" by (rule word_and_le1)
  then show ?thesis by (simp add: word_le_nat_alt)
qed

lemma put_byte_get:
  assumes "n < 8" and "n' < 8"
  shows "ucast (drop_bit (8 * n') (put_byte w n b)) = (if n' = n then b else (ucast (drop_bit (8 * n') w) :: u8))"
proof -
  have m: "(0xFF :: u64) = mask 8" by (simp add: mask_eq_exp_minus_1)
  have bits: "bit (put_byte w n b) k \<longleftrightarrow> (if 8 * n \<le> k \<and> k < 8 * n + 8 then bit b (k - 8 * n) else bit w k)" if "k < 64" for k
  proof -
    have "bit (push_bit (8 * n) (mask 8) :: u64) k \<longleftrightarrow> 8 * n \<le> k \<and> k < 8 * n + 8"
      using that unfolding bit_push_bit_iff bit_mask_iff by auto
    moreover have "bit (push_bit (8 * n) (ucast b :: u64)) k \<longleftrightarrow> 8 * n \<le> k \<and> bit b (k - 8 * n)"
      using that unfolding bit_push_bit_iff bit_ucast_iff by auto
    moreover have "bit b (k - 8 * n) \<Longrightarrow> k - 8 * n < 8" using bit_imp_le_length [of b "k - 8 * n"] by simp
    ultimately show ?thesis using that unfolding put_byte_def m bit_or_iff bit_and_iff bit_not_iff by auto
  qed
  show ?thesis
  proof (rule bit_word_eqI)
    fix k assume "k < LENGTH(8)"
    then have k: "k < 8" by simp
    have "8 * n' + k < 64" using assms(2) k by linarith
    note b = bits [OF this]
    have "8 * n \<le> 8 * n' + k \<and> 8 * n' + k < 8 * n + 8 \<longleftrightarrow> n' = n" using k by linarith
    then show "bit (ucast (drop_bit (8 * n') (put_byte w n b)) :: u8) k = bit (if n' = n then b else ucast (drop_bit (8 * n') w)) k"
      using k b by (simp add: bit_ucast_iff bit_drop_bit_eq)
  qed
qed

lemma address_parts:
  assumes "pa AND NOT PG_MASK = pa' AND NOT PG_MASK" and "drop_bit 3 (pa AND PG_MASK) = drop_bit 3 (pa' AND PG_MASK)"
    and "pa AND 7 = pa' AND (7 :: u64)"
  shows "pa = pa'"
proof (rule bit_word_eqI)
  fix k assume "k < LENGTH(64)"
  then have k: "k < 64" by simp
  consider "k < 3" | "3 \<le> k" "k < 12" | "12 \<le> k" by linarith
  then show "bit pa k = bit pa' k"
  proof cases
    case 1
    have "bit (pa AND 7) k = bit (pa' AND 7) k" using assms(3) by simp
    then show ?thesis unfolding and_7 using 1 by (simp add: bit_and_iff bit_mask_iff)
  next
    case 2
    have "bit (drop_bit 3 (pa AND PG_MASK)) (k - 3) = bit (drop_bit 3 (pa' AND PG_MASK)) (k - 3)" using assms(2) by simp
    then show ?thesis using 2 by (simp add: bit_drop_bit_eq bit_and_iff pte_bits)
  next
    case 3
    have "bit (pa AND NOT PG_MASK) k = bit (pa' AND NOT PG_MASK) k" using assms(1) by simp
    then show ?thesis using 3 k by (simp add: bit_and_iff bit_not_iff pte_bits)
  qed
qed

lemma mem_byte_at: "mem_byte pm pa =
    ucast (drop_bit (8 * unat (pa AND 7)) (pm (pa AND NOT PG_MASK) (unat (drop_bit 3 (pa AND PG_MASK)))))"
  by (simp only: mem_byte_def)

lemma set_byte_at: "set_byte pa b pm t i =
    (if t = pa AND NOT PG_MASK \<and> i = unat (drop_bit 3 (pa AND PG_MASK)) then put_byte (pm t i) (unat (pa AND 7)) b else pm t i)"
  by (simp only: set_byte_def Let_def fun_upd_apply) simp

lemma same_word:
  assumes "pa' AND NOT PG_MASK = pa AND NOT PG_MASK" and "unat (drop_bit 3 (pa' AND PG_MASK)) = unat (drop_bit 3 (pa AND PG_MASK))"
  shows "unat (pa' AND 7) = unat (pa AND 7) \<longleftrightarrow> pa' = pa"
  using address_parts [OF assms(1)] assms(2) unfolding word_unat_eq_iff [symmetric] by blast

lemma mem_byte_set: "mem_byte (set_byte pa b pm) pa' = (if pa' = pa then b else mem_byte pm pa')"
proof (cases "pa' AND NOT PG_MASK = pa AND NOT PG_MASK \<and> unat (drop_bit 3 (pa' AND PG_MASK)) = unat (drop_bit 3 (pa AND PG_MASK))")
  case True
  note w = same_word [OF conjunct1 [OF True] conjunct2 [OF True]]
  show ?thesis unfolding mem_byte_at set_byte_at if_P [OF True] put_byte_get [OF byte_in_word byte_in_word] w ..
next
  case False
  then have "pa' \<noteq> pa" by blast
  then show ?thesis unfolding mem_byte_at set_byte_at if_not_P [OF False] by (simp only: if_False)
qed

lemma mem_byte_set_bytes:
  "\<forall>j<length bs. pa' \<noteq> pa + word_of_nat j \<Longrightarrow> mem_byte (set_bytes pa bs pm) pa' = mem_byte pm pa'"
proof (induction bs arbitrary: pa pm)
  case (Cons b bs)
  have at: "pa' \<noteq> pa + word_of_nat j" if "j < Suc (length bs)" for j using Cons.prems that by simp
  have "pa' \<noteq> pa" using at [of 0] by simp
  moreover have "\<forall>j<length bs. pa' \<noteq> pa + 1 + word_of_nat j" using at [of "Suc _"] by (simp add: algebra_simps)
  ultimately show ?case using Cons.IH [of "pa + 1" "set_byte pa b pm"] by (simp add: mem_byte_set)
qed simp

lemma set_bytes_get:
  "length bs \<le> 2 ^ 63 \<Longrightarrow> j < length bs \<Longrightarrow> mem_byte (set_bytes pa bs pm) (pa + word_of_nat j) = bs ! j"
proof (induction bs arbitrary: pa pm j)
  case (Cons b bs)
  show ?case
  proof (cases j)
    case 0
    have "pa \<noteq> pa + 1 + word_of_nat i" if "i < length bs" for i
    proof -
      have "unat (1 + word_of_nat i :: u64) = 1 + i" using that Cons.prems(1)
        by (simp add: unat_word_ariths unsigned_of_nat take_bit_eq_mod)
      then have "1 + word_of_nat i \<noteq> (0 :: u64)" by auto
      then show ?thesis by (simp add: algebra_simps)
    qed
    then show ?thesis using mem_byte_set_bytes [of bs pa "pa + 1" "set_byte pa b pm"] 0 by (simp add: mem_byte_set)
  next
    case (Suc i)
    then show ?thesis using Cons.IH [of i "pa + 1" "set_byte pa b pm"] Cons.prems by (simp add: algebra_simps)
  qed
qed simp

text \<open>Writing within a frame leaves the other frames alone.\<close>

lemma set_bytes_frame:
  "\<forall>j<length bs. (pa + word_of_nat j) AND NOT PG_MASK \<noteq> t \<Longrightarrow> set_bytes pa bs pm t = pm t"
proof (induction bs arbitrary: pa pm)
  case (Cons b bs)
  have at: "(pa + word_of_nat j) AND NOT PG_MASK \<noteq> t" if "j < Suc (length bs)" for j using Cons.prems that by simp
  have "pa AND NOT PG_MASK \<noteq> t" using at [of 0] by simp
  moreover have "\<forall>j<length bs. (pa + 1 + word_of_nat j) AND NOT PG_MASK \<noteq> t" using at [of "Suc _"] by (simp add: algebra_simps)
  moreover have "set_byte pa b pm t = pm t" using calculation(1) by (simp add: set_byte_def Let_def)
  ultimately show ?case using Cons.IH [of "pa + 1" "set_byte pa b pm"] by simp
qed simp

subsection \<open>User pages apart from the tables\<close>

lemma translate_tables:
  "(\<And>q u. length q < k \<Longrightarrow> \<forall>i\<in>set q. i < 512 \<Longrightarrow> table_at pm t q = Some u \<Longrightarrow> pm' u = pm u) \<Longrightarrow>
     translate pm' va l k t = translate pm va l k t"
proof (induction k arbitrary: l t)
  case (Suc k)
  let ?i = "level_index va l"
  have t: "pm' t = pm t" using Suc.prems [of "[]" t] by simp
  show ?case
  proof (cases "is_table_entry (pm t ?i)")
    case True
    have "translate pm' va (l + 1) k (pte_addr (pm t ?i)) = translate pm va (l + 1) k (pte_addr (pm t ?i))"
    proof (rule Suc.IH)
      fix q u assume "length q < k" "\<forall>i\<in>set q. i < 512" "table_at pm (pte_addr (pm t ?i)) q = Some u"
      then show "pm' u = pm u" using Suc.prems [of "?i # q" u] True level_index_bound by simp
    qed
    then show ?thesis using t by (simp add: Let_def)
  next
    case False
    then show ?thesis using t by (auto simp: is_table_entry_def Let_def)
  qed
qed simp

definition same_tables :: "u64 \<Rightarrow> (u64 \<Rightarrow> nat \<Rightarrow> u64) \<Rightarrow> (u64 \<Rightarrow> nat \<Rightarrow> u64) \<Rightarrow> bool" where
  "same_tables root pm pm' \<longleftrightarrow> (\<forall>q u. table_path_ok q \<longrightarrow> table_at pm root q = Some u \<longrightarrow> pm' u = pm u)"

lemma same_tables_at:
  assumes "same_tables root pm pm'"
  shows "table_path_ok p \<Longrightarrow> table_at pm' root p = table_at pm root p"
proof (induction p rule: rev_induct)
  case (snoc i p)
  then have p: "table_path_ok p" by (simp add: table_path_ok_def)
  show ?case using snoc.IH [OF p] assms p by (auto simp: table_at_snoc same_tables_def split: option.splits)
qed simp

lemma same_tables_address:
  assumes "same_tables root (ptmem m) (ptmem m')"
  shows "user_address m' (Some root) va w = user_address m (Some root) va w"
proof -
  have "translate (ptmem m') va 0 4 root = translate (ptmem m) va 0 4 root"
  proof (rule translate_tables)
    fix q u assume "length q < 4" "\<forall>i\<in>set q. i < 512" "table_at (ptmem m) root q = Some u"
    moreover have "table_path_ok q" using calculation(1,2) by (simp add: table_path_ok_def)
    ultimately show "ptmem m' u = ptmem m u" using assms unfolding same_tables_def by blast
  qed
  then have eq: "user_address m' (Some root) va w = Inr a \<longleftrightarrow> user_address m (Some root) va w = Inr a" for a
    by (simp add: user_address_map address_map_def)
  have inv: "user_address x (Some root) va w = Inl e \<Longrightarrow> e = Invalid" for x e
  proof -
    have walk: "user_walk x va w l k t = Inl e \<Longrightarrow> e = Invalid" for l k t
      by (induction k arbitrary: l t) (auto simp: Let_def ensure_def split: if_splits)
    show "user_address x (Some root) va w = Inl e \<Longrightarrow> e = Invalid"
      using walk by (auto simp: user_address_def ensure_def split: if_splits)
  qed
  show ?thesis using eq inv by (cases "user_address m (Some root) va w"; cases "user_address m' (Some root) va w") auto
qed

lemma user_write_read: "user_address m (Some root) va True = Inr pa \<Longrightarrow> user_address m (Some root) va False = Inr pa"
  by (auto simp: user_address_map permits_def)

text \<open>
  No user page is a page table, and no byte is mapped twice: what \<^verbatim>\<open>page_insert\<close> gives for freshly
  allocated pages.
\<close>

definition user_apart :: "pt_machine \<Rightarrow> u64 \<Rightarrow> bool" where
  "user_apart m root \<longleftrightarrow>
     (\<forall>va pa p u. user_address m (Some root) va False = Inr pa \<longrightarrow> table_path_ok p \<longrightarrow>
        table_at (ptmem m) root p = Some u \<longrightarrow> u \<noteq> pa AND NOT PG_MASK) \<and>
     (\<forall>va va' pa. user_address m (Some root) va False = Inr pa \<longrightarrow> user_address m (Some root) va' False = Inr pa \<longrightarrow> va = va')"

lemma user_apart_later:
  assumes "user_apart m root" and "same_tables root (ptmem m) (ptmem m')"
  shows "user_apart m' root"
proof -
  note ua = same_tables_address [OF assms(2)] and tb = same_tables_at [OF assms(2)]
  show ?thesis unfolding user_apart_def ua
  proof (intro conjI allI impI)
    fix va pa p u
    assume "user_address m (Some root) va False = Inr pa" "table_path_ok p" "table_at (ptmem m') root p = Some u"
    then show "u \<noteq> pa AND NOT PG_MASK" using assms(1) tb [of p] unfolding user_apart_def by metis
  qed (use assms(1) in \<open>unfold user_apart_def, blast\<close>)
qed

definition user_stored :: "pt_machine \<Rightarrow> u64 \<Rightarrow> u64 \<Rightarrow> bytes \<Rightarrow> pt_machine \<Rightarrow> bool" where
  "user_stored m root va bs m' \<longleftrightarrow>
     same_tables root (ptmem m) (ptmem m') \<and> m' = m\<lparr>ptmem := ptmem m'\<rparr> \<and>
     (\<forall>j<length bs. user_byte m' (Some root) (va + word_of_nat j) = bs ! j) \<and>
     (\<forall>a. (\<forall>j<length bs. a \<noteq> va + word_of_nat j) \<longrightarrow> user_byte m' (Some root) a = user_byte m (Some root) a)"

lemma store_in_page:
  assumes ap: "user_apart m root" and pa: "user_address m (Some root) va False = Inr pa"
    and n: "\<And>j. j < length bs \<Longrightarrow> user_address m (Some root) (va + word_of_nat j) False = Inr (pa + word_of_nat j)"
    and len: "length bs \<le> 4096"
  shows "user_stored m root va bs (m\<lparr>ptmem := set_bytes pa bs (ptmem m)\<rparr>)"
proof -
  let ?m = "m\<lparr>ptmem := set_bytes pa bs (ptmem m)\<rparr>"
  have st: "same_tables root (ptmem m) (ptmem ?m)" unfolding same_tables_def
  proof (intro allI impI)
    fix q u assume "table_path_ok q" "table_at (ptmem m) root q = Some u"
    then have "\<forall>j<length bs. (pa + word_of_nat j) AND NOT PG_MASK \<noteq> u" using ap n unfolding user_apart_def by metis
    then show "ptmem ?m u = ptmem m u" by (simp add: set_bytes_frame)
  qed
  note ua = same_tables_address [OF st]
  have "user_byte ?m (Some root) (va + word_of_nat j) = bs ! j" if "j < length bs" for j
    using n [OF that] that len set_bytes_get [of bs j pa "ptmem m"] unfolding user_byte_def ua by simp
  moreover have "user_byte ?m (Some root) a = user_byte m (Some root) a" if "\<forall>j<length bs. a \<noteq> va + word_of_nat j" for a
  proof (cases "user_address m (Some root) a False")
    case (Inr pa')
    have "pa' \<noteq> pa + word_of_nat j" if "j < length bs" for j
      using ap n [OF that] Inr that \<open>\<forall>j<length bs. a \<noteq> va + word_of_nat j\<close> unfolding user_apart_def by metis
    then show ?thesis using Inr unfolding user_byte_def ua by (simp add: mem_byte_set_bytes)
  next
    case (Inl e)
    then show ?thesis unfolding user_byte_def ua by simp
  qed
  ultimately show ?thesis using st by (simp add: user_stored_def)
qed

lemma user_stored_append:
  assumes u: "in_user va n" and len: "length bs \<le> unat n" and c: "c \<le> length bs"
    and s1: "user_stored m root va (take c bs) m1" and s2: "user_stored m1 root (va + word_of_nat c) (drop c bs) m2"
  shows "user_stored m root va bs m2"
proof -
  have st: "same_tables root (ptmem m) (ptmem m2)"
    using s1 s2 same_tables_at unfolding user_stored_def same_tables_def by metis
  have at: "va + word_of_nat c + word_of_nat j = va + word_of_nat (c + j)" for j by (simp add: algebra_simps)
  have l1: "length (take c bs) = c" and l2: "length (drop c bs) = length bs - c" using c by simp_all
  have inside: "user_byte m2 (Some root) (va + word_of_nat j) = bs ! j" if j: "j < length bs" for j
  proof (cases "j < c")
    case True
    have "va + word_of_nat j \<noteq> va + word_of_nat c + word_of_nat i" if "i < length bs - c" for i
    proof -
      have "c + i < unat n" using that len by simp
      then have "unat (va + word_of_nat (c + i)) = unat va + (c + i)" by (rule in_user_bounds(3) [OF u])
      moreover have "unat (va + word_of_nat j) = unat va + j" using j len in_user_bounds(3) [OF u] by simp
      ultimately show ?thesis unfolding at using True by (metis add_left_cancel not_add_less1)
    qed
    then have "user_byte m2 (Some root) (va + word_of_nat j) = user_byte m1 (Some root) (va + word_of_nat j)"
      using s2 unfolding user_stored_def l2 by blast
    also have "\<dots> = take c bs ! j" using s1 True unfolding user_stored_def l1 by blast
    finally show ?thesis using True by simp
  next
    case False
    then have "j - c < length bs - c" and e: "c + (j - c) = j" using j by simp_all
    then have "user_byte m2 (Some root) (va + word_of_nat c + word_of_nat (j - c)) = drop c bs ! (j - c)"
      using s2 unfolding user_stored_def l2 by blast
    then show ?thesis using False c unfolding at e by simp
  qed
  have outside: "user_byte m2 (Some root) a = user_byte m (Some root) a" if a: "\<forall>j<length bs. a \<noteq> va + word_of_nat j" for a
  proof -
    have "\<forall>j<length bs - c. a \<noteq> va + word_of_nat c + word_of_nat j" unfolding at
    proof (intro allI impI)
      fix j assume "j < length bs - c"
      then have "c + j < length bs" by simp
      then show "a \<noteq> va + word_of_nat (c + j)" using a by blast
    qed
    then have "user_byte m2 (Some root) a = user_byte m1 (Some root) a" using s2 unfolding user_stored_def l2 by blast
    also have "\<dots> = user_byte m (Some root) a" using s1 a c unfolding user_stored_def l1 by simp
    finally show ?thesis .
  qed
  have upd: "m2 = m\<lparr>ptmem := ptmem m2\<rparr>"
  proof -
    have "m1 = m\<lparr>ptmem := ptmem m1\<rparr>" "m2 = m1\<lparr>ptmem := ptmem m2\<rparr>" using s1 s2 unfolding user_stored_def by blast+
    then show ?thesis by (cases m; cases m1; cases m2) simp
  qed
  show ?thesis unfolding user_stored_def
    by (intro conjI allI impI) (rule st upd inside outside; assumption?)+
qed

lemma user_stored_nil: "user_stored m root va [] m' \<Longrightarrow> user_stored m root va' [] m'"
  by (simp add: user_stored_def)

lemma copy_to_loop_stores:
  "in_user va n \<Longrightarrow> user_apart m root \<Longrightarrow> \<forall>j<unat n. user_ok m (Some root) True (va + word_of_nat j) \<Longrightarrow> length bs \<le> unat n \<Longrightarrow>
    \<exists>m'. copy_to_loop m (Some root) va n bs = (Err_None, m') \<and> user_stored m root va bs m'"
proof (induction m "Some root" va n bs rule: copy_to_loop.induct)
  case (1 m va n bs)
  show ?case
  proof (cases "n = 0")
    case True
    then show ?thesis using 1(5) by (subst copy_to_loop.simps) (simp add: user_stored_def same_tables_def)
  next
    case False
    note c = chunk_step [OF 1(2) False]
    let ?c = "unat (chunk_bytes va n)"
    have "0 < unat n" using c(4,5) by linarith
    then have "user_ok m (Some root) True (va + word_of_nat 0)" using 1(4) by blast
    then obtain pa where pa: "user_address m (Some root) va True = Inr pa" by (auto simp: user_ok_def)
    let ?m = "m\<lparr>ptmem := set_bytes pa (take ?c bs) (ptmem m)\<rparr>"
    have len: "length (take ?c bs) \<le> ?c" by simp
    have st: "user_stored m root va (take ?c bs) ?m"
    proof (rule store_in_page [OF 1(3) user_write_read [OF pa]])
      fix j assume "j < length (take ?c bs)"
      then have j: "j < ?c" using len by simp
      show "user_address m (Some root) (va + word_of_nat j) False = Inr (pa + word_of_nat j)"
        using user_address_page [OF user_write_read [OF pa] c(6) [OF j]] in_user_bounds [OF 1(2), of j] j c(5) by simp
    qed (use len unat_chunk [of va n] in simp)
    then have same: "same_tables root (ptmem m) (ptmem ?m)" by (simp add: user_stored_def)
    have ok: "\<forall>j<unat (n - chunk_bytes va n). user_ok ?m (Some root) True (va + chunk_bytes va n + word_of_nat j)"
    proof (intro allI impI)
      fix j assume "j < unat (n - chunk_bytes va n)"
      then have "?c + j < unat n" using c(3) by simp
      then show "user_ok ?m (Some root) True (va + chunk_bytes va n + word_of_nat j)"
        using 1(4) unfolding add_chunk user_ok_def same_tables_address [OF same] by blast
    qed
    have len': "length (drop ?c bs) \<le> unat (n - chunk_bytes va n)" using 1(5) c(3) by simp
    obtain m' where m': "copy_to_loop ?m (Some root) (va + chunk_bytes va n) (n - chunk_bytes va n) (drop ?c bs) = (Err_None, m')"
      "user_stored ?m root (va + chunk_bytes va n) (drop ?c bs) m'"
      using 1(1) [OF False pa refl c(1) user_apart_later [OF 1(3) same] ok len'] by blast
    have "user_stored m root va bs m'"
    proof (cases "?c \<le> length bs")
      case True
      then show ?thesis by (rule user_stored_append [OF 1(2,5) _ st]) (use m'(2) in simp)
    next
      case False
      then have "take ?c bs = bs" "drop ?c bs = []" by simp_all
      then show ?thesis using user_stored_append [OF 1(2,5) le_refl, of m root ?m m'] user_stored_nil st m'(2) by simp
    qed
    then show ?thesis using m'(1) False pa by (subst copy_to_loop.simps) (simp add: Let_def)
  qed
qed

lemma copy_to_user_stores:
  assumes "user_apart m root" and "user_range_valid m (Some root) va n True" and "length bs \<le> unat n"
  shows "\<exists>m'. copy_to_user m (Some root) va bs n = (Err_None, m') \<and> user_stored m root va bs m'"
  using assms copy_to_loop_stores [of va n m root bs] by (simp add: copy_to_user_def user_range_all)

text \<open>C8.
  Bytes copied to user memory are read back by a copy from the same range: for a range that passes
  the check for writing, both copies succeed, every user byte outside the range keeps its value and
  the address map of the task is unchanged.
\<close>

theorem user_copy_roundtrip:
  assumes "user_apart m root" and "user_range_valid m (Some root) va n True" and "length bs = unat n"
  shows "\<exists>m'. copy_to_user m (Some root) va bs n = (Err_None, m') \<and> copy_from_user m' (Some root) va n = Inr bs \<and>
    (\<forall>a. (\<forall>j<unat n. a \<noteq> va + word_of_nat j) \<longrightarrow> user_byte m' (Some root) a = user_byte m (Some root) a) \<and>
    (\<forall>a w. user_address m' (Some root) a w = user_address m (Some root) a w)"
proof -
  obtain m' where m': "copy_to_user m (Some root) va bs n = (Err_None, m')" "user_stored m root va bs m'"
    using copy_to_user_stores [OF assms(1,2), of bs] assms(3) by auto
  then have ua: "user_address m' (Some root) a w = user_address m (Some root) a w" for a w
    by (intro same_tables_address) (simp add: user_stored_def)
  have "user_range_valid m' (Some root) va n False"
    using assms(2) user_write_read unfolding user_range_all user_ok_def ua by blast
  then have "copy_from_user m' (Some root) va n = Inr (map (\<lambda>j. user_byte m' (Some root) (va + word_of_nat j)) [0..<unat n])"
    by (rule copy_from_user_bytes)
  also have "map (\<lambda>j. user_byte m' (Some root) (va + word_of_nat j)) [0..<unat n] = bs"
    using m'(2) assms(3) by (intro nth_equalityI) (simp_all add: user_stored_def)
  finally show ?thesis using m' ua assms(3) by (auto simp: user_stored_def)
qed

definition demo_user_memory :: "u64 \<Rightarrow> nat \<Rightarrow> u64" where
  "demo_user_memory t i = (if t = 0x1000 \<and> i = 0 then 0x2007 else if t = 0x2000 \<and> i = 0 then 0x3007
     else if t = 0x3000 \<and> i = 0 then 0x4007 else if t = 0x4000 \<and> i = 5 then 0x9007 else 0)"

definition demo_user :: pt_machine where
  "demo_user = demo_machine\<lparr>ptmem := demo_user_memory\<rparr>"

lemma demo_entry_facts:
  "\<not> pte_present 0" "pte_present 0x2007" "pte_present 0x3007" "pte_present 0x4007" "pte_present 0x9007"
  "\<not> pte_is_block 0x2007" "\<not> pte_is_block 0x3007" "\<not> pte_is_block 0x4007"
  "pte_addr 0x2007 = 0x2000" "pte_addr 0x3007 = 0x3000" "pte_addr 0x4007 = 0x4000" "pte_addr 0x9007 = 0x9000"
  "entry_rights 0x2007 = all_rights" "entry_rights 0x3007 = all_rights" "entry_rights 0x4007 = all_rights" "entry_rights 0x9007 = all_rights"
  by (simp_all add: pte_present_def pte_is_block_def pte_addr_def entry_rights_def all_rights_def pte_writable_def
      pte_user_def pte_executable_def PTE_P_def PTE_PS_def PTE_ADDR_MASK_def PTE_W_def PTE_U_def PTE_NX_def)

lemma demo_user_tables:
  assumes "table_path_ok p" and "table_at demo_user_memory 0x1000 p = Some u"
  shows "u \<in> {0x1000, 0x2000, 0x3000, 0x4000}"
proof -
  have e: "is_table_entry (demo_user_memory 0x1000 i) \<longleftrightarrow> i = 0" "is_table_entry (demo_user_memory 0x2000 i) \<longleftrightarrow> i = 0"
    "is_table_entry (demo_user_memory 0x3000 i) \<longleftrightarrow> i = 0" for i
    by (simp_all add: demo_user_memory_def is_table_entry_def demo_entry_facts)
  have a: "pte_addr (demo_user_memory 0x1000 0) = 0x2000" "pte_addr (demo_user_memory 0x2000 0) = 0x3000"
    "pte_addr (demo_user_memory 0x3000 0) = 0x4000"
    by (simp_all add: demo_user_memory_def demo_entry_facts)
  from assms(1) consider "p = []" | a where "p = [a]" | a b where "p = [a, b]" | a b c where "p = [a, b, c]"
    by (cases p; cases "tl p"; cases "tl (tl p)"; cases "tl (tl (tl p))") (auto simp: table_path_ok_def)
  then show ?thesis using assms(2) by cases (auto simp: e a split: if_splits)
qed

lemma same_page_index:
  "same_page va va' \<longleftrightarrow> level_index va 0 = level_index va' 0 \<and> level_index va 1 = level_index va' 1 \<and>
     level_index va 2 = level_index va' 2 \<and> level_index va 3 = level_index va' 3"
proof -
  have four: "(\<forall>l<4. P l) \<longleftrightarrow> P 0 \<and> P 1 \<and> P 2 \<and> P (3 :: nat)" for P
    by (auto simp: eval_nat_numeral All_less_Suc)
  show ?thesis unfolding same_page_def by (rule four)
qed

lemma translate_table:
  "is_table_entry (pm t (level_index va l)) \<Longrightarrow> entry_rights (pm t (level_index va l)) = all_rights \<Longrightarrow>
     translate pm va l (Suc (Suc k)) t = translate pm va (l + 1) (Suc k) (pte_addr (pm t (level_index va l)))"
  unfolding translate.simps(2) [of pm va l "Suc k"] Let_def is_table_entry_def
  by (simp add: option.map_id case_prod_beta del: translate.simps)

lemma translate_absent: "\<not> pte_present (pm t (level_index va l)) \<Longrightarrow> translate pm va l k t = None"
  by (cases k) (simp_all add: Let_def)

declare translate.simps(2) [simp del]

lemma demo_user_index: "level_index 0x5000 0 = 0" "level_index 0x5000 1 = 0" "level_index 0x5000 2 = 0" "level_index 0x5000 3 = 5"
  by (simp_all add: level_index_def LEVEL_SHIFTS_def)

lemma demo_user_entries:
  "demo_user_memory 0x1000 i = (if i = 0 then 0x2007 else 0)" "demo_user_memory 0x2000 i = (if i = 0 then 0x3007 else 0)"
  "demo_user_memory 0x3000 i = (if i = 0 then 0x4007 else 0)" "demo_user_memory 0x4000 i = (if i = 5 then 0x9007 else 0)"
  by (simp_all add: demo_user_memory_def)

lemma demo_user_map:
  "address_map demo_user 0x1000 va = (if same_page va 0x5000 then Some (0x9000 + (va AND PG_MASK), all_rights) else None)"
proof -
  have step: "translate demo_user_memory va l (Suc (Suc k)) t = (if level_index va l = 0 then translate demo_user_memory va (l + 1) (Suc k) (pte_addr e) else None)"
    if "\<And>i. demo_user_memory t i = (if i = 0 then e else 0)" "is_table_entry e" "entry_rights e = all_rights" for l k t e
    using that translate_table [of demo_user_memory t va l k] translate_absent [of demo_user_memory t va l "Suc (Suc k)"] demo_entry_facts(1) by simp
  have t: "is_table_entry 0x2007" "is_table_entry 0x3007" "is_table_entry 0x4007" by (simp_all add: is_table_entry_def demo_entry_facts)
  have leaf: "translate demo_user_memory va 3 (Suc 0) 0x4000 = (if level_index va 3 = 5 then Some (0x9000 + (va AND PG_MASK), all_rights) else None)"
    by (simp add: translate.simps Let_def demo_user_entries demo_entry_facts LEVEL_SHIFTS_def PG_MASK_def)
  have "translate demo_user_memory va 0 (Suc (Suc (Suc (Suc 0)))) 0x1000 =
      (if level_index va 0 = 0 then translate demo_user_memory va 1 (Suc (Suc (Suc 0))) 0x2000 else None)"
    using step [OF demo_user_entries(1) t(1) demo_entry_facts(13), of 0] by (simp add: demo_entry_facts)
  moreover have "translate demo_user_memory va 1 (Suc (Suc (Suc 0))) 0x2000 =
      (if level_index va 1 = 0 then translate demo_user_memory va 2 (Suc (Suc 0)) 0x3000 else None)"
    using step [OF demo_user_entries(2) t(2) demo_entry_facts(14), of 1] by (simp add: demo_entry_facts numeral_2_eq_2)
  moreover have "translate demo_user_memory va 2 (Suc (Suc 0)) 0x3000 =
      (if level_index va 2 = 0 then translate demo_user_memory va 3 (Suc 0) 0x4000 else None)"
    using step [OF demo_user_entries(3) t(3) demo_entry_facts(15), of 2] by (simp add: demo_entry_facts)
  moreover have "address_map demo_user 0x1000 va = translate demo_user_memory va 0 (Suc (Suc (Suc (Suc 0)))) 0x1000"
    by (simp add: address_map_def demo_user_def eval_nat_numeral)
  ultimately show ?thesis unfolding same_page_index demo_user_index leaf by simp
qed

lemma same_page_user:
  assumes "same_page va va'" and "va < USER_SPACE_TOP" and "va' < USER_SPACE_TOP"
  shows "va AND NOT PG_MASK = va' AND NOT PG_MASK"
proof (rule bit_word_eqI)
  fix k assume "k < LENGTH(64)"
  have high: "bit x k \<Longrightarrow> k < 47" if "x < USER_SPACE_TOP" for x
    using that small_word_bits [of x 47 k] user_bounds(2) by (simp add: word_less_nat_alt)
  show "bit (va AND NOT PG_MASK) k = bit (va' AND NOT PG_MASK) k"
    using high [OF assms(2)] high [OF assms(3)] same_page_bits [OF assms(1), of k]
    by (auto simp: bit_and_iff bit_not_iff pte_bits)
qed

lemma demo_user_address:
  assumes "user_address demo_user (Some 0x1000) va False = Inr pa"
  shows "va AND NOT PG_MASK = 0x5000" "pa = 0x9000 + (va AND PG_MASK)" "pa AND NOT PG_MASK = 0x9000"
proof -
  obtain r where r: "va < USER_SPACE_TOP" "address_map demo_user 0x1000 va = Some (pa, r)"
    using assms unfolding user_address_map by blast
  then have sp: "same_page va 0x5000" and pa: "pa = 0x9000 + (va AND PG_MASK)"
    unfolding demo_user_map by (simp_all split: if_splits)
  have "(0x5000 :: u64) < USER_SPACE_TOP" by (simp add: USER_SPACE_TOP_def)
  then have "va AND NOT PG_MASK = 0x5000 AND NOT PG_MASK" by (rule same_page_user [OF sp r(1)])
  then show "va AND NOT PG_MASK = 0x5000" by (simp add: PG_MASK_def)
  show "pa = 0x9000 + (va AND PG_MASK)" by (rule pa)
  have "unat ((0x9000 :: u64) AND PG_MASK) = 0" by (simp add: PG_MASK_def)
  then have "(0x9000 + word_of_nat (unat (va AND PG_MASK))) AND NOT PG_MASK = 0x9000 AND NOT PG_MASK"
    using page_offset_less [of va] by (intro page_add(1)) simp
  then show "pa AND NOT PG_MASK = 0x9000" unfolding pa by (simp add: PG_MASK_def)
qed

lemma demo_user_apart: "user_apart demo_user 0x1000"
  unfolding user_apart_def
proof (intro conjI allI impI)
  fix va pa p u
  assume a: "user_address demo_user (Some 0x1000) va False = Inr pa" and "table_path_ok p" "table_at (ptmem demo_user) 0x1000 p = Some u"
  moreover have "ptmem demo_user = demo_user_memory" by (simp add: demo_user_def)
  ultimately have "u \<in> {0x1000, 0x2000, 0x3000, 0x4000}" using demo_user_tables [of p u] by simp
  then have "u \<noteq> 0x9000" by auto
  then show "u \<noteq> pa AND NOT PG_MASK" unfolding demo_user_address(3) [OF a] .
next
  fix va va' pa
  assume a: "user_address demo_user (Some 0x1000) va False = Inr pa" and b: "user_address demo_user (Some 0x1000) va' False = Inr pa"
  have "va AND PG_MASK = va' AND PG_MASK" using demo_user_address(2) [OF a] demo_user_address(2) [OF b] by simp
  then show "va = va'" using page_split [of va] page_split [of va'] demo_user_address(1) [OF a] demo_user_address(1) [OF b] by simp
qed

lemma demo_user_range: "user_range_valid demo_user (Some 0x1000) 0x5010 3 True"
proof -
  have sp: "same_page 0x5010 0x5000" by (simp add: same_page_index level_index_def LEVEL_SHIFTS_def)
  have "user_address demo_user (Some 0x1000) 0x5010 True = Inr (0x9000 + (0x5010 AND PG_MASK))"
    using sp by (simp add: user_address_map demo_user_map permits_def all_rights_def PG_SIZE_def USER_SPACE_TOP_def)
  moreover have "chunk_bytes 0x5010 3 = 3" by (simp add: chunk_bytes_def Let_def PG_SIZE_def PG_MASK_def)
  ultimately have "range_loop demo_user (Some 0x1000) 0x5010 3 True"
    by (subst range_loop.simps) (simp add: range_loop.simps)
  then show ?thesis by (simp add: user_range_valid_def PG_SIZE_def USER_SPACE_TOP_def)
qed

theorem user_copy_roundtrip_witness:
  "\<exists>m'. copy_to_user demo_user (Some 0x1000) 0x5010 [1, 2, 3] 3 = (Err_None, m') \<and>
     copy_from_user m' (Some 0x1000) 0x5010 3 = Inr [1, 2, 3]"
  using user_copy_roundtrip [OF demo_user_apart demo_user_range, of "[1, 2, 3]"] by auto

section \<open>The contract of user memory\<close>

text \<open>
  What the system calls use: the check of a range and the two copies. \<open>good\<close> are the address spaces
  whose user pages are apart from the tables and from each other.
\<close>

record 'u user_ops =
  u_range :: "'u \<Rightarrow> u64 \<Rightarrow> u64 \<Rightarrow> bool \<Rightarrow> bool"
  u_from :: "'u \<Rightarrow> u64 \<Rightarrow> u64 \<Rightarrow> error + bytes"
  u_to :: "'u \<Rightarrow> u64 \<Rightarrow> bytes \<Rightarrow> u64 \<Rightarrow> error \<times> 'u"

definition paged_user :: "u64 \<Rightarrow> pt_machine user_ops" where
  "paged_user root = \<lparr>u_range = (\<lambda>m. user_range_valid m (Some root)), u_from = (\<lambda>m. copy_from_user m (Some root)),
     u_to = (\<lambda>m. copy_to_user m (Some root))\<rparr>"

locale user_memory =
  fixes ops :: "'u user_ops" and good :: "'u \<Rightarrow> bool" and ubyte :: "'u \<Rightarrow> u64 \<Rightarrow> u8"
  assumes range_part: "u_range ops u va n w \<Longrightarrow> k < unat n \<Longrightarrow> k + m \<le> unat n \<Longrightarrow> u_range ops u (va + word_of_nat k) (word_of_nat m) w"
    and range_size: "u_range ops u va n w \<Longrightarrow> unat n < 2 ^ 63"
    and from_bytes: "u_range ops u va n False \<Longrightarrow> u_from ops u va n = Inr (map (\<lambda>j. ubyte u (va + word_of_nat j)) [0..<unat n])"
    and to_bytes: "good u \<Longrightarrow> u_range ops u va n True \<Longrightarrow> length bs \<le> unat n \<Longrightarrow>
      \<exists>u'. u_to ops u va bs n = (Err_None, u') \<and> good u' \<and> u_range ops u' = u_range ops u \<and>
        (\<forall>j<length bs. ubyte u' (va + word_of_nat j) = bs ! j) \<and>
        (\<forall>a. (\<forall>j<length bs. a \<noteq> va + word_of_nat j) \<longrightarrow> ubyte u' a = ubyte u a)"

lemma user_range_part:
  assumes "user_range_valid m (Some root) va n w" and "k < unat n" and "k + i \<le> unat n"
  shows "user_range_valid m (Some root) (va + word_of_nat k) (word_of_nat i) w"
proof -
  from assms(1) have iu: "in_user va n" and ok: "\<forall>j<unat n. user_ok m (Some root) w (va + word_of_nat j)"
    by (simp_all add: user_range_all)
  note b = in_user_bounds [OF iu assms(2)]
  have "unat n < 2 ^ 64" using unsigned_less [of n, where ?'a = nat] by simp
  then have "i < 2 ^ 64" using assms(3) by linarith
  then have i: "unat (word_of_nat i :: u64) = i" by (simp add: unsigned_of_nat take_bit_nat_eq_self)
  have "in_user (va + word_of_nat k) (word_of_nat i)" using iu b(3) i assms(3) by (simp add: in_user_def)
  moreover have "user_ok m (Some root) w (va + word_of_nat k + word_of_nat j)" if "j < i" for j
  proof -
    have "k + j < unat n" using that assms(3) by simp
    then have "user_ok m (Some root) w (va + word_of_nat (k + j))" using ok by blast
    then show ?thesis by (simp add: algebra_simps)
  qed
  ultimately show ?thesis using b(1) i by (simp add: user_range_all)
qed

interpretation paged: user_memory "paged_user root" "\<lambda>m. user_apart m root" "\<lambda>m. user_byte m (Some root)" for root
proof (unfold_locales, goal_cases)
  case (1 u va n w k m)
  then show ?case using user_range_part by (simp add: paged_user_def)
next
  case (2 u va n w)
  then have "in_user va n" by (simp add: paged_user_def user_range_all)
  then show ?case by (simp add: in_user_def)
next
  case (3 u va n)
  then show ?case using copy_from_user_bytes by (simp add: paged_user_def)
next
  case (4 u va n bs)
  then have "user_range_valid u (Some root) va n True" by (simp add: paged_user_def)
  then obtain m' where m': "copy_to_user u (Some root) va bs n = (Err_None, m')" "user_stored u root va bs m'"
    using copy_to_user_stores [OF 4(1) _ 4(3)] by blast
  then have st: "same_tables root (ptmem u) (ptmem m')" by (simp add: user_stored_def)
  have "user_range_valid m' (Some root) = user_range_valid u (Some root)"
    by (intro ext) (simp add: user_range_all user_ok_def same_tables_address [OF st])
  then have "u_range (paged_user root) m' = u_range (paged_user root) u" by (simp add: paged_user_def)
  moreover have "u_to (paged_user root) u va bs n = (Err_None, m')" using m'(1) by (simp add: paged_user_def)
  ultimately show ?case using m'(2) user_apart_later [OF 4(1) st] unfolding user_stored_def by blast
qed

end
