(* ===== verification/Fd_Table.thy ===== *)
theory Fd_Table
  imports Vfs "HOL-Library.Multiset"
begin

text \<open>
  The file descriptor table of a task (\<^verbatim>\<open>kernel/fs/fd.h\<close>, \<^verbatim>\<open>kernel/fs/fd.cpp\<close>). Entries own their files, so
  every operation also gives the files it destroys, in order; the caller of the model runs the
  destructor \<^verbatim>\<open>vfs_close\<close> on them. The last section shows that every table a task can get is well
  formed and that no file is lost or destroyed twice.
\<close>

abbreviation MAX_FD :: nat where "MAX_FD \<equiv> 16"

datatype fork_policy = Reset | Share

record 'h fd_entry =
  fd_file :: "'h option"
  fd_offset :: u64
  fd_used :: bool

type_synonym 'h fd_table = "'h fd_entry list"

section \<open>Operations\<close>

definition vacant_fd :: "'h fd_entry" where
  "vacant_fd = \<lparr>fd_file = None, fd_offset = 0, fd_used = False\<rparr>"

text \<open>\<^verbatim>\<open>Entry::set\<close> and \<^verbatim>\<open>Entry::reset\<close> with the file the entry owned before.\<close>

definition entry_set :: "'h \<Rightarrow> u64 \<Rightarrow> bool \<Rightarrow> 'h fd_entry \<Rightarrow> 'h fd_entry \<times> 'h list" where
  "entry_set f off in_use e = (\<lparr>fd_file = Some f, fd_offset = off, fd_used = in_use\<rparr>, (case fd_file e of None \<Rightarrow> [] | Some h \<Rightarrow> [h]))"

definition entry_reset :: "'h fd_entry \<Rightarrow> 'h fd_entry \<times> 'h list" where
  "entry_reset e = (vacant_fd, (case fd_file e of None \<Rightarrow> [] | Some h \<Rightarrow> [h]))"

definition reset_all :: "'h fd_table \<Rightarrow> 'h fd_table \<times> 'h list" where
  "reset_all t = (map (fst \<circ> entry_reset) t, concat (map (snd \<circ> entry_reset) t))"

definition fd_init :: "'h fd_table \<Rightarrow> 'h fd_table \<times> 'h list" where
  "fd_init t = reset_all t"

fun first_unused :: "nat \<Rightarrow> 'h fd_table \<Rightarrow> nat option" where
  "first_unused i [] = None"
| "first_unused i (e # es) = (if \<not> fd_used e then Some i else first_unused (i + 1) es)"

text \<open>The owner is consumed: on failure its destructor runs at the end of the call.\<close>

definition fd_alloc :: "'h option \<Rightarrow> 'h fd_table \<Rightarrow> (error + nat) \<times> 'h fd_table \<times> 'h list" where
  "fd_alloc file t =
     (case file of
        None \<Rightarrow> (Inl Invalid, t, [])
      | Some h \<Rightarrow>
          (case first_unused 0 t of
             None \<Rightarrow> (Inl Full, t, [h])
           | Some i \<Rightarrow> (case entry_set h 0 True (t ! i) of (e, gone) \<Rightarrow> (Inr i, t[i := e], gone))))"

definition fd_get :: "'h fd_table \<Rightarrow> int \<Rightarrow> nat option" where
  "fd_get t fd =
     (if fd < 0 \<or> int MAX_FD \<le> fd then None
      else if \<not> fd_used (t ! nat fd) \<or> fd_file (t ! nat fd) = None then None
      else Some (nat fd))"

definition fd_close :: "int \<Rightarrow> 'h fd_table \<Rightarrow> error \<times> 'h fd_table \<times> 'h list" where
  "fd_close fd t =
     (case fd_get t fd of
        None \<Rightarrow> (Invalid, t, [])
      | Some i \<Rightarrow> (case entry_reset (t ! i) of (e, gone) \<Rightarrow> (Err_None, t[i := e], gone)))"

definition fd_close_all :: "'h fd_table \<Rightarrow> 'h fd_table \<times> 'h list" where
  "fd_close_all t = reset_all t"

definition fd_fork_from :: "'h fd_table \<Rightarrow> fork_policy \<Rightarrow> 'h fd_table \<Rightarrow> error \<times> 'h fd_table \<times> 'h list" where
  "fd_fork_from parent policy t =
     (case policy of
        Reset \<Rightarrow> (case fd_init t of (t', gone) \<Rightarrow> (Err_None, t', gone))
      | Share \<Rightarrow> (NotSupported, t, []))"

section \<open>Well-formed tables\<close>

definition entry_wf :: "'h fd_entry \<Rightarrow> bool" where
  "entry_wf e \<longleftrightarrow> (fd_used e \<longleftrightarrow> fd_file e \<noteq> None) \<and> (\<not> fd_used e \<longrightarrow> e = vacant_fd)"

definition fd_wf :: "'h fd_table \<Rightarrow> bool" where
  "fd_wf t \<longleftrightarrow> length t = MAX_FD \<and> (\<forall>e \<in> set t. entry_wf e)"

definition entry_files :: "'h fd_entry \<Rightarrow> 'h list" where
  "entry_files e = (case fd_file e of None \<Rightarrow> [] | Some h \<Rightarrow> [h])"

definition fd_files :: "'h fd_table \<Rightarrow> 'h list" where
  "fd_files t = concat (map entry_files t)"

lemma vacant_facts [simp]:
  "entry_wf vacant_fd" "entry_files vacant_fd = []" "fd_file vacant_fd = None" "\<not> fd_used vacant_fd"
  by (simp_all add: vacant_fd_def entry_wf_def entry_files_def)

lemma entry_ops [simp]:
  "entry_reset e = (vacant_fd, entry_files e)"
  "entry_set h off u e = (\<lparr>fd_file = Some h, fd_offset = off, fd_used = u\<rparr>, entry_files e)"
  by (simp_all add: entry_reset_def entry_set_def entry_files_def)

lemma fd_files_update:
  assumes "i < length t"
  shows "mset (fd_files (t[i := e])) + mset (entry_files (t ! i)) = mset (fd_files t) + mset (entry_files e)"
proof -
  have t: "t = take i t @ t ! i # drop (Suc i) t" and u: "t[i := e] = take i t @ e # drop (Suc i) t"
    using assms by (simp_all add: id_take_nth_drop upd_conv_take_nth_drop)
  have f: "mset (fd_files (a @ x # b)) = mset (fd_files (a @ b)) + mset (entry_files x)" for a b and x :: "'a fd_entry"
    by (simp add: fd_files_def)
  show ?thesis by (subst u, subst (2) t) (simp only: f ac_simps)
qed

lemma fd_wf_update: "fd_wf t \<Longrightarrow> entry_wf e \<Longrightarrow> fd_wf (t[i := e])"
  by (auto simp: fd_wf_def dest: subsetD [OF set_update_subset_insert])

lemma fd_wf_entry: "fd_wf t \<Longrightarrow> i < MAX_FD \<Longrightarrow> entry_wf (t ! i)"
  by (simp add: fd_wf_def)

lemma fd_reset_all: "reset_all t = (replicate (length t) vacant_fd, fd_files t)"
  by (auto simp: reset_all_def fd_files_def comp_def map_replicate_const)

lemma fd_wf_replicate: "length t = MAX_FD \<Longrightarrow> fd_wf (replicate (length t) vacant_fd)"
  by (simp add: fd_wf_def)

lemma fd_files_replicate [simp]: "fd_files (replicate n vacant_fd) = []"
  by (simp add: fd_files_def)

lemma first_unused_Some: "first_unused k t = Some i \<Longrightarrow> k \<le> i \<and> i - k < length t \<and> \<not> fd_used (t ! (i - k)) \<and> (\<forall>j<i - k. fd_used (t ! j))"
proof (induction k t rule: first_unused.induct)
  case (2 k e es)
  show ?case
  proof (cases "fd_used e")
    case True
    with 2 have *: "k + 1 \<le> i" "i - (k + 1) < length es" "\<not> fd_used (es ! (i - (k + 1)))" "\<forall>j<i - (k + 1). fd_used (es ! j)"
      by simp_all
    then have "i - k = Suc (i - (k + 1))" by simp
    then show ?thesis using * True by (auto simp: less_Suc_eq_0_disj)
  qed (use 2 in auto)
qed simp

lemma first_unused_None: "first_unused k t = None \<longleftrightarrow> (\<forall>e \<in> set t. fd_used e)"
  by (induction k t rule: first_unused.induct) auto

lemma fd_get_Some:
  assumes "fd_get t fd = Some i"
  shows "i < MAX_FD" "int i = fd" "fd_used (t ! i)" "fd_file (t ! i) \<noteq> None"
  using assms by (auto simp: fd_get_def split: if_splits)

subsection \<open>Every operation keeps tables well formed and accounts for the files\<close>

definition accounts :: "'h fd_table \<Rightarrow> 'h list \<Rightarrow> 'h fd_table \<times> 'h list \<Rightarrow> bool" where
  "accounts t given r \<longleftrightarrow> fd_wf (fst r) \<and> mset (fd_files t) + mset given = mset (fd_files (fst r)) + mset (snd r)"

lemma accounts_reset_all: "fd_wf t \<Longrightarrow> accounts t [] (reset_all t)"
  by (simp add: accounts_def fd_reset_all fd_wf_def)

lemma accounts_alloc:
  assumes "fd_wf t"
  shows "accounts t (case fl of None \<Rightarrow> [] | Some h \<Rightarrow> [h]) (snd (fd_alloc fl t))"
proof (cases fl)
  case None
  then show ?thesis using assms by (simp add: accounts_def fd_alloc_def)
next
  case (Some h)
  show ?thesis
  proof (cases "first_unused 0 t")
    case None
    then show ?thesis using assms Some by (simp add: accounts_def fd_alloc_def)
  next
    case (Some i)
    then have "i < length t" using first_unused_Some by force
    then show ?thesis using fd_files_update [of i t "\<lparr>fd_file = Some h, fd_offset = 0, fd_used = True\<rparr>"] assms \<open>fl = Some h\<close> Some
      by (simp add: accounts_def fd_alloc_def fd_wf_update entry_wf_def, simp add: entry_files_def)
  qed
qed

lemma accounts_close: "fd_wf t \<Longrightarrow> accounts t [] (snd (fd_close fd t))"
proof (cases "fd_get t fd")
  case (Some i)
  assume "fd_wf t"
  moreover have "i < length t" using calculation fd_get_Some(1) [OF Some] by (simp add: fd_wf_def)
  ultimately show ?thesis using fd_files_update [of i t vacant_fd] Some
    by (simp add: accounts_def fd_close_def fd_wf_update)
qed (simp add: accounts_def fd_close_def)

lemma accounts_fork: "fd_wf t \<Longrightarrow> accounts t [] (snd (fd_fork_from parent policy t))"
  using accounts_reset_all by (cases policy) (auto simp: fd_fork_from_def fd_init_def accounts_def split: prod.splits)

text \<open>What a task does with its table; a transfer moves the offset of an open entry.\<close>

datatype 'h fd_call =
    Fd_alloc "'h option"
  | Fd_close int
  | Fd_close_all
  | Fd_init
  | Fd_fork "'h fd_table" fork_policy
  | Fd_transfer int u64

definition fd_advance :: "nat \<Rightarrow> u64 \<Rightarrow> 'h fd_table \<Rightarrow> 'h fd_table" where
  "fd_advance i n t = t[i := (t ! i)\<lparr>fd_offset := fd_offset (t ! i) + n\<rparr>]"

fun fd_exec :: "'h fd_call \<Rightarrow> 'h fd_table \<Rightarrow> 'h fd_table \<times> 'h list" where
  "fd_exec (Fd_alloc file) t = snd (fd_alloc file t)"
| "fd_exec (Fd_close fd) t = snd (fd_close fd t)"
| "fd_exec Fd_close_all t = fd_close_all t"
| "fd_exec Fd_init t = fd_init t"
| "fd_exec (Fd_fork parent policy) t = snd (fd_fork_from parent policy t)"
| "fd_exec (Fd_transfer fd n) t = (case fd_get t fd of None \<Rightarrow> (t, []) | Some i \<Rightarrow> (fd_advance i n t, []))"

fun fd_given :: "'h fd_call \<Rightarrow> 'h list" where
  "fd_given (Fd_alloc (Some h)) = [h]"
| "fd_given _ = []"

fun fd_run :: "'h fd_call list \<Rightarrow> 'h fd_table \<Rightarrow> 'h fd_table \<times> 'h list" where
  "fd_run [] t = (t, [])"
| "fd_run (c # cs) t = (case fd_exec c t of (t1, gone) \<Rightarrow> case fd_run cs t1 of (t2, gone') \<Rightarrow> (t2, gone @ gone'))"

lemma fd_advance_facts:
  assumes "fd_wf t" and "fd_get t fd = Some i"
  shows "fd_wf (fd_advance i n t)" "fd_files (fd_advance i n t) = fd_files t"
proof -
  note i = fd_get_Some [OF assms(2)]
  have l: "i < length t" using assms(1) i(1) by (simp add: fd_wf_def)
  show "fd_wf (fd_advance i n t)" unfolding fd_advance_def
    using assms(1) i(3,4) by (intro fd_wf_update) (auto simp: entry_wf_def)
  have "map entry_files (fd_advance i n t) = map entry_files t"
    using l by (auto simp: fd_advance_def map_update entry_files_def list_update_same_conv)
  then show "fd_files (fd_advance i n t) = fd_files t" by (simp add: fd_files_def)
qed

lemma accounts_exec: "fd_wf t \<Longrightarrow> accounts t (fd_given c) (fd_exec c t)"
proof (cases c)
  case (Fd_alloc fl)
  assume "fd_wf t"
  then show ?thesis using accounts_alloc [of t fl] Fd_alloc by (cases fl) simp_all
next
  case (Fd_transfer fd n)
  assume "fd_wf t"
  then show ?thesis using fd_advance_facts [of t fd] Fd_transfer
    by (cases "fd_get t fd") (simp_all add: accounts_def)
qed (simp_all add: accounts_close accounts_reset_all accounts_fork fd_close_all_def fd_init_def)

lemma accounts_run: "fd_wf t \<Longrightarrow> accounts t (concat (map fd_given cs)) (fd_run cs t)"
proof (induction cs arbitrary: t)
  case (Cons c cs)
  obtain t1 g where 1: "fd_exec c t = (t1, g)" by fastforce
  obtain t2 g' where 2: "fd_run cs t1 = (t2, g')" by fastforce
  have "accounts t (fd_given c) (t1, g)" using accounts_exec [OF Cons.prems, of c] 1 by simp
  moreover have "accounts t1 (concat (map fd_given cs)) (t2, g')" using Cons.IH [of t1] calculation 2 by (simp add: accounts_def)
  ultimately show ?case using 1 2 by (simp add: accounts_def) (metis add.assoc add.commute)
qed (simp add: accounts_def)

lemma used_entries:
  assumes "fd_wf t"
  shows "length (fd_files t) = length (filter fd_used t)"
proof -
  have "\<forall>e \<in> set t. length (entry_files e) = (if fd_used e then 1 else 0)"
    using assms by (auto simp: fd_wf_def entry_wf_def entry_files_def)
  then show ?thesis unfolding fd_files_def by (induction t) auto
qed

lemma alloc_possible:
  assumes "fd_wf t"
  shows "(\<exists>i. fst (fd_alloc (Some h) t) = Inr i) \<longleftrightarrow> length (fd_files t) < MAX_FD"
proof -
  have "(\<exists>e \<in> set t. \<not> fd_used e) \<longleftrightarrow> length (filter fd_used t) < length t"
    by (metis length_filter_less filter_True less_irrefl)
  then have "first_unused 0 t \<noteq> None \<longleftrightarrow> length (fd_files t) < MAX_FD"
    using first_unused_None [of 0 t] used_entries [OF assms] assms by (simp add: fd_wf_def)
  then show ?thesis by (auto simp: fd_alloc_def split: option.splits)
qed

text \<open>C29.
  Whatever a task does with its descriptors, its table stays well formed: sixteen entries, used
  exactly when they own a file, unused ones cleared. Every file given to the table is owned by
  exactly one entry or has been destroyed exactly once, and a new file gets a descriptor exactly
  when fewer than sixteen are open.
\<close>

theorem fd_table_typed:
  "case fd_run cs (replicate MAX_FD vacant_fd) of (t, gone) \<Rightarrow>
     fd_wf t \<and> mset (concat (map fd_given cs)) = mset (fd_files t) + mset gone \<and>
     (\<forall>h. (\<exists>i. fst (fd_alloc (Some h) t) = Inr i) = (length (fd_files t) < MAX_FD))"
proof -
  obtain t gone where r: "fd_run cs (replicate MAX_FD vacant_fd) = (t, gone)" by fastforce
  have "accounts (replicate MAX_FD vacant_fd) (concat (map fd_given cs)) (t, gone)"
    using accounts_run [of "replicate MAX_FD vacant_fd" cs] r by (simp add: fd_wf_def)
  then have "fd_wf t" "mset (concat (map fd_given cs)) = mset (fd_files t) + mset gone" by (simp_all add: accounts_def)
  then show ?thesis unfolding r using alloc_possible [of t] by simp
qed

end
