(* ===== verification/Syscall_File.thy ===== *)
theory Syscall_File
  imports Fd_Table Vmm File_Systems
begin

text \<open>
  The file system calls (\<^verbatim>\<open>kernel/syscall/file.cpp\<close>, \<^verbatim>\<open>kernel/syscall/dispatch.cpp\<close>): copying a path from
  user memory, the transfer loop of \<^verbatim>\<open>read\<close> and \<^verbatim>\<open>write\<close>, \<^verbatim>\<open>open\<close>, \<^verbatim>\<open>close\<close> and the dispatch by number. The
  definitions take the user memory operations and the class of file systems as records; the theorems
  rest on the contracts of both, interpreted on page tables and on the kernel's file systems.
\<close>

section \<open>State\<close>

record ('c, 'f, 'h, 'w, 'u) sys_state =
  sys_vfs :: "('c, 'f, 'h, 'w) vfs_state"
  sys_user :: 'u
  sys_files :: "'h fd_table"

definition on_vfs :: "(('c, 'f, 'h, 'w) vfs_state, 'a) kop \<Rightarrow> (('c, 'f, 'h, 'w, 'u) sys_state, 'a) kop" where
  "on_vfs m s =
     (case m (sys_vfs s) of
        None \<Rightarrow> None | Some (Inl f) \<Rightarrow> Some (Inl f) | Some (Inr (r, v)) \<Rightarrow> Some (Inr (r, s\<lparr>sys_vfs := v\<rparr>)))"

text \<open>The destructors of the files an operation on the descriptor table gave up.\<close>

fun destroy_files :: "('c, 'f, 'h, 'v, 'w) fs_class \<Rightarrow> 'h list \<Rightarrow> (('c, 'f, 'h, 'w) vfs_state, unit) kop" where
  "destroy_files cls [] = k_ret (Inr ())"
| "destroy_files cls (h # hs) = k_bind (vfs_close cls (Some h)) (\<lambda>_. destroy_files cls hs)"

section \<open>Paths\<close>

definition SYSCALL_PATH_MAX :: nat where "SYSCALL_PATH_MAX = 128"

fun cstr_loop :: "'u user_ops \<Rightarrow> 'u \<Rightarrow> u64 \<Rightarrow> nat \<Rightarrow> nat \<Rightarrow> bytes \<Rightarrow> bytes option" where
  "cstr_loop ops u base i 0 acc = None"
| "cstr_loop ops u base i (Suc left) acc =
     (let addr = base + word_of_nat i
      in if USER_SPACE_TOP \<le> addr then None
         else case u_from ops u addr 1 of
                Inl _ \<Rightarrow> None
              | Inr bs \<Rightarrow> if hd bs = 0 then Some acc else cstr_loop ops u base (i + 1) left (acc @ [hd bs]))"

definition copy_user_cstr :: "'u user_ops \<Rightarrow> 'u \<Rightarrow> u64 \<Rightarrow> nat \<Rightarrow> bytes option" where
  "copy_user_cstr ops u base out_size =
     (if base = 0 \<or> out_size = 0 \<or> USER_SPACE_TOP \<le> base then None else cstr_loop ops u base 0 out_size [])"

section \<open>Transfers\<close>

definition io_transfer :: "('c, 'f, 'h, 'v, 'w) fs_class \<Rightarrow> bool \<Rightarrow> nat \<Rightarrow> bytes \<Rightarrow> u64 \<Rightarrow>
    (('c, 'f, 'h, 'w, 'u) sys_state, int \<times> bytes) kop" where
  "io_transfer cls to_user i buf chunk s =
     (let e = sys_files s ! i
      in if to_user then on_vfs (vfs_read cls (fd_file e) (Some buf) chunk (fd_offset e)) s
         else on_vfs (k_try (vfs_write cls (fd_file e) (Some buf) chunk (fd_offset e)) (\<lambda>n. k_ret (Inr (n, buf)))) s)"

definition io_chunk :: "u64 \<Rightarrow> u64 \<Rightarrow> u64" where
  "io_chunk cnt don = (if PG_SIZE < cnt - don then PG_SIZE else cnt - don)"

text \<open>What a write takes from user memory into the kernel buffer before the transfer.\<close>

definition fill_buffer :: "'u user_ops \<Rightarrow> 'u \<Rightarrow> bool \<Rightarrow> u64 \<Rightarrow> u64 \<Rightarrow> bytes \<Rightarrow> error + bytes" where
  "fill_buffer ops u to_user va chunk buf =
     (if to_user then Inr buf
      else case u_from ops u va chunk of Inl e \<Rightarrow> Inl e | Inr bs \<Rightarrow> Inr (bs @ drop (unat chunk) buf))"

definition drain_buffer :: "'u user_ops \<Rightarrow> 'u \<Rightarrow> bool \<Rightarrow> u64 \<Rightarrow> bytes \<Rightarrow> u64 \<Rightarrow> error \<times> 'u" where
  "drain_buffer ops u to_user va buf n = (if to_user then u_to ops u va (take (unat n) buf) n else (Err_None, u))"

text \<open>One round of the loop: the bytes moved and the buffer, or failure.\<close>

definition io_finish :: "'u user_ops \<Rightarrow> bool \<Rightarrow> u64 \<Rightarrow> u64 \<Rightarrow> nat \<Rightarrow> int \<times> bytes \<Rightarrow>
    (('c, 'f, 'h, 'w, 'u) sys_state, u64 \<times> bytes) kop" where
  "io_finish ops to_user va chunk i r s =
     (case r of (n, buf) \<Rightarrow>
        if n < 0 \<or> unat chunk < nat n then k_ret (Inl Io) s
        else case drain_buffer ops (sys_user s) to_user va buf (word_of_nat (nat n)) of
               (e, u) \<Rightarrow>
                 if e \<noteq> Err_None then k_ret (Inl e) (s\<lparr>sys_user := u\<rparr>)
                 else k_ret (Inr (word_of_nat (nat n), buf))
                        (s\<lparr>sys_user := u, sys_files := fd_advance i (word_of_nat (nat n)) (sys_files s)\<rparr>))"

definition io_round :: "('c, 'f, 'h, 'v, 'w) fs_class \<Rightarrow> 'u user_ops \<Rightarrow> bool \<Rightarrow> u64 \<Rightarrow> u64 \<Rightarrow> nat \<Rightarrow> bytes \<Rightarrow>
    (('c, 'f, 'h, 'w, 'u) sys_state, u64 \<times> bytes) kop" where
  "io_round cls ops to_user va chunk i buf s =
     (case fill_buffer ops (sys_user s) to_user va chunk buf of
        Inl e \<Rightarrow> k_ret (Inl e) s
      | Inr buf \<Rightarrow> k_try (io_transfer cls to_user i buf chunk) (io_finish ops to_user va chunk i) s)"

lemma io_chunk_bounds:
  assumes "don < cnt"
  shows "0 < unat (io_chunk cnt don)" "unat don + unat (io_chunk cnt don) \<le> unat cnt" "unat (io_chunk cnt don) \<le> 4096"
    "unat (don + io_chunk cnt don) = unat don + unat (io_chunk cnt don)"
proof -
  have d: "unat (cnt - don) = unat cnt - unat don" using assms by (simp add: unat_sub less_imp_le)
  have l: "unat don < unat cnt" using assms by (simp add: word_less_nat_alt)
  show b: "0 < unat (io_chunk cnt don)" "unat don + unat (io_chunk cnt don) \<le> unat cnt" "unat (io_chunk cnt don) \<le> 4096"
    using d l by (auto simp: io_chunk_def PG_SIZE_def word_less_nat_alt)
  then show "unat (don + io_chunk cnt don) = unat don + unat (io_chunk cnt don)"
    by (simp add: unat_add_le)
qed

lemma io_chunk_less: "don < cnt \<Longrightarrow> unat cnt - unat (don + io_chunk cnt don) < unat cnt - unat don"
  using io_chunk_bounds [of don cnt] by (simp add: word_less_nat_alt)

function io_loop :: "('c, 'f, 'h, 'v, 'w) fs_class \<Rightarrow> 'u user_ops \<Rightarrow> bool \<Rightarrow> u64 \<Rightarrow> u64 \<Rightarrow> nat \<Rightarrow> u64 \<Rightarrow> bytes \<Rightarrow>
    ('c, 'f, 'h, 'w, 'u) sys_state \<Rightarrow> ((u64 \<times> bool) \<times> ('c, 'f, 'h, 'w, 'u) sys_state) exec" where
  "io_loop cls ops to_user user_buf cnt i don buf s =
     (if \<not> don < cnt then Some (Inr ((don, False), s))
      else
        let chunk = io_chunk cnt don
        in case io_round cls ops to_user (user_buf + don) chunk i buf s of
             None \<Rightarrow> None
           | Some (Inl f) \<Rightarrow> Some (Inl f)
           | Some (Inr (Inl _, s)) \<Rightarrow> Some (Inr ((don, True), s))
           | Some (Inr (Inr (n, buf), s)) \<Rightarrow>
               if n < chunk then Some (Inr ((don + n, False), s))
               else io_loop cls ops to_user user_buf cnt i (don + chunk) buf s)"
  by pat_completeness auto
termination
  by (relation "measure (\<lambda>(cls, ops, to_user, user_buf, cnt, i, don, buf, s). unat cnt - unat don)")
    (auto intro: io_chunk_less)

declare io_loop.simps [simp del]

text \<open>\<open>storage\<close> is what \<^verbatim>\<open>KernelBuffer::alloc\<close> gives: nothing, or a page with arbitrary contents.\<close>

definition sys_file_io :: "('c, 'f, 'h, 'v, 'w) fs_class \<Rightarrow> 'u user_ops \<Rightarrow> bytes option \<Rightarrow> int \<Rightarrow> u64 \<Rightarrow> u64 \<Rightarrow> bool \<Rightarrow>
    ('c, 'f, 'h, 'w, 'u) sys_state \<Rightarrow> (int \<times> ('c, 'f, 'h, 'w, 'u) sys_state) exec" where
  "sys_file_io cls ops storage fd user_buf cnt to_user s =
     (if cnt = 0 then Some (Inr (0, s))
      else if \<not> u_range ops (sys_user s) user_buf cnt to_user then Some (Inr (-1, s))
      else case (fd_get (sys_files s) fd, storage) of
             (Some i, Some buf) \<Rightarrow>
               (case io_loop cls ops to_user user_buf cnt i 0 buf s of
                  None \<Rightarrow> None
                | Some (Inl f) \<Rightarrow> Some (Inl f)
                | Some (Inr ((don, failed), s)) \<Rightarrow> Some (Inr (if failed \<and> don = 0 then -1 else sint don, s)))
           | _ \<Rightarrow> Some (Inr (-1, s)))"

section \<open>The calls\<close>

text \<open>\<open>cur\<close> tells whether there is a current task. The flags and the mode of \<^verbatim>\<open>open\<close> are not looked at.\<close>

definition sys_open :: "('c, 'f, 'h, 'v, 'w) fs_class \<Rightarrow> 'u user_ops \<Rightarrow> bool \<Rightarrow> u64 \<Rightarrow>
    ('c, 'f, 'h, 'w, 'u) sys_state \<Rightarrow> (int \<times> ('c, 'f, 'h, 'w, 'u) sys_state) exec" where
  "sys_open cls ops cur user_path s =
     (if \<not> cur then Some (Inr (-1, s))
      else case copy_user_cstr ops (sys_user s) user_path SYSCALL_PATH_MAX of
             None \<Rightarrow> Some (Inr (-1, s))
           | Some path \<Rightarrow>
               (case on_vfs (vfs_open cls (Some path)) s of
                  None \<Rightarrow> None
                | Some (Inl f) \<Rightarrow> Some (Inl f)
                | Some (Inr (Inl _, s)) \<Rightarrow> Some (Inr (-1, s))
                | Some (Inr (Inr h, s)) \<Rightarrow>
                    (case fd_alloc (Some h) (sys_files s) of
                       (r, t, gone) \<Rightarrow>
                         (case on_vfs (destroy_files cls gone) (s\<lparr>sys_files := t\<rparr>) of
                            None \<Rightarrow> None
                          | Some (Inl f) \<Rightarrow> Some (Inl f)
                          | Some (Inr (_, s)) \<Rightarrow> Some (Inr (case r of Inl _ \<Rightarrow> -1 | Inr i \<Rightarrow> int i, s))))))"

definition sys_read :: "('c, 'f, 'h, 'v, 'w) fs_class \<Rightarrow> 'u user_ops \<Rightarrow> bool \<Rightarrow> bytes option \<Rightarrow> int \<Rightarrow> u64 \<Rightarrow> u64 \<Rightarrow>
    ('c, 'f, 'h, 'w, 'u) sys_state \<Rightarrow> (int \<times> ('c, 'f, 'h, 'w, 'u) sys_state) exec" where
  "sys_read cls ops cur storage fd user_buf cnt s =
     (if \<not> cur then Some (Inr (-1, s)) else sys_file_io cls ops storage fd user_buf cnt True s)"

text \<open>\<^verbatim>\<open>write\<close> has no check of its own: without a task the transfer answers zero for zero bytes.\<close>

definition sys_write :: "('c, 'f, 'h, 'v, 'w) fs_class \<Rightarrow> 'u user_ops \<Rightarrow> bool \<Rightarrow> bytes option \<Rightarrow> int \<Rightarrow> u64 \<Rightarrow> u64 \<Rightarrow>
    ('c, 'f, 'h, 'w, 'u) sys_state \<Rightarrow> (int \<times> ('c, 'f, 'h, 'w, 'u) sys_state) exec" where
  "sys_write cls ops cur storage fd user_buf cnt s =
     (if \<not> cur then Some (Inr (if cnt = 0 then 0 else -1, s)) else sys_file_io cls ops storage fd user_buf cnt False s)"

definition sys_close :: "('c, 'f, 'h, 'v, 'w) fs_class \<Rightarrow> bool \<Rightarrow> int \<Rightarrow>
    ('c, 'f, 'h, 'w, 'u) sys_state \<Rightarrow> (int \<times> ('c, 'f, 'h, 'w, 'u) sys_state) exec" where
  "sys_close cls cur fd s =
     (if \<not> cur then Some (Inr (-1, s))
      else case fd_close fd (sys_files s) of
             (e, t, gone) \<Rightarrow>
               (case on_vfs (destroy_files cls gone) (s\<lparr>sys_files := t\<rparr>) of
                  None \<Rightarrow> None
                | Some (Inl f) \<Rightarrow> Some (Inl f)
                | Some (Inr (_, s)) \<Rightarrow> Some (Inr (if e = Err_None then 0 else -1, s))))"

text \<open>
  The result of \<^verbatim>\<open>dispatch\<close>: a value for the caller, the end of the task with a code, or a number it
  does not know. Descriptors and codes are the low 32 bits of the argument registers.
\<close>

datatype sys_result = Returns int | Exits int | Unhandled

definition reg_int :: "u64 \<Rightarrow> int" where
  "reg_int x = sint (to_u32 x)"

definition returns :: "(int \<times> 's) exec \<Rightarrow> (sys_result \<times> 's) exec" where
  "returns r =
     (case r of None \<Rightarrow> None | Some (Inl f) \<Rightarrow> Some (Inl f) | Some (Inr (n, s)) \<Rightarrow> Some (Inr (Returns n, s)))"

definition sys_dispatch :: "('c, 'f, 'h, 'v, 'w) fs_class \<Rightarrow> 'u user_ops \<Rightarrow> bool \<Rightarrow> bytes option \<Rightarrow> int \<Rightarrow> u64 \<Rightarrow> u64 \<Rightarrow> u64 \<Rightarrow>
    ('c, 'f, 'h, 'w, 'u) sys_state \<Rightarrow> (sys_result \<times> ('c, 'f, 'h, 'w, 'u) sys_state) exec" where
  "sys_dispatch cls ops cur storage nr arg0 arg1 arg2 s =
     (if nr = 1 then Some (Inr (if cur then Exits (reg_int arg0) else Returns (-1), s))
      else if nr = 5 then returns (sys_open cls ops cur arg0 s)
      else if nr = 3 then returns (sys_read cls ops cur storage (reg_int arg0) arg1 arg2 s)
      else if nr = 6 then returns (sys_close cls cur (reg_int arg0) s)
      else if nr = 4 then returns (sys_write cls ops cur storage (reg_int arg0) arg1 arg2 s)
      else Some (Inr (Unhandled, s)))"

section \<open>Transfers touch only what they move\<close>

text \<open>
  Between two states of a transfer through entry \<open>i\<close>: \<open>n\<close> bytes have been moved from \<open>user_buf + don\<close>.
\<close>

definition moved :: "('u \<Rightarrow> bool) \<Rightarrow> ('u \<Rightarrow> u64 \<Rightarrow> u8) \<Rightarrow> 'u user_ops \<Rightarrow> bool \<Rightarrow> u64 \<Rightarrow> nat \<Rightarrow> nat \<Rightarrow>
    ('c, 'f, 'h, 'w, 'u) sys_state \<Rightarrow> ('c, 'f, 'h, 'w, 'u) sys_state \<Rightarrow> bool" where
  "moved good ubyte ops to_user va n i s s' \<longleftrightarrow>
     good (sys_user s') \<and> u_range ops (sys_user s') = u_range ops (sys_user s) \<and>
     (\<forall>a. \<not> to_user \<or> (\<forall>j<n. a \<noteq> va + word_of_nat j) \<longrightarrow> ubyte (sys_user s') a = ubyte (sys_user s) a) \<and>
     sys_files s' = fd_advance i (word_of_nat n) (sys_files s)"

lemma on_vfs_frame:
  "on_vfs m s = Some (Inr (r, s')) \<Longrightarrow> sys_user s' = sys_user s \<and> sys_files s' = sys_files s"
  by (auto simp: on_vfs_def split: option.splits sum.splits)

lemma io_transfer_frame:
  "io_transfer cls to_user i buf chunk s = Some (Inr (r, s')) \<Longrightarrow> sys_user s' = sys_user s \<and> sys_files s' = sys_files s"
  by (auto simp: io_transfer_def Let_def split: if_splits dest: on_vfs_frame)

lemma fd_advance_add [simp]:
  "fd_advance i n (fd_advance i m t) = fd_advance i (m + n) t" "fd_advance i 0 t = t"
proof -
  show "fd_advance i n (fd_advance i m t) = fd_advance i (m + n) t"
    by (cases "i < length t") (simp_all add: fd_advance_def add.assoc list_update_beyond)
  show "fd_advance i 0 t = t" by (simp add: fd_advance_def)
qed

lemma advance_refl: "\<exists>n. t = fd_advance i n t"
  by (rule exI [of _ 0]) simp

lemma k_tryE:
  assumes "k_try m k s = Some (Inr (r, s'))"
  obtains (err) e where "m s = Some (Inr (Inl e, s'))" "r = Inl e"
  | (ok) a s1 where "m s = Some (Inr (Inr a, s1))" "k a s1 = Some (Inr (r, s'))"
proof (cases "m s")
  case None
  then show thesis using assms by (simp add: k_try_def k_bind_def)
next
  case (Some x)
  show thesis
  proof (cases x)
    case (Inl f)
    then show thesis using assms Some by (simp add: k_try_def k_bind_def)
  next
    case (Inr p)
    obtain q s1 where p: "p = (q, s1)" by fastforce
    show thesis
    proof (cases q)
      case (Inl e)
      then show thesis using assms Some \<open>x = Inr p\<close> p err by (simp add: k_try_def k_bind_def)
    next
      case (Inr a)
      then show thesis using assms Some \<open>x = Inr p\<close> p ok by (simp add: k_try_def k_bind_def)
    qed
  qed
qed

lemma io_finish_cases:
  assumes "io_finish ops to_user va chunk i (n, buf) s = Some (Inr (r, s'))"
  obtains (bad) "r = Inl Io" "s' = s"
  | (drain) e u where "e \<noteq> Err_None" "nat n \<le> unat chunk"
      "drain_buffer ops (sys_user s) to_user va buf (word_of_nat (nat n)) = (e, u)"
  | (full) u where "r = Inr (word_of_nat (nat n), buf)" "nat n \<le> unat chunk"
      "drain_buffer ops (sys_user s) to_user va buf (word_of_nat (nat n)) = (Err_None, u)"
      "s' = s\<lparr>sys_user := u, sys_files := fd_advance i (word_of_nat (nat n)) (sys_files s)\<rparr>"
proof (cases "n < 0 \<or> unat chunk < nat n")
  case True
  then show thesis using assms bad by (simp add: io_finish_def)
next
  case False
  then have n: "nat n \<le> unat chunk" by linarith
  have eq: "io_finish ops to_user va chunk i (n, buf) s = (case drain_buffer ops (sys_user s) to_user va buf (word_of_nat (nat n)) of
      (e, u) \<Rightarrow> if e \<noteq> Err_None then k_ret (Inl e) (s\<lparr>sys_user := u\<rparr>)
        else k_ret (Inr (word_of_nat (nat n), buf)) (s\<lparr>sys_user := u, sys_files := fd_advance i (word_of_nat (nat n)) (sys_files s)\<rparr>))"
    unfolding io_finish_def prod.case if_not_P [OF False] ..
  obtain e u where d: "drain_buffer ops (sys_user s) to_user va buf (word_of_nat (nat n)) = (e, u)" by fastforce
  show thesis
  proof (cases "e = Err_None")
    case True
    then show thesis using full [of u] assms d n unfolding eq by simp
  next
    case False
    then show thesis using drain [of e u] d n by simp
  qed
qed

lemma sint_small: "unat (x :: u64) < 2 ^ 63 \<Longrightarrow> sint x = int (unat x)"
proof -
  assume "unat x < 2 ^ 63"
  then have "int (unat x) < int (2 ^ 63)" by (simp only: of_nat_less_iff)
  then have "uint x < 2 ^ 63" by simp
  moreover have "- (2 ^ 63) \<le> uint x" by (rule order_trans [of _ 0]) simp_all
  ultimately have "signed_take_bit 63 (uint x) = uint x" by (intro signed_take_bit_int_eq_self) simp_all
  then show ?thesis by (simp add: sint_uint)
qed

context user_memory
begin

lemma drain_ok:
  assumes "good u" and "u_range ops u va chunk to_user" and "0 < unat chunk" and "n \<le> unat chunk"
  obtains u' where "drain_buffer ops u to_user va buf (word_of_nat n) = (Err_None, u')" "good u'" "u_range ops u' = u_range ops u"
    "\<And>a. \<not> to_user \<or> (\<forall>j<n. a \<noteq> va + word_of_nat j) \<Longrightarrow> ubyte u' a = ubyte u a"
proof (cases to_user)
  case True
  have r: "u_range ops u va (word_of_nat n) True" using range_part [of u va chunk True 0 n] assms True by simp
  have n: "unat (word_of_nat n :: u64) = n" using assms(4) by (rule unat_of_nat_le)
  let ?bs = "take (unat (word_of_nat n :: u64)) buf"
  have l: "length ?bs \<le> unat (word_of_nat n :: u64)" by simp
  obtain u' where u': "u_to ops u va ?bs (word_of_nat n) = (Err_None, u')" "good u'" "u_range ops u' = u_range ops u"
    "\<forall>a. (\<forall>j<length ?bs. a \<noteq> va + word_of_nat j) \<longrightarrow> ubyte u' a = ubyte u a"
    using to_bytes [OF assms(1) r l] by blast
  have "length ?bs \<le> n" using n by simp
  then have "\<forall>j<n. a \<noteq> va + word_of_nat j \<Longrightarrow> ubyte u' a = ubyte u a" for a using u'(4) by (meson less_le_trans)
  then show thesis using that [of u'] u'(1-3) True by (simp add: drain_buffer_def)
next
  case False
  then show thesis using that [of u] assms(1) by (simp add: drain_buffer_def)
qed

lemma io_round_moved:
  assumes g: "good (sys_user s)" and rg: "u_range ops (sys_user s) va chunk to_user" and pos: "0 < unat chunk"
    and r: "io_round cls ops to_user va chunk i buf s = Some (Inr (r, s'))"
  shows "case r of Inl e \<Rightarrow> moved good ubyte ops to_user va 0 i s s'
    | Inr (n, b) \<Rightarrow> unat n \<le> unat chunk \<and> moved good ubyte ops to_user va (unat n) i s s'"
proof (cases "fill_buffer ops (sys_user s) to_user va chunk buf")
  case (Inl e)
  then show ?thesis using r g by (auto simp: io_round_def moved_def)
next
  case (Inr b)
  then have "k_try (io_transfer cls to_user i b chunk) (io_finish ops to_user va chunk i) s = Some (Inr (r, s'))"
    using r by (simp add: io_round_def)
  then show ?thesis
  proof (cases rule: k_tryE)
    case (err e)
    then show ?thesis using g io_transfer_frame [OF err(1)] by (simp add: moved_def)
  next
    case (ok a s1)
    obtain n b' where a: "a = (n, b')" by fastforce
    note fr = io_transfer_frame [OF ok(1)]
    from ok(2) show ?thesis unfolding a
    proof (cases rule: io_finish_cases)
      case bad
      then show ?thesis using fr g by (simp add: moved_def)
    next
      case (drain e u)
      obtain u' where "drain_buffer ops (sys_user s) to_user va b' (word_of_nat (nat n)) = (Err_None, u')"
        using drain_ok [OF g rg pos drain(2), of b'] by metis
      then show ?thesis using drain(1,3) fr by simp
    next
      case (full u)
      obtain u' where u': "drain_buffer ops (sys_user s) to_user va b' (word_of_nat (nat n)) = (Err_None, u')" "good u'"
        "u_range ops u' = u_range ops (sys_user s)"
        "\<And>a. \<not> to_user \<or> (\<forall>j<nat n. a \<noteq> va + word_of_nat j) \<Longrightarrow> ubyte u' a = ubyte (sys_user s) a"
        using drain_ok [OF g rg pos full(2), of b'] by metis
      have "u = u'" using u'(1) full(3) fr by simp
      moreover have n: "unat (word_of_nat (nat n) :: u64) = nat n" using full(2) by (rule unat_of_nat_le)
      ultimately show ?thesis unfolding full(1,4) using full(2) u' fr by (simp add: moved_def n)
    qed
  qed
qed

lemma moved_trans:
  assumes "moved good ubyte ops to_user va n i s s1" and "moved good ubyte ops to_user (va + word_of_nat n) m i s1 s2"
  shows "moved good ubyte ops to_user va (n + m) i s s2"
  unfolding moved_def
proof (intro conjI allI impI)
  fix a assume a: "\<not> to_user \<or> (\<forall>j<n + m. a \<noteq> va + word_of_nat j)"
  have "\<not> to_user \<or> (\<forall>j<m. a \<noteq> va + word_of_nat n + word_of_nat j)"
  proof (cases to_user)
    case True
    have "a \<noteq> va + word_of_nat n + word_of_nat j" if "j < m" for j
    proof -
      have "n + j < n + m" using that by simp
      then have "a \<noteq> va + word_of_nat (n + j)" using a True by blast
      then show ?thesis by (simp add: algebra_simps)
    qed
    then show ?thesis by blast
  qed simp
  moreover have "\<not> to_user \<or> (\<forall>j<n. a \<noteq> va + word_of_nat j)" using a by auto
  ultimately show "ubyte (sys_user s2) a = ubyte (sys_user s) a" using assms unfolding moved_def by metis
qed (use assms in \<open>simp_all add: moved_def\<close>)

lemma io_loop_moved:
  "good (sys_user s) \<Longrightarrow> u_range ops (sys_user s) user_buf cnt to_user \<Longrightarrow> don \<le> cnt \<Longrightarrow>
    io_loop cls ops to_user user_buf cnt i don buf s = Some (Inr ((don', failed), s')) \<Longrightarrow>
    don \<le> don' \<and> don' \<le> cnt \<and> moved good ubyte ops to_user (user_buf + don) (unat don' - unat don) i s s'"
proof (induction "unat cnt - unat don" arbitrary: don buf s rule: less_induct)
  case less
  show ?case
  proof (cases "don < cnt")
    case False
    then show ?thesis using less.prems by (auto simp: io_loop.simps moved_def)
  next
    case True
    let ?c = "io_chunk cnt don"
    note c = io_chunk_bounds [OF True]
    have "u_range ops (sys_user s) (user_buf + word_of_nat (unat don)) (word_of_nat (unat ?c)) to_user"
      using less.prems(2) True c(2) by (intro range_part) (simp_all add: word_less_nat_alt)
    then have rg: "u_range ops (sys_user s) (user_buf + don) ?c to_user" by simp
    obtain q s1 where q: "io_round cls ops to_user (user_buf + don) ?c i buf s = Some (Inr (q, s1))"
      using less.prems(4) True
      by (cases "io_round cls ops to_user (user_buf + don) ?c i buf s" rule: option.exhaust)
        (auto simp: io_loop.simps [of _ _ _ _ _ _ don] Let_def split: sum.splits)
    note mv = io_round_moved [OF less.prems(1) rg c(1) q]
    show ?thesis
    proof (cases q)
      case (Inl e)
      then have "don' = don" "s' = s1" using less.prems(4) True q by (auto simp: io_loop.simps [of _ _ _ _ _ _ don] Let_def)
      then show ?thesis using mv Inl less.prems(3) by simp
    next
      case (Inr p)
      obtain n b where p: "p = (n, b)" by fastforce
      have n: "unat n \<le> unat ?c" and m1: "moved good ubyte ops to_user (user_buf + don) (unat n) i s s1" using mv Inr p by simp_all
      show ?thesis
      proof (cases "n < ?c")
        case True
        then have e: "don' = don + n" "s' = s1" using less.prems(4) \<open>don < cnt\<close> q Inr p by (auto simp: io_loop.simps [of _ _ _ _ _ _ don] Let_def)
        have "unat don + unat n \<le> unat cnt" using n c(2) by linarith
        then have "unat (don + n) = unat don + unat n" by (rule unat_add_le)
        then show ?thesis using m1 e \<open>unat don + unat n \<le> unat cnt\<close> by (simp add: word_le_nat_alt)
      next
        case False
        then have nc: "unat n = unat ?c" using n by (simp add: word_less_nat_alt)
        have rest: "io_loop cls ops to_user user_buf cnt i (don + ?c) b s1 = Some (Inr ((don', failed), s'))"
          using less.prems(4) \<open>don < cnt\<close> q Inr p False by (simp add: io_loop.simps [of _ _ _ _ _ _ don] Let_def)
        have le: "don + ?c \<le> cnt" using c(2,4) by (simp add: word_le_nat_alt)
        have ih: "don + ?c \<le> don'" "don' \<le> cnt"
          "moved good ubyte ops to_user (user_buf + (don + ?c)) (unat don' - unat (don + ?c)) i s1 s'"
          using less.hyps [OF io_chunk_less [OF \<open>don < cnt\<close>] _ _ le rest] m1 less.prems(2) by (simp_all add: moved_def)
        have at: "user_buf + (don + ?c) = user_buf + don + word_of_nat (unat n)" using nc by (simp add: algebra_simps)
        have "unat don' - unat don = unat n + (unat don' - unat (don + ?c))"
          using ih(1) c(4) nc by (simp add: word_le_nat_alt)
        then have "moved good ubyte ops to_user (user_buf + don) (unat don' - unat don) i s s'"
          using moved_trans [OF m1 ih(3) [unfolded at]] by simp
        moreover have "don \<le> don'" using ih(1) c(4) by (simp add: word_le_nat_alt)
        ultimately show ?thesis using ih(2) by simp
      qed
    qed
  qed
qed

lemma file_io_moved:
  assumes "good (sys_user s)" and "sys_file_io cls ops storage fd user_buf cnt to_user s = Some (Inr (r, s'))"
  shows "-1 \<le> r" "r \<le> int (unat cnt)" "moved good ubyte ops to_user user_buf (nat r) (nat fd) s s'"
proof -
  have "-1 \<le> r \<and> r \<le> int (unat cnt) \<and> moved good ubyte ops to_user user_buf (nat r) (nat fd) s s'"
  proof (cases "cnt = 0 \<or> \<not> u_range ops (sys_user s) user_buf cnt to_user \<or> fd_get (sys_files s) fd = None \<or> storage = None")
    case True
    then have "(r = 0 \<or> r = -1) \<and> s' = s" using assms(2) by (auto simp: sys_file_io_def split: if_splits option.splits)
    moreover have "- 1 \<le> uint cnt" by (rule order_trans [of _ 0]) simp_all
    ultimately show ?thesis using assms(1) by (auto simp: moved_def)
  next
    case False
    then obtain i buf where i: "fd_get (sys_files s) fd = Some i" "storage = Some buf" and rg: "u_range ops (sys_user s) user_buf cnt to_user" by auto
    have fd: "nat fd = i" using fd_get_Some(2) [OF i(1)] by simp
    obtain don failed where l: "io_loop cls ops to_user user_buf cnt i 0 buf s = Some (Inr ((don, failed), s'))"
      and r: "r = (if failed \<and> don = 0 then -1 else sint don)"
      using assms(2) False i by (auto simp: sys_file_io_def split: option.splits sum.splits)
    have m: "don \<le> cnt" "moved good ubyte ops to_user user_buf (unat don) i s s'"
      using io_loop_moved [OF assms(1) rg _ l] by simp_all
    have b: "unat don \<le> unat cnt" "unat cnt < 2 ^ 63" using m(1) range_size [OF rg] by (simp_all add: word_le_nat_alt)
    then have sd: "sint don = int (unat don)" by (intro sint_small) (rule le_less_trans)
    show ?thesis
    proof (cases "failed \<and> don = 0")
      case True
      then show ?thesis using r m(2) fd by (simp add: order_trans [of _ 0])
    next
      case False
      then have "r = int (unat don)" using r sd by simp
      then show ?thesis using m(2) b(1) fd by (simp del: of_nat_unat add: order_trans [of _ 0])
    qed
  qed
  then show "-1 \<le> r" "r \<le> int (unat cnt)" "moved good ubyte ops to_user user_buf (nat r) (nat fd) s s'" by blast+
qed

end

lemma on_world_no_fault [simp]: "on_world m v \<noteq> Some (Inl f)"
  by (simp add: on_world_def split: option.splits)

lemma io_round_no_fault: "io_round cls ops to_user va chunk i buf s \<noteq> Some (Inl f)"
proof -
  have v: "vfs_read cls h b n off v \<noteq> Some (Inl f)" "vfs_write cls h b n off v \<noteq> Some (Inl f)" for h b n off v
    by (simp_all add: vfs_read_def vfs_write_def split: option.splits)
  have "on_vfs (vfs_read cls h b n off) s \<noteq> Some (Inl f)" for h b n off using v(1) [of h b n off "sys_vfs s"] by (auto simp: on_vfs_def split: option.splits sum.splits)
  moreover have "on_vfs (k_try (vfs_write cls h b n off) (\<lambda>n. k_ret (Inr (n, x)))) s \<noteq> Some (Inl f)" for h b n off and x :: bytes
    using v(2) [of h b n off "sys_vfs s"] by (auto simp: on_vfs_def k_try_def k_bind_def split: option.splits sum.splits)
  ultimately have t: "io_transfer cls to_user i b chunk s \<noteq> Some (Inl f)" for b by (simp add: io_transfer_def Let_def)
  have e: "io_finish ops to_user va chunk i p s1 \<noteq> Some (Inl f)" for p s1
    by (simp add: io_finish_def split: prod.splits)
  show ?thesis
  proof (cases "fill_buffer ops (sys_user s) to_user va chunk buf")
    case (Inr b)
    then show ?thesis using t [of b] e by (auto simp: io_round_def k_try_def k_bind_def split: option.splits sum.splits)
  qed (simp add: io_round_def)
qed

lemma io_loop_no_fault: "io_loop cls ops to_user user_buf cnt i don buf s \<noteq> Some (Inl f)"
proof (induction "unat cnt - unat don" arbitrary: don buf s rule: less_induct)
  case less
  show ?case
    using less.hyps [OF io_chunk_less] io_round_no_fault [of cls ops to_user "user_buf + don" "io_chunk cnt don" i buf s f]
    by (subst io_loop.simps) (auto simp: Let_def split: option.splits sum.splits)
qed

text \<open>C16.
  A read or write of a task that shares no user page with the page tables never crashes the kernel,
  returns -1 or the number of bytes moved, at most as many as asked for, moves the offset of the
  descriptor by that number and changes no other descriptor. A read changes no user byte beyond the
  bytes it reports, a write changes none.
\<close>

theorem file_io_safe:
  assumes "user_apart (sys_user s) root"
  shows "case sys_file_io cls (paged_user root) storage fd user_buf cnt to_user s of
      None \<Rightarrow> True
    | Some (Inl f) \<Rightarrow> False
    | Some (Inr (r, s')) \<Rightarrow>
        -1 \<le> r \<and> r \<le> int (unat cnt) \<and> user_apart (sys_user s') root \<and>
        sys_files s' = fd_advance (nat fd) (word_of_nat (nat r)) (sys_files s) \<and>
        (\<forall>a. \<not> to_user \<or> (\<forall>j<nat r. a \<noteq> user_buf + word_of_nat j) \<longrightarrow>
           user_byte (sys_user s') (Some root) a = user_byte (sys_user s) (Some root) a)"
proof (cases "sys_file_io cls (paged_user root) storage fd user_buf cnt to_user s")
  case (Some x)
  show ?thesis
  proof (cases x)
    case (Inl f)
    then show ?thesis using Some by (simp add: sys_file_io_def io_loop_no_fault split: if_splits option.splits sum.splits prod.splits)
  next
    case (Inr p)
    obtain r s' where p: "p = (r, s')" by fastforce
    from paged.file_io_moved [OF assms Some [unfolded Inr p]] show ?thesis
      unfolding Some Inr p moved_def by simp
  qed
qed simp

section \<open>Descriptors own the open files\<close>

lemma k_bindE:
  assumes "k_bind m k s = Some (Inr (r, s'))"
  obtains q s1 where "m s = Some (Inr (q, s1))" "k q s1 = Some (Inr (r, s'))"
  using assms unfolding k_bind_def
  by (cases "m s" rule: option.exhaust) (auto split: sum.splits)

lemma release_mount_frame: "release_mount i v = Some (Inr (r, v')) \<Longrightarrow> mount_of v' = mount_of v"
  by (auto simp: release_mount_def split: sum.splits)

lemma resolve_path_frame: "k_of (resolve_path path) v = Some (Inr (r, v')) \<Longrightarrow> mount_of v' = mount_of v"
  by (auto simp: resolve_path_def acquire_mount_def on_mounts_def op_try_def op_ok_def op_fail_def
      split: option.splits sum.splits prod.splits)

lemma call_fs_frame: "call_fs i m v = Some (Inr (r, v')) \<Longrightarrow> mount_of v' = mount_of v"
  by (auto simp: call_fs_def on_world_def split: option.splits)

lemma vfs_close_frame: "vfs_close cls (Some h) v = Some (Inr (r, v')) \<Longrightarrow> mount_of v' = (mount_of v)(h := None)"
  by (auto simp: vfs_close_def Let_def fun_eq_iff split: option.splits dest: release_mount_frame)

lemma take_reference_frame:
  "take_reference i h v = Some (Inr (r, v')) \<Longrightarrow> r = Inr h \<and> mount_of v h = None \<and> mount_of v' = (mount_of v)(h \<mapsto> i)"
  by (auto simp: take_reference_def k_assert_def split: if_splits)

definition open_effect :: "('h \<Rightarrow> nat option) \<Rightarrow> error + 'h \<Rightarrow> ('h \<Rightarrow> nat option) \<Rightarrow> bool" where
  "open_effect mo r mo' = (case r of Inl _ \<Rightarrow> mo' = mo | Inr h \<Rightarrow> mo h = None \<and> (\<exists>i. mo' = mo(h \<mapsto> i)))"

lemma give_up_frame:
  assumes "k_bind (release_mount i) (\<lambda>_. k_ret (Inl e)) v = Some (Inr (r, v'))"
  shows "open_effect (mount_of v) r (mount_of v')"
  using assms by (cases rule: k_bindE) (auto simp: open_effect_def dest: release_mount_frame)

lemma vfs_open_frame:
  assumes "vfs_open cls path v = Some (Inr (r, v'))"
  shows "open_effect (mount_of v) r (mount_of v')"
  using assms unfolding vfs_open_def Let_def
proof (cases rule: k_tryE)
  case (err e)
  then show ?thesis using resolve_path_frame [OF err(1)] by (simp add: open_effect_def)
next
  case (ok a v1)
  obtain i p where a: "a = (i, p)" by fastforce
  note fr = resolve_path_frame [OF ok(1)]
  show ?thesis
  proof (cases "p = []")
    case True
    then show ?thesis using ok(2) a give_up_frame fr by fastforce
  next
    case False
    then have "k_bind (call_fs i (\<lambda>f. fc_open cls f p)) (\<lambda>r. case r of
          Inl e \<Rightarrow> k_bind (release_mount i) (\<lambda>_. k_ret (Inl e))
        | Inr None \<Rightarrow> k_bind (release_mount i) (\<lambda>_. k_ret (Inl Io))
        | Inr (Some h) \<Rightarrow> take_reference i h) v1 = Some (Inr (r, v'))"
      using ok(2) a by simp
    then show ?thesis
    proof (cases rule: k_bindE)
      case (1 q v2)
      note fr' = fr call_fs_frame [OF 1(1)]
      consider e where "q = Inl e" | "q = Inr None" | h where "q = Inr (Some h)" by (metis option.exhaust sum.exhaust)
      then show ?thesis
      proof cases
        case 3
        then have "take_reference i h v2 = Some (Inr (r, v'))" using 1(2) by simp
        from take_reference_frame [OF this] show ?thesis using fr' by (auto simp: open_effect_def)
      qed (use 1(2) give_up_frame [of i _ v2 r v'] fr' in auto)
    qed
  qed
qed

text \<open>The files of the task are its descriptors, each once.\<close>

definition sys_owned :: "('w \<Rightarrow> 'h set) \<Rightarrow> ('c, 'f, 'h, 'w, 'u) sys_state \<Rightarrow> bool" where
  "sys_owned live s \<longleftrightarrow> vfs_inv live [] (sys_vfs s) \<and> fd_wf (sys_files s) \<and> distinct (fd_files (sys_files s)) \<and>
     set (fd_files (sys_files s)) = dom (mount_of (sys_vfs s))"

definition e_holds :: "('a \<times> 's) exec \<Rightarrow> ('s \<Rightarrow> bool) \<Rightarrow> bool" where
  "e_holds x P = (case x of None \<Rightarrow> True | Some (Inl f) \<Rightarrow> False | Some (Inr (r, s)) \<Rightarrow> P s)"

lemma e_holds_simps [simp]:
  "e_holds None P" "\<not> e_holds (Some (Inl f)) P" "e_holds (Some (Inr (r, s))) P = P s"
  by (simp_all add: e_holds_def)

lemma owned_after:
  assumes "mset (fd_files t) + mset given = mset (fd_files t') + mset gone"
    and "distinct (fd_files t @ given)" and "set (fd_files t @ given) = dom mo"
  shows "distinct (fd_files t')" "set (fd_files t') = dom (mo |` (- set gone))"
proof -
  have m: "mset (fd_files t @ given) = mset (fd_files t' @ gone)" using assms(1) by simp
  have d: "distinct (fd_files t' @ gone)" using assms(2) m by (metis mset_eq_imp_distinct_iff)
  then show "distinct (fd_files t')" by simp
  have "set (fd_files t' @ gone) = dom mo" using assms(3) m by (metis mset_eq_setD)
  then show "set (fd_files t') = dom (mo |` (- set gone))" using d by auto
qed

context fs_contract
begin

lemma destroy_inv:
  "vfs_inv live [] v \<Longrightarrow> k_holds (destroy_files cls hs) v (\<lambda>r v'. vfs_inv live [] v' \<and> mount_of v' = mount_of v |` (- set hs))"
proof (induction hs arbitrary: v)
  case Nil
  then show ?case by (simp add: k_holds_def)
next
  case (Cons h hs)
  show ?case unfolding destroy_files.simps
  proof (rule k_holds_bind [where P = "\<lambda>r v'. vfs_inv live [] v' \<and> mount_of v' = (mount_of v)(h := None)"])
    show "k_holds (vfs_close cls (Some h)) v (\<lambda>r v'. vfs_inv live [] v' \<and> mount_of v' = (mount_of v)(h := None))"
      using close_inv [OF Cons.prems, of "Some h"] vfs_close_frame [of cls h v]
      by (auto simp: k_holds_def split: option.splits sum.splits)
  next
    fix r and v' :: "('c, 'f, 'h, 'w) vfs_state"
    assume "vfs_inv live [] v' \<and> mount_of v' = (mount_of v)(h := None)"
    then have i: "vfs_inv live [] v'" and m: "mount_of v' = (mount_of v)(h := None)" by simp_all
    have "((mount_of v)(h := None)) |` (- set hs) = mount_of v |` (- set (h # hs))"
      by (auto simp: restrict_map_def fun_eq_iff)
    then show "k_holds (destroy_files cls hs) v' (\<lambda>r v'. vfs_inv live [] v' \<and> mount_of v' = mount_of v |` (- set (h # hs)))"
      using k_holds_mono [OF Cons.IH [OF i]] m by fastforce
  qed
qed

lemma destroy_owned:
  assumes "vfs_inv live [] (sys_vfs s)" and "fd_wf t'"
    and "mset (fd_files t) + mset given = mset (fd_files t') + mset gone"
    and "distinct (fd_files t @ given)" and "set (fd_files t @ given) = dom (mount_of (sys_vfs s))"
  shows "e_holds (on_vfs (destroy_files cls gone) (s\<lparr>sys_files := t'\<rparr>)) (sys_owned live)"
  using destroy_inv [OF assms(1), of gone] owned_after [OF assms(3-5)] assms(2)
  by (cases "destroy_files cls gone (sys_vfs s)")
    (auto simp: k_holds_def on_vfs_def sys_owned_def simp del: dom_restrict split: sum.splits)

lemma close_owned:
  assumes "sys_owned live s"
  shows "e_holds (sys_close cls cur fd s) (sys_owned live)"
proof (cases cur)
  case True
  obtain e t gone where c: "fd_close fd (sys_files s) = (e, t, gone)" using prod_cases3 by blast
  have wf: "fd_wf (sys_files s)" using assms by (simp add: sys_owned_def)
  have "accounts (sys_files s) [] (t, gone)" using accounts_close [OF wf, of fd] c by simp
  then have "e_holds (on_vfs (destroy_files cls gone) (s\<lparr>sys_files := t\<rparr>)) (sys_owned live)"
    using assms by (intro destroy_owned [where given = "[]" and t = "sys_files s"]) (simp_all add: accounts_def sys_owned_def)
  then show ?thesis using True c by (simp add: sys_close_def e_holds_def split: option.splits sum.splits prod.splits)
qed (use assms in \<open>simp add: sys_close_def\<close>)

lemma open_owned:
  assumes "sys_owned live s"
  shows "e_holds (sys_open cls ops cur user_path s) (sys_owned live)"
proof (cases "cur \<and> copy_user_cstr ops (sys_user s) user_path SYSCALL_PATH_MAX \<noteq> None")
  case False
  then show ?thesis using assms by (auto simp: sys_open_def)
next
  case True
  then obtain path where c: cur and p: "copy_user_cstr ops (sys_user s) user_path SYSCALL_PATH_MAX = Some path" by auto
  have inv: "vfs_inv live [] (sys_vfs s)" using assms by (simp add: sys_owned_def)
  note h = open_inv [OF inv, of "Some path"]
  show ?thesis
  proof (cases "vfs_open cls (Some path) (sys_vfs s)")
    case None
    then show ?thesis using c p by (simp add: sys_open_def on_vfs_def)
  next
    case (Some x)
    then obtain r v where x: "x = Inr (r, v)" and v: "vfs_inv live [] v"
      using h by (cases x) (auto simp: k_holds_def)
    have fr: "open_effect (mount_of (sys_vfs s)) r (mount_of v)" using vfs_open_frame Some x by metis
    show ?thesis
    proof (cases r)
      case (Inl e)
      then show ?thesis using c p Some x v fr assms by (simp add: sys_open_def on_vfs_def sys_owned_def open_effect_def)
    next
      case (Inr f)
      obtain q t gone where a: "fd_alloc (Some f) (sys_files s) = (q, t, gone)" using prod_cases3 by blast
      have "accounts (sys_files s) [f] (t, gone)" using accounts_alloc [of "sys_files s" "Some f"] a assms by (simp add: sys_owned_def)
      moreover have "f \<notin> dom (mount_of (sys_vfs s))" "dom (mount_of v) = insert f (dom (mount_of (sys_vfs s)))"
        using fr Inr by (auto simp: open_effect_def)
      ultimately have "e_holds (on_vfs (destroy_files cls gone) ((s\<lparr>sys_vfs := v\<rparr>)\<lparr>sys_files := t\<rparr>)) (sys_owned live)"
        using assms v by (intro destroy_owned [where given = "[f]" and t = "sys_files s"]) (simp_all add: accounts_def sys_owned_def)
      then show ?thesis using c p Some x Inr a
        by (simp add: sys_open_def on_vfs_def [of "vfs_open cls (Some path)"] e_holds_def split: option.splits sum.splits prod.splits)
    qed
  qed
qed

lemma on_vfs_io:
  assumes "vfs_inv live [] (sys_vfs s)" and "io_transfer cls to_user i buf chunk s = Some (Inr (r, s'))"
  shows "vfs_inv live [] (sys_vfs s') \<and> mount_of (sys_vfs s') = mount_of (sys_vfs s)"
proof -
  have fr: "on_world m v = Some (Inr (q, v')) \<Longrightarrow> mount_of v' = mount_of v" for m q and v v' :: "('c, 'f, 'h, 'w) vfs_state"
    by (auto simp: on_world_def split: option.splits)
  have rd: "vfs_inv live [] v' \<and> mount_of v' = mount_of v"
    if "vfs_read cls h b n off v = Some (Inr (q, v'))" "vfs_inv live [] v" for h b n off q and v v' :: "('c, 'f, 'h, 'w) vfs_state"
    using io_inv(1) [OF that(2), of h b n off] that(1) fr
    by (auto simp: k_holds_def vfs_read_def split: option.splits)
  have wr: "vfs_inv live [] v' \<and> mount_of v' = mount_of v"
    if "vfs_write cls h b n off v = Some (Inr (q, v'))" "vfs_inv live [] v" for h b n off q and v v' :: "('c, 'f, 'h, 'w) vfs_state"
    using io_inv(2) [OF that(2), of h b n off] that(1) fr
    by (auto simp: k_holds_def vfs_write_def split: option.splits)
  let ?e = "sys_files s ! i"
  show ?thesis
  proof (cases to_user)
    case True
    then obtain q v where "vfs_read cls (fd_file ?e) (Some buf) chunk (fd_offset ?e) (sys_vfs s) = Some (Inr (q, v))" "s' = s\<lparr>sys_vfs := v\<rparr>"
      using assms(2) by (auto simp: io_transfer_def Let_def on_vfs_def split: option.splits sum.splits)
    with rd assms(1) show ?thesis by fastforce
  next
    case False
    then obtain v where k: "k_try (vfs_write cls (fd_file ?e) (Some buf) chunk (fd_offset ?e)) (\<lambda>n. k_ret (Inr (n, buf))) (sys_vfs s) = Some (Inr (r, v))"
      and s': "s' = s\<lparr>sys_vfs := v\<rparr>"
      using assms(2) by (auto simp: io_transfer_def Let_def on_vfs_def split: option.splits sum.splits)
    from k show ?thesis
    proof (cases rule: k_tryE)
      case (err e)
      then show ?thesis using wr [OF err(1) assms(1)] s' by simp
    next
      case (ok a v1)
      then show ?thesis using wr [OF ok(1) assms(1)] s' by simp
    qed
  qed
qed

lemma io_round_vfs:
  assumes "vfs_inv live [] (sys_vfs s)" and "io_round cls ops to_user va chunk i buf s = Some (Inr (r, s'))"
  shows "vfs_inv live [] (sys_vfs s') \<and> mount_of (sys_vfs s') = mount_of (sys_vfs s) \<and> (\<exists>n. sys_files s' = fd_advance i n (sys_files s))"
proof (cases "fill_buffer ops (sys_user s) to_user va chunk buf")
  case (Inl e)
  then have "s' = s" using assms(2) by (simp add: io_round_def)
  then show ?thesis using assms(1) fd_advance_add(2) by metis
next
  case (Inr b)
  then have "k_try (io_transfer cls to_user i b chunk) (io_finish ops to_user va chunk i) s = Some (Inr (r, s'))"
    using assms(2) by (simp add: io_round_def)
  then show ?thesis
  proof (cases rule: k_tryE)
    case (err e)
    then show ?thesis using on_vfs_io [OF assms(1) err(1)] io_transfer_frame [OF err(1)] fd_advance_add(2) by metis
  next
    case (ok a s1)
    obtain n b' where a: "a = (n, b')" by fastforce
    have v: "sys_vfs s' = sys_vfs s1" and "\<exists>n. sys_files s' = fd_advance i n (sys_files s1)"
      using ok(2) advance_refl [of _ i] unfolding a io_finish_def by (auto split: if_splits prod.splits)
    then show ?thesis using on_vfs_io [OF assms(1) ok(1)] io_transfer_frame [OF ok(1)] by simp
  qed
qed

lemma io_loop_vfs:
  "vfs_inv live [] (sys_vfs s) \<Longrightarrow> io_loop cls ops to_user user_buf cnt i don buf s = Some (Inr (r, s')) \<Longrightarrow>
    vfs_inv live [] (sys_vfs s') \<and> mount_of (sys_vfs s') = mount_of (sys_vfs s) \<and> (\<exists>n. sys_files s' = fd_advance i n (sys_files s))"
proof (induction "unat cnt - unat don" arbitrary: don buf s rule: less_induct)
  case less
  show ?case
  proof (cases "don < cnt")
    case False
    then have "s' = s" using less.prems(2) by (simp add: io_loop.simps)
    then show ?thesis using less.prems(1) fd_advance_add(2) by metis
  next
    case True
    let ?r = "io_round cls ops to_user (user_buf + don) (io_chunk cnt don) i buf s"
    obtain q s1 where q: "?r = Some (Inr (q, s1))"
      using less.prems(2) True by (cases ?r) (auto simp: io_loop.simps [of _ _ _ _ _ _ don] Let_def split: sum.splits)
    note h = io_round_vfs [OF less.prems(1) q]
    show ?thesis
    proof (cases "s' = s1")
      case True
      then show ?thesis using h by simp
    next
      case False
      then obtain n b where "io_loop cls ops to_user user_buf cnt i (don + io_chunk cnt don) b s1 = Some (Inr (r, s'))"
        using less.prems(2) True q by (auto simp: io_loop.simps [of _ _ _ _ _ _ don] Let_def split: sum.splits if_splits)
      from less.hyps [OF io_chunk_less [OF True] _ this] h show ?thesis by (metis fd_advance_add(1))
    qed
  qed
qed

lemma io_owned:
  assumes "sys_owned live s"
  shows "e_holds (sys_file_io cls ops storage fd user_buf cnt to_user s) (sys_owned live)"
proof (cases "cnt = 0 \<or> \<not> u_range ops (sys_user s) user_buf cnt to_user \<or> fd_get (sys_files s) fd = None \<or> storage = None")
  case True
  then show ?thesis using assms by (auto simp: sys_file_io_def split: option.splits)
next
  case False
  then obtain i buf where i: "fd_get (sys_files s) fd = Some i" "storage = Some buf" by auto
  show ?thesis
  proof (cases "io_loop cls ops to_user user_buf cnt i 0 buf s")
    case None
    then show ?thesis using False i by (simp add: sys_file_io_def)
  next
    case (Some x)
    then obtain r s' where x: "x = Inr (r, s')" by (cases x) (auto simp: io_loop_no_fault)
    have wf: "fd_wf (sys_files s)" using assms by (simp add: sys_owned_def)
    obtain n where "vfs_inv live [] (sys_vfs s')" "mount_of (sys_vfs s') = mount_of (sys_vfs s)" "sys_files s' = fd_advance i n (sys_files s)"
      using io_loop_vfs [OF _ Some [unfolded x]] assms by (auto simp: sys_owned_def)
    then have "sys_owned live s'" using assms fd_advance_facts [OF wf i(1), of n] by (simp add: sys_owned_def)
    then show ?thesis using False i Some x by (simp add: sys_file_io_def case_prod_beta)
  qed
qed

lemma dispatch_owned:
  assumes "sys_owned live s"
  shows "e_holds (sys_dispatch cls ops cur storage nr a0 a1 a2 s) (sys_owned live)"
proof -
  have r: "e_holds (returns x) P = e_holds x P" for x and P :: "('c, 'f, 'h, 'w, 'a) sys_state \<Rightarrow> bool"
    by (simp add: returns_def e_holds_def split: option.splits sum.splits)
  show ?thesis using assms open_owned [OF assms] close_owned [OF assms] io_owned [OF assms]
    by (simp add: sys_dispatch_def r sys_read_def sys_write_def)
qed

end

text \<open>The system calls of a task, each with the registers it passes; the task ends with \<^verbatim>\<open>exit\<close>.\<close>

record sys_call =
  call_storage :: "bytes option"
  call_nr :: int
  call_args :: "u64 \<times> u64 \<times> u64"

fun sys_run :: "('c, 'f, 'h, 'v, 'w) fs_class \<Rightarrow> 'u user_ops \<Rightarrow> sys_call list \<Rightarrow>
    ('c, 'f, 'h, 'w, 'u) sys_state \<Rightarrow> (('c, 'f, 'h, 'w, 'u) sys_state) exec" where
  "sys_run cls ops [] s = Some (Inr s)"
| "sys_run cls ops (c # cs) s =
     (case call_args c of (a0, a1, a2) \<Rightarrow>
        case sys_dispatch cls ops True (call_storage c) (call_nr c) a0 a1 a2 s of
          None \<Rightarrow> None
        | Some (Inl f) \<Rightarrow> Some (Inl f)
        | Some (Inr (Exits _, s)) \<Rightarrow> Some (Inr s)
        | Some (Inr (_, s)) \<Rightarrow> sys_run cls ops cs s)"

context fs_contract
begin

lemma run_owned:
  "sys_owned live s \<Longrightarrow> sys_run cls ops cs s = Some r \<Longrightarrow> \<exists>s'. r = Inr s' \<and> sys_owned live s'"
proof (induction cs arbitrary: s)
  case (Cons c cs)
  obtain a0 a1 a2 where a: "call_args c = (a0, a1, a2)" using prod_cases3 by blast
  let ?d = "sys_dispatch cls ops True (call_storage c) (call_nr c) a0 a1 a2 s"
  have h: "e_holds ?d (sys_owned live)" by (rule dispatch_owned [OF Cons.prems(1)])
  show ?case
  proof (cases ?d)
    case (Some x)
    then obtain q s1 where x: "x = Inr (q, s1)" and o: "sys_owned live s1" using h by (cases x) auto
    show ?thesis using Cons.IH [OF o] Cons.prems(2) a Some x o by (cases q) auto
  qed (use Cons.prems(2) a in simp)
qed auto

lemma exit_owned:
  assumes "sys_owned live s"
  shows "e_holds (on_vfs (destroy_files cls (snd (fd_close_all (sys_files s)))) (s\<lparr>sys_files := fst (fd_close_all (sys_files s))\<rparr>))
    (\<lambda>s'. dom (mount_of (sys_vfs s')) = {})"
proof -
  have wf: "fd_wf (sys_files s)" and l: "length (sys_files s) = MAX_FD" using assms by (simp_all add: sys_owned_def fd_wf_def)
  have "e_holds (on_vfs (destroy_files cls (fd_files (sys_files s))) (s\<lparr>sys_files := replicate (length (sys_files s)) vacant_fd\<rparr>)) (sys_owned live)"
    using assms fd_wf_replicate [OF l]
    by (intro destroy_owned [where given = "[]" and t = "sys_files s"]) (simp_all add: sys_owned_def)
  then show ?thesis
    by (auto simp: fd_close_all_def fd_reset_all e_holds_def on_vfs_def sys_owned_def eq_commute [of "{}"] split: option.splits sum.splits)
qed

end

text \<open>C3.
  Descriptors own the open files. Whatever system calls a task makes, started without open files,
  the kernel does not crash, every open file belongs to exactly one descriptor of the task, the
  counter of every mount is the number of descriptors open on it, and closing all descriptors at the
  end leaves no file open, so that every mount can be unmounted.
\<close>

theorem descriptors_own_files:
  assumes "sys_owned live_files s" and "sys_run (kernel_fs io) ops cs s = Some r"
  shows "\<exists>s'. r = Inr s' \<and> distinct (fd_files (sys_files s')) \<and>
    set (fd_files (sys_files s')) = {h. mount_of (sys_vfs s') h \<noteq> None} \<and>
    (\<forall>i<length (mounts (sys_vfs s')). users (mounts (sys_vfs s') ! i) =
       card {h \<in> set (fd_files (sys_files s')). mount_of (sys_vfs s') h = Some i}) \<and>
    (case on_vfs (destroy_files (kernel_fs io) (snd (fd_close_all (sys_files s'))))
            (s'\<lparr>sys_files := fst (fd_close_all (sys_files s'))\<rparr>) of
       None \<Rightarrow> True | Some (Inl f) \<Rightarrow> False | Some (Inr (q, s'')) \<Rightarrow> \<forall>h. mount_of (sys_vfs s'') h = None)"
proof -
  obtain s' where s': "r = Inr s'" "sys_owned live_files s'" using kfs.run_owned [OF assms] by blast
  have "users (mounts (sys_vfs s') ! i) = card {h. mount_of (sys_vfs s') h = Some i}" if "i < length (mounts (sys_vfs s'))" for i
    using users_exactD(4) [OF vfs_invD(1), of live_files "[]" "sys_vfs s'" i] s'(2) that by (simp add: sys_owned_def open_at_def)
  moreover have "{h \<in> set (fd_files (sys_files s')). mount_of (sys_vfs s') h = Some i} = {h. mount_of (sys_vfs s') h = Some i}" for i
    using s'(2) by (auto simp: sys_owned_def)
  moreover have "e_holds (on_vfs (destroy_files (kernel_fs io) (snd (fd_close_all (sys_files s'))))
      (s'\<lparr>sys_files := fst (fd_close_all (sys_files s'))\<rparr>)) (\<lambda>s''. \<forall>h. mount_of (sys_vfs s'') h = None)"
    using kfs.exit_owned [OF s'(2), of io] by (simp add: fun_eq_iff)
  ultimately show ?thesis using s' by (auto simp: sys_owned_def e_holds_def dom_def)
qed

section \<open>Concrete tasks\<close>

text \<open>A task with the console open as descriptor 0 and the device file system mounted.\<close>

definition demo_caller :: "(fs_kind, nat, nat, disk_image fs_world, pt_machine) sys_state" where
  "demo_caller = \<lparr>
     sys_vfs = \<lparr>mounts = (initial_mounts)[0 := (initial_mounts ! 0)\<lparr>mfs := Some 0, users := 1\<rparr>], fs_registry = [],
       mount_of = [0 \<mapsto> 0], world = demo_fs_world\<lparr>fs_objects := [Some Dev_Object], file_objects := [Some Console_File]\<rparr>\<rparr>,
     sys_user = demo_user,
     sys_files = \<lparr>fd_file = Some 0, fd_offset = 0, fd_used = True\<rparr> # replicate 15 vacant_fd\<rparr>"

lemma demo_caller_owned: "sys_owned live_files demo_caller"
proof -
  have "{h. [0 \<mapsto> 0] h = Some i} = (if i = 0 then {0} else {})" for i :: nat by auto
  then have "vfs_inv live_files [] (sys_vfs demo_caller)"
    by (auto simp: vfs_inv_def demo_caller_def users_exact_def open_at_def initial_mounts_def empty_slot_def live_files_def
        object_at_def less_Suc_eq)
  then show ?thesis
    by (simp add: sys_owned_def demo_caller_def fd_wf_def entry_wf_def fd_files_def entry_files_def)
qed

definition demo_class :: "(fs_kind, nat, nat, unit, disk_image fs_world) fs_class" where
  "demo_class = kernel_fs image_ops"

theorem descriptors_own_files_witness:
  "\<exists>s'. sys_run demo_class (paged_user 0x1000) [\<lparr>call_storage = None, call_nr = 6, call_args = (0, 0, 0)\<rparr>] demo_caller = Some (Inr s') \<and>
     fd_files (sys_files s') = [] \<and> set (fd_files (sys_files s')) = {h. mount_of (sys_vfs s') h \<noteq> None}"
proof -
  let ?r = "sys_run demo_class (paged_user 0x1000) [\<lparr>call_storage = None, call_nr = 6, call_args = (0, 0, 0)\<rparr>] demo_caller"
  have zero: "reg_int 0 = 0" by (simp add: reg_int_def to_u32_def)
  have "\<exists>s'. ?r = Some (Inr s') \<and> fd_files (sys_files s') = []"
    by (simp add: sys_dispatch_def sys_close_def fd_close_def fd_get_def demo_caller_def zero returns_def on_vfs_def
        vfs_close_def release_mount_def release_slot_def upd_slot_def initial_mounts_def empty_slot_def k_bind_def
        demo_class_def kernel_fs_def fd_files_def entry_files_def)
  then show ?thesis using descriptors_own_files [OF demo_caller_owned, of image_ops "paged_user 0x1000"] unfolding demo_class_def by fastforce
qed

lemma demo_write:
  "\<exists>s'. sys_file_io demo_class (paged_user 0x1000) (Some (replicate 4096 0)) 0 0x5010 3 False demo_caller = Some (Inr (3, s'))"
proof -
  have ok: "user_range_valid demo_user (Some 0x1000) 0x5010 3 False"
    using demo_user_range user_write_read unfolding user_range_all user_ok_def by blast
  then have rg: "u_range (paged_user 0x1000) demo_user 0x5010 3 False" by (simp add: paged_user_def)
  obtain bs where bs: "u_from (paged_user 0x1000) demo_user 0x5010 3 = Inr bs" using paged.from_bytes [OF rg] by blast
  have chunk: "io_chunk 3 0 = 3" "io_chunk 3 3 = 0" by (simp_all add: io_chunk_def PG_SIZE_def)
  have get: "fd_get (sys_files demo_caller) 0 = Some 0" by (simp add: fd_get_def demo_caller_def)
  have three: "to_int32 3 = 3" by (simp add: to_int32_def to_u32_def)
  have wr: "\<exists>v'. vfs_write demo_class (Some 0) (Some b) 3 0 (sys_vfs demo_caller) = Some (Inr (Inr 3, v'))" for b
    by (simp add: vfs_write_def on_world_def demo_class_def kernel_fs_def on_file_def demo_caller_def object_at_def on_console_def
        console_file_write_def three)
  obtain b' v' where r: "io_round demo_class (paged_user 0x1000) False 0x5010 3 0 (replicate 4096 0) demo_caller
      = Some (Inr (Inr (3, b'), demo_caller\<lparr>sys_vfs := v', sys_files := fd_advance 0 3 (sys_files demo_caller)\<rparr>))"
  proof -
    let ?b = "bs @ drop (unat (3 :: u64)) (replicate 4096 0)"
    obtain v' where v': "vfs_write demo_class (Some 0) (Some ?b) 3 0 (sys_vfs demo_caller) = Some (Inr (Inr 3, v'))" using wr by blast
    have "fill_buffer (paged_user 0x1000) (sys_user demo_caller) False 0x5010 3 (replicate 4096 0) = Inr ?b"
      using bs by (simp add: fill_buffer_def demo_caller_def)
    moreover have "io_transfer demo_class False 0 ?b 3 demo_caller = Some (Inr (Inr (3, ?b), demo_caller\<lparr>sys_vfs := v'\<rparr>))"
      using v' by (simp add: io_transfer_def Let_def on_vfs_def k_try_def k_bind_def demo_caller_def)
    ultimately show thesis using that [of ?b v']
      by (simp add: io_round_def k_try_def k_bind_def io_finish_def drain_buffer_def demo_caller_def)
  qed
  have "(0 :: u64) < 3" "\<not> (3 :: u64) < 3" by simp_all
  then have "\<exists>s'. io_loop demo_class (paged_user 0x1000) False 0x5010 3 0 0 (replicate 4096 0) demo_caller = Some (Inr ((3, False), s'))"
    using r chunk by (subst io_loop.simps) (simp add: io_loop.simps Let_def)
  moreover have "sint (3 :: u64) = 3" by simp
  ultimately show ?thesis using rg get by (auto simp: sys_file_io_def demo_caller_def)
qed

theorem file_io_safe_witness:
  "\<exists>s'. sys_file_io demo_class (paged_user 0x1000) (Some (replicate 4096 0)) 0 0x5010 3 False demo_caller = Some (Inr (3, s')) \<and>
     sys_files s' = fd_advance 0 3 (sys_files demo_caller)"
proof -
  have "user_apart (sys_user demo_caller) 0x1000" using demo_user_apart by (simp add: demo_caller_def)
  from file_io_safe [OF this, where cls = demo_class and storage = "Some (replicate 4096 0)" and fd = 0 and user_buf = "0x5010" and cnt = 3
      and to_user = False] demo_write show ?thesis by auto
qed

end
