(* ===== verification/Page_Swap.thy ===== *)
theory Page_Swap
  imports Vmm
begin

unbundle bit_operations_syntax

text \<open>
  Swapping pages out to the swap device and back (\<^verbatim>\<open>kernel/mm/swap.cpp\<close>, \<^verbatim>\<open>kernel/mm/swap_fifo.cpp\<close>) and the
  page fault handler (\<^verbatim>\<open>vmm::pg_fault\<close>). The I/O lock serialises the operations, so each is one
  function of the state: the page tables and frames, the swap device and the queue of pages of the
  address space, oldest first. A transfer that sleeps is part of its operation: other tasks do not
  change the entry or the page meanwhile, so the check behind \<^verbatim>\<open>swapfs_write\<close> that they are as before,
  which the model has, only fails with the transfer. The theorems show that an attempt that fails leaves the page where it
  was, and that a page that was swapped out comes back with its bytes.
\<close>

section \<open>State\<close>

record 'd swap_machine =
  sw_pt :: pt_machine
  sw_disk :: 'd
  sw_queue :: "nat list"

type_synonym ('d, 'a) sop = "'d swap_machine \<Rightarrow> ('a \<times> 'd swap_machine) exec"

definition s_ret :: "'a \<Rightarrow> ('d, 'a) sop" where
  "s_ret a s = Some (Inr (a, s))"

definition s_bind :: "('d, 'a) sop \<Rightarrow> ('a \<Rightarrow> ('d, 'b) sop) \<Rightarrow> ('d, 'b) sop" where
  "s_bind f k s = (case f s of None \<Rightarrow> None | Some (Inl e) \<Rightarrow> Some (Inl e) | Some (Inr (a, s')) \<Rightarrow> k a s')"

definition on_pt :: "'a mop \<Rightarrow> ('d, 'a) sop" where
  "on_pt f s =
     (case f (sw_pt s) of
        None \<Rightarrow> None | Some (Inl e) \<Rightarrow> Some (Inl e) | Some (Inr (a, m)) \<Rightarrow> Some (Inr (a, s\<lparr>sw_pt := m\<rparr>)))"

definition on_slots :: "(swap_slots \<Rightarrow> 'a \<times> swap_slots) \<Rightarrow> ('d, 'a) sop" where
  "on_slots f s = (case f (swap_st (sw_pt s)) of (a, sl) \<Rightarrow> Some (Inr (a, s\<lparr>sw_pt := (sw_pt s)\<lparr>swap_st := sl\<rparr>\<rparr>)))"

section \<open>The replacement policy\<close>

definition map_swappable :: "nat \<Rightarrow> nat list \<Rightarrow> error \<times> nat list" where
  "map_swappable page queue = (if page \<in> set queue then (Invalid, queue) else (Err_None, queue @ [page]))"

definition swap_out_victim :: "nat list \<Rightarrow> nat option \<times> nat list" where
  "swap_out_victim queue = (case queue of [] \<Rightarrow> (None, []) | p # ps \<Rightarrow> (Some p, ps))"

section \<open>Finding the address of a page\<close>

fun first_some :: "(nat \<Rightarrow> 'a option) \<Rightarrow> nat list \<Rightarrow> 'a option" where
  "first_some f [] = None"
| "first_some f (i # is) = (case f i of None \<Rightarrow> first_some f is | Some v \<Rightarrow> Some v)"

text \<open>\<open>k\<close> is the number of levels below the table.\<close>

primrec scan_pt_for_pa :: "nat \<Rightarrow> pt_machine \<Rightarrow> u64 \<Rightarrow> u64 \<Rightarrow> u64 \<Rightarrow> u64" where
  "scan_pt_for_pa 0 m target_pa base_va table =
     (case first_some (\<lambda>i. let e = ptmem m table i in
             if pte_present e \<and> pte_addr e = target_pa then Some (base_va OR push_bit (LEVEL_SHIFTS ! 3) (word_of_nat i)) else None)
           [0..<PAGE_TABLE_ENTRIES] of
        None \<Rightarrow> 0 | Some va \<Rightarrow> va)"
| "scan_pt_for_pa (Suc k) m target_pa base_va table =
     (case first_some (\<lambda>i. let e = ptmem m table i in
             if \<not> pte_present e \<or> pte_is_block e then None
             else let va = base_va OR push_bit (LEVEL_SHIFTS ! (PT_WALK_LEVELS - Suc (Suc k))) (word_of_nat i);
                      r = scan_pt_for_pa k m target_pa va (pte_addr e)
                  in if r \<noteq> 0 then Some r else None)
           [0..<(if Suc k = PT_WALK_LEVELS - 1 then USER_TOP_ENTRIES else PAGE_TABLE_ENTRIES)] of
        None \<Rightarrow> 0 | Some va \<Rightarrow> va)"

definition find_va_for_page :: "pt_machine \<Rightarrow> u64 \<Rightarrow> nat \<Rightarrow> u64" where
  "find_va_for_page m pgdir page = scan_pt_for_pa (PT_WALK_LEVELS - 1) m (page_to_phys page) 0 pgdir"

section \<open>The swap device\<close>

definition slot_lba :: "u32 \<Rightarrow> u32" where
  "slot_lba sl = to_u32 (to_u64 (sl - 1) * word_of_nat BLOCKS_PER_PAGE)"

definition swapfs_read :: "'d block_ops \<Rightarrow> u64 \<Rightarrow> nat \<Rightarrow> ('d, error) sop" where
  "swapfs_read io entry page s =
     (let sl = allocated_slot (swap_st (sw_pt s)) entry
      in if sw_device (swap_st (sw_pt s)) = None then s_ret NoDevice s
         else if sl = 0 then s_ret Invalid s
         else case dev_read io (sw_disk s) (slot_lba sl) BLOCKS_PER_PAGE of
                (e, bs, d) \<Rightarrow> s_ret e (s\<lparr>sw_disk := d,
                  sw_pt := (sw_pt s)\<lparr>ptmem := set_bytes (page_to_phys page) bs (ptmem (sw_pt s))\<rparr>\<rparr>))"

definition swapfs_write :: "'d block_ops \<Rightarrow> u64 \<Rightarrow> nat \<Rightarrow> ('d, error) sop" where
  "swapfs_write io entry page s =
     (let sl = allocated_slot (swap_st (sw_pt s)) entry
      in if sw_device (swap_st (sw_pt s)) = None then s_ret NoDevice s
         else if sl = 0 then s_ret Invalid s
         else case dev_write io (sw_disk s) (slot_lba sl) (mem_bytes (ptmem (sw_pt s)) (page_to_phys page) 4096) BLOCKS_PER_PAGE of
                (e, d) \<Rightarrow> s_ret e (s\<lparr>sw_disk := d\<rparr>))"

section \<open>Swapping in\<close>

text \<open>\<open>pgdir\<close> is the root of the address space, \<open>kroot\<close> that of the kernel. The page is handed to the caller.\<close>

definition swap_in :: "'d block_ops \<Rightarrow> u64 option \<Rightarrow> u64 option \<Rightarrow> u64 \<Rightarrow> ('d, error \<times> nat option) sop" where
  "swap_in io kroot pgdir va =
     (case pgdir of
        None \<Rightarrow> s_ret (Invalid, None)
      | Some root \<Rightarrow>
          if pgdir = kroot \<or> va < PG_SIZE \<or> USER_SPACE_TOP \<le> va then s_ret (Invalid, None)
          else (\<lambda>s. if sw_device (swap_st (sw_pt s)) = None then s_ret (NoDevice, None) s
            else s_bind (on_pt (get_pte root va False)) (\<lambda>ptep.
              case ptep of
                None \<Rightarrow> s_ret (NotFound, None)
              | Some (t, i) \<Rightarrow> (\<lambda>s.
                  let entry = ptmem (sw_pt s) t i
                  in if pte_present entry \<or> allocated_slot (swap_st (sw_pt s)) entry = 0 then s_ret (Invalid, None) s
                     else s_bind (on_pt (m_alloc 1)) (\<lambda>page.
                       case page of
                         None \<Rightarrow> s_ret (NoMem, None)
                       | Some p \<Rightarrow>
                           s_bind (swapfs_read io entry p) (\<lambda>e s.
                             if e \<noteq> Err_None then s_bind (on_pt (m_free p)) (\<lambda>_. s_ret (e, None)) s
                             else if ptmem (sw_pt s) t i \<noteq> entry then s_bind (on_pt (m_free p)) (\<lambda>_. s_ret (Busy, None)) s
                             else
                               case map_swappable p (sw_queue s) of
                                 (e, q) \<Rightarrow>
                                   s_bind (if e = Err_None
                                           then on_pt (page_insert root p va
                                                  (user_page_perm (entry AND ENTRY_WRITE \<noteq> 0) (entry AND ENTRY_EXECUTE \<noteq> 0)))
                                           else s_ret e) (\<lambda>e s.
                                     if e \<noteq> Err_None
                                     then s_bind (on_pt (m_free p)) (\<lambda>_. s_ret (e, None)) (s\<lparr>sw_queue := removeAll p (sw_queue s)\<rparr>)
                                     else s_bind (on_slots (\<lambda>sl. ((), release_entry entry sl))) (\<lambda>_. s_ret (Err_None, Some p)) s)
                                     (s\<lparr>sw_queue := q\<rparr>))) s)) s))"

section \<open>Swapping out\<close>

text \<open>One round of the loop of \<^verbatim>\<open>out\<close>; the result tells whether the page went out.\<close>

definition requeue :: "nat \<Rightarrow> ('d, bool) sop" where
  "requeue victim s = s_ret False (s\<lparr>sw_queue := victim # sw_queue s\<rparr>)"

definition evict :: "'d block_ops \<Rightarrow> u64 \<Rightarrow> nat \<Rightarrow> u64 \<Rightarrow> u64 \<times> nat \<Rightarrow> u32 \<Rightarrow> ('d, bool) sop" where
  "evict io root victim va ptep sl s =
     (case ptep of (t, i) \<Rightarrow>
        let resident = ptmem (sw_pt s) t i;
            entry = swap_entry sl (pte_writable resident) (pte_executable resident)
        in s_bind (swapfs_write io entry victim) (\<lambda>e s.
             if e \<noteq> Err_None \<or> ptmem (sw_pt s) t i \<noteq> resident \<or> ref_count (pages (parea (sw_pt s)) victim) \<noteq> 1
             then s_bind (on_slots (\<lambda>st. ((), release_entry entry st))) (\<lambda>_. requeue victim) s
             else s_bind (on_pt (\<lambda>m. m_free victim (on_page victim (\<lambda>q. q\<lparr>ref_count := ref_count q - 1\<rparr>)
                    (invalidate_tlb_page root va (put_pte t i entry m))))) (\<lambda>_. s_ret True) s) s)"

definition swap_out_one :: "'d block_ops \<Rightarrow> u64 \<Rightarrow> ('d, bool) sop" where
  "swap_out_one io root s =
     (case swap_out_victim (sw_queue s) of
        (None, q) \<Rightarrow> s_ret False s
      | (Some victim, q) \<Rightarrow>
          let va = find_va_for_page (sw_pt s) root victim
          in s_bind (if va \<noteq> 0 then on_pt (get_pte root va False) else s_ret None) (\<lambda>ptep.
               s_bind (on_slots reserve_slot) (\<lambda>reserved s.
                 case (ptep, reserved) of
                   (Some (t, i), Inr sl) \<Rightarrow>
                     if \<not> pte_present (ptmem (sw_pt s) t i) \<or> \<not> pte_user (ptmem (sw_pt s) t i) \<or>
                        ref_count (pages (parea (sw_pt s)) victim) \<noteq> 1
                     then s_bind (on_slots (\<lambda>st. ((), release_entry (swap_entry sl False False) st))) (\<lambda>_. requeue victim) s
                     else evict io root victim va (t, i) sl s
                 | (None, Inr sl) \<Rightarrow>
                     s_bind (on_slots (\<lambda>st. ((), release_entry (swap_entry sl False False) st))) (\<lambda>_. requeue victim) s
                 | (_, Inl _) \<Rightarrow> requeue victim s)) (s\<lparr>sw_queue := q\<rparr>))"

primrec swap_out_loop :: "'d block_ops \<Rightarrow> u64 \<Rightarrow> nat \<Rightarrow> ('d, nat) sop" where
  "swap_out_loop io root 0 = s_ret 0"
| "swap_out_loop io root (Suc n) =
     s_bind (swap_out_one io root) (\<lambda>b. if b then s_bind (swap_out_loop io root n) (\<lambda>k. s_ret (Suc k)) else s_ret 0)"

text \<open>\<open>current\<close> tells whether the address space is that of the current task.\<close>

definition swap_out :: "'d block_ops \<Rightarrow> u64 option \<Rightarrow> u64 option \<Rightarrow> bool \<Rightarrow> int \<Rightarrow> int \<Rightarrow> ('d, nat) sop" where
  "swap_out io kroot pgdir current page_count in_timer_tick s =
     (case pgdir of
        None \<Rightarrow> s_ret 0 s
      | Some root \<Rightarrow>
          if pgdir = kroot \<or> \<not> current \<or> page_count \<le> 0 \<or> in_timer_tick \<noteq> 0 then s_ret 0 s
          else if sw_device (swap_st (sw_pt s)) = None \<or> sw_bits (swap_st (sw_pt s)) = [] then s_ret 0 s
          else swap_out_loop io root (nat page_count) s)"

section \<open>Page faults\<close>

definition PAGE_FAULT_PROTECTION :: u32 where "PAGE_FAULT_PROTECTION = 0x01"
definition PAGE_FAULT_WRITE :: u32 where "PAGE_FAULT_WRITE = 0x02"
definition PAGE_FAULT_USER :: u32 where "PAGE_FAULT_USER = 0x04"
definition PAGE_FAULT_EXECUTE :: u32 where "PAGE_FAULT_EXECUTE = 0x10"

definition pg_fault :: "'d block_ops \<Rightarrow> u64 option \<Rightarrow> u64 option \<Rightarrow> u32 \<Rightarrow> u64 \<Rightarrow> ('d, int) sop" where
  "pg_fault io kroot pgdir err fault_va =
     (case pgdir of
        None \<Rightarrow> s_ret (-1)
      | Some root \<Rightarrow>
          if fault_va < PG_SIZE \<or> USER_SPACE_TOP \<le> fault_va \<or> err AND PAGE_FAULT_PROTECTION \<noteq> 0 \<or>
             err AND PAGE_FAULT_USER = 0
          then s_ret (-1)
          else let va = round_down fault_va PG_SIZE
               in s_bind (on_pt (get_pte root va False)) (\<lambda>ptep.
                    case ptep of
                      None \<Rightarrow> s_ret (-1)
                    | Some (t, i) \<Rightarrow> (\<lambda>s.
                        let e = ptmem (sw_pt s) t i
                        in if e = 0 \<or> pte_present e then s_ret (-1) s
                           else if e AND ENTRY_HAS_PERMISSIONS = 0 \<or>
                                   (err AND PAGE_FAULT_WRITE \<noteq> 0 \<and> e AND ENTRY_WRITE = 0) \<or>
                                   (err AND PAGE_FAULT_EXECUTE \<noteq> 0 \<and> e AND ENTRY_EXECUTE = 0)
                           then s_ret (-1) s
                           else s_bind (swap_in io kroot pgdir va) (\<lambda>(e, p). s_ret (if e = Err_None then 0 else -1)) s)))"

section \<open>Lookups change nothing\<close>

lemma m_simps [simp]: "m_ret a m = Some (Inr (a, m))" "m_bind (m_ret a) k = k a"
  by (simp_all add: m_ret_def m_bind_def fun_eq_iff)

lemma get_pte_lookup: "\<exists>r. get_pte root va False m = Some (Inr (r, m))"
  by (simp add: get_pte_found)

lemma s_simps [simp]: "s_ret a s = Some (Inr (a, s))" "s_bind (s_ret a) k = k a"
  by (simp_all add: s_ret_def s_bind_def fun_eq_iff)

lemma on_pt_lookup: "\<exists>r. on_pt (get_pte root va False) s = Some (Inr (r, s))"
  using get_pte_lookup [of root va "sw_pt s"] by (auto simp: on_pt_def)

section \<open>A failed attempt leaves the page in place\<close>

text \<open>Everything but the contents of free slots and the place where the search for one goes on.\<close>

definition same_residents :: "'d swap_machine \<Rightarrow> 'd swap_machine \<Rightarrow> bool" where
  "same_residents s s' \<longleftrightarrow> sw_queue s' = sw_queue s \<and> slots_wf (swap_st (sw_pt s')) \<and>
     used_slots (swap_st (sw_pt s')) = used_slots (swap_st (sw_pt s)) \<and>
     sw_pt s' = (sw_pt s)\<lparr>swap_st := swap_st (sw_pt s')\<rparr>"

text \<open>Releasing the slot just reserved.\<close>

lemma reserve_release:
  assumes "slots_wf st" and "reserve_slot st = (Inr sl, st')"
  shows "slots_wf st'" "0 < unat sl" "unat sl < unat (slot_limit st')" "unat sl \<in> used_slots st'"
    "slot_limit st' = slot_limit st" "unat sl \<notin> used_slots st"
    "slots_wf (release_entry (swap_entry sl w x) st')" "used_slots (release_entry (swap_entry sl w x) st') = used_slots st"
proof -
  from reserve_slot_spec [OF assms(1)] assms(2)
  have r: "slots_wf st'" "slot_limit st' = slot_limit st" "unat sl \<in> {1..<unat (slot_limit st)} - used_slots st"
    "used_slots st' = insert (unat sl) (used_slots st)" by auto
  then show b: "slots_wf st'" "0 < unat sl" "unat sl < unat (slot_limit st')" "unat sl \<in> used_slots st'"
    "slot_limit st' = slot_limit st" "unat sl \<notin> used_slots st" by auto
  note rel = release_entry_spec [OF b(1-3), of w x]
  show "slots_wf (release_entry (swap_entry sl w x) st')" by (rule rel(1))
  show "used_slots (release_entry (swap_entry sl w x) st') = used_slots st" using rel(2) r(3,4) by auto
qed

lemma reserve_failed:
  assumes "slots_wf st" and "reserve_slot st = (Inl e, st')"
  shows "slots_wf st'" "used_slots st' = used_slots st"
  using reserve_slot_spec [OF assms(1)] assms(2) by auto

lemma put_back:
  "s_bind (on_slots (\<lambda>st. ((), release_entry entry st))) (\<lambda>_. requeue victim) s =
     Some (Inr (False, s\<lparr>sw_pt := (sw_pt s)\<lparr>swap_st := release_entry entry (swap_st (sw_pt s))\<rparr>, sw_queue := victim # sw_queue s\<rparr>))"
  by (simp add: s_bind_def on_slots_def requeue_def)

lemma swapfs_write_frame:
  assumes "swapfs_write io entry p s = Some (Inr (e, s'))"
  shows "sw_pt s' = sw_pt s" "sw_queue s' = sw_queue s"
  using assms by (auto simp: swapfs_write_def Let_def split: if_splits prod.splits)

lemma swapfs_write_total: "\<exists>e s'. swapfs_write io entry p s = Some (Inr (e, s'))"
  by (simp add: swapfs_write_def Let_def split: prod.split)

lemma evict_failed:
  assumes "evict io root victim va (t, i) sl s = Some (Inr (False, s'))"
  shows "\<exists>d w x. s' = s\<lparr>sw_disk := d, sw_pt := (sw_pt s)\<lparr>swap_st := release_entry (swap_entry sl w x) (swap_st (sw_pt s))\<rparr>,
    sw_queue := victim # sw_queue s\<rparr>"
proof -
  let ?r = "ptmem (sw_pt s) t i"
  let ?e = "swap_entry sl (pte_writable ?r) (pte_executable ?r)"
  obtain e s1 where w: "swapfs_write io ?e victim s = Some (Inr (e, s1))" using swapfs_write_total by blast
  note fr = swapfs_write_frame [OF w]
  have s1: "s1 = s\<lparr>sw_disk := sw_disk s1\<rparr>" using fr by simp
  show ?thesis
  proof (cases "e \<noteq> Err_None \<or> ptmem (sw_pt s1) t i \<noteq> ?r \<or> ref_count (pages (parea (sw_pt s1)) victim) \<noteq> 1")
    case True
    then have "evict io root victim va (t, i) sl s = s_bind (on_slots (\<lambda>st. ((), release_entry ?e st))) (\<lambda>_. requeue victim) s1"
      using w by (simp add: evict_def Let_def s_bind_def [of "swapfs_write io ?e victim"])
    then have "s' = s1\<lparr>sw_pt := (sw_pt s1)\<lparr>swap_st := release_entry ?e (swap_st (sw_pt s1))\<rparr>, sw_queue := victim # sw_queue s1\<rparr>"
      using assms unfolding put_back by simp
    then have "s' = s\<lparr>sw_disk := sw_disk s1, sw_pt := (sw_pt s)\<lparr>swap_st := release_entry ?e (swap_st (sw_pt s))\<rparr>, sw_queue := victim # sw_queue s\<rparr>"
      using fr by simp
    then show ?thesis by blast
  next
    case False
    then have "evict io root victim va (t, i) sl s = s_bind (on_pt (\<lambda>m. m_free victim (on_page victim (\<lambda>q. q\<lparr>ref_count := ref_count q - 1\<rparr>)
        (invalidate_tlb_page root va (put_pte t i ?e m))))) (\<lambda>_. s_ret True) s1"
      using w by (simp add: evict_def Let_def s_bind_def [of "swapfs_write io ?e victim"])
    then show ?thesis using assms by (auto simp: s_bind_def split: option.splits sum.splits)
  qed
qed

lemma swap_out_one_cases:
  assumes "sw_queue s = victim # q"
  obtains (no_slot) e st where "reserve_slot (swap_st (sw_pt s)) = (Inl e, st)"
      "swap_out_one io root s = Some (Inr (False, s\<lparr>sw_pt := (sw_pt s)\<lparr>swap_st := st\<rparr>\<rparr>))"
  | (unsuitable) sl st where "reserve_slot (swap_st (sw_pt s)) = (Inr sl, st)"
      "swap_out_one io root s = Some (Inr (False, s\<lparr>sw_pt := (sw_pt s)\<lparr>swap_st := release_entry (swap_entry sl False False) st\<rparr>\<rparr>))"
  | (evict) sl st va t i where "reserve_slot (swap_st (sw_pt s)) = (Inr sl, st)"
      "va = find_va_for_page (sw_pt s) root victim" "get_pte root va False (sw_pt s) = Some (Inr (Some (t, i), sw_pt s))"
      "pte_present (ptmem (sw_pt s) t i)" "pte_user (ptmem (sw_pt s) t i)"
      "swap_out_one io root s = evict io root victim va (t, i) sl (s\<lparr>sw_queue := q, sw_pt := (sw_pt s)\<lparr>swap_st := st\<rparr>\<rparr>)"
proof -
  let ?va = "find_va_for_page (sw_pt s) root victim" and ?s = "s\<lparr>sw_queue := q\<rparr>"
  obtain r st where r: "reserve_slot (swap_st (sw_pt s)) = (r, st)" by fastforce
  let ?s1 = "s\<lparr>sw_queue := q, sw_pt := (sw_pt s)\<lparr>swap_st := st\<rparr>\<rparr>"
  obtain ptep where p: "(if ?va \<noteq> 0 then on_pt (get_pte root ?va False) else s_ret None) ?s = Some (Inr (ptep, ?s))"
    using on_pt_lookup [of root ?va ?s] by (cases "?va = 0") auto
  have eq: "swap_out_one io root s =
     (case (ptep, r) of
        (Some (t, i), Inr sl) \<Rightarrow>
          if \<not> pte_present (ptmem (sw_pt s) t i) \<or> \<not> pte_user (ptmem (sw_pt s) t i) \<or> ref_count (pages (parea (sw_pt s)) victim) \<noteq> 1
          then s_bind (on_slots (\<lambda>st. ((), release_entry (swap_entry sl False False) st))) (\<lambda>_. requeue victim) ?s1
          else evict io root victim ?va (t, i) sl ?s1
      | (None, Inr sl) \<Rightarrow> s_bind (on_slots (\<lambda>st. ((), release_entry (swap_entry sl False False) st))) (\<lambda>_. requeue victim) ?s1
      | (_, Inl _) \<Rightarrow> requeue victim ?s1)"
    using p r assms unfolding swap_out_one_def Let_def
    by (cases ptep; cases r) (simp_all add: case_prod_beta swap_out_victim_def s_bind_def [of "if _ then _ else _"] s_bind_def [of "on_slots reserve_slot"] on_slots_def [of reserve_slot])
  have restored: "?s1\<lparr>sw_pt := X, sw_queue := victim # sw_queue ?s1\<rparr> = s\<lparr>sw_pt := X\<rparr>" for X using assms by (cases s) simp
  show thesis
  proof (cases r)
    case (Inl e)
    then show thesis using no_slot [of e st] r eq restored [of "sw_pt ?s1"] by (auto simp: requeue_def split: option.splits prod.splits)
  next
    case (Inr sl)
    show thesis
    proof (cases ptep)
      case None
      then show thesis using unsuitable [of sl st] r eq Inr restored by (simp add: put_back)
    next
      case (Some ti)
      obtain t i where ti: "ti = (t, i)" by fastforce
      show thesis
      proof (cases "pte_present (ptmem (sw_pt s) t i) \<and> pte_user (ptmem (sw_pt s) t i) \<and> ref_count (pages (parea (sw_pt s)) victim) = 1")
        case False
        then show thesis using unsuitable [of sl st] r eq Inr Some ti restored by (auto simp: put_back)
      next
        case True
        have "?va \<noteq> 0" using p Some by auto
        then have "get_pte root ?va False (sw_pt s) = Some (Inr (Some (t, i), sw_pt s))"
          using p Some ti get_pte_lookup [of root ?va "sw_pt s"] by (auto simp: on_pt_def)
        then show thesis using evict [of sl st ?va t i] r eq Inr Some ti True by simp
      qed
    qed
  qed
qed

text \<open>C25.
  An attempt to swap a page out that fails keeps every mapping and every page frame as it was, puts
  the page back at the head of the queue and gives its slot back, as \<^verbatim>\<open>swap.h\<close> promises.
\<close>

theorem swap_out_failure_keeps:
  assumes "slots_wf (swap_st (sw_pt s))" and "swap_out_one io root s = Some (Inr (False, s'))"
  shows "same_residents s s'"
proof (cases "sw_queue s")
  case Nil
  then have "s' = s" using assms(2) by (simp add: swap_out_one_def swap_out_victim_def)
  then show ?thesis using assms(1) by (simp add: same_residents_def)
next
  case (Cons victim q)
  show ?thesis
  proof (rule swap_out_one_cases [OF Cons, of io root])
    fix e st assume "reserve_slot (swap_st (sw_pt s)) = (Inl e, st)"
      "swap_out_one io root s = Some (Inr (False, s\<lparr>sw_pt := (sw_pt s)\<lparr>swap_st := st\<rparr>\<rparr>))"
    then show ?thesis using reserve_failed [OF assms(1)] assms(2) by (simp add: same_residents_def)
  next
    fix sl st assume "reserve_slot (swap_st (sw_pt s)) = (Inr sl, st)"
      "swap_out_one io root s = Some (Inr (False, s\<lparr>sw_pt := (sw_pt s)\<lparr>swap_st := release_entry (swap_entry sl False False) st\<rparr>\<rparr>))"
    then show ?thesis using reserve_release [OF assms(1)] assms(2) by (simp add: same_residents_def)
  next
    fix sl st va t i
    let ?s1 = "s\<lparr>sw_queue := q, sw_pt := (sw_pt s)\<lparr>swap_st := st\<rparr>\<rparr>"
    assume r: "reserve_slot (swap_st (sw_pt s)) = (Inr sl, st)"
      and "swap_out_one io root s = evict io root victim va (t, i) sl ?s1"
    with assms(2) have "evict io root victim va (t, i) sl ?s1 = Some (Inr (False, s'))" by simp
    from evict_failed [OF this] obtain d w x where
      "s' = ?s1\<lparr>sw_disk := d, sw_pt := (sw_pt ?s1)\<lparr>swap_st := release_entry (swap_entry sl w x) st\<rparr>, sw_queue := victim # q\<rparr>" by auto
    then show ?thesis using reserve_release [OF assms(1) r] Cons by (simp add: same_residents_def)
  qed
qed

section \<open>A page comes back with its bytes\<close>

lemma evict_done:
  assumes "evict io root victim va (t, i) sl s = Some (Inr (True, s'))"
    and e: "e = swap_entry sl (pte_writable (ptmem (sw_pt s) t i)) (pte_executable (ptmem (sw_pt s) t i))"
  obtains s1 where "swapfs_write io e victim s = Some (Inr (Err_None, s1))" "sw_disk s' = sw_disk s1"
    "swap_st (sw_pt s') = swap_st (sw_pt s)" "ptmem (sw_pt s') t i = e"
proof -
  obtain err s1 where w: "swapfs_write io e victim s = Some (Inr (err, s1))" using swapfs_write_total by blast
  note fr = swapfs_write_frame [OF w]
  show thesis
  proof (cases "err \<noteq> Err_None \<or> ptmem (sw_pt s1) t i \<noteq> ptmem (sw_pt s) t i \<or> ref_count (pages (parea (sw_pt s1)) victim) \<noteq> 1")
    case True
    then have "evict io root victim va (t, i) sl s = s_bind (on_slots (\<lambda>st. ((), release_entry e st))) (\<lambda>_. requeue victim) s1"
      using w by (simp add: evict_def Let_def s_bind_def [of "swapfs_write io e victim"] flip: e)
    then show thesis using assms(1) unfolding put_back by simp
  next
    case False
    let ?m = "on_page victim (\<lambda>q. q\<lparr>ref_count := ref_count q - 1\<rparr>) (invalidate_tlb_page root va (put_pte t i e (sw_pt s1)))"
    have "evict io root victim va (t, i) sl s = s_bind (on_pt (\<lambda>m. m_free victim (on_page victim (\<lambda>q. q\<lparr>ref_count := ref_count q - 1\<rparr>)
        (invalidate_tlb_page root va (put_pte t i e m))))) (\<lambda>_. s_ret True) s1"
      using w False by (simp add: evict_def Let_def s_bind_def [of "swapfs_write io e victim"] flip: e)
    then obtain a where "s' = s1\<lparr>sw_pt := ?m\<lparr>parea := a\<rparr>\<rparr>"
      using assms(1) by (auto simp: s_bind_def on_pt_def m_free_def split: option.splits sum.splits)
    moreover have "swap_st ?m = swap_st (sw_pt s1)" "ptmem ?m t i = e"
      by (simp_all add: on_page_def invalidate_tlb_page_def flush_page_def put_pte_def)
    ultimately show thesis using that [of s1] w False fr by simp
  qed
qed

lemma mem_bytes_set: "length bs = n \<Longrightarrow> n \<le> 2 ^ 63 \<Longrightarrow> mem_bytes (set_bytes pa bs pm) pa n = bs"
  by (rule nth_equalityI) (simp_all add: mem_bytes_def set_bytes_get)

lemma length_mem_bytes [simp]: "length (mem_bytes pm pa n) = n"
  by (simp add: mem_bytes_def)

lemma slot_lba_unat:
  assumes "0 < unat sl" and "unat sl < 2 ^ 24"
  shows "unat (slot_lba sl) = 8 * (unat sl - 1)"
proof -
  have "1 \<le> sl" using assms(1) by (simp add: word_le_nat_alt)
  then have d: "unat (sl - 1) = unat sl - 1" by (simp add: unat_sub)
  then have "unat (to_u64 (sl - 1) * word_of_nat BLOCKS_PER_PAGE) = 8 * (unat sl - 1)"
    using assms(2) by (simp add: BLOCKS_PER_PAGE_def unat_word_ariths to_u64_def unsigned_ucast_eq take_bit_nat_eq_self)
  then show ?thesis using assms(2) by (simp add: slot_lba_def to_u32_def unsigned_ucast_eq take_bit_nat_eq_self)
qed

text \<open>C9.
  A page that was swapped out comes back with its bytes: the entry left in the page table is not
  present, keeps the rights to write and execute of the mapping and names a slot that was free, and
  reading that entry into any page gives exactly the bytes the page had.
\<close>

theorem swap_roundtrip:
  assumes "block_store io sector ready" and "ready (sw_disk s)"
    and "8 * (unat (slot_limit (swap_st (sw_pt s))) - 1) \<le> unat (dev_blocks io (sw_disk s))"
    and "slots_wf (swap_st (sw_pt s))" and "sw_queue s = victim # q"
    and "swap_out_one io root s = Some (Inr (True, s1))"
  shows "\<exists>t i e. get_pte root (find_va_for_page (sw_pt s) root victim) False (sw_pt s) = Some (Inr (Some (t, i), sw_pt s)) \<and>
    ptmem (sw_pt s1) t i = e \<and> \<not> pte_present e \<and>
    (e AND ENTRY_WRITE \<noteq> 0) = pte_writable (ptmem (sw_pt s) t i) \<and>
    (e AND ENTRY_EXECUTE \<noteq> 0) = pte_executable (ptmem (sw_pt s) t i) \<and>
    allocated_slot (swap_st (sw_pt s)) e = 0 \<and>
    (\<forall>p. \<exists>s2. swapfs_read io e p s1 = Some (Inr (Err_None, s2)) \<and>
       mem_bytes (ptmem (sw_pt s2)) (page_to_phys p) 4096 = mem_bytes (ptmem (sw_pt s)) (page_to_phys victim) 4096)"
proof -
  let ?st = "swap_st (sw_pt s)"
  show ?thesis
  proof (rule swap_out_one_cases [OF assms(5), of io root])
    fix sl st va t i
    let ?s0 = "s\<lparr>sw_queue := q, sw_pt := (sw_pt s)\<lparr>swap_st := st\<rparr>\<rparr>" and ?r = "ptmem (sw_pt s) t i"
    define e where "e = swap_entry sl (pte_writable ?r) (pte_executable ?r)"
    assume r: "reserve_slot ?st = (Inr sl, st)" and va: "va = find_va_for_page (sw_pt s) root victim"
      and pte: "get_pte root va False (sw_pt s) = Some (Inr (Some (t, i), sw_pt s))"
      and "swap_out_one io root s = evict io root victim va (t, i) sl ?s0"
    with assms(6) have ev: "evict io root victim va (t, i) sl ?s0 = Some (Inr (True, s1))" by simp
    note rr = reserve_release [OF assms(4) r]
    have sl: "unat sl < 2 ^ 24" using rr(1,3) by (simp add: slots_wf_def MAX_OFFSET_LIMIT_def)
    note ent = swap_entry_fields [OF sl, of "pte_writable ?r" "pte_executable ?r", folded e_def]
    have al: "allocated_slot st e = sl" using allocated_slot_entry [OF rr(1-3)] rr(4) by (simp add: e_def)
    have "allocated_slot ?st e = 0" using allocated_slot_entry [OF assms(4) rr(2)] rr(3,5,6) by (simp add: e_def)
    obtain sa where w: "swapfs_write io e victim ?s0 = Some (Inr (Err_None, sa))" "sw_disk s1 = sw_disk sa"
      "swap_st (sw_pt s1) = st" "ptmem (sw_pt s1) t i = e"
      by (rule evict_done [OF ev, of e]) (simp_all add: e_def)
    have dev: "sw_device st \<noteq> None" and sl0: "sl \<noteq> 0" using rr(1,2) by (auto simp: slots_wf_def swap_enabled_def split: option.splits)
    let ?bs = "mem_bytes (ptmem (sw_pt s)) (page_to_phys victim) 4096"
    have dw: "dev_write io (sw_disk s) (slot_lba sl) ?bs 8 = (Err_None, sw_disk s1)"
      using w(1,2) dev sl0 al by (auto simp: swapfs_write_def Let_def BLOCKS_PER_PAGE_def split: prod.splits)
    have rng: "unat (slot_lba sl) + 8 \<le> unat (dev_blocks io (sw_disk s))"
      using slot_lba_unat [OF rr(2) sl] rr(2,3,5) assms(3) by simp
    have h: "holds io sector ready (sw_disk s) (sw_disk s1) (write_sectors (sector (sw_disk s)) (unat (slot_lba sl)) 8 ?bs)"
      using block_store.write_ok [OF assms(1,2) rng, of ?bs] dw by simp
    then have rd: "\<exists>d2. dev_read io (sw_disk s1) (slot_lba sl) 8 = (Err_None, ?bs, d2)"
      using block_store.read_ok [OF assms(1), of "sw_disk s1" "slot_lba sl" 8] rng sectors_from_written [of ?bs 8] by (auto simp: holds_def)
    have back_in: "\<exists>s2. swapfs_read io e p s1 = Some (Inr (Err_None, s2)) \<and> mem_bytes (ptmem (sw_pt s2)) (page_to_phys p) 4096 = ?bs" for p
      using rd w(3) al dev sl0 by (auto simp: swapfs_read_def BLOCKS_PER_PAGE_def mem_bytes_set)
    have "\<not> pte_present e" using ent(6) by (simp add: pte_present_def PTE_P_def)
    then show ?thesis using pte va w(4) ent(4,5) \<open>allocated_slot ?st e = 0\<close> back_in by blast
  qed (use assms(6) in simp_all)
qed

section \<open>A concrete swap\<close>

lemma first_some_hit:
  "i < n \<Longrightarrow> f i = Some v \<Longrightarrow> \<forall>j<i. f j = None \<Longrightarrow> first_some f [0..<n] = Some v"
proof -
  assume a: "i < n" "f i = Some v" "\<forall>j<i. f j = None"
  have none: "\<forall>j \<in> set xs. f j = None \<Longrightarrow> first_some f (xs @ ys) = first_some f ys" for xs ys by (induction xs) auto
  have "[0..<n] = [0..<i] @ i # [Suc i..<n]"
    using a(1) upt_add_eq_append [of 0 i "n - i"] upt_conv_Cons [of i n] by simp
  then show ?thesis using none [of "[0..<i]" "i # [Suc i..<n]"] a(2,3) by simp
qed

definition demo_swap_area :: page_area where
  "demo_swap_area = init_memmap empty_area 20 10"

definition demo_swap :: "disk_image swap_machine" where
  "demo_swap = \<lparr>
     sw_pt = demo_machine\<lparr>ptmem := demo_user_memory, parea := upd_page demo_swap_area 9 (\<lambda>p. p\<lparr>ref_count := 1\<rparr>),
       swap_st := \<lparr>sw_device = Some (0, Swap), sw_bits = [0], slot_limit = 3, next_slot = 1\<rparr>\<rparr>,
     sw_disk = \<lparr>img = (\<lambda>_. replicate 512 0), img_blocks = 16\<rparr>, sw_queue = [9]\<rparr>"

lemma demo_swap_facts:
  "ptmem (sw_pt demo_swap) = demo_user_memory" "sw_queue demo_swap = [9]"
  "swap_st (sw_pt demo_swap) = \<lparr>sw_device = Some (0, Swap), sw_bits = [0], slot_limit = 3, next_slot = 1\<rparr>"
  "slots_wf (swap_st (sw_pt demo_swap))"
  by (simp_all add: demo_swap_def slots_wf_def swap_enabled_def MAX_OFFSET_LIMIT_def)

lemma page_9: "page_to_phys 9 = 0x9000"
  by (simp add: page_to_phys_def PG_SHIFT_def)

lemma demo_swap_va: "find_va_for_page (sw_pt demo_swap) 0x1000 9 = 0x5000"
proof -
  let ?m = "sw_pt demo_swap"
  note e = demo_swap_facts(1) demo_user_entries demo_entry_facts
  have s0: "scan_pt_for_pa 0 ?m 0x9000 0 0x4000 = 0x5000"
  proof -
    let ?f = "\<lambda>i. let e = ptmem ?m 0x4000 i in if pte_present e \<and> pte_addr e = 0x9000 then Some (0 OR push_bit (LEVEL_SHIFTS ! 3) (word_of_nat i) :: u64) else None"
    have "first_some ?f [0..<PAGE_TABLE_ENTRIES] = Some 0x5000"
      by (rule first_some_hit [of 5]) (simp_all add: e LEVEL_SHIFTS_def)
    then show ?thesis by simp
  qed
  have step: "scan_pt_for_pa (Suc k) ?m 0x9000 0 t = 0x5000"
    if "ptmem ?m t 0 = en" "pte_present en" "\<not> pte_is_block en" "scan_pt_for_pa k ?m 0x9000 0 (pte_addr en) = 0x5000" for k t en
  proof -
    let ?f = "\<lambda>i. let e = ptmem ?m t i in
             if \<not> pte_present e \<or> pte_is_block e then None
             else let va = 0 OR push_bit (LEVEL_SHIFTS ! (PT_WALK_LEVELS - Suc (Suc k))) (word_of_nat i);
                      r = scan_pt_for_pa k ?m 0x9000 va (pte_addr e)
                  in if r \<noteq> 0 then Some r else None"
    have "first_some ?f [0..<(if Suc k = PT_WALK_LEVELS - 1 then USER_TOP_ENTRIES else PAGE_TABLE_ENTRIES)] = Some 0x5000"
      by (rule first_some_hit [of 0]) (use that in \<open>simp_all add: Let_def\<close>)
    then show ?thesis by (simp only: scan_pt_for_pa.simps(2) option.case)
  qed
  have s1: "scan_pt_for_pa (Suc 0) ?m 0x9000 0 0x3000 = 0x5000" by (rule step [of _ "0x4007"]) (simp_all add: e s0 del: scan_pt_for_pa.simps)
  have s2: "scan_pt_for_pa (Suc (Suc 0)) ?m 0x9000 0 0x2000 = 0x5000"
    by (rule step [of _ "0x3007"]) (simp_all add: e s1 del: scan_pt_for_pa.simps)
  have s3: "scan_pt_for_pa (Suc (Suc (Suc 0))) ?m 0x9000 0 0x1000 = 0x5000"
    by (rule step [of _ "0x2007"]) (simp_all add: e s2 del: scan_pt_for_pa.simps)
  have "PT_WALK_LEVELS - 1 = Suc (Suc (Suc 0))" by simp
  then show ?thesis unfolding find_va_for_page_def page_9 using s3 by metis
qed

lemma demo_swap_pte: "get_pte 0x1000 0x5000 False (sw_pt demo_swap) = Some (Inr (Some (0x4000, 5), sw_pt demo_swap))"
proof -
  note e = demo_swap_facts(1) demo_user_entries demo_entry_facts demo_user_index
  have i: "level_index 0x5000 (Suc 0) = 0" "level_index 0x5000 (Suc (Suc 0)) = 0"
    using demo_user_index(2,3) by (simp_all add: numeral_2_eq_2)
  have "walk_levels False 0x5000 0 (Suc (Suc (Suc 0))) 0x1000 (sw_pt demo_swap) = Some (Inr (Some 0x4000, sw_pt demo_swap))"
    by (simp add: m_bind_def descend_level_def Let_def e i)
  then have "walk_levels False 0x5000 0 3 0x1000 (sw_pt demo_swap) = Some (Inr (Some 0x4000, sw_pt demo_swap))"
    unfolding numeral_3_eq_3 .
  then show ?thesis by (simp add: get_pte_def m_bind_def m_ret_def demo_user_index)
qed

lemma demo_swap_out: "\<exists>s1. swap_out_one image_ops 0x1000 demo_swap = Some (Inr (True, s1))"
proof -
  let ?st = "\<lparr>sw_device = Some (0, Swap), sw_bits = [2], slot_limit = 3, next_slot = 2\<rparr>"
  let ?s = "demo_swap\<lparr>sw_queue := [], sw_pt := (sw_pt demo_swap)\<lparr>swap_st := ?st\<rparr>\<rparr>"
  have r: "reserve_slot (swap_st (sw_pt demo_swap)) = (Inr 1, ?st)"
    by (simp add: demo_swap_facts(3) reserve_two swap_enabled_def occupied_def set_occupied_def)
  have leaf: "ptmem (sw_pt demo_swap) 0x4000 5 = 0x9007" by (simp add: demo_swap_facts(1) demo_user_entries)
  have fl: "pte_present 0x9007" "pte_user 0x9007" "pte_writable 0x9007" "pte_executable 0x9007"
    by (simp_all add: pte_present_def pte_user_def pte_writable_def pte_executable_def PTE_P_def PTE_U_def PTE_W_def PTE_NX_def)
  have ref: "ref_count (pages (parea (sw_pt demo_swap)) 9) = 1" by (simp add: demo_swap_def upd_page_def)
  let ?e = "swap_entry 1 True True"
  have al: "allocated_slot ?st ?e = 1"
    by (simp add: allocated_slot_def swap_enabled_def occupied_def swap_entry_def to_u32_def to_u64_def ENTRY_SLOT_MASK_def ENTRY_FLAGS_def
        ENTRY_HAS_PERMISSIONS_def ENTRY_WRITE_def ENTRY_EXECUTE_def MAX_OFFSET_LIMIT_def)
  have lba: "slot_lba 1 = 0" by (simp add: slot_lba_def to_u32_def to_u64_def)
  obtain d where w: "swapfs_write image_ops ?e 9 ?s = Some (Inr (Err_None, ?s\<lparr>sw_disk := d\<rparr>))"
    by (simp add: swapfs_write_def Let_def al lba image_ops_def image_write_def demo_swap_def BLOCKS_PER_PAGE_def)
  have ar: "area_runs demo_swap_area [(20, 10)]" and wf: "wf_runs MAX_PAGES ((9, unat (1 :: u64)) # [(20, 10)])"
    using init_memmap_runs [OF empty_area_runs, of MAX_PAGES 20 10] by (simp_all add: demo_swap_area_def wf_runs_def apart_def MAX_PAGES_def)
  have z: "ref_count (pages demo_swap_area i) = 0" for i using init_memmap_refs [OF empty_area_refs] by (simp add: demo_swap_area_def)
  obtain a where a: "free_pages demo_swap_area 9 1 = Some (Inr a)"
    using allocator_free_runs [OF ar wf] z by (auto simp: free_pages_def MAX_PAGES_def)
  have undo: "upd_page (upd_page demo_swap_area 9 (\<lambda>p. p\<lparr>ref_count := 1\<rparr>)) 9 (\<lambda>p. p\<lparr>ref_count := ref_count p - 1\<rparr>) = demo_swap_area"
    using z [of 9] by (cases demo_swap_area) (auto simp: upd_page_def fun_eq_iff)
  have "\<exists>s1. evict image_ops 0x1000 9 0x5000 (0x4000, 5) 1 ?s = Some (Inr (True, s1))"
    using w leaf ref a fl
    by (simp add: evict_def Let_def s_bind_def on_pt_def m_free_def on_page_def invalidate_tlb_page_def flush_page_def put_pte_def
        demo_swap_def undo)
  then show ?thesis
    using demo_swap_va demo_swap_pte r leaf fl ref
    by (simp add: swap_out_one_def swap_out_victim_def demo_swap_facts(2) s_bind_def on_pt_def on_slots_def)
qed

theorem swap_roundtrip_witness:
  "\<exists>s1 t i. swap_out_one image_ops 0x1000 demo_swap = Some (Inr (True, s1)) \<and> \<not> pte_present (ptmem (sw_pt s1) t i) \<and>
     (\<exists>s2. swapfs_read image_ops (ptmem (sw_pt s1) t i) 25 s1 = Some (Inr (Err_None, s2)) \<and>
        mem_bytes (ptmem (sw_pt s2)) (page_to_phys 25) 4096 = mem_bytes demo_user_memory (page_to_phys 9) 4096)"
proof -
  obtain s1 where o: "swap_out_one image_ops 0x1000 demo_swap = Some (Inr (True, s1))" using demo_swap_out by blast
  have "image_ready (sw_disk demo_swap)" "8 * (unat (slot_limit (swap_st (sw_pt demo_swap))) - 1) \<le> unat (dev_blocks image_ops (sw_disk demo_swap))"
    by (simp_all add: demo_swap_def image_ready_def image_ops_def)
  from swap_roundtrip [OF image.block_store_axioms this demo_swap_facts(4,2) o] show ?thesis
    unfolding demo_swap_facts(1) using o by blast
qed

text \<open>With both slots taken the attempt fails.\<close>

definition demo_full :: "disk_image swap_machine" where
  "demo_full = demo_swap\<lparr>sw_pt := (sw_pt demo_swap)\<lparr>swap_st := (swap_st (sw_pt demo_swap))\<lparr>sw_bits := [6]\<rparr>\<rparr>\<rparr>"

theorem swap_out_failure_keeps_witness:
  "\<exists>s'. swap_out_one image_ops 0x1000 demo_full = Some (Inr (False, s')) \<and> sw_queue s' = [9] \<and> same_residents demo_full s'"
proof -
  have st: "swap_st (sw_pt demo_full) = \<lparr>sw_device = Some (0, Swap), sw_bits = [6], slot_limit = 3, next_slot = 1\<rparr>"
    and q: "sw_queue demo_full = [9]"
    by (simp_all add: demo_full_def demo_swap_facts)
  have wf: "slots_wf (swap_st (sw_pt demo_full))" by (simp add: st slots_wf_def swap_enabled_def MAX_OFFSET_LIMIT_def)
  have "fst (reserve_slot (swap_st (sw_pt demo_full))) = Inl Full"
    by (simp add: st reserve_two swap_enabled_def occupied_def set_occupied_def)
  then obtain s' where "swap_out_one image_ops 0x1000 demo_full = Some (Inr (False, s'))"
    by (cases rule: swap_out_one_cases [OF q, where io = image_ops and root = "0x1000"]) auto
  with swap_out_failure_keeps [OF wf this] q show ?thesis by (auto simp: same_residents_def)
qed

end
