(* ===== verification/Elf_Loader.thy ===== *)
theory Elf_Loader
  imports Vmm Byte_Codec
begin

unbundle bit_operations_syntax

text \<open>
  Loading of programs (\<^verbatim>\<open>kernel/exec/elf_loader.cpp\<close>, \<^verbatim>\<open>include/base/elf.h\<close>): the check of an ELF file, the
  mapping of its segments into an address space and the copies of their bytes, and the user stack
  of \<^verbatim>\<open>kernel/exec/exec.cpp\<close>. The theory shows that loading never crashes the kernel, that it fails
  only for a bad file or lack of memory, and that a loaded program sees exactly its segments: the
  bytes of the file, zeros behind them, and nothing else changed. Messages are left out.
\<close>

section \<open>File format\<close>

definition ELF_PT_LOAD :: u32 where "ELF_PT_LOAD = 1"
definition ELF_PF_X :: u32 where "ELF_PF_X = 1"
definition ELF_PF_W :: u32 where "ELF_PF_W = 2"
definition EM_CURRENT :: u16 where "EM_CURRENT = 0x3E"
definition ELF_MAGIC :: u32 where "ELF_MAGIC = 0x464C457F"

record elf_header =
  e_magic :: u32
  e_elf :: bytes
  e_type :: u16
  e_machine :: u16
  e_version :: u32
  e_entry :: u64
  e_phoff :: u64
  e_shoff :: u64
  e_flags :: u32
  e_ehsize :: u16
  e_phentsize :: u16
  e_phnum :: u16
  e_shentsize :: u16
  e_shnum :: u16
  e_shstrndx :: u16

record program_header =
  p_type :: u32
  p_flags :: u32
  p_offset :: u64
  p_va :: u64
  p_pa :: u64
  p_filesz :: u64
  p_memsz :: u64
  p_align :: u64

text \<open>The sizes of the two structures.\<close>

abbreviation ELF_HEADER_SIZE :: nat where "ELF_HEADER_SIZE \<equiv> 64"
abbreviation PROGRAM_HEADER_SIZE :: nat where "PROGRAM_HEADER_SIZE \<equiv> 56"

definition elf_header_at :: "bytes \<Rightarrow> elf_header" where
  "elf_header_at bs = \<lparr>
     e_magic = le32 bs 0, e_elf = take 12 (drop 4 bs), e_type = le16 bs 16, e_machine = le16 bs 18, e_version = le32 bs 20,
     e_entry = le64 bs 24, e_phoff = le64 bs 32, e_shoff = le64 bs 40, e_flags = le32 bs 48, e_ehsize = le16 bs 52,
     e_phentsize = le16 bs 54, e_phnum = le16 bs 56, e_shentsize = le16 bs 58, e_shnum = le16 bs 60, e_shstrndx = le16 bs 62\<rparr>"

definition program_header_at :: "bytes \<Rightarrow> nat \<Rightarrow> program_header" where
  "program_header_at bs i = \<lparr>
     p_type = le32 bs i, p_flags = le32 bs (i + 4), p_offset = le64 bs (i + 8), p_va = le64 bs (i + 16), p_pa = le64 bs (i + 24),
     p_filesz = le64 bs (i + 32), p_memsz = le64 bs (i + 40), p_align = le64 bs (i + 48)\<rparr>"

definition header_valid :: "elf_header \<Rightarrow> bool" where
  "header_valid eh \<longleftrightarrow> e_magic eh = ELF_MAGIC \<and> e_elf eh ! 0 = 2 \<and> e_version eh = 1 \<and> e_machine eh = EM_CURRENT"

definition header_executable :: "elf_header \<Rightarrow> bool" where
  "header_executable eh \<longleftrightarrow> header_valid eh \<and> e_type eh = 2 \<and> e_phoff eh \<noteq> 0 \<and> e_phnum eh \<noteq> 0"

section \<open>Checking a file\<close>

definition USER_STACK_TOP :: u64 where "USER_STACK_TOP = 0x00007FFFFFFFE000"
definition USER_STACK_SIZE :: u64 where "USER_STACK_SIZE = 4 * PG_SIZE"

definition is_elf :: "bytes option \<Rightarrow> bool" where
  "is_elf file_data = (case file_data of None \<Rightarrow> False
     | Some bs \<Rightarrow> ELF_HEADER_SIZE \<le> length bs \<and> header_valid (elf_header_at bs))"

text \<open>One round of the loop; the result tells whether the entry point is in this segment.\<close>

definition validate_segment :: "u64 \<Rightarrow> u64 \<Rightarrow> program_header \<Rightarrow> error + bool" where
  "validate_segment entry file_size ph =
     (if p_type ph \<noteq> ELF_PT_LOAD then Inr False
      else ensure (p_filesz ph \<le> p_memsz ph) Invalid
        (ensure (p_offset ph \<le> file_size \<and> p_filesz ph \<le> file_size - p_offset ph) Invalid
          (if p_memsz ph = 0 then Inr False
           else ensure (PG_SIZE \<le> p_va ph \<and> p_va ph < USER_SPACE_TOP) Invalid
             (ensure (p_memsz ph \<le> USER_SPACE_TOP - p_va ph) Invalid
               (let seg_end = p_va ph + p_memsz ph
                in ensure (seg_end \<le> USER_STACK_TOP - USER_STACK_SIZE \<or> USER_STACK_TOP \<le> p_va ph) Invalid
                     (Inr (p_flags ph AND ELF_PF_X \<noteq> 0 \<and> p_va ph \<le> entry \<and> entry < seg_end)))))))"

fun validate_segments :: "u64 \<Rightarrow> u64 \<Rightarrow> program_header list \<Rightarrow> bool \<Rightarrow> error + bool" where
  "validate_segments entry file_size [] executable_entry = Inr executable_entry"
| "validate_segments entry file_size (ph # phs) executable_entry =
     (case validate_segment entry file_size ph of
        Inl e \<Rightarrow> Inl e | Inr x \<Rightarrow> validate_segments entry file_size phs (executable_entry \<or> x))"

text \<open>The program headers of the table, \<open>step\<close> bytes apart.\<close>

definition header_table :: "bytes \<Rightarrow> nat \<Rightarrow> program_header list" where
  "header_table bs step =
     (let eh = elf_header_at bs
      in map (\<lambda>i. program_header_at bs (unat (e_phoff eh + word_of_nat (i * step)))) [0..<unat (e_phnum eh)])"

definition elf_validate :: "bytes \<Rightarrow> error" where
  "elf_validate bs =
     (let eh = elf_header_at bs; file_size = word_of_nat (length bs) :: u64
      in if length bs < ELF_HEADER_SIZE \<or> \<not> header_valid eh \<or> \<not> header_executable eh \<or>
            e_ehsize eh \<noteq> word_of_nat ELF_HEADER_SIZE \<or> e_phentsize eh \<noteq> word_of_nat PROGRAM_HEADER_SIZE \<or>
            e_phoff eh < word_of_nat ELF_HEADER_SIZE \<or> file_size < e_phoff eh \<or>
            file_size - e_phoff eh < ucast (e_phnum eh) * word_of_nat PROGRAM_HEADER_SIZE \<or>
            e_entry eh < PG_SIZE \<or> USER_SPACE_TOP \<le> e_entry eh
         then Invalid
         else case validate_segments (e_entry eh) file_size (header_table bs PROGRAM_HEADER_SIZE) False of
                Inl e \<Rightarrow> e | Inr x \<Rightarrow> if x then Err_None else Invalid)"

section \<open>Loading\<close>

definition zero_frame :: "nat \<Rightarrow> pt_machine \<Rightarrow> pt_machine" where
  "zero_frame p m = m\<lparr>ptmem := (ptmem m)(page_to_phys p := (\<lambda>_. 0))\<rparr>"

text \<open>A new zeroed page.\<close>

definition map_fresh_page :: "u64 \<Rightarrow> u32 \<Rightarrow> u64 \<Rightarrow> error mop" where
  "map_fresh_page root perm va =
     m_bind (alloc_and_map_page root va perm) (\<lambda>page m.
       case page of None \<Rightarrow> m_ret NoMem m | Some p \<Rightarrow> m_ret Err_None (zero_frame p m))"

definition map_segment_page :: "u64 \<Rightarrow> u32 \<Rightarrow> u64 \<Rightarrow> error mop" where
  "map_segment_page root perm va =
     m_bind (get_pte root va False) (\<lambda>existing m.
       case existing of
         None \<Rightarrow> map_fresh_page root perm va m
       | Some (t, i) \<Rightarrow>
           let e = ptmem m t i
           in if pte_present e then m_ret Err_None (put_pte t i (make_pte_page (pte_addr e) (merge_user_page_perm e perm)) m)
              else map_fresh_page root perm va m)"

text \<open>\<^verbatim>\<open>for (va = first; va < last; va += PG_SIZE)\<close>, left at the first error.\<close>

partial_function (option) page_loop :: "(u64 \<Rightarrow> error mop) \<Rightarrow> u64 \<Rightarrow> u64 \<Rightarrow> pt_machine \<Rightarrow> (error \<times> pt_machine) exec" where
  "page_loop f va last_va m =
     (if va < last_va then
        case f va m of
          None \<Rightarrow> None
        | Some (Inl x) \<Rightarrow> Some (Inl x)
        | Some (Inr (e, m')) \<Rightarrow> if e \<noteq> Err_None then Some (Inr (e, m')) else page_loop f (va + PG_SIZE) last_va m'
      else Some (Inr (Err_None, m)))"

text \<open>The copy by pages with \<^verbatim>\<open>iterate_pages\<close>.\<close>

function copy_segment :: "u64 \<Rightarrow> u64 \<Rightarrow> u64 \<Rightarrow> bytes \<Rightarrow> unit mop" where
  "copy_segment root va n src =
     (if n = 0 then m_ret ()
      else m_bind (get_pte root va False) (\<lambda>ptep m.
             case ptep of
               None \<Rightarrow> Some (Inl Panicked)
             | Some (t, i) \<Rightarrow>
                 let e = ptmem m t i; c = unat (chunk_bytes va n)
                 in if \<not> pte_present e then Some (Inl Panicked)
                    else copy_segment root (va + chunk_bytes va n) (n - chunk_bytes va n) (drop c src)
                           (m\<lparr>ptmem := set_bytes (pte_addr e + (va AND PG_MASK)) (take c src) (ptmem m)\<rparr>)))"
  by pat_completeness auto
termination by (relation "measure (\<lambda>(root, va, n, src). unat n)") (auto intro: chunk_progress)

declare copy_segment.simps [simp del]

definition segment_perm :: "program_header \<Rightarrow> u32" where
  "segment_perm ph = user_page_perm (p_flags ph AND ELF_PF_W \<noteq> 0) (p_flags ph AND ELF_PF_X \<noteq> 0)"

definition load_segment :: "bytes \<Rightarrow> u64 \<Rightarrow> program_header \<Rightarrow> error mop" where
  "load_segment bs root ph =
     (if p_type ph \<noteq> ELF_PT_LOAD \<or> p_memsz ph = 0 then m_ret Err_None
      else m_bind (page_loop (map_segment_page root (segment_perm ph)) (round_down (p_va ph) PG_SIZE)
                     (round_up (p_va ph + p_memsz ph) PG_SIZE)) (\<lambda>e.
             if e \<noteq> Err_None then m_ret e
             else if p_filesz ph > 0
                  then m_bind (copy_segment root (p_va ph) (p_filesz ph) (drop (unat (p_offset ph)) bs)) (\<lambda>_. m_ret Err_None)
                  else m_ret Err_None))"

fun load_segments :: "bytes \<Rightarrow> u64 \<Rightarrow> program_header list \<Rightarrow> error mop" where
  "load_segments bs root [] = m_ret Err_None"
| "load_segments bs root (ph # phs) =
     m_bind (load_segment bs root ph) (\<lambda>e. if e \<noteq> Err_None then m_ret e else load_segments bs root phs)"

definition elf_load :: "bytes option \<Rightarrow> u64 option \<Rightarrow> (error + u64) mop" where
  "elf_load file_data pgdir =
     (case (file_data, pgdir) of
        (Some bs, Some root) \<Rightarrow>
          let eh = elf_header_at bs; e = elf_validate bs
          in if e \<noteq> Err_None then m_ret (Inl e)
             else m_bind (load_segments bs root (header_table bs (unat (e_phentsize eh)))) (\<lambda>e.
                    m_ret (if e \<noteq> Err_None then Inl e else Inr (e_entry eh)))
      | _ \<Rightarrow> m_ret (Inl Invalid))"

definition VM_PRESENT :: u32 where "VM_PRESENT = 0x01"
definition VM_USER_RW :: u32 where "VM_USER_RW = VM_PRESENT OR VM_WRITE OR VM_USER OR VM_NOEXEC"

definition setup_user_stack :: "u64 option \<Rightarrow> (error + u64) mop" where
  "setup_user_stack pgdir =
     (case pgdir of
        None \<Rightarrow> m_ret (Inl Invalid)
      | Some root \<Rightarrow>
          m_bind (page_loop (map_fresh_page root VM_USER_RW) (USER_STACK_TOP - USER_STACK_SIZE) USER_STACK_TOP) (\<lambda>e.
            m_ret (if e \<noteq> Err_None then Inl e else Inr USER_STACK_TOP)))"

section \<open>Pages of user addresses\<close>

lemma low_bits: "unat (a :: u64) < 2 ^ 47 \<Longrightarrow> bit a k \<Longrightarrow> k < 47"
  by (rule small_word_bits)

lemma user_unat: "a < USER_SPACE_TOP \<longleftrightarrow> unat a < 2 ^ 47"
  using user_bounds by (simp add: word_less_nat_alt)

lemma page_base: "a AND NOT PG_MASK = push_bit 12 (drop_bit 12 (a :: u64))"
  by (rule bit_word_eqI) (auto simp: bit_and_iff bit_not_iff bit_push_bit_iff bit_drop_bit_eq pte_bits)

lemma unat_page_base: "unat (a AND NOT PG_MASK) = unat a div 4096 * 4096"
proof -
  have d: "unat (drop_bit 12 a) = unat a div 4096" by (simp add: drop_bit_eq_div unat_div_distrib)
  have "unat a < 2 ^ 64" using unat_lt_u64 by simp
  then have "unat (drop_bit 12 a) * 4096 < 2 ^ 64" unfolding d by linarith
  then show ?thesis unfolding page_base push_bit_eq_mult by (simp add: unat_word_ariths d)
qed

lemma page_base_eq: "a AND NOT PG_MASK = b AND NOT PG_MASK \<longleftrightarrow> unat a div 4096 = unat b div 4096"
  unfolding word_unat_eq_iff unat_page_base by simp

lemma same_page_number:
  assumes "va < USER_SPACE_TOP" and "a < USER_SPACE_TOP"
  shows "same_page va a \<longleftrightarrow> unat va div 4096 = unat a div 4096"
proof
  assume sp: "same_page va a"
  have "va AND NOT PG_MASK = a AND NOT PG_MASK"
  proof (rule bit_word_eqI)
    fix k assume "k < LENGTH(64)"
    then show "bit (va AND NOT PG_MASK) k = bit (a AND NOT PG_MASK) k"
      using same_page_bits [OF sp, of k] low_bits [of va k] low_bits [of a k] assms
      by (auto simp: bit_and_iff bit_not_iff pte_bits user_unat)
  qed
  then show "unat va div 4096 = unat a div 4096" by (simp only: page_base_eq)
qed (simp only: page_base_eq [symmetric] same_page_frame)

text \<open>The upper half of an address space belongs to the kernel.\<close>

definition kernel_half :: "u64 \<Rightarrow> bool" where
  "kernel_half a \<longleftrightarrow> USER_TOP_ENTRIES \<le> level_index a 0"

lemma kernel_half_other:
  assumes "va < USER_SPACE_TOP" and "kernel_half a"
  shows "\<not> same_page va a"
proof -
  have "level_index va 0 < 256"
  proof -
    have "drop_bit 39 va AND 0x1FF \<le> drop_bit 39 va" by (rule word_and_le2)
    moreover have "unat (drop_bit 39 va) < 256" using assms(1) by (simp add: user_unat drop_bit_eq_div unat_div_distrib less_mult_imp_div_less)
    ultimately show ?thesis by (simp add: level_index_def LEVEL_SHIFTS_def word_le_nat_alt)
  qed
  then show ?thesis using assms(2) unfolding same_page_def kernel_half_def by (metis not_le zero_less_numeral)
qed

lemma frame_plus_offset:
  assumes "frame_address pa"
  shows "(pa + (va AND PG_MASK)) AND NOT PG_MASK = pa" "(pa + (va AND PG_MASK)) AND PG_MASK = va AND PG_MASK"
proof -
  have b: "bit pa k \<Longrightarrow> 12 \<le> k" for k using assms by (simp add: frame_address_def)
  have j: "pa + (va AND PG_MASK) = pa OR (va AND PG_MASK)"
    by (rule disjunctive_add) (use b in \<open>fastforce simp: bit_and_iff pte_bits\<close>)
  show "(pa + (va AND PG_MASK)) AND NOT PG_MASK = pa" "(pa + (va AND PG_MASK)) AND PG_MASK = va AND PG_MASK"
    unfolding j by (rule bit_word_eqI; use b in \<open>fastforce simp: bit_and_iff bit_or_iff bit_not_iff pte_bits\<close>)+
qed

section \<open>Address spaces under construction\<close>

definition user_rights :: "pt_machine \<Rightarrow> u64 \<Rightarrow> u64 \<Rightarrow> rights option" where
  "user_rights m root a = map_option snd (address_map m root a)"

text \<open>
  The tables form a tree, user pages are mapped once and apart from the tables and the free pages,
  and nothing in the user half is reserved to the kernel.
\<close>

definition user_frames :: "pt_machine \<Rightarrow> u64 \<Rightarrow> nat set \<Rightarrow> bool" where
  "user_frames m root F \<longleftrightarrow> (\<forall>va pa r. va < USER_SPACE_TOP \<longrightarrow> address_map m root va = Some (pa, r) \<longrightarrow>
     may_use r \<and> table_at (ptmem m) root (va_path va 3) \<noteq> None \<and> pa AND NOT PG_MASK \<notin> page_to_phys ` F)"

definition open_path :: "pt_machine \<Rightarrow> u64 \<Rightarrow> bool" where
  "open_path m root \<longleftrightarrow> (\<forall>va. va < USER_SPACE_TOP \<longrightarrow> path_rights (ptmem m) va 0 3 root = all_rights)"

definition image_ok :: "pt_machine \<Rightarrow> u64 \<Rightarrow> nat set \<Rightarrow> bool" where
  "image_ok m root F \<longleftrightarrow> pt_ok m root F \<and> user_apart m root \<and> (\<forall>i \<in> F. ref_count (pages (parea m) i) = 0) \<and>
     open_path m root \<and> user_frames m root F"

lemma image_okD:
  assumes "image_ok m root F"
  shows "pt_ok m root F" "user_apart m root" "i \<in> F \<Longrightarrow> ref_count (pages (parea m) i) = 0" "open_path m root" "user_frames m root F"
    "area_free MAX_PAGES (parea m) F" "pt_tree (ptmem m) root F" "p \<in> F \<Longrightarrow> p < 2 ^ 32"
proof -
  show "pt_ok m root F" "user_apart m root" "i \<in> F \<Longrightarrow> ref_count (pages (parea m) i) = 0" "open_path m root" "user_frames m root F"
    using assms by (auto simp: image_ok_def)
  show "area_free MAX_PAGES (parea m) F" "pt_tree (ptmem m) root F" using assms by (auto simp: image_ok_def pt_ok_def)
  then show "p \<in> F \<Longrightarrow> p < 2 ^ 32" using ff.holds_bound [of "parea m" F] by (auto simp: MAX_PAGES_def)
qed

lemma user_framesD:
  assumes "user_frames m root F" and "va < USER_SPACE_TOP" and "address_map m root va = Some (pa, r)"
  shows "may_use r" "table_at (ptmem m) root (va_path va 3) \<noteq> None" "pa AND NOT PG_MASK \<notin> page_to_phys ` F"
  using assms unfolding user_frames_def by blast+

text \<open>In such a space every mapped user address is readable, through a last-level entry.\<close>

lemma image_address:
  assumes "image_ok m root F"
  shows "user_address m (Some root) a False = Inr pa \<longleftrightarrow>
    PG_SIZE \<le> a \<and> a < USER_SPACE_TOP \<and> (\<exists>r. address_map m root a = Some (pa, r))"
  using user_framesD(1) [OF image_okD(5) [OF assms]] by (auto simp: user_address_map permits_def)

lemma image_leaf:
  assumes ok: "image_ok m root F" and a: "a < USER_SPACE_TOP" and t: "table_at (ptmem m) root (va_path a 3) = Some t"
  shows "address_map m root a = (let e = ptmem m t (level_index a 3)
    in if pte_present e then Some (pte_addr e + (a AND PG_MASK), entry_rights e) else None)"
  using leaf_translate [OF t] image_okD(4) [OF ok] a leaf_address [OF pte_addr_frame, of _ a]
  by (simp add: address_map_def open_path_def Let_def)

lemma unmapped_byte: "address_map m root a = None \<Longrightarrow> user_byte m (Some root) a = 0"
  unfolding user_byte_def by (cases "user_address m (Some root) a False") (auto simp: user_address_map)

text \<open>The memory of the user pages is that of other frames than the tables.\<close>

lemma user_byte_kept:
  assumes map: "address_map m' root a = address_map m root a"
    and mem: "\<And>pa r. a < USER_SPACE_TOP \<Longrightarrow> address_map m root a = Some (pa, r) \<Longrightarrow> ptmem m' (pa AND NOT PG_MASK) = ptmem m (pa AND NOT PG_MASK)"
  shows "user_byte m' (Some root) a = user_byte m (Some root) a"
proof (cases "user_address m (Some root) a False")
  case (Inr pa)
  then obtain r where r: "PG_SIZE \<le> a" "a < USER_SPACE_TOP" "address_map m root a = Some (pa, r)" "permits False r"
    by (auto simp: user_address_map)
  have "user_address m' (Some root) a False = Inr pa" using r map by (auto simp: user_address_map)
  then show ?thesis using Inr mem [OF r(2,3)] by (simp add: user_byte_def mem_byte_at)
next
  case (Inl e)
  then have "user_address m' (Some root) a False \<noteq> Inr pa" for pa using map by (metis Inl_Inr_False user_address_map)
  then show ?thesis using Inl unfolding user_byte_def by (cases "user_address m' (Some root) a False") (simp, blast)
qed

lemma low_byte: "\<not> PG_SIZE \<le> a \<Longrightarrow> user_byte m (Some root) a = 0"
  unfolding user_byte_def by (cases "user_address m (Some root) a False") (auto simp: user_address_map)

lemma image_byte_kept:
  assumes ok: "image_ok m root F" and map: "\<And>a. address_map m' root a = address_map m root a"
    and mem: "\<And>u. (\<And>q. table_path_ok q \<Longrightarrow> table_at (ptmem m) root q \<noteq> Some u) \<Longrightarrow> u \<notin> page_to_phys ` F \<Longrightarrow> ptmem m' u = ptmem m u"
  shows "user_byte m' (Some root) a = user_byte m (Some root) a"
proof (cases "PG_SIZE \<le> a")
  case True
  show ?thesis
  proof (rule user_byte_kept [OF map])
    fix pa r assume a: "a < USER_SPACE_TOP" "address_map m root a = Some (pa, r)"
    then have "user_address m (Some root) a False = Inr pa" using True image_address [OF ok] by blast
    then show "ptmem m' (pa AND NOT PG_MASK) = ptmem m (pa AND NOT PG_MASK)"
      using mem image_okD(2) [OF ok] user_framesD(3) [OF image_okD(5) [OF ok] a] unfolding user_apart_def by blast
  qed
next
  case False
  then show ?thesis by (simp add: low_byte)
qed

text \<open>Looking up an entry, with new tables where they are missing, changes no user byte and no mapping.\<close>

lemma frame_page: "p < 2 ^ 32 \<Longrightarrow> q < 2 ^ 32 \<Longrightarrow> page_to_phys p = page_to_phys q \<longleftrightarrow> p = q"
  using page_address_inverse(1) by metis

lemma user_address_cong:
  assumes "address_map m' root a = address_map m root a"
  shows "user_address m' (Some root) a w = Inr pa \<longleftrightarrow> user_address m (Some root) a w = Inr pa"
  using assms by (simp add: user_address_map)

lemma image_later:
  assumes ok: "image_ok m root F" and l: "pt_later m F m1 F1 root"
  shows "image_ok m1 root F1" and "user_byte m1 (Some root) a = user_byte m (Some root) a"
    and "address_map m1 root a = address_map m root a"
proof -
  have k: "pt_kept m F m1 F1 root" "F1 \<subseteq> F" "pt_ok m1 root F1" and am: "\<And>a. address_map m1 root a = address_map m root a"
    and pr: "\<And>a. path_rights (ptmem m1) a 0 3 root = path_rights (ptmem m) a 0 3 root"
    using l by (auto simp: pt_later_def same_map_def)
  note kd = pt_keptD [OF k(1)] and ad = user_address_cong [OF am]
  have sub: "page_to_phys ` (F - F1) \<subseteq> page_to_phys ` F" by blast
  show "user_byte m1 (Some root) a = user_byte m (Some root) a"
  proof (rule image_byte_kept [OF ok am])
    fix u assume "\<And>q. table_path_ok q \<Longrightarrow> table_at (ptmem m) root q \<noteq> Some u" "u \<notin> page_to_phys ` F"
    then show "ptmem m1 u = ptmem m u" using kd(3) [of u] sub by blast
  qed
  have "user_apart m1 root" unfolding user_apart_def ad
  proof (intro conjI allI impI)
    fix va pa p u
    assume a: "user_address m (Some root) va False = Inr pa" "table_path_ok p" "table_at (ptmem m1) root p = Some u"
    then obtain r where "va < USER_SPACE_TOP" "address_map m root va = Some (pa, r)" by (auto simp: user_address_map)
    then have "pa AND NOT PG_MASK \<notin> page_to_phys ` F" by (rule user_framesD(3) [OF image_okD(5) [OF ok]])
    then show "u \<noteq> pa AND NOT PG_MASK"
      using kd(2) [OF a(2,3)] image_okD(2) [OF ok] a(1,2) sub unfolding user_apart_def by blast
  next
    fix va va' pa
    show "user_address m (Some root) va False = Inr pa \<Longrightarrow> user_address m (Some root) va' False = Inr pa \<Longrightarrow> va = va'"
      using image_okD(2) [OF ok] unfolding user_apart_def by blast
  qed
  moreover have "ref_count (pages (parea m1) i) = 0" if "i \<in> F1" for i
    using kd(4) [of i] image_okD(3) [OF ok, of i] that k(2) by auto
  moreover have "user_frames m1 root F1" unfolding user_frames_def am
  proof (intro allI impI)
    fix va pa r assume a: "va < USER_SPACE_TOP" "address_map m root va = Some (pa, r)"
    note uf = user_framesD [OF image_okD(5) [OF ok] a]
    show "may_use r \<and> table_at (ptmem m1) root (va_path va 3) \<noteq> None \<and> pa AND NOT PG_MASK \<notin> page_to_phys ` F1"
      using uf kd(1) [OF va_path_ok [of 3 va]] k(2) by auto
  qed
  moreover have "open_path m1 root" using image_okD(4) [OF ok] by (simp add: open_path_def pr)
  ultimately show "image_ok m1 root F1" using k(3) by (simp add: image_ok_def)
qed (use l in \<open>simp add: pt_later_def same_map_def\<close>)

text \<open>A page is taken from the free ones and put back.\<close>

lemma image_take:
  assumes ok: "image_ok m root F" and al: "alloc_pages (parea m) 1 = Some (Some p, a)"
  shows "p \<in> F" "p < 2 ^ 32" "image_ok (m\<lparr>parea := a\<rparr>) root (F - {p})" "user_byte (m\<lparr>parea := a\<rparr>) (Some root) b = user_byte m (Some root) b"
    "ref_count (pages a p) = 0"
proof -
  have bp: "block_pages (p, 1) = {p}" by (auto simp: block_pages_def)
  have a: "p \<in> F" "area_free MAX_PAGES a (F - {p})" "\<And>i. ref_count (pages a i) = ref_count (pages (parea m) i)"
    using ff.alloc_some [OF image_okD(6) [OF ok], of 1] al bp by (auto simp: fun_eq_iff)
  let ?m = "m\<lparr>parea := a\<rparr>"
  show p: "p \<in> F" "p < 2 ^ 32" using a(1) image_okD(8) [OF ok] by simp_all
  have am: "address_map ?m root b = address_map m root b" for b by (simp add: address_map_def)
  show "user_byte ?m (Some root) b = user_byte m (Some root) b"
    by (rule image_byte_kept [OF ok am]) simp
  show "ref_count (pages a p) = 0" using a(3) image_okD(3) [OF ok p(1)] by simp
  have "pt_ok ?m root (F - {p})" using a(2) image_okD(7) [OF ok] pt_tree_mono by (auto simp: pt_ok_def)
  moreover have "user_apart ?m root" by (rule user_apart_later [OF image_okD(2) [OF ok]]) (simp add: same_tables_def)
  moreover have "open_path ?m root" using image_okD(4) [OF ok] by (simp add: open_path_def)
  moreover have "user_frames ?m root (F - {p})" using image_okD(5) [OF ok] unfolding user_frames_def am by auto
  ultimately show "image_ok ?m root (F - {p})" using a(3) image_okD(3) [OF ok] by (simp add: image_ok_def)
qed

text \<open>A frame that is neither a table nor mapped: the page just taken.\<close>

definition loose_page :: "pt_machine \<Rightarrow> u64 \<Rightarrow> nat set \<Rightarrow> nat \<Rightarrow> bool" where
  "loose_page m root F p \<longleftrightarrow> p < 2 ^ 32 \<and> p \<notin> F \<and> p < MAX_PAGES \<and>
     (\<forall>q u. table_path_ok q \<longrightarrow> table_at (ptmem m) root q = Some u \<longrightarrow> phys_to_page u \<noteq> p) \<and>
     (\<forall>va pa r. va < USER_SPACE_TOP \<longrightarrow> address_map m root va = Some (pa, r) \<longrightarrow> pa AND NOT PG_MASK \<noteq> page_to_phys p)"

lemma take_loose:
  assumes ok: "image_ok m root F" and al: "alloc_pages (parea m) 1 = Some (Some p, a)"
  shows "loose_page (m\<lparr>parea := a\<rparr>) root (F - {p}) p"
proof -
  note t = image_take [OF ok al]
  have "phys_to_page u \<noteq> p" if "table_path_ok q" "table_at (ptmem m) root q = Some u" for q u
    using pt_treeD(2) [OF image_okD(7) [OF ok] that] t(1) by blast
  moreover have "pa AND NOT PG_MASK \<noteq> page_to_phys p" if "va < USER_SPACE_TOP" "address_map m root va = Some (pa, r)" for va pa r
    using user_framesD(3) [OF image_okD(5) [OF ok] that] t(1) by blast
  moreover have "p < MAX_PAGES" using ff.holds_bound [OF image_okD(6) [OF ok]] t(1) by auto
  ultimately show ?thesis using t(2) by (simp add: loose_page_def address_map_def)
qed

lemma loose_later:
  assumes ok: "image_ok m root F" and l: "pt_later m F m1 F1 root" and p: "loose_page m root F p"
  shows "loose_page m1 root F1 p"
proof -
  have k: "pt_kept m F m1 F1 root" "F1 \<subseteq> F" using l by (auto simp: pt_later_def)
  have new: "phys_to_page u \<noteq> p" if "u \<in> page_to_phys ` (F - F1)" for u
    using that page_address_inverse(1) [OF image_okD(8) [OF ok]] p by (auto simp: loose_page_def)
  have "phys_to_page u \<noteq> p" if q: "table_path_ok q" "table_at (ptmem m1) root q = Some u" for q u
    using pt_keptD(2) [OF k(1) q] new p q(1) unfolding loose_page_def by blast
  then show ?thesis using k(2) p image_later(3) [OF ok l] unfolding loose_page_def by auto
qed

lemma image_put:
  assumes ok: "image_ok m root F" and p: "loose_page m root F p" and r: "ref_count (pages (parea m) p) = 0"
  shows "\<exists>m'. m_free p m = Some (Inr ((), m')) \<and> image_ok m' root (insert p F) \<and>
    (\<forall>a. address_map m' root a = address_map m root a \<and> user_byte m' (Some root) a = user_byte m (Some root) a)"
proof -
  have bp: "block_pages (p, 1) = {p}" by (auto simp: block_pages_def)
  obtain a where a: "free_pages (parea m) p 1 = Some (Inr a)" "area_free MAX_PAGES a (insert p F)"
      "\<And>i. ref_count (pages a i) = ref_count (pages (parea m) i)"
    using ff.release_ok [OF image_okD(6) [OF ok], of 1 p] p r bp by (auto simp: loose_page_def fun_eq_iff)
  let ?m = "m\<lparr>parea := a\<rparr>"
  have am: "address_map ?m root b = address_map m root b" for b by (simp add: address_map_def)
  have "user_byte ?m (Some root) b = user_byte m (Some root) b" for b by (rule image_byte_kept [OF ok am]) simp
  moreover have "pt_tree (ptmem m) root (insert p F)" unfolding pt_tree_def
  proof (intro conjI allI impI)
    fix q u assume q: "table_path_ok q" "table_at (ptmem m) root q = Some u"
    then show "phys_to_page u \<notin> insert p F" using pt_treeD(2) [OF image_okD(7) [OF ok] q] p by (auto simp: loose_page_def)
  qed (use image_okD(7) [OF ok] in \<open>unfold pt_tree_def, blast\<close>)
  moreover have "user_apart ?m root" by (rule user_apart_later [OF image_okD(2) [OF ok]]) (simp add: same_tables_def)
  moreover have "open_path ?m root" using image_okD(4) [OF ok] by (simp add: open_path_def)
  moreover have "user_frames ?m root (insert p F)" using image_okD(5) [OF ok] p unfolding user_frames_def am loose_page_def by auto
  ultimately show ?thesis using a r image_okD(3) [OF ok] am by (intro exI [of _ ?m]) (auto simp: m_free_def image_ok_def pt_ok_def)
qed

text \<open>A loose page is entered and zeroed.\<close>

lemma same_page_unmapped:
  assumes t: "table_at (ptmem m) root (va_path va 3) = Some t" and free: "address_map m root va = None" and sp: "same_page va a"
  shows "address_map m root a = None"
proof -
  have "\<not> pte_present (ptmem m t (level_index va 3))" using leaf_translate [OF t] free by (auto simp: address_map_def Let_def split: if_splits)
  moreover have "va_path a 3 = va_path va 3" "level_index a 3 = level_index va 3" using sp by (simp_all add: same_page_path)
  ultimately show ?thesis using leaf_translate [of "ptmem m" root a t] t by (simp add: address_map_def Let_def)
qed

lemma same_tables_rights:
  "(\<And>q u. length q < k \<Longrightarrow> \<forall>i\<in>set q. i < 512 \<Longrightarrow> table_at pm t q = Some u \<Longrightarrow> pm' u = pm u) \<Longrightarrow>
     path_rights pm' va l k t = path_rights pm va l k t"
proof (induction k arbitrary: l t)
  case (Suc k)
  let ?i = "level_index va l"
  have t: "pm' t = pm t" using Suc.prems [of "[]" t] by simp
  show ?case
  proof (cases "is_table_entry (pm t ?i)")
    case True
    have "path_rights pm' va (l + 1) k (pte_addr (pm t ?i)) = path_rights pm va (l + 1) k (pte_addr (pm t ?i))"
    proof (rule Suc.IH)
      fix q u assume "length q < k" "\<forall>i\<in>set q. i < 512" "table_at pm (pte_addr (pm t ?i)) q = Some u"
      then show "pm' u = pm u" using Suc.prems [of "?i # q" u] True level_index_bound by simp
    qed
    then show ?thesis using t by (simp add: Let_def)
  qed (simp add: t Let_def)
qed simp

lemma same_tables_maps:
  assumes "same_tables root pm pm'"
  shows "translate pm' va 0 4 root = translate pm va 0 4 root" "path_rights pm' va 0 3 root = path_rights pm va 0 3 root"
proof -
  have same: "pm' u = pm u" if "length q < 4" "\<forall>i\<in>set q. i < 512" "table_at pm root q = Some u" for q u
  proof -
    have "table_path_ok q" using that(1,2) by (simp add: table_path_ok_def)
    then show ?thesis using assms that(3) unfolding same_tables_def by blast
  qed
  show "translate pm' va 0 4 root = translate pm va 0 4 root" by (rule translate_tables) (rule same)
  show "path_rights pm' va 0 3 root = path_rights pm va 0 3 root" by (rule same_tables_rights) (rule same, simp_all)
qed

lemma same_page_eq:
  assumes "va < USER_SPACE_TOP" and "va' < USER_SPACE_TOP" and "same_page va va'" and "va AND PG_MASK = va' AND PG_MASK"
  shows "va = va'"
proof -
  have "va AND NOT PG_MASK = va' AND NOT PG_MASK" using same_page_number [OF assms(1,2)] assms(3) by (simp only: page_base_eq)
  then show ?thesis using page_split assms(4) by metis
qed

lemma same_page_trans: "same_page a b \<Longrightarrow> same_page a c \<Longrightarrow> same_page b c"
  by (simp add: same_page_def)

lemma perm_user: "perm AND VM_USER \<noteq> 0 \<Longrightarrow> may_use (perm_rights perm)"
  by (simp add: perm_rights_def)

lemma image_enter:
  assumes ok: "image_ok m root F" and p: "loose_page m root F p" and va: "va < USER_SPACE_TOP"
    and perm: "perm AND VM_USER \<noteq> 0" and t: "table_at (ptmem m) root (va_path va 3) = Some t" and free: "address_map m root va = None"
    and m': "m' = zero_frame p (entered_page root p va perm t m)"
  shows "image_ok m' root F" and "user_byte m' (Some root) a = user_byte m (Some root) a"
    and "address_map m' root a = (if same_page va a then Some (page_to_phys p + (a AND PG_MASK), perm_rights perm) else address_map m root a)"
proof -
  have pp: "p < 2 ^ 32" "p \<notin> F" using p by (simp_all add: loose_page_def)
  let ?e = "entered_page root p va perm t m" and ?pa = "page_to_phys p"
  note fr = page_to_phys_frame [OF pp(1)] and tree = image_okD(7) [OF ok]
  note ls = leaf_set [OF tree fr t refl, where perm = perm]
  have pr: "path_rights (ptmem m) va 0 3 root = all_rights" using image_okD(4) [OF ok] va by (simp add: open_path_def)
  have eok: "pt_ok ?e root F" "address_map ?e root a = (if same_page va a then Some (?pa + (a AND PG_MASK), perm_rights perm) else address_map m root a)" for a
    using entered_page_ok [OF image_okD(1) [OF ok] pp t, where perm = perm] by (simp_all add: pr)
  have tab: "table_at (ptmem ?e) root q = table_at (ptmem m) root q" if "table_path_ok q" for q using ls(2) [OF that] by simp
  have notab: "u \<noteq> ?pa" if "table_path_ok q" "table_at (ptmem m) root q = Some u" for q u
    using p that page_address_inverse(1) [OF pp(1)] unfolding loose_page_def by metis
  have st: "same_tables root (ptmem ?e) (ptmem m')" unfolding same_tables_def
  proof (intro allI impI)
    fix q u assume "table_path_ok q" "table_at (ptmem ?e) root q = Some u"
    then have "u \<noteq> ?pa" using notab tab by metis
    then show "ptmem m' u = ptmem ?e u" by (simp add: m' zero_frame_def)
  qed
  have tab': "table_at (ptmem m') root q = table_at (ptmem m) root q" if "table_path_ok q" for q
    using same_tables_at [OF st that] tab [OF that] by simp
  note tr = same_tables_maps [OF st]
  show am: "address_map m' root a = (if same_page va a then Some (?pa + (a AND PG_MASK), perm_rights perm) else address_map m root a)" for a
    using tr(1) [of a] eok(2) [of a] by (simp add: address_map_def)
  have off: "(?pa + (a AND PG_MASK)) AND NOT PG_MASK = ?pa" for a by (rule frame_plus_offset(1) [OF fr])
  have mem: "ptmem m' u = ptmem m u" if "u \<noteq> t" "u \<noteq> ?pa" for u
    using that by (simp add: m' zero_frame_def set_leaf_apply fun_eq_iff)
  have frame: "pa AND NOT PG_MASK \<noteq> ?pa" if "a < USER_SPACE_TOP" "address_map m root a = Some (pa, r)" for a pa r
    using p that unfolding loose_page_def by blast
  show "user_byte m' (Some root) a = user_byte m (Some root) a"
  proof (cases "same_page va a")
    case True
    have z: "mem_byte (ptmem m') (?pa + (a AND PG_MASK)) = 0" by (simp add: mem_byte_at off m' zero_frame_def)
    have "address_map m root a = None"
      using same_page_unmapped [OF t free True] .
    then have "user_byte m (Some root) a = 0" by (rule unmapped_byte)
    moreover have "user_byte m' (Some root) a = 0"
      using am [of a] True z unfolding user_byte_def by (auto simp: user_address_map split: sum.split)
    ultimately show ?thesis by simp
  next
    case False
    show ?thesis
    proof (cases "PG_SIZE \<le> a")
      case True
      show ?thesis
      proof (rule user_byte_kept)
        fix pa r assume a: "a < USER_SPACE_TOP" "address_map m root a = Some (pa, r)"
        then have "user_address m (Some root) a False = Inr pa" using True image_address [OF ok] by blast
        then have "t \<noteq> pa AND NOT PG_MASK" using image_okD(2) [OF ok] t va_path_ok [of 3 va] unfolding user_apart_def by blast
        then show "ptmem m' (pa AND NOT PG_MASK) = ptmem m (pa AND NOT PG_MASK)" using mem frame [OF a] by metis
      qed (use am False in simp)
    qed (simp add: low_byte)
  qed
  have "user_apart m' root" unfolding user_apart_def
  proof (intro conjI allI impI)
    fix b pa q u
    assume h: "user_address m' (Some root) b False = Inr pa" "table_path_ok q" "table_at (ptmem m') root q = Some u"
    then obtain r where r: "PG_SIZE \<le> b" "b < USER_SPACE_TOP" "address_map m' root b = Some (pa, r)" by (auto simp: user_address_map)
    note q = h(2) h(3) [unfolded tab' [OF h(2)]]
    show "u \<noteq> pa AND NOT PG_MASK"
    proof (cases "same_page va b")
      case True
      then show ?thesis using r(3) am [of b] off [of b] notab [OF q] by auto
    next
      case False
      then have "user_address m (Some root) b False = Inr pa" using r am image_address [OF ok] by simp
      then show ?thesis using image_okD(2) [OF ok] q unfolding user_apart_def by blast
    qed
  next
    fix b c pa assume h: "user_address m' (Some root) b False = Inr pa" "user_address m' (Some root) c False = Inr pa"
    then obtain r r' where r: "PG_SIZE \<le> b" "b < USER_SPACE_TOP" "address_map m' root b = Some (pa, r)"
      "PG_SIZE \<le> c" "c < USER_SPACE_TOP" "address_map m' root c = Some (pa, r')" by (auto simp: user_address_map)
    have old: "pa AND NOT PG_MASK \<noteq> ?pa \<and> user_address m (Some root) x False = Inr pa"
      if "\<not> same_page va x" "PG_SIZE \<le> x" "x < USER_SPACE_TOP" "address_map m' root x = Some (pa, s)" for x s
      using that frame am image_address [OF ok] by simp
    show "b = c"
    proof (cases "same_page va b \<and> same_page va c")
      case True
      then have "b AND PG_MASK = c AND PG_MASK" using r(3,6) am frame_plus_offset(2) [OF fr] by (metis option.inject prod.inject)
      then show ?thesis using same_page_eq [OF r(2,5)] same_page_trans True by blast
    next
      case False
      have new: "pa AND NOT PG_MASK = ?pa" if "same_page va x" "address_map m' root x = Some (pa, s)" for x s
        using that am [of x] off by auto
      have n: "\<not> same_page va b" "\<not> same_page va c"
        using False old [of b r] old [of c r'] new [of b r] new [of c r'] r by blast+
      have "user_address m (Some root) b False = Inr pa" "user_address m (Some root) c False = Inr pa"
        using old [OF n(1) r(1-3)] old [OF n(2) r(4-6)] by blast+
      then show ?thesis using image_okD(2) [OF ok] unfolding user_apart_def by blast
    qed
  qed
  moreover have "pt_ok m' root F"
  proof -
    have "pt_tree (ptmem m') root F" using tree tab' unfolding pt_tree_def by simp
    moreover have "parea m' = parea ?e" by (simp add: m' zero_frame_def)
    ultimately show ?thesis using eok(1) unfolding pt_ok_def by simp
  qed
  moreover have "open_path m' root" unfolding open_path_def
  proof (intro allI impI)
    fix b :: u64 assume "b < USER_SPACE_TOP"
    then show "path_rights (ptmem m') b 0 3 root = all_rights"
      using tr(2) [of b] ls(3) [of b] image_okD(4) [OF ok] by (simp add: open_path_def)
  qed
  moreover have "user_frames m' root F" unfolding user_frames_def
  proof (intro allI impI)
    fix b pa r assume b: "b < USER_SPACE_TOP" "address_map m' root b = Some (pa, r)"
    show "may_use r \<and> table_at (ptmem m') root (va_path b 3) \<noteq> None \<and> pa AND NOT PG_MASK \<notin> page_to_phys ` F"
    proof (cases "same_page va b")
      case True
      then have "va_path b 3 = va_path va 3" by (simp add: same_page_path)
      moreover have "?pa \<notin> page_to_phys ` F" using frame_page [OF pp(1) image_okD(8) [OF ok]] pp(2) by auto
      moreover have "pa AND NOT PG_MASK = ?pa" "r = perm_rights perm" using True b(2) am [of b] off [of b] by auto
      ultimately show ?thesis using perm_user [OF perm] tab' [OF va_path_ok [of 3 va]] t by simp
    next
      case False
      then have "address_map m root b = Some (pa, r)" using b(2) am by simp
      from user_framesD [OF image_okD(5) [OF ok] b(1) this] show ?thesis using tab' [OF va_path_ok [of 3 b]] by simp
    qed
  qed
  ultimately show "image_ok m' root F" using image_okD(3) [OF ok] pp(2) by (auto simp: image_ok_def m' zero_frame_def)
qed

text \<open>An entry of a mapped page is rewritten with further rights.\<close>

lemma user_perm_bits [simp]:
  "user_page_perm w x AND VM_WRITE \<noteq> 0 \<longleftrightarrow> w" "user_page_perm w x AND VM_USER \<noteq> 0" "user_page_perm w x AND VM_NOEXEC = 0 \<longleftrightarrow> x"
  by (cases w; cases x; simp add: user_page_perm_def VM_WRITE_def VM_USER_def VM_NOEXEC_def)+

lemma perm_rights_user: "perm_rights (user_page_perm w x) = Rights w True x"
  by (simp add: perm_rights_def)

lemma image_remap:
  assumes ok: "image_ok m root F" and tab: "\<And>q. table_path_ok q \<Longrightarrow> table_at (ptmem m') root q = table_at (ptmem m) root q"
    and map: "\<And>a. a < USER_SPACE_TOP \<Longrightarrow> map_option fst (address_map m' root a) = map_option fst (address_map m root a)"
    and use: "\<And>a pa r. a < USER_SPACE_TOP \<Longrightarrow> address_map m' root a = Some (pa, r) \<Longrightarrow> may_use r"
    and pr: "\<And>a. path_rights (ptmem m') a 0 3 root = path_rights (ptmem m) a 0 3 root" and area: "parea m' = parea m"
    and mem: "\<And>u. (\<And>q. table_path_ok q \<Longrightarrow> table_at (ptmem m) root q \<noteq> Some u) \<Longrightarrow> ptmem m' u = ptmem m u"
  shows "image_ok m' root F" and "user_byte m' (Some root) a = user_byte m (Some root) a"
proof -
  have old: "\<exists>r'. address_map m root a = Some (pa, r')" if "a < USER_SPACE_TOP" "address_map m' root a = Some (pa, r)" for a pa r
    using map [OF that(1)] that(2) by (cases "address_map m root a") auto
  have new: "\<exists>r'. address_map m' root a = Some (pa, r')" if "a < USER_SPACE_TOP" "address_map m root a = Some (pa, r)" for a pa r
    using map [OF that(1)] that(2) by (cases "address_map m' root a") auto
  have ad: "user_address m' (Some root) a False = Inr pa \<longleftrightarrow> user_address m (Some root) a False = Inr pa" for a pa
    unfolding image_address [OF ok] using old new use by (auto simp: user_address_map permits_def) blast
  have apart: "user_apart m' root" unfolding user_apart_def ad
  proof (intro conjI allI impI)
    fix va pa q u assume "user_address m (Some root) va False = Inr pa" "table_path_ok q" "table_at (ptmem m') root q = Some u"
    then show "u \<noteq> pa AND NOT PG_MASK" using tab image_okD(2) [OF ok] unfolding user_apart_def by metis
  qed (use image_okD(2) [OF ok] in \<open>unfold user_apart_def, blast\<close>)
  have "user_frames m' root F" unfolding user_frames_def
  proof (intro allI impI)
    fix va pa r assume v: "va < USER_SPACE_TOP" "address_map m' root va = Some (pa, r)"
    obtain r' where "address_map m root va = Some (pa, r')" using old [OF v] by blast
    from user_framesD [OF image_okD(5) [OF ok] v(1) this]
    show "may_use r \<and> table_at (ptmem m') root (va_path va 3) \<noteq> None \<and> pa AND NOT PG_MASK \<notin> page_to_phys ` F"
      using use [OF v] tab [OF va_path_ok [of 3 va]] by simp
  qed
  moreover have "pt_tree (ptmem m') root F" using image_okD(7) [OF ok] tab unfolding pt_tree_def by simp
  ultimately show "image_ok m' root F"
    using apart image_okD(3,4,6) [OF ok] pr area by (simp add: image_ok_def pt_ok_def open_path_def)
  show "user_byte m' (Some root) a = user_byte m (Some root) a"
  proof (cases "user_address m (Some root) a False")
    case (Inr pa)
    then have "ptmem m' (pa AND NOT PG_MASK) = ptmem m (pa AND NOT PG_MASK)"
      using mem image_okD(2) [OF ok] unfolding user_apart_def by blast
    then show ?thesis using Inr Inr [folded ad] by (simp add: user_byte_def mem_byte_at)
  next
    case (Inl e)
    then have "user_address m' (Some root) a False \<noteq> Inr pa" for pa using ad by simp
    then show ?thesis using Inl unfolding user_byte_def by (cases "user_address m' (Some root) a False") (simp, blast)
  qed
qed

definition merge_rights :: "u32 \<Rightarrow> rights option \<Rightarrow> rights" where
  "merge_rights perm old = (case old of None \<Rightarrow> perm_rights perm
     | Some r \<Rightarrow> Rights (may_write r \<or> perm AND VM_WRITE \<noteq> 0) True (may_execute r \<or> perm AND VM_NOEXEC = 0))"

text \<open>The pages with numbers from \<open>lo\<close> to \<open>hi\<close> are mapped, new ones with zeros.\<close>

definition pages_mapped :: "pt_machine \<Rightarrow> u64 \<Rightarrow> u32 \<Rightarrow> nat \<Rightarrow> nat \<Rightarrow> pt_machine \<Rightarrow> bool" where
  "pages_mapped m root perm lo hi m' \<longleftrightarrow>
     (\<forall>a. kernel_half a \<longrightarrow> address_map m' root a = address_map m root a) \<and>
     (\<forall>a. user_byte m' (Some root) a = user_byte m (Some root) a) \<and>
     (\<forall>a. a < USER_SPACE_TOP \<longrightarrow> user_rights m' root a =
        (if lo \<le> unat a div 4096 \<and> unat a div 4096 < hi then Some (merge_rights perm (user_rights m root a)) else user_rights m root a))"

lemma image_extend:
  assumes ok: "image_ok m root F" and va: "va < USER_SPACE_TOP" and t: "table_at (ptmem m) root (va_path va 3) = Some t"
    and e: "e = ptmem m t (level_index va 3)" "pte_present e"
    and m': "m' = put_pte t (level_index va 3) (make_pte_page (pte_addr e) (merge_user_page_perm e perm)) m"
  shows "image_ok m' root F" and "pages_mapped m root perm (unat va div 4096) (Suc (unat va div 4096)) m'"
proof -
  let ?r = "Rights (pte_writable e \<or> perm AND VM_WRITE \<noteq> 0) True (pte_executable e \<or> perm AND VM_NOEXEC = 0)"
  have pm: "ptmem m' = set_leaf (ptmem m) t (level_index va 3) (make_pte_page (pte_addr e) (merge_user_page_perm e perm))"
    by (simp add: m' put_pte_def set_leaf_def)
  note ls = leaf_set [OF image_okD(7) [OF ok] pte_addr_frame t pm]
  have "path_rights (ptmem m) va 0 3 root = all_rights" using image_okD(4) [OF ok] va by (simp add: open_path_def)
  then have am: "address_map m' root a = (if same_page va a then Some (pte_addr e + (a AND PG_MASK), ?r) else address_map m root a)" for a
    using ls(4) [of a] by (simp add: address_map_def merge_user_page_perm_def perm_rights_user)
  have old: "address_map m root a = Some (pte_addr e + (a AND PG_MASK), entry_rights e)" if "same_page va a" "a < USER_SPACE_TOP" for a
    using image_leaf [OF ok that(2), of t] that(1) t e by (simp add: same_page_path Let_def)
  have mem: "ptmem m' u = ptmem m u" if "\<And>q. table_path_ok q \<Longrightarrow> table_at (ptmem m) root q \<noteq> Some u" for u
    using that [OF va_path_ok [of 3 va]] t by (auto simp: pm set_leaf_apply fun_eq_iff)
  have use: "may_use r" if "a < USER_SPACE_TOP" "address_map m' root a = Some (pa, r)" for a pa r
    using that am [of a] user_framesD(1) [OF image_okD(5) [OF ok] that(1)] by (auto split: if_splits)
  have mo: "map_option fst (address_map m' root a) = map_option fst (address_map m root a)" if "a < USER_SPACE_TOP" for a
    using am [of a] old [of a] that by simp
  have area: "parea m' = parea m" by (simp add: m' put_pte_def)
  note re = image_remap [OF ok ls(2) mo use ls(3) area mem]
  show "image_ok m' root F" by (rule re(1))
  have "user_rights m' root a = (if unat va div 4096 \<le> unat a div 4096 \<and> unat a div 4096 < Suc (unat va div 4096)
      then Some (merge_rights perm (user_rights m root a)) else user_rights m root a)" if a: "a < USER_SPACE_TOP" for a
    using am [of a] old [of a] same_page_number [OF va a] a by (auto simp: user_rights_def merge_rights_def entry_rights_def)
  then show "pages_mapped m root perm (unat va div 4096) (Suc (unat va div 4096)) m'"
    using re(2) kernel_half_other [OF va] am by (auto simp: pages_mapped_def)
qed

section \<open>Mapping a range of pages\<close>

lemma pages_mapped_none: "pages_mapped m root perm lo lo m' \<longleftrightarrow>
    (\<forall>a. kernel_half a \<longrightarrow> address_map m' root a = address_map m root a) \<and>
    (\<forall>a. user_byte m' (Some root) a = user_byte m (Some root) a) \<and>
    (\<forall>a. a < USER_SPACE_TOP \<longrightarrow> user_rights m' root a = user_rights m root a)"
  by (auto simp: pages_mapped_def)

lemma pages_mapped_step:
  assumes "pages_mapped m root perm lo k m1" and "pages_mapped m1 root perm k hi m2" and "lo \<le> k" and "k \<le> hi"
  shows "pages_mapped m root perm lo hi m2"
proof -
  have "user_rights m2 root a = (if lo \<le> unat a div 4096 \<and> unat a div 4096 < hi
      then Some (merge_rights perm (user_rights m root a)) else user_rights m root a)" if a: "a < USER_SPACE_TOP" for a
  proof -
    have r1: "user_rights m1 root a = (if lo \<le> unat a div 4096 \<and> unat a div 4096 < k
        then Some (merge_rights perm (user_rights m root a)) else user_rights m root a)"
      and r2: "user_rights m2 root a = (if k \<le> unat a div 4096 \<and> unat a div 4096 < hi
        then Some (merge_rights perm (user_rights m1 root a)) else user_rights m1 root a)"
      using assms(1,2) a unfolding pages_mapped_def by blast+
    consider "unat a div 4096 < lo" | "lo \<le> unat a div 4096" "unat a div 4096 < k" | "k \<le> unat a div 4096" by linarith
    then show ?thesis unfolding r2 r1 using assms(3,4) by cases auto
  qed
  then show ?thesis using assms(1,2) unfolding pages_mapped_def by simp
qed

text \<open>The outcome of mapping pages up to \<open>hi\<close>: they are mapped, or memory ran out on the way.\<close>

definition maps_pages :: "pt_machine \<Rightarrow> u64 \<Rightarrow> nat set \<Rightarrow> u32 \<Rightarrow> nat \<Rightarrow> nat \<Rightarrow> (error \<times> pt_machine) exec \<Rightarrow> bool" where
  "maps_pages m root F perm lo hi r \<longleftrightarrow>
     (\<exists>e m' F' k. r = Some (Inr (e, m')) \<and> image_ok m' root F' \<and> F' \<subseteq> F \<and> pages_mapped m root perm lo k m' \<and> lo \<le> k \<and>
        (if e = Err_None then k = hi else e = NoMem \<and> k < hi))"

lemma map_fresh_maps:
  assumes ok: "image_ok m root F" and va: "va < USER_SPACE_TOP" and perm: "perm AND VM_USER \<noteq> 0"
  shows "maps_pages m root F perm (unat va div 4096) (Suc (unat va div 4096)) (map_fresh_page root perm va m)"
proof -
  let ?n = "unat va div 4096"
  have fail: "maps_pages m root F perm ?n (Suc ?n) (Some (Inr (NoMem, m')))"
    if "image_ok m' root F'" "F' \<subseteq> F" "\<And>a. address_map m' root a = address_map m root a \<and> user_byte m' (Some root) a = user_byte m (Some root) a"
    for m' F'
    using that unfolding maps_pages_def by (intro exI [of _ NoMem] exI [of _ m'] exI [of _ F'] exI [of _ ?n])
      (simp add: pages_mapped_none user_rights_def)
  obtain r a where al: "alloc_pages (parea m) 1 = Some (r, a)" using ff.alloc_returns [OF image_okD(6) [OF ok], of 1] by auto
  show ?thesis
  proof (cases r)
    case None
    then have "a = parea m" using ff.alloc_none [OF image_okD(6) [OF ok], of 1] al by simp
    then have "map_fresh_page root perm va m = Some (Inr (NoMem, m))"
      using al None by (simp add: map_fresh_page_def alloc_and_map_page_def m_bind_def m_alloc_def m_ret_def)
    then show ?thesis using fail [OF ok] by simp
  next
    case (Some p)
    let ?m = "m\<lparr>parea := a\<rparr>"
    note tk = image_take [OF ok al [unfolded Some]] and lo = take_loose [OF ok al [unfolded Some]]
    have am: "address_map ?m root b = address_map m root b" for b by (simp add: address_map_def)
    have start: "map_fresh_page root perm va m = m_bind (\<lambda>m. m_bind (page_insert root p va perm) (\<lambda>e.
        if e \<noteq> Err_None then m_bind (m_free p) (\<lambda>_. m_ret None) else m_ret (Some p)) m) (\<lambda>page m.
        case page of None \<Rightarrow> m_ret NoMem m | Some p \<Rightarrow> m_ret Err_None (zero_frame p m)) ?m"
      using al Some by (simp add: map_fresh_page_def alloc_and_map_page_def m_bind_def m_alloc_def)
    have give_back: "maps_pages m root F perm ?n (Suc ?n) (map_fresh_page root perm va m)"
      if i: "page_insert root p va perm ?m = Some (Inr (e, m1))" "e \<noteq> Err_None" "pt_later ?m (F - {p}) m1 F1 root" for e m1 F1
    proof -
      note l = image_later [OF tk(3) i(3)] and lp = loose_later [OF tk(3) i(3) lo]
      have "F1 \<subseteq> F - {p}" "pt_kept ?m (F - {p}) m1 F1 root" using i(3) by (auto simp: pt_later_def)
      then have r: "ref_count (pages (parea m1) p) = 0" using pt_keptD(4) [of ?m "F - {p}" m1 F1 root p] tk(5) by simp
      obtain m2 where m2: "m_free p m1 = Some (Inr ((), m2))" "image_ok m2 root (insert p F1)"
          "\<And>b. address_map m2 root b = address_map m1 root b \<and> user_byte m2 (Some root) b = user_byte m1 (Some root) b"
        using image_put [OF l(1) lp r] by blast
      have "map_fresh_page root perm va m = Some (Inr (NoMem, m2))" unfolding start using i(1,2) m2(1) by (simp add: m_bind_def m_ret_def)
      moreover have "insert p F1 \<subseteq> F" using \<open>F1 \<subseteq> F - {p}\<close> tk(1) by blast
      ultimately show ?thesis using fail [OF m2(2)] m2(3) l(2,3) tk(4) am by simp
    qed
    from image_okD(1) [OF tk(3)] show ?thesis
    proof (cases rule: page_insert_cases [where p = p and va = va and perm = perm])
      case (no_memory m1 F1)
      then show ?thesis using give_back [of NoMem] by simp
    next
      case (present m1 F1)
      then show ?thesis using give_back [of Exists] by simp
    next
      case (entered m1 F1 t)
      note l = image_later [OF tk(3) entered(2)] and lp = loose_later [OF tk(3) entered(2) lo]
      have "address_map m1 root va = None" using entered(4) l(3) by simp
      note en = image_enter [OF l(1) lp va perm entered(3) this refl]
      let ?m2 = "zero_frame p (entered_page root p va perm t m1)"
      have "map_fresh_page root perm va m = Some (Inr (Err_None, ?m2))"
        unfolding start using entered(1) by (simp add: m_bind_def m_ret_def)
      moreover have "F1 \<subseteq> F" using entered(2) by (auto simp: pt_later_def)
      moreover have "pages_mapped m root perm ?n (Suc ?n) ?m2"
      proof -
        have un: "address_map m root b = None" if "same_page va b" for b
          using same_page_unmapped [OF entered(3) \<open>address_map m1 root va = None\<close> that] l(3) am by simp
        have "user_rights ?m2 root b = (if ?n \<le> unat b div 4096 \<and> unat b div 4096 < Suc ?n
            then Some (merge_rights perm (user_rights m root b)) else user_rights m root b)" if b: "b < USER_SPACE_TOP" for b
          using en(3) [of b] un [of b] l(3) am same_page_number [OF va b] by (auto simp: user_rights_def merge_rights_def)
        then show ?thesis using en(2,3) l(2,3) tk(4) am kernel_half_other [OF va] by (auto simp: pages_mapped_def)
      qed
      ultimately show ?thesis using en(1) unfolding maps_pages_def
        by (intro exI [of _ Err_None] exI [of _ ?m2] exI [of _ F1] exI [of _ "Suc ?n"]) simp
    qed
  qed
qed

lemma map_segment_page_maps:
  assumes ok: "image_ok m root F" and va: "va < USER_SPACE_TOP" and perm: "perm AND VM_USER \<noteq> 0"
  shows "maps_pages m root F perm (unat va div 4096) (Suc (unat va div 4096)) (map_segment_page root perm va m)"
proof -
  let ?n = "unat va div 4096" and ?i = "level_index va 3"
  note fresh = map_fresh_maps [OF ok va perm]
  show ?thesis
  proof (cases "table_at (ptmem m) root (va_path va 3)")
    case None
    then show ?thesis using fresh by (simp add: map_segment_page_def m_bind_def get_pte_found)
  next
    case (Some t)
    show ?thesis
    proof (cases "pte_present (ptmem m t ?i)")
      case True
      let ?m = "put_pte t ?i (make_pte_page (pte_addr (ptmem m t ?i)) (merge_user_page_perm (ptmem m t ?i) perm)) m"
      have "map_segment_page root perm va m = Some (Inr (Err_None, ?m))"
        using Some True by (simp add: map_segment_page_def m_bind_def get_pte_found m_ret_def Let_def)
      then show ?thesis using image_extend [OF ok va Some refl True refl, of perm] unfolding maps_pages_def
        by (intro exI [of _ Err_None] exI [of _ ?m] exI [of _ F] exI [of _ "Suc ?n"]) simp
    next
      case False
      then show ?thesis using Some fresh by (simp add: map_segment_page_def m_bind_def get_pte_found Let_def)
    qed
  qed
qed

lemma page_loop_maps:
  assumes step: "\<And>m F va. image_ok m root F \<Longrightarrow> va < USER_SPACE_TOP \<Longrightarrow>
    maps_pages m root F perm (unat va div 4096) (Suc (unat va div 4096)) (f va m)"
    and last_va: "unat last_va = 4096 * hi" "unat last_va \<le> 2 ^ 47"
  shows "image_ok m root F \<Longrightarrow> unat va = 4096 * lo \<Longrightarrow> lo \<le> hi \<Longrightarrow> maps_pages m root F perm lo hi (page_loop f va last_va m)"
proof (induction "hi - lo" arbitrary: m F va lo)
  case 0
  then have "\<not> va < last_va" "lo = hi" using last_va(1) by (simp_all add: word_less_nat_alt)
  then have "page_loop f va last_va m = Some (Inr (Err_None, m))" by (simp add: page_loop.simps)
  then show ?case using 0(2) \<open>lo = hi\<close> unfolding maps_pages_def
    by (intro exI [of _ Err_None] exI [of _ m] exI [of _ F] exI [of _ hi]) (simp add: pages_mapped_none)
next
  case (Suc d)
  have lt: "lo < hi" using Suc(2) by linarith
  have less: "va < last_va" using lt Suc.prems(2) last_va(1) by (simp add: word_less_nat_alt)
  have user: "va < USER_SPACE_TOP" using less last_va(2) user_bounds(2) unfolding word_less_nat_alt by simp
  have n: "unat va div 4096 = lo" using Suc.prems(2) by simp
  obtain e m1 F1 k where s: "f va m = Some (Inr (e, m1))" "image_ok m1 root F1" "F1 \<subseteq> F" "pages_mapped m root perm lo k m1" "lo \<le> k"
      "if e = Err_None then k = Suc lo else e = NoMem \<and> k < Suc lo"
    using step [OF Suc.prems(1) user] unfolding n maps_pages_def by blast
  show ?case
  proof (cases "e = Err_None")
    case False
    then have "page_loop f va last_va m = Some (Inr (e, m1))" using s(1) less by (subst page_loop.simps) simp
    then show ?thesis using s False lt unfolding maps_pages_def
      by (intro exI [of _ e] exI [of _ m1] exI [of _ F1] exI [of _ k]) simp
  next
    case True
    then have k: "k = Suc lo" using s(6) by simp
    have "unat (va + PG_SIZE) = 4096 * Suc lo"
      using Suc.prems(2) lt last_va by (simp add: PG_SIZE_def unat_word_ariths)
    from Suc(1) [OF _ s(2) this] Suc(2) lt
    have ih: "maps_pages m1 root F1 perm (Suc lo) hi (page_loop f (va + PG_SIZE) last_va m1)" by simp
    have "page_loop f va last_va m = page_loop f (va + PG_SIZE) last_va m1"
      using s(1) less True by (subst page_loop.simps) simp
    then obtain e' m2 F2 k' where r: "page_loop f va last_va m = Some (Inr (e', m2))" "image_ok m2 root F2" "F2 \<subseteq> F1"
        "pages_mapped m1 root perm (Suc lo) k' m2" "Suc lo \<le> k'" "if e' = Err_None then k' = hi else e' = NoMem \<and> k' < hi"
      using ih unfolding maps_pages_def by metis
    have "pages_mapped m root perm lo k' m2" using pages_mapped_step [OF s(4) [unfolded k] r(4)] r(5) by simp
    then show ?thesis using r s(3) unfolding maps_pages_def
      by (intro exI [of _ e'] exI [of _ m2] exI [of _ F2] exI [of _ k']) auto
  qed
qed

section \<open>Copying the bytes of a segment\<close>

lemma image_stored:
  assumes ok: "image_ok m root F" and st: "user_stored m root va bs m'"
  shows "image_ok m' root F" and "address_map m' root a = address_map m root a"
proof -
  have same: "same_tables root (ptmem m) (ptmem m')" and area: "parea m' = parea m"
    using st unfolding user_stored_def by (auto dest: arg_cong [where f = parea])
  note maps = same_tables_maps [OF same] and tab = same_tables_at [OF same]
  show am: "address_map m' root a = address_map m root a" for a by (simp add: address_map_def maps(1))
  have "pt_tree (ptmem m') root F" using image_okD(7) [OF ok] tab unfolding pt_tree_def by simp
  moreover have "user_frames m' root F"
    using image_okD(5) [OF ok] tab [OF va_path_ok [of 3]] unfolding user_frames_def am by simp
  ultimately show "image_ok m' root F"
    using user_apart_later [OF image_okD(2) [OF ok] same] image_okD(3,4,6) [OF ok]
    by (simp add: image_ok_def pt_ok_def area open_path_def maps(2))
qed

lemma image_entry:
  assumes ok: "image_ok m root F" and a: "a < USER_SPACE_TOP" and r: "user_rights m root a \<noteq> None"
  obtains t where "table_at (ptmem m) root (va_path a 3) = Some t" "pte_present (ptmem m t (level_index a 3))"
    "address_map m root a = Some (pte_addr (ptmem m t (level_index a 3)) + (a AND PG_MASK), entry_rights (ptmem m t (level_index a 3)))"
proof -
  obtain pa s where am: "address_map m root a = Some (pa, s)" using r by (auto simp: user_rights_def)
  then obtain t where t: "table_at (ptmem m) root (va_path a 3) = Some t"
    using user_framesD(2) [OF image_okD(5) [OF ok] a] by blast
  show thesis using that [OF t] image_leaf [OF ok a t] am by (auto simp: Let_def split: if_splits)
qed

lemma take_drop_chunk: "c \<le> n \<Longrightarrow> take c (take n xs) = take c xs" "drop c (take n xs) = take (n - c) (drop c xs)"
  by (simp add: min_absorb1) (rule drop_take)

lemma copy_segment_stores:
  "image_ok m root F \<Longrightarrow> in_user va n \<Longrightarrow> \<forall>j<unat n. user_rights m root (va + word_of_nat j) \<noteq> None \<Longrightarrow> unat n \<le> length src \<Longrightarrow>
    \<exists>m'. copy_segment root va n src m = Some (Inr ((), m')) \<and> user_stored m root va (take (unat n) src) m'"
proof (induction "unat n" arbitrary: m va n src rule: less_induct)
  case less
  show ?case
  proof (cases "n = 0")
    case True
    then show ?thesis by (subst copy_segment.simps) (simp add: m_ret_def user_stored_def same_tables_def)
  next
    case False
    note c = chunk_step [OF less.prems(2) False]
    let ?c = "unat (chunk_bytes va n)" and ?i = "level_index va 3"
    have bound: "va < USER_SPACE_TOP" "PG_SIZE \<le> va" using in_user_bounds [OF less.prems(2), of 0] c(4,5) by simp_all
    have "user_rights m root (va + word_of_nat 0) \<noteq> None" using less.prems(3) c(4,5) by fastforce
    then obtain t where t: "table_at (ptmem m) root (va_path va 3) = Some t" "pte_present (ptmem m t ?i)"
        "address_map m root va = Some (pte_addr (ptmem m t ?i) + (va AND PG_MASK), entry_rights (ptmem m t ?i))"
      using image_entry [OF less.prems(1) bound(1)] by auto
    define pa where "pa = pte_addr (ptmem m t ?i) + (va AND PG_MASK)"
    have ua: "user_address m (Some root) va False = Inr pa" using image_address [OF less.prems(1)] bound t(3) pa_def by blast
    let ?m = "m\<lparr>ptmem := set_bytes pa (take ?c src) (ptmem m)\<rparr>"
    have len: "length (take ?c src) = ?c" using less.prems(4) c(5) by simp
    have st: "user_stored m root va (take ?c src) ?m"
    proof (rule store_in_page [OF image_okD(2) [OF less.prems(1)] ua])
      fix j assume "j < length (take ?c src)"
      then have j: "j < ?c" using len by simp
      show "user_address m (Some root) (va + word_of_nat j) False = Inr (pa + word_of_nat j)"
        using user_address_page [OF ua c(6) [OF j]] in_user_bounds [OF less.prems(2), of j] j c(5) by simp
    qed (use len unat_chunk [of va n] in simp)
    note sok = image_stored [OF less.prems(1) st]
    have rest: "\<forall>j<unat (n - chunk_bytes va n). user_rights ?m root (va + chunk_bytes va n + word_of_nat j) \<noteq> None"
    proof (intro allI impI)
      fix j assume "j < unat (n - chunk_bytes va n)"
      then have "?c + j < unat n" using c(3) by simp
      then show "user_rights ?m root (va + chunk_bytes va n + word_of_nat j) \<noteq> None"
        using less.prems(3) unfolding add_chunk user_rights_def sok(2) by blast
    qed
    have len': "unat (n - chunk_bytes va n) \<le> length (drop ?c src)" using less.prems(4) c(3) by simp
    obtain m' where m': "copy_segment root (va + chunk_bytes va n) (n - chunk_bytes va n) (drop ?c src) ?m = Some (Inr ((), m'))"
      "user_stored ?m root (va + chunk_bytes va n) (take (unat (n - chunk_bytes va n)) (drop ?c src)) m'"
      using less.hyps [OF chunk_progress [OF False] sok(1) c(1) rest len'] by blast
    have "copy_segment root va n src m = Some (Inr ((), m'))"
      using m'(1) False t(1,2) by (subst copy_segment.simps) (simp add: m_bind_def get_pte_found Let_def pa_def)
    moreover have w: "word_of_nat ?c = chunk_bytes va n" by simp
    have "user_stored m root va (take (unat n) src) m'"
    proof (rule user_stored_append [OF less.prems(2), of _ ?c])
      show "?c \<le> length (take (unat n) src)" using c(5) less.prems(4) by simp
      show "user_stored m root va (take ?c (take (unat n) src)) ?m" unfolding take_drop_chunk(1) [OF c(5)] by (rule st)
      show "user_stored ?m root (va + word_of_nat ?c) (drop ?c (take (unat n) src)) m'"
        using m'(2) unfolding take_drop_chunk(2) c(3) w .
    qed simp
    ultimately show ?thesis by blast
  qed
qed

section \<open>What loading means\<close>

text \<open>
  The bytes and rights a loaded segment gives to an address; where segments overlap, the later one
  determines the byte and rights add up.
\<close>

definition loaded :: "program_header \<Rightarrow> bool" where
  "loaded ph \<longleftrightarrow> p_type ph = ELF_PT_LOAD \<and> p_memsz ph \<noteq> 0"

definition segment_byte :: "bytes \<Rightarrow> program_header \<Rightarrow> u64 \<Rightarrow> u8 \<Rightarrow> u8" where
  "segment_byte bs ph a b =
     (if loaded ph \<and> unat (p_va ph) \<le> unat a \<and> unat a < unat (p_va ph) + unat (p_filesz ph)
      then bs ! (unat (p_offset ph) + (unat a - unat (p_va ph))) else b)"

definition in_segment_pages :: "program_header \<Rightarrow> u64 \<Rightarrow> bool" where
  "in_segment_pages ph a \<longleftrightarrow> loaded ph \<and> unat (p_va ph) div 4096 \<le> unat a div 4096 \<and>
     unat a div 4096 < (unat (p_va ph) + unat (p_memsz ph) + 4095) div 4096"

definition segment_rights :: "program_header \<Rightarrow> u64 \<Rightarrow> rights option \<Rightarrow> rights option" where
  "segment_rights ph a r = (if in_segment_pages ph a then Some (merge_rights (segment_perm ph) r) else r)"

definition program_byte :: "bytes \<Rightarrow> program_header list \<Rightarrow> u64 \<Rightarrow> u8 \<Rightarrow> u8" where
  "program_byte bs phs a b = fold (\<lambda>ph. segment_byte bs ph a) phs b"

definition program_rights :: "program_header list \<Rightarrow> u64 \<Rightarrow> rights option \<Rightarrow> rights option" where
  "program_rights phs a r = fold (\<lambda>ph. segment_rights ph a) phs r"

definition segment_fits :: "bytes \<Rightarrow> program_header \<Rightarrow> bool" where
  "segment_fits bs ph \<longleftrightarrow> (loaded ph \<longrightarrow> p_filesz ph \<le> p_memsz ph \<and> unat (p_offset ph) + unat (p_filesz ph) \<le> length bs \<and>
     4096 \<le> unat (p_va ph) \<and> unat (p_va ph) + unat (p_memsz ph) \<le> 2 ^ 47)"

definition loads :: "bytes \<Rightarrow> pt_machine \<Rightarrow> u64 \<Rightarrow> nat set \<Rightarrow> program_header list \<Rightarrow> (error \<times> pt_machine) exec \<Rightarrow> bool" where
  "loads bs m root F phs r \<longleftrightarrow>
     (\<exists>e m' F'. r = Some (Inr (e, m')) \<and> image_ok m' root F' \<and> F' \<subseteq> F \<and>
        (\<forall>a. kernel_half a \<longrightarrow> address_map m' root a = address_map m root a) \<and>
        (if e = Err_None then
           (\<forall>a. user_byte m' (Some root) a = program_byte bs phs a (user_byte m (Some root) a)) \<and>
           (\<forall>a. a < USER_SPACE_TOP \<longrightarrow> user_rights m' root a = program_rights phs a (user_rights m root a))
         else e = NoMem))"

lemma segment_stored:
  assumes fits: "segment_fits bs ph" "loaded ph"
    and st: "user_stored m root (p_va ph) (take (unat (p_filesz ph)) (drop (unat (p_offset ph)) bs)) m'"
  shows "user_byte m' (Some root) a = segment_byte bs ph a (user_byte m (Some root) a)"
proof -
  let ?va = "p_va ph" and ?n = "unat (p_filesz ph)" and ?off = "unat (p_offset ph)"
  have f: "?off + ?n \<le> length bs" "unat ?va + ?n \<le> 2 ^ 47"
    using fits by (auto simp: segment_fits_def word_le_nat_alt)
  then have len: "length (take ?n (drop ?off bs)) = ?n" by simp
  have at: "unat (?va + word_of_nat j) = unat ?va + j" if "j < ?n" for j
    using that f(2) by (simp add: unat_word_ariths unsigned_of_nat take_bit_eq_mod)
  show ?thesis
  proof (cases "unat ?va \<le> unat a \<and> unat a < unat ?va + ?n")
    case True
    define j where "j = unat a - unat ?va"
    have j: "j < ?n" "unat a = unat ?va + j" using True by (auto simp: j_def)
    then have "a = ?va + word_of_nat j" using at by (simp add: word_unat_eq_iff)
    then have "user_byte m' (Some root) a = take ?n (drop ?off bs) ! j"
      using st len j(1) unfolding user_stored_def by metis
    then show ?thesis using True j f(1) fits(2) by (simp add: segment_byte_def)
  next
    case False
    then have "\<forall>j<?n. a \<noteq> ?va + word_of_nat j" using at by auto
    then have "user_byte m' (Some root) a = user_byte m (Some root) a" using st unfolding user_stored_def len by blast
    then show ?thesis using False by (auto simp: segment_byte_def)
  qed
qed

lemma pages_mapped_loads:
  assumes "pages_mapped m root (segment_perm ph) (unat (p_va ph) div 4096) ((unat (p_va ph) + unat (p_memsz ph) + 4095) div 4096) m'"
    and "loaded ph"
  shows "a < USER_SPACE_TOP \<Longrightarrow> user_rights m' root a = segment_rights ph a (user_rights m root a)"
    and "user_byte m' (Some root) a = user_byte m (Some root) a" "kernel_half a \<Longrightarrow> address_map m' root a = address_map m root a"
  using assms unfolding pages_mapped_def segment_rights_def in_segment_pages_def by simp_all

lemma segment_perm_user: "segment_perm ph AND VM_USER \<noteq> 0"
  by (simp add: segment_perm_def)

lemma load_segment_loads:
  assumes ok: "image_ok m root F" and fits: "segment_fits bs ph"
  shows "loads bs m root F [ph] (load_segment bs root ph m)"
proof (cases "loaded ph")
  case False
  then have "load_segment bs root ph m = Some (Inr (Err_None, m))" by (auto simp: load_segment_def loaded_def m_ret_def)
  then show ?thesis using ok False
    by (auto simp: loads_def program_byte_def segment_byte_def program_rights_def segment_rights_def in_segment_pages_def)
next
  case ld: True
  let ?va = "p_va ph" and ?n = "p_filesz ph" and ?mem = "p_memsz ph" and ?perm = "segment_perm ph"
  let ?lo = "unat ?va div 4096" and ?hi = "(unat ?va + unat ?mem + 4095) div 4096"
  let ?first = "round_down ?va PG_SIZE" and ?last = "round_up (?va + ?mem) PG_SIZE"
  have f: "unat ?n \<le> unat ?mem" "unat (p_offset ph) + unat ?n \<le> length bs" "4096 \<le> unat ?va" "unat ?va + unat ?mem \<le> 2 ^ 47"
    using fits ld by (auto simp: segment_fits_def word_le_nat_alt)
  have "unat (?va + ?mem) = unat ?va + unat ?mem" using f(4) by (simp add: unat_word_ariths)
  then have last: "unat ?last = 4096 * ?hi" using f(4) unat_round_up [of "?va + ?mem"] by simp
  have "?hi \<le> (2 ^ 47 + 4095) div 4096" by (intro div_le_mono) (use f(4) in simp)
  then have b: "unat ?first = 4096 * ?lo" "unat ?last = 4096 * ?hi" "unat ?last \<le> 2 ^ 47" "?lo \<le> ?hi"
    using last unat_round_down [of ?va] div_le_mono [of "unat ?va" "unat ?va + unat ?mem + 4095" 4096] by simp_all
  have "maps_pages m root F ?perm ?lo ?hi (page_loop (map_segment_page root ?perm) ?first ?last m)"
    by (rule page_loop_maps [OF map_segment_page_maps b(2,3) ok b(1,4)]) (simp_all add: segment_perm_user)
  then obtain e m1 F1 k where p: "page_loop (map_segment_page root ?perm) ?first ?last m = Some (Inr (e, m1))"
      "image_ok m1 root F1" "F1 \<subseteq> F" "pages_mapped m root ?perm ?lo k m1" "if e = Err_None then k = ?hi else e = NoMem \<and> k < ?hi"
    unfolding maps_pages_def by blast
  have start: "load_segment bs root ph m = (if e \<noteq> Err_None then Some (Inr (e, m1))
      else if ?n > 0 then m_bind (copy_segment root ?va ?n (drop (unat (p_offset ph)) bs)) (\<lambda>_. m_ret Err_None) m1
      else Some (Inr (Err_None, m1)))"
    using ld p(1) by (simp add: load_segment_def loaded_def m_bind_def m_ret_def)
  have half: "kernel_half a \<Longrightarrow> address_map m1 root a = address_map m root a" for a using p(4) by (simp add: pages_mapped_def)
  show ?thesis
  proof (cases "e = Err_None")
    case False
    then have "load_segment bs root ph m = Some (Inr (NoMem, m1))" using start p(5) by simp
    then show ?thesis using p(2,3) half by (auto simp: loads_def)
  next
    case True
    then have "k = ?hi" using p(5) by simp
    note pm = pages_mapped_loads [OF p(4) [unfolded this] ld]
    have iu: "in_user ?va ?n" using f by (simp add: in_user_def)
    have mapped: "\<forall>j<unat ?n. user_rights m1 root (?va + word_of_nat j) \<noteq> None"
    proof (intro allI impI)
      fix j assume j: "j < unat ?n"
      then have u: "unat (?va + word_of_nat j) = unat ?va + j" "?va + word_of_nat j < USER_SPACE_TOP"
        using in_user_bounds [OF iu j] by simp_all
      have "?lo \<le> unat (?va + word_of_nat j) div 4096" unfolding u(1) by (intro div_le_mono) simp
      moreover have "(unat ?va + j) div 4096 < ?hi" using j f(1) by linarith
      ultimately have "in_segment_pages ph (?va + word_of_nat j)" using ld u(1) by (simp add: in_segment_pages_def)
      then show "user_rights m1 root (?va + word_of_nat j) \<noteq> None" using pm(1) [OF u(2)] by (simp add: segment_rights_def)
    qed
    have "unat ?n \<le> length (drop (unat (p_offset ph)) bs)" using f(2) by simp
    then obtain m2 where c: "copy_segment root ?va ?n (drop (unat (p_offset ph)) bs) m1 = Some (Inr ((), m2))"
        "user_stored m1 root ?va (take (unat ?n) (drop (unat (p_offset ph)) bs)) m2"
      using copy_segment_stores [OF p(2) iu mapped] by blast
    note sb = segment_stored [OF fits ld c(2)] and sok = image_stored [OF p(2) c(2)]
    have "load_segment bs root ph m = Some (Inr (Err_None, m2))"
    proof (cases "?n = 0")
      case zero: True
      then have "m2 = m1" using c(1) by (simp add: copy_segment.simps [of root ?va 0] m_ret_def)
      then show ?thesis using start True zero by simp
    next
      case False
      then have "?n > 0" by (simp add: word_neq_0_conv)
      then show ?thesis using start True c(1) by (simp add: m_bind_def m_ret_def)
    qed
    then show ?thesis using sok p(3) half pm sb
      by (auto simp: loads_def program_byte_def program_rights_def user_rights_def)
  qed
qed

lemma load_segments_loads:
  "image_ok m root F \<Longrightarrow> \<forall>ph \<in> set phs. segment_fits bs ph \<Longrightarrow> loads bs m root F phs (load_segments bs root phs m)"
proof (induction phs arbitrary: m F)
  case Nil
  then show ?case by (auto simp: loads_def m_ret_def program_byte_def program_rights_def)
next
  case (Cons ph phs)
  obtain e m1 F1 where l: "load_segment bs root ph m = Some (Inr (e, m1))" "image_ok m1 root F1" "F1 \<subseteq> F"
      "\<And>a. kernel_half a \<Longrightarrow> address_map m1 root a = address_map m root a" "e \<noteq> Err_None \<Longrightarrow> e = NoMem"
      "\<And>a. e = Err_None \<Longrightarrow> user_byte m1 (Some root) a = segment_byte bs ph a (user_byte m (Some root) a)"
      "\<And>a. e = Err_None \<Longrightarrow> a < USER_SPACE_TOP \<Longrightarrow> user_rights m1 root a = segment_rights ph a (user_rights m root a)"
    using load_segment_loads [OF Cons.prems(1), of bs ph] Cons.prems(2)
    by (auto simp: loads_def program_byte_def program_rights_def split: if_splits)
  show ?case
  proof (cases "e = Err_None")
    case False
    then have "load_segments bs root (ph # phs) m = Some (Inr (NoMem, m1))" using l(1,5) by (simp add: m_bind_def m_ret_def)
    then show ?thesis using l(2-4) by (auto simp: loads_def)
  next
    case True
    then have "load_segments bs root (ph # phs) m = load_segments bs root phs m1" using l(1) by (simp add: m_bind_def)
    moreover have "loads bs m1 root F1 phs (load_segments bs root phs m1)" using Cons.IH [OF l(2)] Cons.prems(2) by simp
    ultimately obtain e' m2 F2 where r: "load_segments bs root (ph # phs) m = Some (Inr (e', m2))" "image_ok m2 root F2" "F2 \<subseteq> F1"
        "\<And>a. kernel_half a \<Longrightarrow> address_map m2 root a = address_map m1 root a" "e' \<noteq> Err_None \<Longrightarrow> e' = NoMem"
        "\<And>a. e' = Err_None \<Longrightarrow> user_byte m2 (Some root) a = program_byte bs phs a (user_byte m1 (Some root) a)"
        "\<And>a. e' = Err_None \<Longrightarrow> a < USER_SPACE_TOP \<Longrightarrow> user_rights m2 root a = program_rights phs a (user_rights m1 root a)"
      unfolding loads_def by (auto split: if_splits)
    show ?thesis unfolding loads_def
    proof (intro exI conjI)
      show "load_segments bs root (ph # phs) m = Some (Inr (e', m2))" "image_ok m2 root F2" by (rule r)+
      show "F2 \<subseteq> F" using r(3) l(3) by blast
      show "\<forall>a. kernel_half a \<longrightarrow> address_map m2 root a = address_map m root a" using r(4) l(4) by simp
      show "if e' = Err_None then
           (\<forall>a. user_byte m2 (Some root) a = program_byte bs (ph # phs) a (user_byte m (Some root) a)) \<and>
           (\<forall>a. a < USER_SPACE_TOP \<longrightarrow> user_rights m2 root a = program_rights (ph # phs) a (user_rights m root a))
         else e' = NoMem"
        using r(5-7) l(6,7) [OF True] by (simp add: program_byte_def program_rights_def)
    qed
  qed
qed

section \<open>What the check guarantees\<close>

lemma validate_segmentD:
  assumes v: "validate_segment entry (word_of_nat (length bs)) ph = Inr x" and len: "length bs < 2 ^ 64"
  shows "segment_fits bs ph"
    and "x \<Longrightarrow> loaded ph \<and> p_flags ph AND ELF_PF_X \<noteq> 0 \<and> in_segment_pages ph entry"
    and "loaded ph \<Longrightarrow> unat (p_va ph) + unat (p_memsz ph) \<le> unat (USER_STACK_TOP - USER_STACK_SIZE) \<or> USER_STACK_TOP \<le> p_va ph"
proof -
  let ?size = "word_of_nat (length bs) :: u64" and ?va = "p_va ph" and ?mem = "p_memsz ph"
  have size: "unat ?size = length bs" using len by (simp add: unsigned_of_nat take_bit_nat_eq_self)
  have facts: "p_filesz ph \<le> ?mem" "p_offset ph \<le> ?size" "p_filesz ph \<le> ?size - p_offset ph" "PG_SIZE \<le> ?va" "?va < USER_SPACE_TOP"
    "?mem \<le> USER_SPACE_TOP - ?va" "?va + ?mem \<le> USER_STACK_TOP - USER_STACK_SIZE \<or> USER_STACK_TOP \<le> ?va"
    "x = (p_flags ph AND ELF_PF_X \<noteq> 0 \<and> ?va \<le> entry \<and> entry < ?va + ?mem)" if "loaded ph"
    using v that by (auto simp: validate_segment_def loaded_def Let_def ensure_def split: if_splits)
  have n: "unat (p_filesz ph) \<le> unat ?mem" "unat (p_offset ph) + unat (p_filesz ph) \<le> length bs" "4096 \<le> unat ?va"
    "unat ?va + unat ?mem \<le> 2 ^ 47" "unat (?va + ?mem) = unat ?va + unat ?mem" if ld: "loaded ph"
  proof -
    note f = facts [OF ld]
    show "unat (p_filesz ph) \<le> unat ?mem" "4096 \<le> unat ?va" using f(1,4) user_bounds by (simp_all add: word_le_nat_alt)
    show "unat (p_offset ph) + unat (p_filesz ph) \<le> length bs"
      using f(2,3) size unat_sub [OF f(2)] by (simp add: word_le_nat_alt)
    show top: "unat ?va + unat ?mem \<le> 2 ^ 47"
      using f(5,6) unat_sub [of ?va USER_SPACE_TOP] user_bounds by (simp add: word_le_nat_alt word_less_nat_alt)
    then show "unat (?va + ?mem) = unat ?va + unat ?mem" by (simp add: unat_word_ariths)
  qed
  show "segment_fits bs ph" using facts(1) n by (auto simp: segment_fits_def)
  show "loaded ph \<Longrightarrow> unat ?va + unat ?mem \<le> unat (USER_STACK_TOP - USER_STACK_SIZE) \<or> USER_STACK_TOP \<le> ?va"
    using facts(7) n(5) by (auto simp: word_le_nat_alt)
  have "loaded ph" if x using v that by (auto simp: validate_segment_def loaded_def ensure_def split: if_splits)
  moreover have "in_segment_pages ph entry" if "loaded ph" x
  proof -
    have "unat ?va \<le> unat entry" "unat entry < unat ?va + unat ?mem"
      using facts(8) [OF that(1)] that n(5) by (auto simp: word_le_nat_alt word_less_nat_alt)
    then have "unat ?va div 4096 \<le> unat entry div 4096" "unat entry div 4096 < (unat ?va + unat ?mem + 4095) div 4096"
      by linarith+
    then show ?thesis using that(1) by (simp add: in_segment_pages_def)
  qed
  ultimately show "x \<Longrightarrow> loaded ph \<and> p_flags ph AND ELF_PF_X \<noteq> 0 \<and> in_segment_pages ph entry" using facts(8) by blast
qed

lemma validate_segmentsD:
  "validate_segments entry fs phs b = Inr x \<Longrightarrow>
     (\<forall>ph \<in> set phs. \<exists>y. validate_segment entry fs ph = Inr y) \<and> (x \<longrightarrow> b \<or> (\<exists>ph \<in> set phs. validate_segment entry fs ph = Inr True))"
  by (induction phs arbitrary: b) (fastforce split: sum.splits)+

lemma validate_error: "validate_segments entry fs phs b = Inl e \<Longrightarrow> e = Invalid"
  by (induction phs arbitrary: b) (auto simp: validate_segment_def ensure_def Let_def split: sum.splits if_splits)

lemma elf_validateD:
  assumes "elf_validate bs = Err_None" and "length bs < 2 ^ 64"
  shows "e_phentsize (elf_header_at bs) = 56" "\<forall>ph \<in> set (header_table bs 56). segment_fits bs ph" "e_entry (elf_header_at bs) < USER_SPACE_TOP"
    "\<exists>ph \<in> set (header_table bs 56). p_flags ph AND ELF_PF_X \<noteq> 0 \<and> in_segment_pages ph (e_entry (elf_header_at bs))"
proof -
  let ?eh = "elf_header_at bs" and ?fs = "word_of_nat (length bs) :: u64"
  have v: "validate_segments (e_entry ?eh) ?fs (header_table bs 56) False = Inr True" "e_phentsize ?eh = 56" "e_entry ?eh < USER_SPACE_TOP"
    using assms(1) by (auto simp: elf_validate_def Let_def split: if_splits sum.splits dest: validate_error)
  show "e_phentsize ?eh = 56" "e_entry ?eh < USER_SPACE_TOP" by (rule v)+
  from validate_segmentsD [OF v(1)]
  show "\<forall>ph \<in> set (header_table bs 56). segment_fits bs ph"
    "\<exists>ph \<in> set (header_table bs 56). p_flags ph AND ELF_PF_X \<noteq> 0 \<and> in_segment_pages ph (e_entry ?eh)"
    using validate_segmentD(1,2) [OF _ assms(2), of "e_entry ?eh"] by blast+
qed

lemma elf_validate_error: "elf_validate bs = Err_None \<or> elf_validate bs = Invalid"
  by (auto simp: elf_validate_def Let_def split: sum.splits dest: validate_error)

text \<open>Rights only grow, so an executable segment stays executable.\<close>

lemma rights_executable:
  "(\<exists>ph \<in> set phs. p_flags ph AND ELF_PF_X \<noteq> 0 \<and> in_segment_pages ph a) \<or> (\<exists>r. old = Some r \<and> may_execute r \<and> may_use r) \<Longrightarrow>
     \<exists>r. program_rights phs a old = Some r \<and> may_execute r \<and> may_use r"
proof (induction phs arbitrary: old)
  case (Cons ph phs)
  have step: "\<exists>r. segment_rights ph a old = Some r \<and> may_execute r \<and> may_use r"
    if "p_flags ph AND ELF_PF_X \<noteq> 0 \<and> in_segment_pages ph a \<or> (\<exists>r. old = Some r \<and> may_execute r \<and> may_use r)"
    using that by (auto simp: segment_rights_def merge_rights_def segment_perm_def perm_rights_user split: option.split)
  then show ?case using Cons.IH [of "segment_rights ph a old"] Cons.prems by (fastforce simp: program_rights_def)
qed (simp add: program_rights_def)

section \<open>The user stack\<close>

lemma user_rw: "VM_USER_RW AND VM_USER \<noteq> 0"
  by (simp add: VM_USER_RW_def VM_PRESENT_def VM_WRITE_def VM_USER_def VM_NOEXEC_def)

lemma setup_user_stack_maps:
  assumes "image_ok m root F"
  shows "\<exists>r m' F'. setup_user_stack (Some root) m = Some (Inr (r, m')) \<and> image_ok m' root F' \<and> F' \<subseteq> F \<and>
    (case r of Inl e \<Rightarrow> e = NoMem
     | Inr sp \<Rightarrow> sp = USER_STACK_TOP \<and> pages_mapped m root VM_USER_RW 0x7FFFFFFFA 0x7FFFFFFFE m')"
proof -
  let ?loop = "page_loop (map_fresh_page root VM_USER_RW) (USER_STACK_TOP - USER_STACK_SIZE) USER_STACK_TOP m"
  have "maps_pages m root F VM_USER_RW 0x7FFFFFFFA 0x7FFFFFFFE ?loop"
    by (rule page_loop_maps [OF map_fresh_maps _ _ assms]) (simp_all add: user_rw USER_STACK_TOP_def USER_STACK_SIZE_def PG_SIZE_def)
  then obtain e m' F' k where p: "?loop = Some (Inr (e, m'))" "image_ok m' root F'" "F' \<subseteq> F"
      "pages_mapped m root VM_USER_RW 0x7FFFFFFFA k m'" "if e = Err_None then k = 0x7FFFFFFFE else e = NoMem \<and> k < 0x7FFFFFFFE"
    unfolding maps_pages_def by blast
  then have "setup_user_stack (Some root) m = Some (Inr (if e \<noteq> Err_None then Inl e else Inr USER_STACK_TOP, m'))"
    by (simp add: setup_user_stack_def m_bind_def m_ret_def)
  then show ?thesis using p(2-5) by (intro exI [of _ "if e \<noteq> Err_None then Inl e else Inr USER_STACK_TOP"]) (auto split: if_splits)
qed

section \<open>Property\<close>

text \<open>C11.
  Loading an ELF file into an address space always returns, without a failed assertion. A file that
  fails the check changes nothing; otherwise loading fails only for lack of memory. On success the
  entry point is returned and lies in an executable user page, every user address reads the byte
  its segments in the file give it, zero where the segments have no bytes in the file and what it
  was elsewhere, and has the rights of its segments added to those it had. In every case the
  mappings of the kernel half are untouched, pages are only taken from the free ones, and the
  address space stays well formed: its user pages are mapped once, apart from tables and free pages.
\<close>

theorem elf_load_image:
  assumes "image_ok m root F" and "length bs < 2 ^ 64"
  shows "\<exists>r m' F'. elf_load (Some bs) (Some root) m = Some (Inr (r, m')) \<and> image_ok m' root F' \<and> F' \<subseteq> F \<and>
    (\<forall>a. kernel_half a \<longrightarrow> address_map m' root a = address_map m root a) \<and>
    (case r of
       Inl e \<Rightarrow> if elf_validate bs = Err_None then e = NoMem else e = Invalid \<and> m' = m
     | Inr entry \<Rightarrow> elf_validate bs = Err_None \<and> entry = e_entry (elf_header_at bs) \<and>
         (\<exists>rt. user_rights m' root entry = Some rt \<and> may_execute rt \<and> may_use rt) \<and>
         (\<forall>a. user_byte m' (Some root) a = program_byte bs (header_table bs 56) a (user_byte m (Some root) a)) \<and>
         (\<forall>a. a < USER_SPACE_TOP \<longrightarrow> user_rights m' root a = program_rights (header_table bs 56) a (user_rights m root a)))"
proof (cases "elf_validate bs = Err_None")
  case False
  then have "elf_load (Some bs) (Some root) m = Some (Inr (Inl Invalid, m))"
    using elf_validate_error [of bs] by (auto simp: elf_load_def Let_def m_ret_def)
  then show ?thesis using assms(1) False by (intro exI [of _ "Inl Invalid"]) auto
next
  case True
  note v = elf_validateD [OF True assms(2)]
  let ?phs = "header_table bs 56" and ?entry = "e_entry (elf_header_at bs)"
  obtain e m' F' where l: "load_segments bs root ?phs m = Some (Inr (e, m'))" "image_ok m' root F'" "F' \<subseteq> F"
      "\<forall>a. kernel_half a \<longrightarrow> address_map m' root a = address_map m root a"
      "if e = Err_None then (\<forall>a. user_byte m' (Some root) a = program_byte bs ?phs a (user_byte m (Some root) a)) \<and>
           (\<forall>a. a < USER_SPACE_TOP \<longrightarrow> user_rights m' root a = program_rights ?phs a (user_rights m root a)) else e = NoMem"
    using load_segments_loads [OF assms(1) v(2)] unfolding loads_def by blast
  have "elf_load (Some bs) (Some root) m = Some (Inr (if e \<noteq> Err_None then Inl e else Inr ?entry, m'))"
    using True l(1) v(1) by (simp add: elf_load_def Let_def m_bind_def m_ret_def)
  moreover have "\<exists>rt. program_rights ?phs ?entry (user_rights m root ?entry) = Some rt \<and> may_execute rt \<and> may_use rt"
    using rights_executable v(4) by blast
  ultimately show ?thesis using l(2-5) True v(3)
    by (intro exI [of _ "if e \<noteq> Err_None then Inl e else Inr ?entry"] exI [of _ m'] exI [of _ F']) (auto split: if_splits)
qed

text \<open>A file with one executable segment of three bytes at \<open>0x400078\<close>, loaded into an empty address space.\<close>

definition demo_elf :: bytes where
  "demo_elf = [0x7F, 0x45, 0x4C, 0x46, 2, 1, 1, 0, 0, 0, 0, 0, 0, 0, 0, 0, 2, 0, 0x3E, 0, 1, 0, 0, 0,
     0x78, 0, 0x40, 0, 0, 0, 0, 0, 64, 0, 0, 0, 0, 0, 0, 0, 0, 0, 0, 0, 0, 0, 0, 0, 0, 0, 0, 0, 64, 0, 56, 0, 1, 0, 0, 0, 0, 0, 0, 0,
     1, 0, 0, 0, 5, 0, 0, 0, 0x78, 0, 0, 0, 0, 0, 0, 0, 0x78, 0, 0x40, 0, 0, 0, 0, 0, 0x78, 0, 0x40, 0, 0, 0, 0, 0,
     3, 0, 0, 0, 0, 0, 0, 0, 8, 0, 0, 0, 0, 0, 0, 0, 0, 0x10, 0, 0, 0, 0, 0, 0, 0x31, 0xC0, 0xC3]"

lemma demo_image_ok: "image_ok demo_machine (page_to_phys 1) {3..<13}"
proof -
  have e: "\<not> pte_present 0" "\<not> is_table_entry 0" by (simp_all add: is_table_entry_def pte_present_def)
  have am: "address_map demo_machine (page_to_phys 1) a = None" for a
    using translate.simps(2) [of "\<lambda>_ _. 0" a 0 3 "page_to_phys 1"] e by (simp add: address_map_def demo_machine_def Let_def)
  have "path_rights (\<lambda>_ _. 0) a 0 3 t = all_rights" for a t
    using path_rights.simps(2) [of "\<lambda>_ _. 0" a 0 2 t] e by (simp add: Let_def numeral_3_eq_3)
  then have "open_path demo_machine (page_to_phys 1)" by (simp add: open_path_def demo_machine_def)
  moreover have "user_apart demo_machine (page_to_phys 1)" using am by (auto simp: user_apart_def user_address_map)
  moreover have "user_frames demo_machine (page_to_phys 1) {3..<13}" using am by (simp add: user_frames_def)
  ultimately show ?thesis using demo_machine_ok demo_area_free(2) by (simp add: image_ok_def demo_machine_def)
qed

lemma demo_elf_header:
  "e_entry (elf_header_at demo_elf) = 0x400078" "e_phoff (elf_header_at demo_elf) = 64" "e_phnum (elf_header_at demo_elf) = 1"
  "header_executable (elf_header_at demo_elf)" "header_valid (elf_header_at demo_elf)"
  "e_ehsize (elf_header_at demo_elf) = 64" "e_phentsize (elf_header_at demo_elf) = 56"
  by (simp_all add: elf_header_at_def demo_elf_def le64_def le32_def le16_def header_executable_def header_valid_def ELF_MAGIC_def EM_CURRENT_def)

lemma demo_elf_table:
  "header_table demo_elf 56 = [\<lparr>p_type = 1, p_flags = 5, p_offset = 0x78, p_va = 0x400078, p_pa = 0x400078, p_filesz = 3, p_memsz = 8, p_align = 0x1000\<rparr>]"
proof -
  have "program_header_at demo_elf 64 =
      \<lparr>p_type = 1, p_flags = 5, p_offset = 0x78, p_va = 0x400078, p_pa = 0x400078, p_filesz = 3, p_memsz = 8, p_align = 0x1000\<rparr>"
    by (simp add: program_header_at_def demo_elf_def le64_def le32_def)
  then show ?thesis by (simp add: header_table_def demo_elf_header Let_def)
qed

lemma demo_elf_valid: "elf_validate demo_elf = Err_None"
proof -
  have "length demo_elf = 123" by (simp add: demo_elf_def)
  then show ?thesis
    by (simp add: elf_validate_def demo_elf_header demo_elf_table Let_def validate_segment_def ELF_PT_LOAD_def ELF_PF_X_def
        USER_SPACE_TOP_def USER_STACK_TOP_def USER_STACK_SIZE_def PG_SIZE_def)
qed

theorem elf_load_image_witness:
  "\<exists>r m'. elf_load (Some demo_elf) (Some (page_to_phys 1)) demo_machine = Some (Inr (r, m')) \<and>
     (r = Inl NoMem \<or> r = Inr 0x400078 \<and> user_byte m' (Some (page_to_phys 1)) 0x400079 = 0xC0)"
proof -
  let ?root = "page_to_phys 1"
  have "length demo_elf < 2 ^ 64" by (simp add: demo_elf_def)
  from elf_load_image [OF demo_image_ok this] obtain r m' F' where
    l: "elf_load (Some demo_elf) (Some ?root) demo_machine = Some (Inr (r, m'))" and
    c: "case r of
       Inl e \<Rightarrow> if elf_validate demo_elf = Err_None then e = NoMem else e = Invalid \<and> m' = demo_machine
     | Inr entry \<Rightarrow> elf_validate demo_elf = Err_None \<and> entry = e_entry (elf_header_at demo_elf) \<and>
         (\<exists>rt. user_rights m' ?root entry = Some rt \<and> may_execute rt \<and> may_use rt) \<and>
         (\<forall>a. user_byte m' (Some ?root) a = program_byte demo_elf (header_table demo_elf 56) a (user_byte demo_machine (Some ?root) a)) \<and>
         (\<forall>a. a < USER_SPACE_TOP \<longrightarrow> user_rights m' ?root a = program_rights (header_table demo_elf 56) a (user_rights demo_machine ?root a))"
    by blast
  have b: "program_byte demo_elf (header_table demo_elf 56) 0x400079 x = 0xC0" for x
    by (simp add: program_byte_def demo_elf_table segment_byte_def loaded_def ELF_PT_LOAD_def) (simp add: demo_elf_def)
  show ?thesis
  proof (cases r)
    case (Inl e)
    then show ?thesis using l c demo_elf_valid by simp
  next
    case (Inr entry)
    then have "entry = 0x400078" "user_byte m' (Some ?root) 0x400079 = 0xC0" using c b demo_elf_header(1) by simp_all
    then show ?thesis using l Inr by blast
  qed
qed

end
