(* ===== verification/Spec2Isabelle.thy ===== *)
theory Spec2Isabelle
  imports Memory_Map Process Sync Fat_Properties Swap_Slots File_Systems Vmm Fd_Table Syscall_File Page_Swap Elf_Loader
begin

text \<open>
  Verification of the kernel core of Zonix, a teaching operating system in C++
  (repository leafvmaple/zonix-plus), for its x86-64 port. Paths below are relative to \<^verbatim>\<open>src/\<close>.

  \<^bold>\<open>How the code is modelled.\<close> A class or struct is a record, an enum a datatype, a method a function from
  the state to its result and the new state. Machine integers are words of their width where a
  wrap-around can matter, or integers with the wrap-around written out (pids). A call that can fail an assertion returns in \<^verbatim>\<open>exec\<close>: \<open>Some (Inl f)\<close> is a
  failed assertion or panic, \<open>Some (Inr r)\<close> a return, \<open>None\<close> a loop that does not end. Error codes are
  the datatype \<^verbatim>\<open>error\<close> of \<^verbatim>\<open>kernel/lib/result.h\<close>, and \<^verbatim>\<open>TRY\<close> and \<^verbatim>\<open>ENSURE\<close> are combinators
  (\<open>op_try\<close>, \<open>k_try\<close>, \<open>ensure\<close>). Code run under \<^verbatim>\<open>intr::Guard\<close> cannot be interrupted on the single
  processor the kernel uses, so it is one step; where it gives up the guard (wait queues, mounts, locks)
  the model has one step per section and a step relation over all interleavings. Log and console
  messages are left out.

  \<^bold>\<open>The parts and their theories.\<close>
  \<^item> Shared: \<^verbatim>\<open>Kernel_Prelude\<close> (integer types, word and list lemmas), \<^verbatim>\<open>Kernel_Result\<close> (error codes and the
    \<^verbatim>\<open>Result<T>\<close> storage of \<^verbatim>\<open>kernel/lib/result.h\<close>; \<^verbatim>\<open>TRY\<close> is the monadic bind),
    \<^verbatim>\<open>Byte_Codec\<close> (little-endian fields, C strings, the call combinators), \<^verbatim>\<open>Intrusive_List\<close>
    (\<^verbatim>\<open>kernel/lib/list.h\<close> on explicit next and prev pointers, refined to lists).
  \<^item> Physical memory: \<^verbatim>\<open>Page_Allocator\<close> (\<^verbatim>\<open>kernel/mm/pmm_firstfit.cpp\<close>, \<^verbatim>\<open>kmalloc\<close> and \<^verbatim>\<open>kfree\<close> of
    \<^verbatim>\<open>kernel/mm/pmm.cpp\<close>) refines the free list to sorted runs of pages; the locale \<open>page_supply\<close> is its
    contract for clients. \<^verbatim>\<open>Memory_Map\<close> is the start-up from the boot memory map (\<^verbatim>\<open>page_init\<close>).
  \<^item> Address spaces: \<^verbatim>\<open>Page_Table\<close> has the four-level tables of \<^verbatim>\<open>kernel/mm/pmm.cpp\<close> with the entry format of
    \<^verbatim>\<open>arch/x86/include/asm/page.h\<close>; \<^verbatim>\<open>Page_Table_Map\<close> relates them to the address map the processor
    computes and shows that the tables stay a tree. \<^verbatim>\<open>Vmm\<close> is the user memory access of
    \<^verbatim>\<open>kernel/mm/vmm.cpp\<close>, with the contract \<open>user_memory\<close> that the system calls rely on. \<^verbatim>\<open>Elf_Loader\<close> is
    \<^verbatim>\<open>kernel/exec/elf_loader.cpp\<close> and the user stack of \<^verbatim>\<open>kernel/exec/exec.cpp\<close>.
  \<^item> Swap: \<^verbatim>\<open>Swap_Slots\<close> (slot bitmap of \<^verbatim>\<open>kernel/mm/swap.cpp\<close>) and \<^verbatim>\<open>Page_Swap\<close> (swapping out and in, the
    FIFO of \<^verbatim>\<open>kernel/mm/swap_fifo.cpp\<close>, \<^verbatim>\<open>pg_fault\<close>).
  \<^item> Tasks: \<^verbatim>\<open>Sched\<close> (\<^verbatim>\<open>kernel/sched/sched.cpp\<close>, \<^verbatim>\<open>sched_priority_rr.cpp\<close>, task states), \<^verbatim>\<open>Process\<close>
    (\<^verbatim>\<open>task_table.cpp\<close>, \<^verbatim>\<open>process.cpp\<close>: fork, exit, wait), \<^verbatim>\<open>Sync\<close> (\<^verbatim>\<open>kernel/sync/*\<close>: wait queues, mutexes,
    semaphores, spin locks as step relations).
  \<^item> Storage: \<^verbatim>\<open>Block_Layer\<close> (\<^verbatim>\<open>kernel/block\<close>; the record \<open>block_ops\<close> is the virtual interface of a device and
    the locale \<open>block_store\<close> its contract, interpreted on a disk image), \<^verbatim>\<open>Partition_Table\<close> (MBR and
    GPT), \<^verbatim>\<open>Fat_Format\<close>, \<^verbatim>\<open>Fat_Core\<close>, \<^verbatim>\<open>Fat_Dir\<close> (the definitions for \<^verbatim>\<open>include/base/bpb.h\<close>,
    \<^verbatim>\<open>kernel/fs/fat/fat_core.cpp\<close>, \<^verbatim>\<open>fat_dir.cpp\<close>), and their correctness in \<^verbatim>\<open>Fat_Table\<close> (the allocation
    table behind its sector buffer is a map), \<^verbatim>\<open>Fat_Chain\<close> (cluster chains), \<^verbatim>\<open>Fat_Alloc\<close> (taking and freeing
    clusters), \<^verbatim>\<open>Fat_Entries\<close> and \<^verbatim>\<open>Fat_Create\<close> (directories), \<^verbatim>\<open>Fat_Files\<close> (file contents), collected in
    \<^verbatim>\<open>Fat_Properties\<close>.
  \<^item> Files: \<^verbatim>\<open>Vfs\<close> (\<^verbatim>\<open>kernel/fs/vfs.cpp\<close>: mounts with user counts, path resolution, operations over a class
    of file systems with the contract \<open>fs_contract\<close>), \<^verbatim>\<open>Console\<close> (\<^verbatim>\<open>kernel/cons/cons.cpp\<close>,
    \<^verbatim>\<open>cons_vfs.cpp\<close>), \<^verbatim>\<open>File_Systems\<close> (FAT and devfs as such classes, \<^verbatim>\<open>rootfs.cpp\<close>), \<^verbatim>\<open>Fd_Table\<close>
    (\<^verbatim>\<open>kernel/fs/fd.cpp\<close>), \<^verbatim>\<open>Syscall_File\<close> (\<^verbatim>\<open>kernel/syscall/file.cpp\<close>, \<^verbatim>\<open>dispatch.cpp\<close>).

  \<^bold>\<open>How they interact.\<close> A system call copies its path or buffer with \<^verbatim>\<open>Vmm\<close> through the page tables, finds the
  file in the descriptor table and calls the file system through the mount table; the FAT file system
  reads and writes a block device; swapping uses a block device, the page tables and the page allocator;
  loading a program maps pages from the allocator into a new address space.

  \<^bold>\<open>What is shown.\<close> Numbered properties (C1 to C40) are stated with a description next to each. In
  groups: memory handed out is disjoint from memory that is free, and comes back on release (also for
  the heap, the boot map, swap slots and tables); mapping a page changes the address map at that page
  only; copies to user memory, swapped pages, file contents and directory entries are read back as
  written; a loaded program sees exactly its segments; cluster chains are walked and freed exactly, and
  cycles are detected; every runnable task of the best priority runs once in a round, and a time slice ends on time; mutexes exclude,
  and neither mutexes nor semaphores lose a wake-up; processes are published, reaped and handed over
  consistently; a mount in use is not unmounted, every open file belongs to one descriptor and is counted at
  its mount; failed registrations and failed swap-outs change nothing. Some properties pin down where
  the code departs from its intent (overflow in \<^verbatim>\<open>kmalloc\<close>, long file names); these and other departures
  are listed as findings of the manifest.

  \<^bold>\<open>Contracts.\<close> Every locale is interpreted on the definitions of the model: \<open>page_supply\<close> on the
  first-fit allocator, \<open>fifo_queue\<close> on wait queues, \<open>block_store\<close> on a disk image, \<open>fs_contract\<close> on the file systems of the kernel,
  \<open>user_memory\<close> on page tables. Theorems about FAT volumes and swapping take a device that satisfies
  \<open>block_store\<close> as a hypothesis; their witnesses use the disk image.

  \<^bold>\<open>Bounds and termination.\<close> There is no fuel. Loops that end by their counter are recursive functions;
  loops whose end depends on the data (free list, process list, cluster chains with cycle detection, the
  loader's page loop) are \<^verbatim>\<open>partial_function (option)\<close>, and the theorems that say they return prove
  \<open>Some\<close>. Page numbers are below $2^{32}$, as the page counter of the code is 32 bits wide. The counter of a
  semaphore is a 32-bit word and its theorem says when it can overflow; the next pid wraps, and its
  theorem excludes the largest pid from the claim that the table stays well formed. Mount users, which
  the code counts in \<^verbatim>\<open>size_t\<close>, are naturals, and the number of processes, priorities, time slices and
  exit codes are integers: they are bounded by the number of objects or only copied and compared.

  \<^bold>\<open>Where the model is coarser than the code.\<close> A transfer to the swap device is one step with the operation
  that starts it. A null pointer that the code would dereference without a check is a failed assertion,
  except for a FAT volume without a device, whose calls have no value. The checks of internal helpers for
  null arguments that no caller passes are left out. A file read or write takes its scratch buffer from the
  heap before its arguments are checked, so a failing call may use up an allocation more than in the code.

  \<^bold>\<open>Not modelled.\<close> Boot loaders and firmware calls, assembly (entry, context switch, trap vectors), trap
  frames, kernel stacks and FPU state; the AArch64 and RISC-V ports; device drivers (storage
  controllers, PCI, virtio, timers, interrupt controllers, keyboards, displays), which program hardware
  registers whose behaviour is not in the sources; formatted output, the log, the shell and its
  commands; the order of initialisation and the idle and init threads; mapping of device memory, which
  only drivers use; \<^verbatim>\<open>create_user_pgdir\<close>, \<^verbatim>\<open>UserImage\<close> and \<^verbatim>\<open>exec\<close>, which compose modelled operations with
  trap frames. The library \<^verbatim>\<open>external/zstl\<close> (smart pointers, vectors) is not part of the sources; ownership
  is modelled by returning what a destructor would release.
\<close>

end
